(* ===== verification/Prelude.thy ===== *)
theory Prelude
  imports Main "HOL-Library.Word" "HOL-Library.Sublist"
begin

text \<open>
  Shared vocabulary of the development: the machine types of the C sources, the fact
  collections the component theories extend, and the generic facts on lists, suffixes and
  association lists that more than one component uses.
\<close>

section \<open>Machine types\<close>

type_synonym u8 = "8 word"
type_synonym u16 = "16 word"
type_synonym u32 = "32 word"
type_synonym u64 = "64 word"

text \<open>A buffer with its length (\<open>const uint8_t *p, size_t len\<close>) is the list of its bytes.\<close>

type_synonym bytes = "u8 list"

section \<open>Longest suffix in a set of words\<close>

text \<open>
  \<open>lsuf S w\<close> is the longest suffix of \<open>w\<close> that belongs to \<open>S\<close> (and \<open>[]\<close> if there is
  none). It is the reference notion behind failure links.
\<close>

fun lsuf :: "'a list set \<Rightarrow> 'a list \<Rightarrow> 'a list" where
  "lsuf S [] = []"
| "lsuf S (x # xs) = (if x # xs \<in> S then x # xs else lsuf S xs)"

definition prefix_closed :: "'a list set \<Rightarrow> bool" where
  "prefix_closed S \<longleftrightarrow> (\<forall>w c. w @ [c] \<in> S \<longrightarrow> w \<in> S)"

section \<open>Fact collections\<close>

named_theorems sg_simps "equations a component exports to its clients"
named_theorems sg_bounds "index bounds a component exports to its clients"

section \<open>Suffixes\<close>

lemma lsuf_suffix: "suffix (lsuf S w) w"
  by (induction w) (auto simp: suffix_Cons)

lemma lsuf_in: "[] \<in> S \<Longrightarrow> lsuf S w \<in> S"
  by (induction w) auto

lemma lsuf_id [simp]: "w \<in> S \<Longrightarrow> lsuf S w = w"
  by (cases w) auto

lemma lsuf_max: "suffix v w \<Longrightarrow> v \<in> S \<Longrightarrow> suffix v (lsuf S w)"
  by (induction w) (auto simp: suffix_Cons)

lemma lsuf_length: "length (lsuf S w) \<le> length w"
  using lsuf_suffix suffix_length_le by blast

lemma lsuf_unique:
  assumes "suffix v w" "v \<in> S" "\<And>u. suffix u w \<Longrightarrow> u \<in> S \<Longrightarrow> length u \<le> length v"
  shows "lsuf S w = v"
proof -
  have "suffix v (lsuf S w)" using assms(1,2) by (rule lsuf_max)
  moreover have "length (lsuf S w) \<le> length v"
  proof (cases "lsuf S w = []")
    case False
    then have "lsuf S w \<in> S" by (induction w) (auto split: if_splits)
    then show ?thesis using assms(3) lsuf_suffix by blast
  qed simp
  ultimately show ?thesis
    by (metis suffix_length_le le_antisym suffix_def append_eq_append_conv append_Nil)
qed

text \<open>The step of the automaton: a prefix-closed set lets the suffix be extended on the right.\<close>

lemma lsuf_snoc:
  assumes "prefix_closed S"
  shows "lsuf S (w @ [c]) = lsuf S (lsuf S w @ [c])"
proof (induction w)
  case (Cons x xs)
  show ?case
  proof (cases "x # xs \<in> S")
    case False
    then have "(x # xs) @ [c] \<notin> S" using assms unfolding prefix_closed_def by blast
    then show ?thesis using Cons False by simp
  qed simp
qed simp

lemma lsuf_fail_step:
  assumes "prefix_closed S" "(x # xs) @ [c] \<notin> S"
  shows "lsuf S ((x # xs) @ [c]) = lsuf S (lsuf S xs @ [c])"
  using assms lsuf_snoc [of S xs c] by simp

section \<open>Slices of a concatenation\<close>

text \<open>The offset at which the \<open>u\<close>-th list starts in the concatenation.\<close>

definition seg_start :: "'a list list \<Rightarrow> nat \<Rightarrow> nat" where
  "seg_start xss u = sum_list (map length (take u xss))"

lemma drop_seg_start: "drop (seg_start xss u) (concat xss) = concat (drop u xss)"
proof -
  have "concat xss = concat (take u xss) @ concat (drop u xss)"
    by (metis append_take_drop_id concat_append)
  moreover have "length (concat (take u xss)) = seg_start xss u"
    by (simp add: seg_start_def length_concat)
  ultimately show ?thesis by simp
qed

lemma nth_seg_start:
  assumes "u < length xss" "i < length (xss ! u)"
  shows "drop (seg_start xss u) (concat xss) ! i = xss ! u ! i"
proof -
  have "drop u xss = xss ! u # drop (Suc u) xss"
    using assms(1) by (simp add: Cons_nth_drop_Suc)
  then show ?thesis using assms(2) by (simp add: drop_seg_start nth_append)
qed

end
