(* ===== verification/C_String.thy ===== *)
theory C_String
  imports Prelude
begin

text \<open>
  The part of the C library the parsers of the daemons use, on strings as character lists (the
  terminating NUL is the end of the list): character classes, \<open>strcasecmp\<close>, \<open>strtol\<close> and \<open>strtoul\<close> with
  their saturation, \<open>atoi\<close>, the \<open>%Ns\<close>, \<open>%d\<close> and \<open>%u\<close> conversions of \<open>sscanf\<close>, \<open>strchr\<close>, \<open>strrchr\<close>,
  \<open>strstr\<close>, and \<open>fgets\<close> on the content of a file.
\<close>

section \<open>Characters\<close>

definition code :: "char \<Rightarrow> nat" where
  "code c = of_char c"

definition is_digit :: "char \<Rightarrow> bool" where
  "is_digit c \<longleftrightarrow> 48 \<le> code c \<and> code c \<le> 57"

definition is_upper :: "char \<Rightarrow> bool" where
  "is_upper c \<longleftrightarrow> 65 \<le> code c \<and> code c \<le> 90"

definition is_lower :: "char \<Rightarrow> bool" where
  "is_lower c \<longleftrightarrow> 97 \<le> code c \<and> code c \<le> 122"

definition is_alnum :: "char \<Rightarrow> bool" where
  "is_alnum c \<longleftrightarrow> is_digit c \<or> is_upper c \<or> is_lower c"

definition is_space :: "char \<Rightarrow> bool" where
  "is_space c \<longleftrightarrow> code c = 32 \<or> 9 \<le> code c \<and> code c \<le> 13"

definition is_blank :: "char \<Rightarrow> bool" where
  "is_blank c \<longleftrightarrow> code c = 32 \<or> code c = 9"

definition to_lower :: "char \<Rightarrow> char" where
  "to_lower c = (if is_upper c then char_of (code c + 32) else c)"

definition strcaseeq :: "string \<Rightarrow> string \<Rightarrow> bool" where
  "strcaseeq a b \<longleftrightarrow> map to_lower a = map to_lower b"

definition char_byte :: "char \<Rightarrow> u8" where
  "char_byte c = of_nat (code c)"

text \<open>Searching.\<close>

definition strchr :: "string \<Rightarrow> char \<Rightarrow> nat option" where
  "strchr s c = (if c \<in> set s then Some (length (takeWhile (\<lambda>x. x \<noteq> c) s)) else None)"

definition strrchr :: "string \<Rightarrow> char \<Rightarrow> nat option" where
  "strrchr s c = map_option (\<lambda>i. length s - 1 - i) (strchr (rev s) c)"

fun strstr :: "string \<Rightarrow> string \<Rightarrow> string option" where
  "strstr [] needle = (if needle = [] then Some [] else None)"
| "strstr (c # s) needle = (if take (length needle) (c # s) = needle then Some (c # s) else strstr s needle)"

section \<open>Numbers\<close>

text \<open>The value of a digit character; 99 is no digit.\<close>

definition digit_val :: "char \<Rightarrow> nat" where
  "digit_val c =
     (if is_digit c then code c - 48
      else if is_lower c then code c - 97 + 10
      else if is_upper c then code c - 65 + 10
      else 99)"

definition digits_value :: "nat \<Rightarrow> string \<Rightarrow> nat" where
  "digits_value base ds = foldl (\<lambda>v c. v * base + digit_val c) 0 ds"

text \<open>The sign and the base prefix.\<close>

definition take_sign :: "string \<Rightarrow> bool \<times> string" where
  "take_sign s =
     (case s of
        [] \<Rightarrow> (False, [])
      | c # r \<Rightarrow> if c = CHR ''-'' then (True, r) else if c = CHR ''+'' then (False, r) else (False, s))"

definition take_base :: "nat \<Rightarrow> string \<Rightarrow> nat \<times> string" where
  "take_base base s =
     (if base \<noteq> 0 then (base, s)
      else if length s \<ge> 3 \<and> s ! 0 = CHR ''0'' \<and> to_lower (s ! 1) = CHR ''x'' \<and> digit_val (s ! 2) < 16
      then (16, drop 2 s)
      else if s \<noteq> [] \<and> hd s = CHR ''0'' then (8, s) else (10, s))"

text \<open>
  The scan \<open>strtol\<close> and \<open>strtoul\<close> share: sign, magnitude and the rest of the string, or \<open>None\<close> if there
  is no number.
\<close>

definition scan_number :: "nat \<Rightarrow> string \<Rightarrow> (bool \<times> nat \<times> string) option" where
  "scan_number base s0 =
     (let (neg, s1) = take_sign (dropWhile is_space s0);
          (b, s2) = take_base base s1;
          ds = takeWhile (\<lambda>c. digit_val c < b) s2
      in if ds = [] then None else Some (neg, digits_value b ds, dropWhile (\<lambda>c. digit_val c < b) s2))"

definition strtol :: "nat \<Rightarrow> string \<Rightarrow> (int \<times> string) option" where
  "strtol base s =
     map_option (\<lambda>(neg, n, rest).
       (if neg then max (- (2 ^ 63)) (- int n) else min (2 ^ 63 - 1) (int n), rest)) (scan_number base s)"

text \<open>The value alone, 0 without a number; \<open>(int32_t)\<close> and \<open>(uint32_t)\<close> casts; \<open>atoi\<close>.\<close>

definition strtol_value :: "nat \<Rightarrow> string \<Rightarrow> int" where
  "strtol_value base s = (case strtol base s of None \<Rightarrow> 0 | Some (v, _) \<Rightarrow> v)"

definition strtoul_u32 :: "nat \<Rightarrow> string \<Rightarrow> u32" where
  "strtoul_u32 base s =
     (case scan_number base s of
        None \<Rightarrow> 0
      | Some (neg, n, _) \<Rightarrow>
          if n > 2 ^ 64 - 1 then of_nat (2 ^ 64 - 1) else if neg then - of_nat n else of_nat n)"

definition cast_i32 :: "int \<Rightarrow> int" where
  "cast_i32 v = signed_take_bit 31 v"

definition atoi :: "string \<Rightarrow> int" where
  "atoi s = cast_i32 (strtol_value 10 s)"

section \<open>Formatted input\<close>

text \<open>\<open>%Ns\<close>: a word of at most \<open>n\<close> characters.\<close>

definition scan_word :: "nat \<Rightarrow> string \<Rightarrow> (string \<times> string) option" where
  "scan_word n s0 =
     (let s = dropWhile is_space s0;
          w = take n (takeWhile (\<lambda>c. \<not> is_space c) s)
      in if w = [] then None else Some (w, drop (length w) s))"

fun scan_words :: "nat list \<Rightarrow> string \<Rightarrow> string list" where
  "scan_words [] s = []"
| "scan_words (n # ns) s =
     (case scan_word n s of None \<Rightarrow> [] | Some (w, s') \<Rightarrow> w # scan_words ns s')"

section \<open>Formatted output\<close>

text \<open>\<open>%u\<close> and \<open>%02x\<close>.\<close>

definition hex_digit :: "nat \<Rightarrow> char" where
  "hex_digit d = ''0123456789abcdef'' ! d"

fun dec_digits :: "nat \<Rightarrow> string" where
  "dec_digits n = (if n < 10 then [hex_digit n] else dec_digits (n div 10) @ [hex_digit (n mod 10)])"

declare dec_digits.simps [simp del]

definition hex2 :: "u8 \<Rightarrow> string" where
  "hex2 b = [hex_digit (unat b div 16), hex_digit (unat b mod 16)]"

section \<open>Lines of a file\<close>

text \<open>\<open>fgets\<close> with a buffer of \<open>n + 1\<close> bytes: up to \<open>n\<close> characters, through the first newline.\<close>

definition fgets :: "nat \<Rightarrow> string \<Rightarrow> string \<times> string" where
  "fgets n s =
     (let l = takeWhile (\<lambda>c. c \<noteq> CHR 0x0A) s;
          k = (if length l < length s then Suc (length l) else length l)
      in (take (min n k) s, drop (min n k) s))"

lemma fgets_progress: "0 < n \<Longrightarrow> s \<noteq> [] \<Longrightarrow> length (snd (fgets n s)) < length s"
  by (cases s) (auto simp: fgets_def Let_def)

lemma fgets_append: "fst (fgets n s) @ snd (fgets n s) = s"
  by (simp add: fgets_def Let_def)

end
