(* ===== verification/Validate.thy ===== *)
theory Validate
  imports C_String
begin

text \<open>
  The input validators that the management daemon and the command line share (the helpers of
  \<open>common/sg_validate.c\<close>): reading a value out of \<open>key=value\<close> lines, and one predicate per kind of value. A pointer is
  an optional string, \<open>None\<close> being the null pointer; a loop over a string is a recursion over the rest of the string;
  reading the terminating NUL is meeting the end of the list.
\<close>

section \<open>Key and value lines\<close>

text \<open>The line at the start of \<open>p\<close>, and what follows its newline (\<open>None\<close> for the last line).\<close>

definition first_line :: "string \<Rightarrow> string" where
  "first_line p = takeWhile (\<lambda>c. c \<noteq> CHR 0x0A) p"

definition next_line :: "string \<Rightarrow> string option" where
  "next_line p = (case dropWhile (\<lambda>c. c \<noteq> CHR 0x0A) p of [] \<Rightarrow> None | _ # r \<Rightarrow> Some r)"

lemma next_line_shorter: "next_line p = Some r \<Longrightarrow> length r < length p"
  using length_dropWhile_le [of "\<lambda>c. c \<noteq> CHR 0x0A" p] by (auto simp: next_line_def split: list.splits)

definition line_has :: "string \<Rightarrow> string \<Rightarrow> bool" where
  "line_has key l \<longleftrightarrow> length l \<ge> length key + 1 \<and> take (length key) l = key \<and> l ! length key = CHR ''=''"

text \<open>\<open>out\<close> has \<open>outsz\<close> bytes; the value is cut to one less.\<close>

function kv_get_loop :: "string \<Rightarrow> string \<Rightarrow> nat \<Rightarrow> string" where
  "kv_get_loop p key outsz =
     (if p = [] then []
      else if line_has key (first_line p) then
        take (outsz - 1) (drop (length key + 1) (first_line p))
      else (case next_line p of None \<Rightarrow> [] | Some r \<Rightarrow> kv_get_loop r key outsz))"
  by pat_completeness auto
termination
  by (relation "measure (\<lambda>(p, key, outsz). length p)") (auto dest: next_line_shorter)

definition sg_kv_get :: "string option \<Rightarrow> string option \<Rightarrow> nat \<Rightarrow> string" where
  "sg_kv_get data key outsz =
     (case (data, key) of
        (Some d, Some k) \<Rightarrow> if k = [] then [] else kv_get_loop d k outsz
      | _ \<Rightarrow> [])"

function kv_has_loop :: "string \<Rightarrow> string \<Rightarrow> bool" where
  "kv_has_loop p key =
     (if p = [] then False
      else if line_has key (first_line p) then True
      else (case next_line p of None \<Rightarrow> False | Some r \<Rightarrow> kv_has_loop r key))"
  by pat_completeness auto
termination
  by (relation "measure (\<lambda>(p, key). length p)") (auto dest: next_line_shorter)

definition sg_kv_has_key :: "string option \<Rightarrow> string option \<Rightarrow> bool" where
  "sg_kv_has_key data key =
     (case (data, key) of
        (Some d, Some k) \<Rightarrow> k \<noteq> [] \<and> kv_has_loop d k
      | _ \<Rightarrow> False)"

declare kv_get_loop.simps [simp del] kv_has_loop.simps [simp del]

section \<open>Options\<close>

definition sg_access_services_opts :: "string list" where
  "sg_access_services_opts = [''ping'', ''ssh'', ''https'', ''http'', ''snmp'', ''telnet'']"

definition sg_permissions_opts :: "string list" where
  "sg_permissions_opts = [''monitor'', ''configure'', ''admin'']"

definition SG_SAFE_ID_MAX :: nat where "SG_SAFE_ID_MAX = 64"
definition SG_NET_TARGET_MAX :: nat where "SG_NET_TARGET_MAX = 253"
definition IF_NAMESIZE :: nat where "IF_NAMESIZE = 16"

section \<open>Names\<close>

definition is_alpha :: "char \<Rightarrow> bool" where
  "is_alpha c \<longleftrightarrow> is_upper c \<or> is_lower c"

text \<open>The loop the name validators share: every character is alphanumeric or one of the extra ones.\<close>

fun name_loop :: "string \<Rightarrow> string \<Rightarrow> bool" where
  "name_loop extra [] = True"
| "name_loop extra (c # p) =
     (if is_alnum c then name_loop extra p else if c \<in> set extra then name_loop extra p else False)"

definition sg_is_safe_id :: "string option \<Rightarrow> bool" where
  "sg_is_safe_id s =
     (case s of
        None \<Rightarrow> False
      | Some s \<Rightarrow> if s = [] then False else if length s > SG_SAFE_ID_MAX then False else name_loop ''_.-'' s)"

definition sg_is_net_target :: "string option \<Rightarrow> bool" where
  "sg_is_net_target s =
     (case s of
        None \<Rightarrow> False
      | Some s \<Rightarrow> if s = [] then False else if length s > SG_NET_TARGET_MAX then False else name_loop ''_.-:'' s)"

definition sg_is_iface_name :: "string option \<Rightarrow> bool" where
  "sg_is_iface_name s =
     (case s of
        None \<Rightarrow> False
      | Some s \<Rightarrow> if s = [] then False else if length s \<ge> IF_NAMESIZE then False else name_loop ''_.:-'' s)"

definition sg_is_tz_token :: "string option \<Rightarrow> bool" where
  "sg_is_tz_token s =
     (case s of None \<Rightarrow> False | Some s \<Rightarrow> if s = [] then False else name_loop ''_./+-'' s)"

section \<open>Numbers\<close>

definition sg_is_uint_range :: "string option \<Rightarrow> int \<Rightarrow> int \<Rightarrow> bool" where
  "sg_is_uint_range s mn mx =
     (case s of
        None \<Rightarrow> False
      | Some s \<Rightarrow>
          if s = [] then False
          else if \<not> list_all is_digit s then False
          else (let val = strtol_value 10 s in val \<ge> mn \<and> val \<le> mx))"

section \<open>Addresses\<close>

text \<open>The digits of one octet: its value and the rest, \<open>None\<close> at a fourth digit.\<close>

fun octet_loop :: "string \<Rightarrow> nat \<Rightarrow> nat \<Rightarrow> (nat \<times> string) option" where
  "octet_loop [] val digits = Some (val, [])"
| "octet_loop (c # p) val digits =
     (if is_digit c then (if digits + 1 > 3 then None else octet_loop p (val * 10 + (code c - 48)) (digits + 1))
      else Some (val, c # p))"

lemma octet_loop_length: "octet_loop p v d = Some (val, r) \<Longrightarrow> length r \<le> length p"
  by (induction p v d rule: octet_loop.induct) (auto split: if_splits)

function ipv4_loop :: "string \<Rightarrow> nat \<Rightarrow> bool" where
  "ipv4_loop p octets =
     (case p of
        [] \<Rightarrow> octets = 4
      | c # _ \<Rightarrow>
          if \<not> is_digit c then False
          else (case octet_loop p 0 0 of
                  None \<Rightarrow> False
                | Some (val, r) \<Rightarrow>
                    if val > 255 then False
                    else if octets + 1 < 4 then
                      (case r of [] \<Rightarrow> False | d # r' \<Rightarrow> if d \<noteq> CHR ''.'' then False else ipv4_loop r' (octets + 1))
                    else ipv4_loop r (octets + 1)))"
  by pat_completeness auto
termination
  by (relation "measure (\<lambda>(p, octets). length p)") (auto dest!: octet_loop_length)

declare ipv4_loop.simps [simp del]

definition sg_is_ipv4 :: "string option \<Rightarrow> bool" where
  "sg_is_ipv4 s = (case s of None \<Rightarrow> False | Some s \<Rightarrow> s \<noteq> [] \<and> ipv4_loop s 0)"

definition sg_is_cidr :: "string option \<Rightarrow> bool" where
  "sg_is_cidr s =
     (case s of
        None \<Rightarrow> False
      | Some s \<Rightarrow>
          if s = [] then False
          else (case strchr s (CHR ''/'') of
                  None \<Rightarrow> False
                | Some slash \<Rightarrow>
                    if slash = 0 \<or> slash + 1 = length s then False
                    else if slash \<ge> 64 then False
                    else if \<not> sg_is_ipv4 (Some (take slash s)) then False
                    else sg_is_uint_range (Some (drop (slash + 1) s)) 0 32))"

text \<open>
  The host name loop: the state is the length of the label, the number of dots and whether the label has digits
  only; \<open>prev\<close> is \<open>p[-1]\<close>, looked at behind a non-empty label only.
\<close>

fun fqdn_loop :: "char \<Rightarrow> string \<Rightarrow> nat \<Rightarrow> nat \<Rightarrow> bool \<Rightarrow> (nat \<times> nat \<times> bool) option" where
  "fqdn_loop prev [] label_len dots digits = Some (label_len, dots, digits)"
| "fqdn_loop prev (c # p) label_len dots digits =
     (if c = CHR ''.'' then
        if label_len = 0 \<or> prev = CHR ''-'' then None
        else if p = [] then None
        else fqdn_loop c p 0 (dots + 1) True
      else
        (case (if c = CHR ''-'' then (if label_len = 0 then None else Some False)
               else if is_digit c then Some digits
               else if is_alpha c then Some False
               else None) of
           None \<Rightarrow> None
         | Some digits' \<Rightarrow> if label_len + 1 > 63 then None else fqdn_loop c p (label_len + 1) dots digits'))"

definition sg_is_fqdn :: "string option \<Rightarrow> bool" where
  "sg_is_fqdn s =
     (case s of
        None \<Rightarrow> False
      | Some s \<Rightarrow>
          if s = [] then False
          else if length s > SG_NET_TARGET_MAX then False
          else (case fqdn_loop (CHR 0x00) s 0 0 True of
                  None \<Rightarrow> False
                | Some (label_len, dots, last_label_digits) \<Rightarrow>
                    if label_len = 0 \<or> last s = CHR ''-'' then False
                    else if dots = 0 then False
                    else \<not> last_label_digits))"

section \<open>Lists of tokens\<close>

text \<open>\<open>strtok_r\<close> with one delimiter, called until it returns no token.\<close>

function strtok_all :: "char \<Rightarrow> string \<Rightarrow> string list" where
  "strtok_all d s =
     (let p = dropWhile (\<lambda>c. c = d) s in
      if p = [] then [] else takeWhile (\<lambda>c. c \<noteq> d) p # strtok_all d (dropWhile (\<lambda>c. c \<noteq> d) p))"
  by pat_completeness auto
termination
proof (relation "measure (\<lambda>(d, s). length s)", goal_cases)
  case (2 d s p)
  then obtain c r where p: "p = c # r" by (meson neq_Nil_conv)
  have "\<not> hd p = d" using hd_dropWhile [of "\<lambda>c. c = d" s] 2 by simp
  then have "p = c # r" "c \<noteq> d" using p by simp_all
  then have "length (dropWhile (\<lambda>c. c \<noteq> d) p) < length p"
    using length_dropWhile_le [of "\<lambda>c. c \<noteq> d" r] by simp
  moreover have "length p \<le> length s" using 2(1) length_dropWhile_le [of "\<lambda>c. c = d" s] by simp
  ultimately show ?case by simp
qed simp

declare strtok_all.simps [simp del]

definition sg_is_permissions_csv :: "string option \<Rightarrow> bool" where
  "sg_is_permissions_csv s =
     (case s of
        None \<Rightarrow> False
      | Some s \<Rightarrow>
          if s = [] then False
          else if length s > 256 then False
          else if hd s = CHR '','' \<or> last s = CHR '','' then False
          else if strstr s '',,'' \<noteq> None then False
          else (let toks = strtok_all (CHR '','') s in
                if toks = [] then False else list_all (\<lambda>tok. tok \<in> set sg_permissions_opts) toks))"

definition sg_is_access_services :: "string option \<Rightarrow> bool" where
  "sg_is_access_services s =
     (case s of
        None \<Rightarrow> True
      | Some s \<Rightarrow>
          if s = [] then True
          else if length s > 256 then False
          else (let toks = strtok_all (CHR '' '') s in
                if toks = [] then False else list_all (\<lambda>tok. tok \<in> set sg_access_services_opts) toks))"

definition sg_is_port_token :: "string option \<Rightarrow> bool" where
  "sg_is_port_token s =
     (case s of
        None \<Rightarrow> False
      | Some s \<Rightarrow>
          if s = [] then False
          else (case strchr s (CHR ''-'') of
                  Some dash \<Rightarrow>
                    if dash = 0 \<or> dash + 1 = length s then False
                    else if strchr (drop (dash + 1) s) (CHR ''-'') \<noteq> None then False
                    else if dash \<ge> 16 then False
                    else (let a = take dash s; b = drop (dash + 1) s in
                          if \<not> sg_is_uint_range (Some a) 1 65535 then False
                          else if \<not> sg_is_uint_range (Some b) 1 65535 then False
                          else strtol_value 10 a \<le> strtol_value 10 b)
                | None \<Rightarrow> sg_is_uint_range (Some s) 1 65535))"

text \<open>The part in front of the first comma, and what follows the comma.\<close>

definition csv_head :: "string \<Rightarrow> string" where
  "csv_head p = takeWhile (\<lambda>c. c \<noteq> CHR '','') p"

definition csv_rest :: "string \<Rightarrow> string option" where
  "csv_rest p = (case dropWhile (\<lambda>c. c \<noteq> CHR '','') p of [] \<Rightarrow> None | _ # r \<Rightarrow> Some r)"

lemma csv_rest_shorter: "csv_rest p = Some r \<Longrightarrow> length r < length p"
  using length_dropWhile_le [of "\<lambda>c. c \<noteq> CHR '',''" p] by (auto simp: csv_rest_def split: list.splits)

function port_loop :: "string \<Rightarrow> nat \<Rightarrow> bool" where
  "port_loop p ntok =
     (if p = [] then True
      else if csv_head p = [] \<or> length (csv_head p) \<ge> 32 then False
      else if ntok + 1 > 15 then False
      else if \<not> sg_is_port_token (Some (csv_head p)) then False
      else (case csv_rest p of None \<Rightarrow> True | Some r \<Rightarrow> port_loop r (ntok + 1)))"
  by pat_completeness auto
termination
  by (relation "measure (\<lambda>(p, ntok). length p)") (auto dest: csv_rest_shorter)

definition sg_is_port_or_range :: "string option \<Rightarrow> bool" where
  "sg_is_port_or_range s = (case s of None \<Rightarrow> False | Some s \<Rightarrow> s \<noteq> [] \<and> port_loop s 0)"

function csv_option_loop :: "string \<Rightarrow> string \<Rightarrow> bool" where
  "csv_option_loop p val =
     (if p = [] then False
      else if csv_head p = val then True
      else (case csv_rest p of None \<Rightarrow> False | Some r \<Rightarrow> csv_option_loop r val))"
  by pat_completeness auto
termination
  by (relation "measure (\<lambda>(p, val). length p)") (auto dest: csv_rest_shorter)

declare port_loop.simps [simp del] csv_option_loop.simps [simp del]

definition sg_match_csv_option :: "string option \<Rightarrow> string option \<Rightarrow> bool" where
  "sg_match_csv_option opts val =
     (case (opts, val) of (Some o', Some v) \<Rightarrow> csv_option_loop o' v | _ \<Rightarrow> False)"

text \<open>\<open>uint:min:max\<close>; the two numbers are cast to \<open>int\<close>.\<close>

definition parse_uint_kind :: "string \<Rightarrow> (int \<times> int) option" where
  "parse_uint_kind kind =
     (let p = drop 5 kind;
          (mn, e) = (case strtol 10 p of None \<Rightarrow> (0, p) | Some r \<Rightarrow> r)
      in case e of
           [] \<Rightarrow> None
         | c # e1 \<Rightarrow>
             if c \<noteq> CHR '':'' then None
             else (let (mx, e2) = (case strtol 10 e1 of None \<Rightarrow> (0, e1) | Some r \<Rightarrow> r)
                   in if e2 \<noteq> [] then None else Some (cast_i32 mn, cast_i32 mx)))"

end
