(* ===== verification/Registry.thy ===== *)
theory Registry
  imports Validate "HOL-Library.Monad_Syntax"
begin

unbundle bit_operations_syntax

text \<open>
  The configuration registry of \<open>common/sg_validate.c\<close>: the table of configuration types, the table of their
  fields with kind, default and flags, the lookups over them, the dispatch of a value to its validator, references between types,
  the scrubbing of stored values and the checks across fields. The help texts are left out. Pointers are
  optional strings; the functions that fill a static buffer say how much of it they fill.
\<close>

section \<open>Tables\<close>

datatype cfg_mode_t = CFG_TABLE | CFG_SINGLE

record sg_type_info =
  ti_name :: string
  ti_mode :: cfg_mode_t
  ti_perm :: string

definition SG_FLD_HIDDEN :: u32 where "SG_FLD_HIDDEN = 0x1"

record field_entry =
  fe_type :: string
  fe_key :: string
  fe_kind :: string
  fe_optional :: bool
  fe_defval :: "string option"
  fe_flags :: u32

text \<open>A row of the table without its first column.\<close>

definition fld :: "string \<Rightarrow> string \<Rightarrow> bool \<Rightarrow> string option \<Rightarrow> u32 \<Rightarrow> string \<Rightarrow> field_entry" where
  "fld key kind opt def flags type =
     \<lparr>fe_type = type, fe_key = key, fe_kind = kind, fe_optional = opt, fe_defval = def, fe_flags = flags\<rparr>"

definition type_table :: "sg_type_info list" where
  "type_table =
     [\<lparr>ti_name = ''network_route_static'', ti_mode = CFG_TABLE, ti_perm = ''configure''\<rparr>,
      \<lparr>ti_name = ''network_route_policy'', ti_mode = CFG_TABLE, ti_perm = ''configure''\<rparr>,
      \<lparr>ti_name = ''network_ospf'', ti_mode = CFG_SINGLE, ti_perm = ''configure''\<rparr>,
      \<lparr>ti_name = ''network_rip'', ti_mode = CFG_SINGLE, ti_perm = ''configure''\<rparr>,
      \<lparr>ti_name = ''network_bgp'', ti_mode = CFG_SINGLE, ti_perm = ''configure''\<rparr>,
      \<lparr>ti_name = ''network_nat'', ti_mode = CFG_TABLE, ti_perm = ''configure''\<rparr>,
      \<lparr>ti_name = ''network_dns'', ti_mode = CFG_SINGLE, ti_perm = ''configure''\<rparr>,
      \<lparr>ti_name = ''network_dhcp-server'', ti_mode = CFG_TABLE, ti_perm = ''configure''\<rparr>,
      \<lparr>ti_name = ''system_settings'', ti_mode = CFG_SINGLE, ti_perm = ''configure''\<rparr>,
      \<lparr>ti_name = ''system_session-ttl'', ti_mode = CFG_SINGLE, ti_perm = ''configure''\<rparr>,
      \<lparr>ti_name = ''system_interface'', ti_mode = CFG_TABLE, ti_perm = ''configure''\<rparr>,
      \<lparr>ti_name = ''system_ntp'', ti_mode = CFG_SINGLE, ti_perm = ''configure''\<rparr>,
      \<lparr>ti_name = ''firewall_policy'', ti_mode = CFG_TABLE, ti_perm = ''configure''\<rparr>,
      \<lparr>ti_name = ''firewall_address'', ti_mode = CFG_TABLE, ti_perm = ''configure''\<rparr>,
      \<lparr>ti_name = ''firewall_service'', ti_mode = CFG_TABLE, ti_perm = ''configure''\<rparr>,
      \<lparr>ti_name = ''security_ips'', ti_mode = CFG_SINGLE, ti_perm = ''configure''\<rparr>,
      \<lparr>ti_name = ''security_ips-profile'', ti_mode = CFG_TABLE, ti_perm = ''configure''\<rparr>,
      \<lparr>ti_name = ''security_ips-filter'', ti_mode = CFG_TABLE, ti_perm = ''configure''\<rparr>,
      \<lparr>ti_name = ''security_ips-ruleset'', ti_mode = CFG_TABLE, ti_perm = ''configure''\<rparr>,
      \<lparr>ti_name = ''security_ssl-inspection-profile'', ti_mode = CFG_TABLE, ti_perm = ''configure''\<rparr>,
      \<lparr>ti_name = ''system_certificate'', ti_mode = CFG_TABLE, ti_perm = ''admin''\<rparr>,
      \<lparr>ti_name = ''system_password-policy'', ti_mode = CFG_SINGLE, ti_perm = ''admin''\<rparr>,
      \<lparr>ti_name = ''system_admin-profile'', ti_mode = CFG_TABLE, ti_perm = ''admin''\<rparr>,
      \<lparr>ti_name = ''system_admin'', ti_mode = CFG_TABLE, ti_perm = ''admin''\<rparr>]"

definition fields_network_route_static :: "field_entry list" where
  "fields_network_route_static = map (\<lambda>f. f ''network_route_static'')
     [fld ''dst'' ''cidr'' False None 0,
      fld ''gateway'' ''ipv4'' False None 0,
      fld ''device'' ''ref-iface:system_interface'' False None 0,
      fld ''distance'' ''uint:1:255'' False (Some ''10'') 0,
      fld ''status'' ''enum:enable,disable'' False (Some ''enable'') 0,
      fld ''comment'' ''string'' True None 0]"

definition fields_network_nat :: "field_entry list" where
  "fields_network_nat = map (\<lambda>f. f ''network_nat'')
     [fld ''type'' ''enum:snat,dnat'' False None 0,
      fld ''srcintf'' ''ref-iface-or:system_interface:any'' False None 0,
      fld ''dstintf'' ''ref-iface-or:system_interface:any'' True None 0,
      fld ''protocol'' ''enum:tcp,udp,tcp+udp,all'' False (Some ''all'') 0,
      fld ''srcaddr'' ''ref-or-cidr:firewall_address:all,any'' False None 0,
      fld ''dstaddr'' ''ref-or-cidr:firewall_address:all,any'' False None 0,
      fld ''dstport'' ''uint:1:65535'' True None 0,
      fld ''mapped-ip'' ''ipv4'' True None 0,
      fld ''mapped-port'' ''uint:1:65535'' True None 0,
      fld ''status'' ''enum:enable,disable'' False (Some ''enable'') 0,
      fld ''sequence'' ''uint:1:9999'' True None 0]"

definition fields_security_ips :: "field_entry list" where
  "fields_security_ips = map (\<lambda>f. f ''security_ips'')
     [fld ''status'' ''enum:enable,disable'' False (Some ''disable'') 0,
      fld ''mode'' ''enum:detect,prevent'' False (Some ''prevent'') 0,
      fld ''queue-num'' ''uint:0:65535'' False (Some ''0'') 0,
      fld ''snapshot-n'' ''uint:1:64'' False (Some ''8'') 0,
      fld ''snapshot-bytes'' ''uint:1024:262144'' False (Some ''16384'') 0,
      fld ''ipc-inspect'' ''enum:enable,disable'' False (Some ''enable'') 0,
      fld ''ipc-failmode'' ''enum:open,closed'' False (Some ''open'') 0,
      fld ''ml-https'' ''enum:enable,disable'' False (Some ''disable'') 0,
      fld ''auto-update'' ''enum:disable,daily,weekly'' False (Some ''disable'') 0,
      fld ''update-url'' ''string'' True None 0,
      fld ''cron-enabled'' ''enum:enable,disable'' False (Some ''disable'') 0,
      fld ''cron-minutes'' ''string'' True (Some ''0'') 0,
      fld ''cron-hours'' ''string'' True (Some ''0'') 0,
      fld ''cron-dom'' ''string'' True (Some ''*'') 0,
      fld ''cron-months'' ''string'' True (Some ''*'') 0,
      fld ''cron-dow'' ''string'' True (Some ''*'') 0,
      fld ''cron-desc'' ''string'' True None 0]"

definition fields_security_ips_profile :: "field_entry list" where
  "fields_security_ips_profile = map (\<lambda>f. f ''security_ips-profile'')
     [fld ''name'' ''safe-id'' True None 0,
      fld ''status'' ''enum:enable,disable'' False (Some ''enable'') 0,
      fld ''categories'' ''string'' True (Some ''all'') 0,
      fld ''comment'' ''string'' True None 0]"

definition fields_security_ips_filter :: "field_entry list" where
  "fields_security_ips_filter = map (\<lambda>f. f ''security_ips-filter'')
     [fld ''rule'' ''uint:1:2147483647'' True None 0,
      fld ''category'' ''string'' True None 0,
      fld ''action'' ''enum:default,block,alert,pass'' False (Some ''default'') 0,
      fld ''status'' ''enum:enable,disable'' False (Some ''enable'') 0]"

definition fields_security_ips_ruleset :: "field_entry list" where
  "fields_security_ips_ruleset = map (\<lambda>f. f ''security_ips-ruleset'')
     [fld ''name'' ''safe-id'' True None 0,
      fld ''description'' ''string'' True None 0,
      fld ''url'' ''string'' False None 0,
      fld ''enabled'' ''enum:enable,disable'' False (Some ''disable'') SG_FLD_HIDDEN,
      fld ''builtin'' ''enum:yes,no'' False (Some ''no'') SG_FLD_HIDDEN,
      fld ''last-downloaded'' ''string'' True None SG_FLD_HIDDEN]"

definition fields_security_ssl_inspection_profile :: "field_entry list" where
  "fields_security_ssl_inspection_profile = map (\<lambda>f. f ''security_ssl-inspection-profile'')
     [fld ''name'' ''safe-id'' False None 0,
      fld ''status'' ''enum:enable,disable'' False (Some ''enable'') 0,
      fld ''inspection-mode'' ''enum:multiple-clients,protecting-server'' False (Some ''multiple-clients'') 0,
      fld ''inspection-method'' ''enum:certificate,deep'' False (Some ''certificate'') 0,
      fld ''no-sni'' ''enum:bump,splice'' False (Some ''bump'') 0,
      fld ''untrusted-server-cert'' ''enum:allow,block'' False (Some ''block'') 0,
      fld ''unsupported'' ''enum:allow,block'' False (Some ''allow'') 0,
      fld ''exempt'' ''string'' True None 0,
      fld ''comment'' ''string'' True None 0,
      fld ''server-cert'' ''ref:system_certificate'' True None 0,
      fld ''protect-vip'' ''ipv4'' True None 0,
      fld ''protect-sni'' ''string'' True None 0,
      fld ''block-sni'' ''string'' True None 0]"

definition fields_system_certificate :: "field_entry list" where
  "fields_system_certificate = map (\<lambda>f. f ''system_certificate'')
     [fld ''name'' ''safe-id'' False None 0,
      fld ''has-key'' ''enum:yes,no'' True (Some ''no'') SG_FLD_HIDDEN,
      fld ''comment'' ''string'' True None 0]"

definition fields_system_interface :: "field_entry list" where
  "fields_system_interface = map (\<lambda>f. f ''system_interface'')
     [fld ''mode'' ''enum:static,dhcp'' False (Some ''static'') 0,
      fld ''ip'' ''cidr'' True (Some ''0.0.0.0/0'') 0,
      fld ''status'' ''enum:up,down'' False (Some ''up'') 0,
      fld ''mtu'' ''uint:576:65535'' False (Some ''1500'') 0,
      fld ''allowaccess'' ''access-services'' True None 0,
      fld ''description'' ''string'' True None 0]"

definition fields_system_settings :: "field_entry list" where
  "fields_system_settings = map (\<lambda>f. f ''system_settings'')
     [fld ''hostname'' ''safe-id'' False (Some ''stargazer'') 0,
      fld ''ip-forward'' ''enum:enable,disable'' False (Some ''enable'') 0,
      fld ''timezone'' ''tz-token'' False (Some ''UTC'') 0,
      fld ''fqdn-ttl'' ''uint:60:86400'' False (Some ''3600'') 0]"

definition fields_network_dns :: "field_entry list" where
  "fields_network_dns = map (\<lambda>f. f ''network_dns'')
     [fld ''primary'' ''ipv4'' False (Some ''1.1.1.1'') 0,
      fld ''secondary'' ''ipv4'' True (Some ''8.8.8.8'') 0]"

definition fields_network_dhcp_server :: "field_entry list" where
  "fields_network_dhcp_server = map (\<lambda>f. f ''network_dhcp-server'')
     [fld ''interface'' ''ref-iface:system_interface'' False None 0,
      fld ''start-ip'' ''ipv4'' False None 0,
      fld ''end-ip'' ''ipv4'' False None 0,
      fld ''netmask'' ''ipv4'' False None 0,
      fld ''gateway'' ''ipv4'' True None 0,
      fld ''dns-server'' ''ipv4'' True None 0,
      fld ''domain-name'' ''safe-id'' True None 0,
      fld ''lease-time'' ''uint:60:604800'' False (Some ''86400'') 0,
      fld ''status'' ''enum:enable,disable'' False (Some ''enable'') 0]"

definition fields_system_ntp :: "field_entry list" where
  "fields_system_ntp = map (\<lambda>f. f ''system_ntp'')
     [fld ''server'' ''safe-id'' False (Some ''pool.ntp.org'') 0]"

definition fields_system_session_ttl :: "field_entry list" where
  "fields_system_session_ttl = map (\<lambda>f. f ''system_session-ttl'')
     [fld ''tcp-syn-sent'' ''uint:10:600'' False (Some ''120'') 0,
      fld ''tcp-syn-recv'' ''uint:5:300'' False (Some ''60'') 0,
      fld ''tcp-established'' ''uint:60:86400'' False (Some ''3600'') 0,
      fld ''tcp-fin-wait'' ''uint:10:600'' False (Some ''120'') 0,
      fld ''tcp-close-wait'' ''uint:5:300'' False (Some ''60'') 0,
      fld ''tcp-last-ack'' ''uint:5:120'' False (Some ''30'') 0,
      fld ''tcp-time-wait'' ''uint:10:600'' False (Some ''120'') 0,
      fld ''tcp-close'' ''uint:1:60'' False (Some ''10'') 0,
      fld ''udp'' ''uint:10:3600'' False (Some ''180'') 0,
      fld ''icmp'' ''uint:5:300'' False (Some ''60'') 0,
      fld ''other'' ''uint:10:3600'' False (Some ''300'') 0]"

definition fields_firewall_policy :: "field_entry list" where
  "fields_firewall_policy = map (\<lambda>f. f ''firewall_policy'')
     [fld ''name'' ''safe-id'' False None 0,
      fld ''srcintf'' ''ref-iface-or:system_interface:any'' False (Some ''any'') 0,
      fld ''dstintf'' ''ref-iface-or:system_interface:any'' False (Some ''any'') 0,
      fld ''srcaddr'' ''ref:firewall_address'' False (Some ''all'') 0,
      fld ''dstaddr'' ''ref:firewall_address'' False (Some ''all'') 0,
      fld ''action'' ''enum:accept,deny,drop'' False (Some ''deny'') 0,
      fld ''service'' ''ref:firewall_service'' False (Some ''all'') 0,
      fld ''schedule'' ''safe-id-or:all,any'' False (Some ''all'') 0,
      fld ''status'' ''enum:enable,disable'' False (Some ''enable'') 0,
      fld ''comment'' ''string'' True None 0,
      fld ''sequence'' ''uint:1:9999'' True None 0,
      fld ''cmkid'' ''uint:1:16777215'' True None SG_FLD_HIDDEN,
      fld ''ips-status'' ''enum:enable,disable'' True None 0,
      fld ''ips-profile'' ''ref:security_ips-profile'' True None 0,
      fld ''ssl-profile'' ''ref-or:security_ssl-inspection-profile:no-inspection'' False (Some ''no-inspection'') 0]"

definition fields_firewall_address :: "field_entry list" where
  "fields_firewall_address = map (\<lambda>f. f ''firewall_address'')
     [fld ''name'' ''safe-id'' False None 0,
      fld ''subnet'' ''cidr'' True None 0,
      fld ''fqdn'' ''fqdn'' True None 0,
      fld ''type'' ''enum:ipmask,fqdn'' False (Some ''ipmask'') 0,
      fld ''comment'' ''string'' True None 0]"

definition fields_firewall_service :: "field_entry list" where
  "fields_firewall_service = map (\<lambda>f. f ''firewall_service'')
     [fld ''name'' ''safe-id'' False None 0,
      fld ''protocol'' ''enum:tcp,udp,icmp,all'' False (Some ''tcp'') 0,
      fld ''port-range'' ''port-or-range'' True None 0,
      fld ''comment'' ''string'' True None 0]"

definition fields_system_password_policy :: "field_entry list" where
  "fields_system_password_policy = map (\<lambda>f. f ''system_password-policy'')
     [fld ''min-length'' ''uint:0:128'' False (Some ''8'') 0,
      fld ''min-uppercase'' ''uint:0:128'' False (Some ''0'') 0,
      fld ''min-lowercase'' ''uint:0:128'' False (Some ''0'') 0,
      fld ''min-digit'' ''uint:0:128'' False (Some ''0'') 0,
      fld ''min-special'' ''uint:0:128'' False (Some ''0'') 0]"

definition fields_system_admin_profile :: "field_entry list" where
  "fields_system_admin_profile = map (\<lambda>f. f ''system_admin-profile'')
     [fld ''permissions'' ''permissions-csv'' False None 0,
      fld ''description'' ''string'' True None 0]"

definition fields_system_admin :: "field_entry list" where
  "fields_system_admin = map (\<lambda>f. f ''system_admin'')
     [fld ''profile'' ''ref:system_admin-profile'' False None 0,
      fld ''password'' ''password-interactive'' True None 0,
      fld ''enforce-change-password'' ''enum:enable,disable'' False (Some ''enable'') 0,
      fld ''enforce-password-policy'' ''enum:enable,disable'' False (Some ''enable'') 0]"

definition field_table :: "field_entry list" where
  "field_table = concat
     [fields_network_route_static, fields_network_nat, fields_security_ips,
      fields_security_ips_profile, fields_security_ips_filter, fields_security_ips_ruleset,
      fields_security_ssl_inspection_profile, fields_system_certificate, fields_system_interface,
      fields_system_settings, fields_network_dns, fields_network_dhcp_server,
      fields_system_ntp, fields_system_session_ttl, fields_firewall_policy,
      fields_firewall_address, fields_firewall_service, fields_system_password_policy,
      fields_system_admin_profile, fields_system_admin]"

section \<open>Lookups\<close>

definition find_type :: "string \<Rightarrow> sg_type_info option" where
  "find_type t = find (\<lambda>e. ti_name e = t) type_table"

definition find_field :: "string \<Rightarrow> string \<Rightarrow> field_entry option" where
  "find_field t k = find (\<lambda>f. fe_type f = t \<and> fe_key f = k) field_table"

definition sg_reg_type_mode :: "string option \<Rightarrow> int" where
  "sg_reg_type_mode t =
     (case t of
        None \<Rightarrow> -1
      | Some t \<Rightarrow> (case find_type t of None \<Rightarrow> -1 | Some e \<Rightarrow> (case ti_mode e of CFG_TABLE \<Rightarrow> 0 | CFG_SINGLE \<Rightarrow> 1)))"

definition sg_reg_type_perm :: "string option \<Rightarrow> string option" where
  "sg_reg_type_perm t = (case t of None \<Rightarrow> None | Some t \<Rightarrow> map_option ti_perm (find_type t))"

definition sg_reg_type_label :: "string option \<Rightarrow> string" where
  "sg_reg_type_label t =
     (case t of
        None \<Rightarrow> []
      | Some t \<Rightarrow>
          (let buf = take 127 t in
           case strchr buf (CHR ''_'') of None \<Rightarrow> buf | Some i \<Rightarrow> buf[i := CHR '' '']))"

text \<open>Adding a word behind a separator to a buffer of \<open>cap\<close> bytes; a word that does not fit is left out.\<close>

definition append_word :: "char \<Rightarrow> nat \<Rightarrow> string \<Rightarrow> string \<Rightarrow> string" where
  "append_word sep cap buf w =
     (let buf1 = (if length buf > 0 \<and> length buf < cap - 1 then buf @ [sep] else buf)
      in if length buf1 + length w < cap then buf1 @ w else buf1)"

definition sg_reg_valid_keys :: "string option \<Rightarrow> string" where
  "sg_reg_valid_keys t =
     (case t of
        None \<Rightarrow> []
      | Some t \<Rightarrow> fold (\<lambda>f buf. if fe_type f \<noteq> t then buf else append_word (CHR '' '') 512 buf (fe_key f)) field_table [])"

definition sg_reg_is_valid_key :: "string option \<Rightarrow> string option \<Rightarrow> bool" where
  "sg_reg_is_valid_key t k =
     (case (t, k) of (Some t, Some k) \<Rightarrow> find_field t k \<noteq> None | _ \<Rightarrow> False)"

definition sg_reg_is_hidden_key :: "string option \<Rightarrow> string option \<Rightarrow> bool" where
  "sg_reg_is_hidden_key t k =
     (case (t, k) of
        (Some t, Some k) \<Rightarrow> (case find_field t k of None \<Rightarrow> False | Some f \<Rightarrow> fe_flags f AND SG_FLD_HIDDEN \<noteq> 0)
      | _ \<Rightarrow> False)"

text \<open>Which inspection mode a field of an SSL profile belongs to; \<open>None\<close> is any mode.\<close>

definition ssl_field_mode :: "string option \<Rightarrow> char option" where
  "ssl_field_mode key =
     (case key of
        None \<Rightarrow> None
      | Some k \<Rightarrow>
          if k = ''server-cert'' \<or> k = ''protect-vip'' \<or> k = ''protect-sni'' then Some (CHR ''p'')
          else if k = ''inspection-method'' \<or> k = ''no-sni'' \<or> k = ''untrusted-server-cert'' \<or> k = ''unsupported'' \<or> k = ''block-sni''
          then Some (CHR ''m'')
          else None)"

definition sg_ssl_field_allowed :: "string option \<Rightarrow> string option \<Rightarrow> string option \<Rightarrow> bool" where
  "sg_ssl_field_allowed t key mode =
     (if t \<noteq> Some ''security_ssl-inspection-profile'' then True
      else (case ssl_field_mode key of
              None \<Rightarrow> True
            | Some fm \<Rightarrow> fm = (if mode = Some ''protecting-server'' then CHR ''p'' else CHR ''m'')))"

definition sg_reg_is_optional :: "string option \<Rightarrow> string option \<Rightarrow> bool" where
  "sg_reg_is_optional t k =
     (case (t, k) of
        (Some t, Some k) \<Rightarrow> (case find_field t k of None \<Rightarrow> False | Some f \<Rightarrow> fe_optional f)
      | _ \<Rightarrow> False)"

definition sg_reg_required_keys :: "string option \<Rightarrow> string" where
  "sg_reg_required_keys t =
     (case t of
        None \<Rightarrow> []
      | Some t \<Rightarrow>
          fold (\<lambda>f buf. if fe_type f \<noteq> t \<or> fe_optional f then buf
                        else if fe_defval f \<noteq> None then buf
                        else append_word (CHR '' '') 512 buf (fe_key f)) field_table [])"

text \<open>
  \<open>snprintf\<close> at position \<open>pos\<close> of a buffer of \<open>cap\<close> bytes: the text is cut to what fits, and the position moves only if it
  fitted. The state is the text in the buffer and the position.
\<close>

definition append_line :: "nat \<Rightarrow> string \<Rightarrow> string \<times> nat \<Rightarrow> string \<times> nat" where
  "append_line cap txt st =
     (let (buf, pos) = st
      in (take pos buf @ take (cap - pos - 1) txt, if length txt > 0 \<and> pos + length txt < cap then pos + length txt else pos))"

definition kv_line :: "string \<Rightarrow> string \<Rightarrow> string" where
  "kv_line k v = k @ ''='' @ v @ [CHR 0x0A]"

definition sg_reg_default_values :: "string option \<Rightarrow> string" where
  "sg_reg_default_values t =
     (case t of
        None \<Rightarrow> []
      | Some t \<Rightarrow>
          fst (fold (\<lambda>f st. if fe_type f \<noteq> t then st
                            else (case fe_defval f of None \<Rightarrow> st | Some v \<Rightarrow> append_line 1024 (kv_line (fe_key f) v) st))
                field_table ([], 0)))"

definition sg_reg_all_keys_defaults :: "string option \<Rightarrow> string" where
  "sg_reg_all_keys_defaults t =
     (case t of
        None \<Rightarrow> []
      | Some t \<Rightarrow>
          fst (fold (\<lambda>f st. if fe_type f \<noteq> t then st
                            else if fe_flags f AND SG_FLD_HIDDEN \<noteq> 0 \<or> fe_key f = ''password'' then st
                            else append_line 2048 (kv_line (fe_key f) (case fe_defval f of None \<Rightarrow> [] | Some v \<Rightarrow> v)) st)
                field_table ([], 0)))"

definition sg_reg_value_kind :: "string option \<Rightarrow> string option \<Rightarrow> string" where
  "sg_reg_value_kind t k =
     (case (t, k) of
        (Some t, Some k) \<Rightarrow> (case find_field t k of None \<Rightarrow> ''string'' | Some f \<Rightarrow> fe_kind f)
      | _ \<Rightarrow> ''string'')"

definition sg_reg_field_default :: "string option \<Rightarrow> string option \<Rightarrow> string option" where
  "sg_reg_field_default t k =
     (case (t, k) of
        (Some t, Some k) \<Rightarrow> (case find_field t k of None \<Rightarrow> None | Some f \<Rightarrow> fe_defval f)
      | _ \<Rightarrow> None)"

section \<open>Validation of values\<close>

text \<open>\<open>strncmp(kind, p, strlen(p)) == 0\<close>.\<close>

definition starts :: "string \<Rightarrow> string \<Rightarrow> bool" where
  "starts p s \<longleftrightarrow> take (length p) s = p"

text \<open>The text behind the first colon.\<close>

definition after_colon :: "string \<Rightarrow> string option" where
  "after_colon s = map_option (\<lambda>i. drop (i + 1) s) (strchr s (CHR '':''))"

definition validate_kind :: "string \<Rightarrow> string \<Rightarrow> bool" where
  "validate_kind kind val =
     (if kind = ''cidr'' then sg_is_cidr (Some val)
      else if kind = ''ipv4'' then sg_is_ipv4 (Some val)
      else if starts ''uint:'' kind then
        (case parse_uint_kind kind of None \<Rightarrow> False | Some (mn, mx) \<Rightarrow> sg_is_uint_range (Some val) mn mx)
      else if starts ''enum:'' kind then sg_match_csv_option (Some (drop 5 kind)) (Some val)
      else if starts ''cidr-or:'' kind then sg_match_csv_option (Some (drop 8 kind)) (Some val) \<or> sg_is_cidr (Some val)
      else if kind = ''fqdn'' then sg_is_fqdn (Some val)
      else if kind = ''safe-id'' then sg_is_safe_id (Some val)
      else if starts ''safe-id-or:'' kind then sg_match_csv_option (Some (drop 11 kind)) (Some val) \<or> sg_is_safe_id (Some val)
      else if kind = ''tz-token'' then sg_is_tz_token (Some val)
      else if kind = ''permissions-csv'' then sg_is_permissions_csv (Some val)
      else if kind = ''access-services'' then sg_is_access_services (Some val)
      else if kind = ''port-or-range'' then sg_is_port_or_range (Some val)
      else if kind = ''password-interactive'' then True
      else if starts ''ref:'' kind then sg_is_safe_id (Some val)
      else if starts ''ref-or:'' kind then
        (if sg_match_csv_option (after_colon (drop 7 kind)) (Some val) then True else sg_is_safe_id (Some val))
      else if starts ''ref-or-cidr:'' kind then
        (if sg_match_csv_option (after_colon (drop 12 kind)) (Some val) then True
         else if sg_is_cidr (Some val) then True
         else if sg_is_ipv4 (Some val) then False
         else sg_is_safe_id (Some val))
      else if starts ''ref-iface:'' kind then sg_is_iface_name (Some val)
      else if starts ''ref-iface-or:'' kind then
        (if sg_match_csv_option (after_colon (drop 13 kind)) (Some val) then True else sg_is_iface_name (Some val))
      else val \<noteq> [])"

definition sg_reg_validate_value :: "string option \<Rightarrow> string option \<Rightarrow> string option \<Rightarrow> bool" where
  "sg_reg_validate_value t k v =
     (case (t, k, v) of
        (Some _, Some _, Some val) \<Rightarrow> validate_kind (sg_reg_value_kind t k) val
      | _ \<Rightarrow> False)"

definition sg_reg_entry_id_kind :: "string option \<Rightarrow> string" where
  "sg_reg_entry_id_kind t =
     (if t = Some ''firewall_policy'' \<or> t = Some ''security_ips-profile'' then ''uint''
      else if t = Some ''security_ips-filter'' then ''profid/seq''
      else ''safe-id'')"

definition sg_reg_subtable_child :: "string option \<Rightarrow> string option \<Rightarrow> string option" where
  "sg_reg_subtable_child parent subcmd =
     (case (parent, subcmd) of
        (Some p, Some s) \<Rightarrow> if p = ''security_ips-profile'' \<and> s = ''filter'' then Some ''security_ips-filter'' else None
      | _ \<Rightarrow> None)"

definition sg_reg_domain_for :: "string option \<Rightarrow> string" where
  "sg_reg_domain_for t =
     (case t of
        None \<Rightarrow> ''/etc/stargazer/system.conf''
      | Some t \<Rightarrow>
          if t = ''system_interface'' then ''/etc/stargazer/network.conf''
          else if starts ''network_'' t then ''/etc/stargazer/network.conf''
          else if starts ''firewall_'' t then ''/etc/stargazer/firewall.conf''
          else if starts ''system_'' t then ''/etc/stargazer/system.conf''
          else ''/etc/stargazer/system.conf'')"

definition sg_reg_validate_entry_id :: "string option \<Rightarrow> string option \<Rightarrow> bool" where
  "sg_reg_validate_entry_id t eid =
     (case (t, eid) of
        (Some _, Some i) \<Rightarrow>
          if i = [] then False
          else (let kind = sg_reg_entry_id_kind t in
                if kind = ''uint'' then list_all is_digit i
                else if kind = ''profid/seq'' then
                  (case strchr i (CHR ''/'') of
                     None \<Rightarrow> False
                   | Some slash \<Rightarrow>
                       if slash = 0 \<or> slash + 1 = length i then False
                       else if \<not> list_all is_digit (take slash i @ drop (slash + 1) i) then False
                       else (let pid = atoi i in pid \<ge> 1 \<and> pid \<le> 31))
                else sg_is_safe_id (Some i))
      | _ \<Rightarrow> False)"

section \<open>References\<close>

text \<open>The type and the options of a reference kind, cut to the sizes of the two buffers.\<close>

definition ref_parts :: "string \<Rightarrow> nat \<Rightarrow> nat \<Rightarrow> string \<times> string" where
  "ref_parts rest ref_sz opts_sz =
     (case strchr rest (CHR '':'') of
        Some i \<Rightarrow> (take (min i (ref_sz - 1)) rest, take (opts_sz - 1) (drop (i + 1) rest))
      | None \<Rightarrow> (take (ref_sz - 1) rest, []))"

definition sg_parse_ref_kind :: "string option \<Rightarrow> nat \<Rightarrow> nat \<Rightarrow> (string \<times> string) option" where
  "sg_parse_ref_kind kind ref_sz opts_sz =
     (case kind of
        None \<Rightarrow> None
      | Some k \<Rightarrow>
          if starts ''ref:'' k then Some (take (ref_sz - 1) (drop 4 k), [])
          else if starts ''ref-or:'' k then Some (ref_parts (drop 7 k) ref_sz opts_sz)
          else if starts ''ref-or-cidr:'' k then Some (ref_parts (drop 12 k) ref_sz opts_sz)
          else if starts ''ref-iface:'' k then Some (take (ref_sz - 1) (drop 10 k), [])
          else if starts ''ref-iface-or:'' k then Some (ref_parts (drop 13 k) ref_sz opts_sz)
          else None)"

definition sg_reg_find_referencing :: "string option \<Rightarrow> nat \<Rightarrow> (string \<times> string) list" where
  "sg_reg_find_referencing target mx =
     (case target of
        None \<Rightarrow> []
      | Some t \<Rightarrow>
          fold (\<lambda>f out. case sg_parse_ref_kind (Some (fe_kind f)) 64 64 of
                          None \<Rightarrow> out
                        | Some (rt, ro) \<Rightarrow> if rt = t \<and> length out < mx then out @ [(fe_type f, fe_key f)] else out)
            field_table [])"

section \<open>Scrubbing\<close>

text \<open>The tokens of a value that pass a validator on their own, in a buffer of \<open>outsz\<close> bytes.\<close>

definition scrub_tokens :: "char \<Rightarrow> (string option \<Rightarrow> bool) \<Rightarrow> string \<Rightarrow> nat \<Rightarrow> string" where
  "scrub_tokens sep ok val outsz =
     fold (\<lambda>tok out. if ok (Some tok) then append_word sep outsz out tok else out) (strtok_all sep (take 256 val)) []"

text \<open>The return value and the contents of \<open>out\<close>, \<open>None\<close> if it is not written.\<close>

definition sg_reg_scrub_value ::
  "string option \<Rightarrow> string option \<Rightarrow> string option \<Rightarrow> nat \<Rightarrow> int \<times> string option" where
  "sg_reg_scrub_value t k v outsz =
     (case (t, k, v) of
        (Some _, Some _, Some val) \<Rightarrow>
          if outsz = 0 then (0, None)
          else if sg_reg_validate_value t k v then (0, Some (take (outsz - 1) val))
          else (let kind = sg_reg_value_kind t k in
                if kind = ''access-services'' then (1, Some (scrub_tokens (CHR '' '') sg_is_access_services val outsz))
                else if kind = ''permissions-csv'' then (1, Some (scrub_tokens (CHR '','') sg_is_permissions_csv val outsz))
                else (1, Some (case sg_reg_field_default t k of None \<Rightarrow> [] | Some d \<Rightarrow> take (outsz - 1) d)))
      | _ \<Rightarrow> (0, None))"

section \<open>Checks across fields\<close>

definition sg_check_entry_semantics :: "string option \<Rightarrow> string option \<Rightarrow> nat \<Rightarrow> int \<times> string" where
  "sg_check_entry_semantics t data errsz =
     (case (t, data) of
        (Some ty, Some _) \<Rightarrow>
          if ty = ''firewall_address'' then
            (let a0 = sg_kv_get data (Some ''type'') 32;
                 atype = (if a0 = [] then take 31 (case sg_reg_field_default t (Some ''type'') of None \<Rightarrow> [] | Some d \<Rightarrow> d) else a0);
                 has_subnet = sg_kv_has_key data (Some ''subnet'');
                 has_fqdn = sg_kv_has_key data (Some ''fqdn'');
                 err = (\<lambda>msg. (-1, take (errsz - 1) msg))
             in if atype = ''fqdn'' then
                  if \<not> has_fqdn then err (''type fqdn requires '' @ [CHR 0x27] @ ''fqdn'' @ [CHR 0x27] @ '' to be set'')
                  else if has_subnet then err ([CHR 0x27] @ ''subnet'' @ [CHR 0x27] @ '' is not valid for type fqdn (unset it or use type ipmask)'')
                  else (0, [])
                else if \<not> has_subnet then err (''type ipmask requires '' @ [CHR 0x27] @ ''subnet'' @ [CHR 0x27] @ '' to be set'')
                else if has_fqdn then err ([CHR 0x27] @ ''fqdn'' @ [CHR 0x27] @ '' is not valid for type ipmask (unset it or use type fqdn)'')
                else (0, []))
          else (0, [])
      | _ \<Rightarrow> (0, []))"

end
