(* ===== verification/Sg_Db.thy ===== *)
theory Sg_Db
  imports Registry "HOL-Library.State_Monad" "HOL-Library.Char_ord" "HOL-Library.List_Lexorder"
begin

text \<open>
  The configuration store of the management daemon (\<open>sg_db.c\<close>). Its tables are lists of rows in the order of their
  row numbers, its SQL statements are functions on these tables, and the connection keeps the state of the open
  transaction. Every call into the SQL library may fail: the connection carries the list of the outcomes of the calls to come,
  so that a theorem about all such lists is a theorem about every pattern of failures. The
  operations thread the connection through the state monad, call by call as the code does. Allocations succeed.
\<close>

section \<open>Tables and connection\<close>

record config_row =
  cr_type :: string
  cr_id :: string
  cr_key :: string
  cr_value :: string

record lockout_row =
  lo_username :: string
  lo_fail_count :: int
  lo_locked_until :: int
  lo_updated_at :: string

record revision_row =
  rv_rev :: int
  rv_ts :: string
  rv_author :: string
  rv_message :: string

text \<open>\<open>last_rev\<close> is the counter of the \<open>AUTOINCREMENT\<close> column, \<open>user_version\<close> the version number kept in the file.\<close>

record sg_tables =
  config :: "config_row list"
  auth_lockouts :: "lockout_row list"
  revisions :: "revision_row list"
  revision_config :: "(int \<times> config_row) list"
  last_rev :: int
  user_version :: int

text \<open>
  \<open>saved\<close> holds the tables as they were at \<open>BEGIN\<close> while a transaction is open. An element of \<open>outcomes\<close> is the
  outcome of one call: success, or failure with a message.
\<close>

record sg_db =
  is_open :: bool
  tables :: sg_tables
  saved :: "sg_tables option"
  outcomes :: "string option list"
  errmsg :: string
  last_err :: string

type_synonym 'a dbop = "(sg_db, 'a) state"

abbreviation ret :: "'a \<Rightarrow> 'a dbop" where
  "ret \<equiv> State_Monad.return"

abbreviation conn :: "sg_db dbop" where
  "conn \<equiv> State_Monad.get"

definition SG_SCHEMA_VERSION :: int where "SG_SCHEMA_VERSION = 2"
definition MAX_KV_PAIRS :: nat where "MAX_KV_PAIRS = 64"

section \<open>Calls into the SQL library\<close>

definition api :: "bool dbop" where
  "api = State (\<lambda>db. case outcomes db of
      [] \<Rightarrow> (True, db\<lparr>errmsg := ''not an error''\<rparr>)
    | None # rest \<Rightarrow> (True, db\<lparr>outcomes := rest, errmsg := ''not an error''\<rparr>)
    | Some m # rest \<Rightarrow> (False, db\<lparr>outcomes := rest, errmsg := m\<rparr>))"

text \<open>A statement that changes rows, run to its end (\<open>sqlite3_step\<close> or \<open>sqlite3_exec\<close>): it takes effect as a whole or not at all.\<close>

definition sql_change :: "(sg_tables \<Rightarrow> sg_tables) \<Rightarrow> bool dbop" where
  "sql_change f = do {
     ok \<leftarrow> api;
     if ok then State (\<lambda>db. (True, db\<lparr>tables := f (tables db)\<rparr>)) else ret False }"

definition sql_begin :: "bool dbop" where
  "sql_begin = do {
     ok \<leftarrow> api;
     if \<not> ok then ret False
     else State (\<lambda>db. case saved db of
         None \<Rightarrow> (True, db\<lparr>saved := Some (tables db)\<rparr>)
       | Some _ \<Rightarrow> (False, db\<lparr>errmsg := ''cannot start a transaction within a transaction''\<rparr>)) }"

definition sql_commit :: "bool dbop" where
  "sql_commit = do {
     ok \<leftarrow> api;
     if \<not> ok then ret False
     else State (\<lambda>db. case saved db of
         None \<Rightarrow> (False, db\<lparr>errmsg := ''cannot commit - no transaction is active''\<rparr>)
       | Some _ \<Rightarrow> (True, db\<lparr>saved := None\<rparr>)) }"

definition sql_rollback :: "bool dbop" where
  "sql_rollback = do {
     ok \<leftarrow> api;
     if \<not> ok then ret False
     else State (\<lambda>db. case saved db of
         None \<Rightarrow> (False, db\<lparr>errmsg := ''cannot rollback - no transaction is active''\<rparr>)
       | Some t \<Rightarrow> (True, db\<lparr>tables := t, saved := None\<rparr>)) }"

text \<open>
  The loop \<open>while (sqlite3_step(stmt) == SQLITE_ROW)\<close> over the rows of a query: it ends after the last row, and at
  the first failure, without telling the two apart.
\<close>

fun sql_rows :: "'a list \<Rightarrow> 'a list dbop" where
  "sql_rows [] = do { _ \<leftarrow> api; ret [] }"
| "sql_rows (r # rs) = do {
     ok \<leftarrow> api;
     if ok then do { xs \<leftarrow> sql_rows rs; ret (r # xs) } else ret [] }"

text \<open>A query of which only the first row is read.\<close>

definition sql_row :: "'a list \<Rightarrow> 'a option dbop" where
  "sql_row rs = do {
     ok \<leftarrow> api;
     ret (if ok then (case rs of [] \<Rightarrow> None | r # _ \<Rightarrow> Some r) else None) }"

section \<open>Statements\<close>

definition of_entry :: "string \<Rightarrow> string \<Rightarrow> config_row \<Rightarrow> bool" where
  "of_entry t i r \<longleftrightarrow> cr_type r = t \<and> cr_id r = i"

definition same_key :: "config_row \<Rightarrow> config_row \<Rightarrow> bool" where
  "same_key r r' \<longleftrightarrow> cr_type r = cr_type r' \<and> cr_id r = cr_id r' \<and> cr_key r = cr_key r'"

text \<open>\<open>INSERT OR REPLACE\<close>: the row with the same primary key goes, the new one gets the next row number.\<close>

definition replace_row :: "config_row \<Rightarrow> sg_tables \<Rightarrow> sg_tables" where
  "replace_row r tb = tb\<lparr>config := filter (\<lambda>x. \<not> same_key r x) (config tb) @ [r]\<rparr>"

definition delete_rows :: "(config_row \<Rightarrow> bool) \<Rightarrow> sg_tables \<Rightarrow> sg_tables" where
  "delete_rows P tb = tb\<lparr>config := filter (\<lambda>r. \<not> P r) (config tb)\<rparr>"

text \<open>\<open>ORDER BY\<close> on text compares bytes; \<open>CAST(value AS INTEGER)\<close> reads the number at the start of the text.\<close>

definition ids_of :: "string \<Rightarrow> sg_tables \<Rightarrow> string list" where
  "ids_of t tb = sort (remdups (map cr_id (filter (\<lambda>r. cr_type r = t) (config tb))))"

definition cast_integer :: "string \<Rightarrow> int" where
  "cast_integer s = strtol_value 10 s"

definition value_of :: "string \<Rightarrow> string \<Rightarrow> string \<Rightarrow> sg_tables \<Rightarrow> string option" where
  "value_of t i k tb = map_option cr_value (List.find (\<lambda>r. of_entry t i r \<and> cr_key r = k) (config tb))"

definition order_value :: "string \<Rightarrow> string \<Rightarrow> sg_tables \<Rightarrow> string \<Rightarrow> int" where
  "order_value t k tb i = (case value_of t i k tb of None \<Rightarrow> cast_integer ''0'' | Some v \<Rightarrow> cast_integer v)"

text \<open>\<open>ORDER BY ... DESC, id\<close>: the sort is stable, and the identifiers come sorted.\<close>

definition ordered_ids :: "string \<Rightarrow> string \<Rightarrow> sg_tables \<Rightarrow> string list" where
  "ordered_ids t k tb = sort_key (\<lambda>i. - order_value t k tb i) (filter (\<lambda>i. i \<noteq> ''0'') (ids_of t tb))"

definition max_value :: "string \<Rightarrow> string \<Rightarrow> sg_tables \<Rightarrow> int option" where
  "max_value t k tb =
     (case map (\<lambda>r. cast_integer (cr_value r)) (filter (\<lambda>r. cr_type r = t \<and> cr_key r = k) (config tb)) of
        [] \<Rightarrow> None
      | v # vs \<Rightarrow> Some (fold max vs v))"

text \<open>An integer as text (\<open>%d\<close>, and a numeric column read as text).\<close>

definition dec_int :: "int \<Rightarrow> string" where
  "dec_int v = (if v < 0 then CHR ''-'' # dec_digits (nat (- v)) else dec_digits (nat v))"

definition lines :: "string list \<Rightarrow> string" where
  "lines ls = concat (map (\<lambda>l. l @ [CHR 0x0A]) ls)"

text \<open>The text a query function returns, or no text if it has no rows.\<close>

definition text_of :: "string list \<Rightarrow> string option" where
  "text_of ls = (if ls = [] then None else Some (lines ls))"

section \<open>Opening and closing\<close>

definition schema_djb2 :: "string \<Rightarrow> u32" where
  "schema_djb2 s = foldl (\<lambda>h c. h * 33 + ucast (char_byte c)) 5381 s"

definition sg_db_get_version :: "int dbop" where
  "sg_db_get_version = do {
     db \<leftarrow> conn;
     if \<not> is_open db then ret (-1)
     else do {
       ok \<leftarrow> api;
       if \<not> ok then ret (-1)
       else do {
         r \<leftarrow> sql_row [user_version (tables db)];
         ret (case r of None \<Rightarrow> 0 | Some v \<Rightarrow> v) } } }"

definition sg_db_set_version :: "int \<Rightarrow> int dbop" where
  "sg_db_set_version ver = do {
     db \<leftarrow> conn;
     if \<not> is_open db then ret (-1)
     else do {
       ok \<leftarrow> sql_change (\<lambda>tb. tb\<lparr>user_version := ver\<rparr>);
       ret (if ok then 0 else -1) } }"

definition sg_db_migrate :: "int dbop" where
  "sg_db_migrate = do {
     db_ver \<leftarrow> sg_db_get_version;
     if db_ver = SG_SCHEMA_VERSION then ret 0
     else do {
       ok \<leftarrow> sql_begin;
       if \<not> ok then ret (-1)
       else do {
         rc \<leftarrow> sg_db_set_version SG_SCHEMA_VERSION;
         if rc \<noteq> 0 then do { _ \<leftarrow> sql_rollback; ret (-1) }
         else do {
           ok \<leftarrow> sql_commit;
           if \<not> ok then do { _ \<leftarrow> sql_rollback; ret (-1) } else ret 0 } } } }"

text \<open>Closing a connection drops what an open transaction has changed.\<close>

definition db_close :: "unit dbop" where
  "db_close = State (\<lambda>db. ((), db\<lparr>is_open := False, saved := None,
     tables := (case saved db of None \<Rightarrow> tables db | Some t \<Rightarrow> t)\<rparr>))"

definition sg_db_open :: "int dbop" where
  "sg_db_open = do {
     db \<leftarrow> conn;
     if is_open db then ret 0
     else do {
       ok \<leftarrow> api;
       if \<not> ok then ret (-1)
       else do {
         State_Monad.update (\<lambda>db. db\<lparr>is_open := True\<rparr>);
         _ \<leftarrow> api;
         _ \<leftarrow> api;
         ok \<leftarrow> sql_change (\<lambda>tb. tb);
         if \<not> ok then do { db_close; ret (-1) }
         else do {
           rc \<leftarrow> sg_db_migrate;
           if rc \<noteq> 0 then do { db_close; ret (-1) } else ret 0 } } } }"

definition sg_db_close :: "unit dbop" where
  "sg_db_close = do { db \<leftarrow> conn; if is_open db then db_close else ret () }"

definition sg_db_schema_version :: "int dbop" where
  "sg_db_schema_version = sg_db_get_version"

text \<open>\<open>type:id\<close>, or a type alone, which stands for its single entry \<open>0\<close>; \<open>tsz\<close> and \<open>isz\<close> are the sizes of the buffers.\<close>

definition sg_db_parse_section :: "string \<Rightarrow> nat \<Rightarrow> nat \<Rightarrow> string \<times> string" where
  "sg_db_parse_section section tsz isz = (case strchr section (CHR '':'') of
      Some i \<Rightarrow> (take (tsz - 1) (take i section), take (isz - 1) (drop (Suc i) section))
    | None \<Rightarrow> (take (tsz - 1) section, take (isz - 1) ''0''))"

section \<open>Reading entries\<close>

definition sg_db_get :: "string option \<Rightarrow> string option \<Rightarrow> string option dbop" where
  "sg_db_get ty idn = do {
     db \<leftarrow> conn;
     case (is_open db, ty, idn) of
       (True, Some t, Some i) \<Rightarrow> do {
         ok \<leftarrow> api;
         if \<not> ok then ret None
         else do {
           rows \<leftarrow> sql_rows (filter (of_entry t i) (config (tables db)));
           ret (text_of (map (\<lambda>r. cr_key r @ ''='' @ cr_value r) rows)) } }
     | _ \<Rightarrow> ret None }"

definition sg_db_list :: "string option \<Rightarrow> string option dbop" where
  "sg_db_list ty = do {
     db \<leftarrow> conn;
     case (is_open db, ty) of
       (True, Some t) \<Rightarrow> do {
         ok \<leftarrow> api;
         if \<not> ok then ret None
         else do {
           rows \<leftarrow> sql_rows (ids_of t (tables db));
           ret (text_of (filter (\<lambda>i. i \<noteq> ''0'') rows)) } }
     | _ \<Rightarrow> ret None }"

definition sg_db_list_ordered :: "string option \<Rightarrow> string option \<Rightarrow> string option dbop" where
  "sg_db_list_ordered ty order_key = do {
     db \<leftarrow> conn;
     case (is_open db, ty, order_key) of
       (True, Some t, Some k) \<Rightarrow> do {
         ok \<leftarrow> api;
         if \<not> ok then ret None
         else do {
           rows \<leftarrow> sql_rows (ordered_ids t k (tables db));
           ret (text_of rows) } }
     | _ \<Rightarrow> ret None }"

definition sg_db_get_val :: "string option \<Rightarrow> string option \<Rightarrow> string option \<Rightarrow> string option dbop" where
  "sg_db_get_val ty idn key = do {
     db \<leftarrow> conn;
     case (is_open db, ty, idn, key) of
       (True, Some t, Some i, Some k) \<Rightarrow> do {
         ok \<leftarrow> api;
         if \<not> ok then ret None
         else sql_row (case value_of t i k (tables db) of None \<Rightarrow> [] | Some v \<Rightarrow> [v]) }
     | _ \<Rightarrow> ret None }"

definition sg_db_get_max_int :: "string option \<Rightarrow> string option \<Rightarrow> string option dbop" where
  "sg_db_get_max_int ty key = do {
     db \<leftarrow> conn;
     case (is_open db, ty, key) of
       (True, Some t, Some k) \<Rightarrow> do {
         ok \<leftarrow> api;
         if \<not> ok then ret None
         else do {
           r \<leftarrow> sql_row [max_value t k (tables db)];
           ret (map_option dec_int (Option.bind r (\<lambda>v. v))) } }
     | _ \<Rightarrow> ret None }"

text \<open>A query without \<open>ORDER BY\<close> delivers its rows in an order of its own, \<open>scan\<close>.\<close>

definition sg_db_find_referencing ::
  "(string list \<Rightarrow> string list) \<Rightarrow> string option \<Rightarrow> string option \<Rightarrow> string option \<Rightarrow> string option dbop" where
  "sg_db_find_referencing scan ref_type ref_key target_value = do {
     db \<leftarrow> conn;
     case (is_open db, ref_type, ref_key, target_value) of
       (True, Some t, Some k, Some v) \<Rightarrow> do {
         ok \<leftarrow> api;
         if \<not> ok then ret None
         else do {
           rows \<leftarrow> sql_rows (scan (remdups (map cr_id
             (filter (\<lambda>r. cr_type r = t \<and> cr_key r = k \<and> cr_value r = v) (config (tables db))))));
           ret (text_of (map (\<lambda>i. t @ '':'' @ i) rows)) } }
     | _ \<Rightarrow> ret None }"

definition sg_db_count :: "string option \<Rightarrow> int dbop" where
  "sg_db_count ty = do {
     db \<leftarrow> conn;
     case (is_open db, ty) of
       (True, Some t) \<Rightarrow> do {
         ok \<leftarrow> api;
         if \<not> ok then ret 0
         else do {
           r \<leftarrow> sql_row [int (length (ids_of t (tables db)))];
           ret (case r of None \<Rightarrow> 0 | Some n \<Rightarrow> cast_i32 n) } }
     | _ \<Rightarrow> ret 0 }"

definition sg_db_list_types :: "string option dbop" where
  "sg_db_list_types = do {
     db \<leftarrow> conn;
     if \<not> is_open db then ret None
     else do {
       ok \<leftarrow> api;
       if \<not> ok then ret None
       else do {
         rows \<leftarrow> sql_rows (sort (remdups (map cr_type (config (tables db)))));
         ret (text_of rows) } } }"

section \<open>Writing entries\<close>

text \<open>
  The lines of the text that have an equals sign, as pairs of key and value, at most \<open>MAX_KV_PAIRS\<close> of them (\<open>n\<close>
  counts those found); empty lines are skipped.
\<close>

fun parse_pairs :: "string list \<Rightarrow> nat \<Rightarrow> (string \<times> string) list" where
  "parse_pairs [] n = []"
| "parse_pairs (l # ls) n =
     (if n \<ge> MAX_KV_PAIRS then []
      else case strchr l (CHR ''='') of
             None \<Rightarrow> parse_pairs ls n
           | Some i \<Rightarrow> (take i l, drop (Suc i) l) # parse_pairs ls (Suc n))"

text \<open>
  The order in which the pairs are inserted: for each key of the registry the first pair with that key that is not
  done yet, then the pairs that are left. Taking a pair out of the list is its \<open>done\<close> mark.
\<close>

fun registry_order :: "string list \<Rightarrow> (string \<times> string) list \<Rightarrow> (string \<times> string) list" where
  "registry_order [] kvs = kvs"
| "registry_order (k # ks) kvs = (case List.extract (\<lambda>kv. fst kv = k) kvs of
      None \<Rightarrow> registry_order ks kvs
    | Some (before, kv, after) \<Rightarrow> kv # registry_order ks (before @ after))"

definition row_of :: "string \<Rightarrow> string \<Rightarrow> string \<times> string \<Rightarrow> config_row" where
  "row_of t i kv = \<lparr>cr_type = t, cr_id = i, cr_key = fst kv, cr_value = snd kv\<rparr>"

fun insert_pairs :: "string \<Rightarrow> string \<Rightarrow> (string \<times> string) list \<Rightarrow> int dbop" where
  "insert_pairs t i [] = ret 0"
| "insert_pairs t i (kv # kvs) = do {
     ok \<leftarrow> sql_change (replace_row (row_of t i kv));
     if \<not> ok then ret (-1) else insert_pairs t i kvs }"

definition insert_order :: "string \<Rightarrow> string \<Rightarrow> (string \<times> string) list" where
  "insert_order t dat = registry_order (strtok_all (CHR '' '') (sg_reg_valid_keys (Some t))) (parse_pairs (strtok_all (CHR 0x0A) dat) 0)"

definition sg_insert_ordered :: "string \<Rightarrow> string \<Rightarrow> string \<Rightarrow> int dbop" where
  "sg_insert_ordered t i dat = insert_pairs t i (insert_order t dat)"

definition sg_db_last_err :: "string dbop" where
  "sg_db_last_err = do { db \<leftarrow> conn; ret (if last_err db \<noteq> [] then last_err db else ''(no error recorded)'') }"

definition db_capture_err :: "unit dbop" where
  "db_capture_err = State_Monad.update (\<lambda>db. db\<lparr>last_err := take 255 (if is_open db then errmsg db else ''database not open'')\<rparr>)"

text \<open>A failed write: the error is recorded, and a transaction of the operation's own is undone.\<close>

definition set_fails :: "bool \<Rightarrow> int dbop" where
  "set_fails owned = do {
     db_capture_err;
     _ \<leftarrow> (if owned then sql_rollback else ret False);
     ret (-1) }"

text \<open>The statements of a write: the rows of the entry are deleted, then the pairs of the text inserted, up to the first failure.\<close>

definition write_entry :: "string \<Rightarrow> string \<Rightarrow> string option \<Rightarrow> int dbop" where
  "write_entry t i dat = do {
     ok \<leftarrow> api;
     if \<not> ok then ret (-1)
     else do {
       ok \<leftarrow> sql_change (delete_rows (of_entry t i));
       if \<not> ok then ret (-1)
       else case dat of
           Some (c # cs) \<Rightarrow> do {
             ok \<leftarrow> api;
             if \<not> ok then ret (-1) else sg_insert_ordered t i (c # cs) }
         | _ \<Rightarrow> ret 0 } }"

definition sg_db_set :: "string option \<Rightarrow> string option \<Rightarrow> string option \<Rightarrow> int dbop" where
  "sg_db_set ty idn dat = do {
     db \<leftarrow> conn;
     case (is_open db, ty, idn) of
       (True, Some t, Some i) \<Rightarrow> do {
         let owned = (saved db = None);
         ok \<leftarrow> (if owned then sql_begin else ret True);
         if \<not> ok then do { db_capture_err; ret (-1) }
         else do {
           rc \<leftarrow> write_entry t i dat;
           if rc \<noteq> 0 then set_fails owned
           else if owned then do {
             ok \<leftarrow> sql_commit;
             if \<not> ok then set_fails True else ret 0 }
           else ret 0 } }
     | _ \<Rightarrow> ret (-1) }"

text \<open>One prepared statement that changes the tables.\<close>

definition run_change :: "(sg_tables \<Rightarrow> sg_tables) \<Rightarrow> int dbop" where
  "run_change f = do {
     ok \<leftarrow> api;
     if \<not> ok then ret (-1)
     else do { ok \<leftarrow> sql_change f; ret (if ok then 0 else -1) } }"

definition sg_db_del :: "string option \<Rightarrow> string option \<Rightarrow> int dbop" where
  "sg_db_del ty idn = do {
     db \<leftarrow> conn;
     case (is_open db, ty, idn) of
       (True, Some t, Some i) \<Rightarrow> run_change (delete_rows (of_entry t i))
     | _ \<Rightarrow> ret (-1) }"

definition sg_db_set_val :: "string option \<Rightarrow> string option \<Rightarrow> string option \<Rightarrow> string option \<Rightarrow> int dbop" where
  "sg_db_set_val ty idn key val = do {
     db \<leftarrow> conn;
     case (is_open db, ty, idn, key, val) of
       (True, Some t, Some i, Some k, Some v) \<Rightarrow> run_change (replace_row (row_of t i (k, v)))
     | _ \<Rightarrow> ret (-1) }"

definition sg_db_purge_type :: "string option \<Rightarrow> int dbop" where
  "sg_db_purge_type ty = do {
     db \<leftarrow> conn;
     case (is_open db, ty) of
       (True, Some t) \<Rightarrow> run_change (delete_rows (\<lambda>r. cr_type r = t))
     | _ \<Rightarrow> ret (-1) }"

section \<open>Lockouts\<close>

text \<open>The result is the return code, the number of failures and the time until which the user is locked out.\<close>

definition sg_db_lockout_get :: "string option \<Rightarrow> (int \<times> int \<times> int) dbop" where
  "sg_db_lockout_get user = do {
     db \<leftarrow> conn;
     case (is_open db, user) of
       (True, Some u) \<Rightarrow> do {
         ok \<leftarrow> api;
         if \<not> ok then ret (-1, 0, 0)
         else do {
           r \<leftarrow> sql_row (filter (\<lambda>r. lo_username r = u) (auth_lockouts (tables db)));
           ret (case r of None \<Rightarrow> (0, 0, 0) | Some l \<Rightarrow> (0, cast_i32 (lo_fail_count l), lo_locked_until l)) } }
     | _ \<Rightarrow> ret (-1, 0, 0) }"

text \<open>\<open>INSERT ... ON CONFLICT(username) DO UPDATE\<close>; \<open>now\<close> is the clock of the SQL library.\<close>

definition upsert_lockout :: "lockout_row \<Rightarrow> sg_tables \<Rightarrow> sg_tables" where
  "upsert_lockout l tb = tb\<lparr>auth_lockouts :=
     (if \<exists>r \<in> set (auth_lockouts tb). lo_username r = lo_username l
      then map (\<lambda>r. if lo_username r = lo_username l then l else r) (auth_lockouts tb)
      else auth_lockouts tb @ [l])\<rparr>"

definition sg_db_lockout_set :: "string \<Rightarrow> string option \<Rightarrow> int \<Rightarrow> int \<Rightarrow> int dbop" where
  "sg_db_lockout_set now user fail_count locked_until = do {
     db \<leftarrow> conn;
     case (is_open db, user) of
       (True, Some u) \<Rightarrow> run_change (upsert_lockout
          \<lparr>lo_username = u, lo_fail_count = fail_count, lo_locked_until = locked_until, lo_updated_at = now\<rparr>)
     | _ \<Rightarrow> ret (-1) }"

definition sg_db_lockout_clear :: "string option \<Rightarrow> int dbop" where
  "sg_db_lockout_clear user = do {
     db \<leftarrow> conn;
     case (is_open db, user) of
       (True, Some u) \<Rightarrow> run_change (\<lambda>tb. tb\<lparr>auth_lockouts := filter (\<lambda>r. lo_username r \<noteq> u) (auth_lockouts tb)\<rparr>)
     | _ \<Rightarrow> ret (-1) }"

definition sg_db_lockout_clear_all :: "int dbop" where
  "sg_db_lockout_clear_all = do {
     db \<leftarrow> conn;
     if \<not> is_open db then ret (-1) else run_change (\<lambda>tb. tb\<lparr>auth_lockouts := []\<rparr>) }"

section \<open>Transactions\<close>

definition when_open :: "bool dbop \<Rightarrow> int dbop" where
  "when_open stmt = do {
     db \<leftarrow> conn;
     if \<not> is_open db then ret (-1) else do { ok \<leftarrow> stmt; ret (if ok then 0 else -1) } }"

definition sg_db_begin :: "int dbop" where
  "sg_db_begin = when_open sql_begin"

definition sg_db_commit :: "int dbop" where
  "sg_db_commit = when_open sql_commit"

definition sg_db_rollback :: "int dbop" where
  "sg_db_rollback = when_open sql_rollback"

section \<open>Revisions\<close>

definition undo :: "int dbop" where
  "undo = do { _ \<leftarrow> sg_db_rollback; ret (-1) }"

definition insert_revision :: "string \<Rightarrow> string \<Rightarrow> string \<Rightarrow> sg_tables \<Rightarrow> sg_tables" where
  "insert_revision now author msg tb =
     tb\<lparr>revisions := revisions tb @ [\<lparr>rv_rev = last_rev tb + 1, rv_ts = now, rv_author = author, rv_message = msg\<rparr>],
        last_rev := last_rev tb + 1\<rparr>"

definition snapshot :: "int \<Rightarrow> sg_tables \<Rightarrow> sg_tables" where
  "snapshot n tb = tb\<lparr>revision_config := revision_config tb @ map (Pair n) (config tb)\<rparr>"

definition sg_db_revision_create :: "string \<Rightarrow> string option \<Rightarrow> string option \<Rightarrow> int dbop" where
  "sg_db_revision_create now author msg = do {
     db \<leftarrow> conn;
     if \<not> is_open db then ret (-1)
     else do {
       rc \<leftarrow> sg_db_begin;
       if rc \<noteq> 0 then ret (-1)
       else do {
         ok \<leftarrow> api;
         if \<not> ok then undo
         else do {
           ok \<leftarrow> sql_change (insert_revision now (case author of None \<Rightarrow> [] | Some a \<Rightarrow> a) (case msg of None \<Rightarrow> [] | Some m \<Rightarrow> m));
           if \<not> ok then undo
           else do {
             db \<leftarrow> conn;
             let rv = last_rev (tables db);
             ok \<leftarrow> sql_change (snapshot rv);
             if \<not> ok then undo
             else do {
               rc \<leftarrow> sg_db_commit;
               if rc \<noteq> 0 then undo else ret (cast_i32 rv) } } } } } }"

text \<open>\<open>SELECT rev FROM revisions ORDER BY rev DESC LIMIT -1 OFFSET keep\<close>.\<close>

definition older_revisions :: "int \<Rightarrow> sg_tables \<Rightarrow> int list" where
  "older_revisions keep tb = drop (nat keep) (rev (sort (map rv_rev (revisions tb))))"

definition prune_snapshots :: "int \<Rightarrow> sg_tables \<Rightarrow> sg_tables" where
  "prune_snapshots keep tb =
     tb\<lparr>revision_config := filter (\<lambda>(r, row). r \<notin> set (older_revisions keep tb)) (revision_config tb)\<rparr>"

definition prune_revisions :: "int \<Rightarrow> sg_tables \<Rightarrow> sg_tables" where
  "prune_revisions keep tb =
     tb\<lparr>revisions := filter (\<lambda>r. rv_rev r \<notin> set (older_revisions keep tb)) (revisions tb)\<rparr>"

definition sg_db_revision_prune :: "int \<Rightarrow> unit dbop" where
  "sg_db_revision_prune keep = do {
     db \<leftarrow> conn;
     if \<not> is_open db \<or> keep < 0 then ret ()
     else do {
       rc \<leftarrow> sg_db_begin;
       if rc \<noteq> 0 then ret ()
       else do {
         ok1 \<leftarrow> sql_change (prune_snapshots keep);
         ok2 \<leftarrow> sql_change (prune_revisions keep);
         _ \<leftarrow> (if ok1 \<and> ok2 then sg_db_commit else sg_db_rollback);
         ret () } } }"

definition sg_db_revision_exists :: "int \<Rightarrow> bool dbop" where
  "sg_db_revision_exists n = do {
     db \<leftarrow> conn;
     if \<not> is_open db then ret False
     else do {
       ok \<leftarrow> api;
       if \<not> ok then ret False
       else do {
         r \<leftarrow> sql_row (filter (\<lambda>r. rv_rev r = n) (revisions (tables db)));
         ret (r \<noteq> None) } } }"

definition revision_line :: "revision_row \<Rightarrow> string" where
  "revision_line r = take 511 (dec_int (cast_i32 (rv_rev r)) @ [CHR 0x09] @ rv_ts r @ [CHR 0x09] @ rv_author r @ [CHR 0x09] @
     rv_message r @ [CHR 0x0A])"

definition sg_db_revision_list :: "string option dbop" where
  "sg_db_revision_list = do {
     db \<leftarrow> conn;
     if \<not> is_open db then ret None
     else do {
       ok \<leftarrow> api;
       if \<not> ok then ret None
       else do {
         rows \<leftarrow> sql_rows (take 100 (rev (sort_key rv_rev (revisions (tables db)))));
         ret (Some (concat (map revision_line rows))) } } }"

definition restore_rows :: "(config_row list \<Rightarrow> config_row list) \<Rightarrow> int \<Rightarrow> sg_tables \<Rightarrow> sg_tables" where
  "restore_rows scan n tb = tb\<lparr>config := config tb @ scan (map snd (filter (\<lambda>(r, row). r = n) (revision_config tb)))\<rparr>"

definition sg_db_revision_restore :: "(config_row list \<Rightarrow> config_row list) \<Rightarrow> int \<Rightarrow> int dbop" where
  "sg_db_revision_restore scan n = do {
     db \<leftarrow> conn;
     if \<not> is_open db then ret (-1)
     else do {
       found \<leftarrow> sg_db_revision_exists n;
       if \<not> found then ret (-1)
       else do {
         rc \<leftarrow> sg_db_begin;
         if rc \<noteq> 0 then ret (-1)
         else do {
           ok \<leftarrow> sql_change (delete_rows (\<lambda>r. True));
           if \<not> ok then undo
           else do {
             ok \<leftarrow> api;
             if \<not> ok then undo
             else do {
               ok \<leftarrow> sql_change (restore_rows scan n);
               if \<not> ok then undo
               else do {
                 rc \<leftarrow> sg_db_commit;
                 if rc \<noteq> 0 then undo else ret 0 } } } } } } }"

end
