(* ===== verification/Sequence.thy ===== *)
theory Sequence
  imports Sg_Db
begin

text \<open>
  The order of firewall policies and NAT rules (\<open>mgmtd_sequence.c\<close>): every entry has a number in its field
  \<open>sequence\<close>, entries with higher numbers come first, and moving or inserting an entry renumbers others. The functions
  work on the configuration store.
\<close>

definition SEQ_ORDERABLE_TYPES :: "string list" where
  "SEQ_ORDERABLE_TYPES = [''firewall_policy'', ''network_nat'']"

definition seq_type_is_orderable :: "string option \<Rightarrow> bool" where
  "seq_type_is_orderable ty = (case ty of None \<Rightarrow> False | Some t \<Rightarrow> t \<in> set SEQ_ORDERABLE_TYPES)"

text \<open>The largest number of a field, 0 if no entry has one.\<close>

definition max_int :: "string option \<Rightarrow> string \<Rightarrow> int dbop" where
  "max_int ty key = do {
     max_str \<leftarrow> sg_db_get_max_int ty (Some key);
     ret (case max_str of None \<Rightarrow> 0 | Some s \<Rightarrow> atoi s) }"

definition seq_get_max :: "string option \<Rightarrow> int dbop" where
  "seq_get_max ty = max_int ty ''sequence''"

text \<open>
  Adding a line to the text of an entry, in a buffer of \<open>data_sz\<close> bytes; the result is the return code and the text. The line
  itself is formatted in a buffer of 32 bytes.
\<close>

definition append_field :: "string \<Rightarrow> int \<Rightarrow> string \<Rightarrow> nat \<Rightarrow> int \<times> string" where
  "append_field key val dat data_sz =
     (let line = key @ ''='' @ dec_int val @ [CHR 0x0A]
      in if length dat + length line + 1 > data_sz then (-1, dat) else (0, dat @ take 31 line))"

definition seq_auto_assign :: "string option \<Rightarrow> string \<Rightarrow> nat \<Rightarrow> (int \<times> string) dbop" where
  "seq_auto_assign ty dat data_sz =
     (if sg_kv_has_key (Some dat) (Some ''sequence'') then ret (0, dat)
      else do {
        m \<leftarrow> seq_get_max ty;
        ret (append_field ''sequence'' (cast_i32 (m + 1)) dat data_sz) })"

definition cmkid_auto_assign :: "string option \<Rightarrow> string \<Rightarrow> nat \<Rightarrow> (int \<times> string) dbop" where
  "cmkid_auto_assign ty dat data_sz =
     (if sg_kv_has_key (Some dat) (Some ''cmkid'') then ret (0, dat)
      else do {
        m \<leftarrow> max_int ty ''cmkid'';
        ret (append_field ''cmkid'' (cast_i32 (m + 1)) dat data_sz) })"

record seq_entry =
  se_id :: string
  se_seq :: int

definition seq_cmp_asc :: "seq_entry \<Rightarrow> seq_entry \<Rightarrow> int" where
  "seq_cmp_asc a b = cast_i32 (se_seq a - se_seq b)"

definition seq_cmp_desc :: "seq_entry \<Rightarrow> seq_entry \<Rightarrow> int" where
  "seq_cmp_desc a b = cast_i32 (se_seq b - se_seq a)"

text \<open>\<open>qsort\<close> with a comparison function: insertion keeps the array sorted, equal elements stay in order.\<close>

fun cmp_insert :: "('a \<Rightarrow> 'a \<Rightarrow> int) \<Rightarrow> 'a \<Rightarrow> 'a list \<Rightarrow> 'a list" where
  "cmp_insert cmp x [] = [x]"
| "cmp_insert cmp x (y # ys) = (if cmp x y \<le> 0 then x # y # ys else y # cmp_insert cmp x ys)"

definition qsort :: "('a \<Rightarrow> 'a \<Rightarrow> int) \<Rightarrow> 'a list \<Rightarrow> 'a list" where
  "qsort cmp xs = foldr (cmp_insert cmp) xs []"

text \<open>
  The entries of a type with a number from \<open>lo\<close> to \<open>hi\<close>, without the built-in ones and \<open>exclude_id\<close>. \<open>None\<close> is the
  return code -1 for an identifier that does not fit into its buffer.
\<close>

fun collect_loop :: "string option \<Rightarrow> int \<Rightarrow> int \<Rightarrow> string option \<Rightarrow> string list \<Rightarrow> seq_entry list \<Rightarrow> seq_entry list option dbop" where
  "collect_loop ty lo hi exclude_id [] entries = ret (Some entries)"
| "collect_loop ty lo hi exclude_id (tok # toks) entries =
     (if exclude_id = Some tok then collect_loop ty lo hi exclude_id toks entries
      else do {
        bi \<leftarrow> sg_db_get_val ty (Some tok) (Some ''builtin'');
        if bi = Some ''yes'' then collect_loop ty lo hi exclude_id toks entries
        else do {
          seq_str \<leftarrow> sg_db_get_val ty (Some tok) (Some ''sequence'');
          case seq_str of
            None \<Rightarrow> collect_loop ty lo hi exclude_id toks entries
          | Some s \<Rightarrow>
              if lo \<le> atoi s \<and> atoi s \<le> hi
              then if length tok \<ge> SG_SAFE_ID_MAX + 1 then ret None
                   else collect_loop ty lo hi exclude_id toks (entries @ [\<lparr>se_id = tok, se_seq = atoi s\<rparr>])
              else collect_loop ty lo hi exclude_id toks entries } })"

definition collect_seq_range :: "string option \<Rightarrow> int \<Rightarrow> int \<Rightarrow> string option \<Rightarrow> seq_entry list option dbop" where
  "collect_seq_range ty lo hi exclude_id = do {
     list \<leftarrow> sg_db_list ty;
     case list of
       None \<Rightarrow> ret (Some [])
     | Some l \<Rightarrow> collect_loop ty lo hi exclude_id (strtok_all (CHR 0x0A) l) [] }"

text \<open>The loop that writes the new numbers; the result counts the writes that succeeded.\<close>

fun shift_loop :: "string option \<Rightarrow> int \<Rightarrow> seq_entry list \<Rightarrow> int dbop" where
  "shift_loop ty delta [] = ret 0"
| "shift_loop ty delta (e # es) = do {
     rc \<leftarrow> sg_db_set_val ty (Some (se_id e)) (Some ''sequence'') (Some (take 15 (dec_int (cast_i32 (se_seq e + delta)))));
     n \<leftarrow> shift_loop ty delta es;
     ret (if rc = 0 then n + 1 else n) }"

definition shift_range :: "string option \<Rightarrow> int \<Rightarrow> int \<Rightarrow> int \<Rightarrow> (seq_entry \<Rightarrow> seq_entry \<Rightarrow> int) \<Rightarrow> string option \<Rightarrow> int dbop" where
  "shift_range ty lo hi delta cmp exclude_id = do {
     entries \<leftarrow> collect_seq_range ty lo hi exclude_id;
     case entries of
       None \<Rightarrow> ret 0
     | Some es \<Rightarrow> if es = [] then ret 0 else shift_loop ty delta (qsort cmp es) }"

definition seq_rotate :: "string option \<Rightarrow> int \<Rightarrow> int \<Rightarrow> string option \<Rightarrow> int dbop" where
  "seq_rotate ty old_seq new_seq exclude_id =
     (if old_seq = new_seq then ret 0
      else if new_seq > old_seq then shift_range ty (old_seq + 1) new_seq (-1) seq_cmp_asc exclude_id
      else shift_range ty new_seq (old_seq - 1) 1 seq_cmp_desc exclude_id)"

definition seq_insert_at :: "string option \<Rightarrow> int \<Rightarrow> string option \<Rightarrow> int dbop" where
  "seq_insert_at ty target_seq exclude_id = shift_range ty target_seq 9999 1 seq_cmp_desc exclude_id"

text \<open>The steps of the command that moves an entry: the others are renumbered, then the entry gets its number.\<close>

definition move_entry :: "string \<Rightarrow> string \<Rightarrow> int \<Rightarrow> int \<Rightarrow> int dbop" where
  "move_entry t i old_seq new_seq = do {
     _ \<leftarrow> seq_rotate (Some t) old_seq new_seq (Some i);
     sg_db_set_val (Some t) (Some i) (Some ''sequence'') (Some (take 15 (dec_int new_seq))) }"

end
