(* ===== verification/Config_Commands.thy ===== *)
theory Config_Commands
  imports Sequence
begin

text \<open>
  Requests to the management daemon (\<open>stargazer-mgmtd.c\<close>): who may do what, the checks a text of an entry has to pass before
  it is written, and the commands that delete, move and rename entries. The daemon handles one request at a time, so a command is
  an operation on the configuration store. What a command does outside the store is the list of its effects, in order; texts of
  replies are left out, their status codes are not.
\<close>

section \<open>Status codes and effects\<close>

datatype sg_status_t =
    SG_OK
  | SG_ERR_INVALID_CMD | SG_ERR_INVALID_ARG | SG_ERR_INVALID_VAL | SG_ERR_MISSING_ARG | SG_ERR_POLICY_FAIL
  | SG_ERR_PERM_DENIED | SG_ERR_AUTH_FAIL | SG_ERR_LOCKED | SG_ERR_PROFILE_DENY | SG_ERR_SESSION_EXPIRED
  | SG_ERR_NOT_FOUND | SG_ERR_USER_NOT_FOUND | SG_ERR_PROFILE_NOT_FOUND | SG_ERR_ENTRY_NOT_FOUND
  | SG_ERR_ALREADY_EXISTS | SG_ERR_IN_USE | SG_ERR_BUILTIN
  | SG_ERR_SYSTEM_FAIL | SG_ERR_IO_FAIL | SG_ERR_DISK_FULL | SG_ERR_INTERNAL

datatype effect =
    Session_Tag_Purge_User string
  | Delete_System_User string
  | Safe_Exec "string list"
  | Unapply_Dhcp string
  | Fqdn_Object_Removed string
  | Remove_Certificate_Files string
  | Rebuild_Forward_Chain
  | Rebuild_Nat_Chains
  | Rebuild_Ips_Active
  | Conntrack_Reeval u32
  | Fqdn_Refresh_Kick
  | Audit_Log string

type_synonym reply = "sg_status_t \<times> effect list"

definition VALBUFSZ :: nat where "VALBUFSZ = 128"
definition SG_PAYLOAD_MAX :: nat where "SG_PAYLOAD_MAX = 4096"

section \<open>Fields of an entry\<close>

text \<open>The value of a key in the text of an entry, cut to the buffer; empty if there is none.\<close>

definition extract_val :: "string option \<Rightarrow> string \<Rightarrow> nat \<Rightarrow> string" where
  "extract_val dat key outsz = (case dat of None \<Rightarrow> [] | Some d \<Rightarrow> if outsz = 0 then [] else kv_get_loop d key outsz)"

definition is_immutable :: "string option \<Rightarrow> bool" where
  "is_immutable existing = (case existing of None \<Rightarrow> False | Some d \<Rightarrow> extract_val (Some d) ''immutable'' VALBUFSZ = ''yes'')"

section \<open>Permissions\<close>

definition get_user_permissions :: "string \<Rightarrow> string dbop" where
  "get_user_permissions user =
     (if user = ''__webd'' then ret ''monitor''
      else do {
        user_data \<leftarrow> sg_db_get (Some ''system_admin'') (Some user);
        case user_data of
          None \<Rightarrow> ret ''monitor''
        | Some ud \<Rightarrow>
            (let prof_name = extract_val (Some ud) ''profile'' VALBUFSZ
             in if prof_name = [] then ret ''monitor''
                else do {
                  prof_data \<leftarrow> sg_db_get (Some ''system_admin-profile'') (Some prof_name);
                  case prof_data of
                    None \<Rightarrow> ret ''monitor''
                  | Some pd \<Rightarrow>
                      (let perms = extract_val (Some pd) ''permissions'' 256
                       in ret (if perms \<noteq> [] then perms else ''monitor'')) }) })"

text \<open>The loop over the words of a list with commas; empty words are skipped.\<close>

definition has_permission :: "string option \<Rightarrow> string option \<Rightarrow> bool" where
  "has_permission perms_csv perm = (case (perms_csv, perm) of
      (Some ps, Some p) \<Rightarrow> p \<in> set (strtok_all (CHR '','') ps)
    | _ \<Rightarrow> False)"

definition get_type_permission :: "string \<Rightarrow> string option" where
  "get_type_permission t = sg_reg_type_perm (Some t)"

text \<open>The check the commands that change an entry share: the error, or nothing if the user may go on.\<close>

definition check_permission :: "string \<Rightarrow> string \<Rightarrow> sg_status_t option dbop" where
  "check_permission user t = (case get_type_permission t of
      None \<Rightarrow> ret (Some SG_ERR_INVALID_ARG)
    | Some req \<Rightarrow> do {
        perms \<leftarrow> get_user_permissions user;
        ret (if req = ''admin''
             then (if \<not> has_permission (Some perms) (Some ''admin'') then Some SG_ERR_PERM_DENIED else None)
             else if \<not> has_permission (Some perms) (Some ''configure'') \<and> \<not> has_permission (Some perms) (Some ''admin'')
             then Some SG_ERR_PERM_DENIED else None) })"

section \<open>References\<close>

text \<open>How many lines a result of the search has.\<close>

definition count_lines :: "string option \<Rightarrow> nat" where
  "count_lines found = (case found of
      None \<Rightarrow> 0
    | Some s \<Rightarrow> (let cnt = length (filter (\<lambda>c. c = CHR 0x0A) s) in if cnt = 0 \<and> s \<noteq> [] then 1 else cnt))"

fun count_references :: "(string list \<Rightarrow> string list) \<Rightarrow> (string \<times> string) list \<Rightarrow> string \<Rightarrow> nat dbop" where
  "count_references scan [] i = ret 0"
| "count_references scan (r # rs) i = do {
     found \<leftarrow> sg_db_find_referencing scan (Some (fst r)) (Some (snd r)) (Some i);
     n \<leftarrow> count_references scan rs i;
     ret (count_lines found + n) }"

definition check_references :: "(string list \<Rightarrow> string list) \<Rightarrow> string \<Rightarrow> string \<Rightarrow> int dbop" where
  "check_references scan t i = do {
     total \<leftarrow> count_references scan (sg_reg_find_referencing (Some t) 16) i;
     ret (if total > 0 then -1 else 0) }"

section \<open>Checking the text of an entry\<close>

definition internal_key :: "string \<Rightarrow> bool" where
  "internal_key key \<longleftrightarrow> key = ''builtin'' \<or> key = ''immutable'' \<or> key = ''password-hash'' \<or> key = ''id''"

text \<open>A line without an equals sign is passed over.\<close>

definition validate_line :: "string \<Rightarrow> string \<Rightarrow> sg_status_t" where
  "validate_line t l = (case strchr l (CHR ''='') of
      None \<Rightarrow> SG_OK
    | Some klen \<Rightarrow>
        (let key = take klen l; val = drop (Suc klen) l
         in if klen \<ge> 64 then SG_ERR_INVALID_ARG
            else if length val \<ge> SG_PAYLOAD_MAX then SG_ERR_INVALID_VAL
            else if internal_key key then SG_OK
            else if \<not> sg_reg_is_valid_key (Some t) (Some key) then SG_ERR_INVALID_ARG
            else if val = [] \<and> sg_reg_is_optional (Some t) (Some key) then SG_OK
            else if \<not> sg_reg_validate_value (Some t) (Some key) (Some val) then SG_ERR_INVALID_VAL
            else SG_OK))"

fun validate_lines :: "string \<Rightarrow> string list \<Rightarrow> sg_status_t" where
  "validate_lines t [] = SG_OK"
| "validate_lines t (l # ls) = (if validate_line t l \<noteq> SG_OK then validate_line t l else validate_lines t ls)"

definition validate_cfg_fields :: "string \<Rightarrow> string \<Rightarrow> sg_status_t" where
  "validate_cfg_fields t dat = validate_lines t (strtok_all (CHR 0x0A) dat)"

definition required_missing :: "string \<Rightarrow> string \<Rightarrow> bool" where
  "required_missing dat tok \<longleftrightarrow> tok \<noteq> ''name'' \<and> tok \<noteq> ''id'' \<and> \<not> list_ex (line_has tok) (strtok_all (CHR 0x0A) dat)"

definition validate_cfg_data :: "string \<Rightarrow> string \<Rightarrow> nat \<Rightarrow> sg_status_t" where
  "validate_cfg_data t dat errsz =
     (let st = validate_cfg_fields t dat
      in if st \<noteq> SG_OK then st
         else if list_ex (required_missing dat) (strtok_all (CHR '' '') (take 511 (sg_reg_required_keys (Some t)))) then SG_ERR_MISSING_ARG
         else if fst (sg_check_entry_semantics (Some t) (Some dat) errsz) \<noteq> 0 then SG_ERR_INVALID_ARG
         else SG_OK)"

text \<open>Whether the value of a line has to be the identifier of an entry, and of which type.\<close>

definition line_ref :: "string \<Rightarrow> string \<Rightarrow> (string \<times> string) option" where
  "line_ref t l = (case strchr l (CHR ''='') of
      None \<Rightarrow> None
    | Some klen \<Rightarrow>
        (let key = take klen l; val = drop (Suc klen) l
         in if klen = 0 \<or> klen \<ge> 64 \<or> val = [] \<or> length val \<ge> VALBUFSZ \<or> internal_key key then None
            else (let kind = sg_reg_value_kind (Some t) (Some key)
                  in case sg_parse_ref_kind (Some kind) 64 64 of
                       None \<Rightarrow> None
                     | Some (ref_type, opts) \<Rightarrow>
                         if opts \<noteq> [] \<and> sg_match_csv_option (Some opts) (Some val) then None
                         else if starts ''ref-or-cidr:'' kind \<and> sg_is_cidr (Some val) then None
                         else Some (ref_type, val))))"

fun ref_lines :: "string \<Rightarrow> string list \<Rightarrow> sg_status_t dbop" where
  "ref_lines t [] = ret SG_OK"
| "ref_lines t (l # ls) = (case line_ref t l of
      None \<Rightarrow> ref_lines t ls
    | Some (ref_type, val) \<Rightarrow> do {
        entry \<leftarrow> sg_db_get (Some ref_type) (Some val);
        case entry of None \<Rightarrow> ret SG_ERR_NOT_FOUND | Some _ \<Rightarrow> ref_lines t ls })"

definition validate_ref_existence :: "bool \<Rightarrow> string \<Rightarrow> string \<Rightarrow> sg_status_t dbop" where
  "validate_ref_existence replaying t dat = (if replaying then ret SG_OK else ref_lines t (strtok_all (CHR 0x0A) dat))"

section \<open>Deleting an entry\<close>

text \<open>The argument list of the command that takes a static route away.\<close>

definition route_del_argv :: "string \<Rightarrow> string \<Rightarrow> string \<Rightarrow> string \<Rightarrow> string list" where
  "route_del_argv dst gw dev dist =
     [''ip'', ''route'', ''del'', dst] @ (if gw \<noteq> [] then [''via'', gw] else []) @
     (if dev \<noteq> [] then [''dev'', dev] else []) @ (if dist \<noteq> [] then [''metric'', dist] else [])"

text \<open>What is undone outside the store before the entry goes.\<close>

definition del_unapply :: "string \<Rightarrow> string \<Rightarrow> effect list dbop" where
  "del_unapply t i =
     (if t = ''network_route_static'' then do {
        dat \<leftarrow> sg_db_get (Some t) (Some i);
        ret (case dat of
            None \<Rightarrow> []
          | Some d \<Rightarrow>
              (let dst = extract_val (Some d) ''dst'' VALBUFSZ; gw = extract_val (Some d) ''gateway'' VALBUFSZ;
                   dev = extract_val (Some d) ''device'' VALBUFSZ; dist = extract_val (Some d) ''distance'' VALBUFSZ
               in if dst \<noteq> [] \<and> sg_is_cidr (Some dst) then [Safe_Exec (route_del_argv dst gw dev dist)] else [])) }
      else if t = ''network_dhcp-server'' then ret [Unapply_Dhcp i]
      else if t = ''firewall_address'' then do {
        adata \<leftarrow> sg_db_get (Some t) (Some i);
        ret (if adata \<noteq> None \<and> extract_val adata ''type'' VALBUFSZ = ''fqdn'' then [Fqdn_Object_Removed i] else []) }
      else if t = ''system_certificate'' then ret [Remove_Certificate_Files i]
      else ret [])"

definition del_cmkid :: "string \<Rightarrow> string \<Rightarrow> u32 dbop" where
  "del_cmkid t i =
     (if t = ''firewall_policy'' then do {
        pdata \<leftarrow> sg_db_get (Some t) (Some i);
        ret (case pdata of None \<Rightarrow> 0 | Some d \<Rightarrow> word_of_int (atoi (extract_val (Some d) ''cmkid'' VALBUFSZ))) }
      else ret 0)"

text \<open>
  Deleting a profile of the intrusion prevention deletes its filters: those whose identifier starts with the profile's and a slash. The prefix
  is formatted into 24 bytes, and the comparison runs over the length it would have had.
\<close>

fun del_filters :: "string \<Rightarrow> nat \<Rightarrow> string list \<Rightarrow> unit dbop" where
  "del_filters pfx plen [] = ret ()"
| "del_filters pfx plen (fid # fids) =
     (if take plen fid = take plen pfx
      then do { _ \<leftarrow> sg_db_del (Some ''security_ips-filter'') (Some fid); del_filters pfx plen fids }
      else del_filters pfx plen fids)"

definition del_children :: "string \<Rightarrow> string \<Rightarrow> unit dbop" where
  "del_children t i =
     (if t = ''security_ips-profile'' then do {
        fl \<leftarrow> sg_db_list (Some ''security_ips-filter'');
        case fl of
          None \<Rightarrow> ret ()
        | Some l \<Rightarrow> del_filters (take 23 (i @ ''/'')) (length i + 1) (strtok_all (CHR 0x0A) l) }
      else ret ())"

definition del_rebuild :: "string \<Rightarrow> u32 \<Rightarrow> effect list" where
  "del_rebuild t cmkid =
     (if t = ''firewall_policy'' then [Rebuild_Forward_Chain, Rebuild_Nat_Chains, Conntrack_Reeval cmkid, Rebuild_Ips_Active]
      else if t = ''security_ips-filter'' \<or> t = ''security_ips-profile'' then [Rebuild_Ips_Active]
      else if t = ''network_nat'' \<or> t = ''security_ssl-inspection-profile'' then [Rebuild_Nat_Chains]
      else if t = ''network_route_static'' then [Conntrack_Reeval 0]
      else [])"

text \<open>The part of the command after all checks have passed.\<close>

definition del_entry :: "string \<Rightarrow> string \<Rightarrow> reply dbop" where
  "del_entry t i = do {
     let adm = (if t = ''system_admin'' then [Session_Tag_Purge_User i, Delete_System_User i] else []);
     un \<leftarrow> del_unapply t i;
     cmkid \<leftarrow> del_cmkid t i;
     del_children t i;
     rc \<leftarrow> sg_db_del (Some t) (Some i);
     ret (if rc \<noteq> 0 then (SG_ERR_IO_FAIL, adm @ un) else (SG_OK, adm @ un @ del_rebuild t cmkid)) }"

text \<open>The checks on the entry itself: it exists, it is neither built in nor immutable, and nothing refers to it.\<close>

definition check_deletable :: "(string list \<Rightarrow> string list) \<Rightarrow> string \<Rightarrow> string \<Rightarrow> sg_status_t option dbop" where
  "check_deletable scan t i = do {
     existing \<leftarrow> sg_db_get (Some t) (Some i);
     case existing of
       None \<Rightarrow> ret (Some SG_ERR_ENTRY_NOT_FOUND)
     | Some d \<Rightarrow>
         if extract_val (Some d) ''builtin'' VALBUFSZ = ''yes'' then ret (Some SG_ERR_BUILTIN)
         else if is_immutable (Some d) then ret (Some SG_ERR_BUILTIN)
         else do {
           refs \<leftarrow> check_references scan t i;
           ret (if refs \<noteq> 0 then Some SG_ERR_IN_USE else None) } }"

definition handle_cfg_del :: "(string list \<Rightarrow> string list) \<Rightarrow> string \<Rightarrow> string option \<Rightarrow> reply dbop" where
  "handle_cfg_del scan user payload = (case payload of
      None \<Rightarrow> ret (SG_ERR_MISSING_ARG, [])
    | Some p \<Rightarrow>
        if p = [] then ret (SG_ERR_MISSING_ARG, [])
        else (let s0 = take 255 p; section = (if s0 \<noteq> [] \<and> last s0 = CHR 0x0A then butlast s0 else s0)
              in if CHR '':'' \<notin> set section then ret (SG_ERR_INVALID_ARG, [])
                 else (let (t, i) = sg_db_parse_section section 256 256
                       in if sg_reg_type_mode (Some t) < 0 then ret (SG_ERR_INVALID_ARG, [])
                          else do {
                            denied \<leftarrow> check_permission user t;
                            case denied of
                              Some e \<Rightarrow> ret (e, [])
                            | None \<Rightarrow>
                                if i = [] then ret (SG_ERR_INVALID_ARG, [])
                                else if \<not> sg_reg_validate_entry_id (Some t) (Some i) then ret (SG_ERR_INVALID_ARG, [])
                                else do {
                                  refused \<leftarrow> check_deletable scan t i;
                                  case refused of Some e \<Rightarrow> ret (e, []) | None \<Rightarrow> del_entry t i } })))"

section \<open>Moving an entry\<close>

text \<open>The payload is the entry, a line end and the new number.\<close>

definition handle_cfg_insert :: "string \<Rightarrow> string option \<Rightarrow> reply dbop" where
  "handle_cfg_insert user payload = (case payload of
      None \<Rightarrow> ret (SG_ERR_MISSING_ARG, [])
    | Some p \<Rightarrow>
        if p = [] then ret (SG_ERR_MISSING_ARG, [])
        else (case strchr p (CHR 0x0A) of
            None \<Rightarrow> ret (SG_ERR_INVALID_ARG, [])
          | Some nl \<Rightarrow>
              (let section = take (min nl 255) p; new_seq = atoi (drop (Suc nl) p)
               in if new_seq < 1 \<or> new_seq > 9999 then ret (SG_ERR_INVALID_VAL, [])
                  else (let (t, i) = sg_db_parse_section section 256 256
                        in if \<not> seq_type_is_orderable (Some t) then ret (SG_ERR_INVALID_ARG, [])
                           else do {
                             denied \<leftarrow> check_permission user t;
                             case denied of
                               Some e \<Rightarrow> ret (e, [])
                             | None \<Rightarrow> do {
                                 entry_data \<leftarrow> sg_db_get (Some t) (Some i);
                                 case entry_data of
                                   None \<Rightarrow> ret (SG_ERR_ENTRY_NOT_FOUND, [])
                                 | Some d \<Rightarrow>
                                     if extract_val (Some d) ''builtin'' VALBUFSZ = ''yes'' \<or> is_immutable (Some d) then ret (SG_ERR_BUILTIN, [])
                                     else if t = ''firewall_policy'' \<and> new_seq \<le> 1 then ret (SG_ERR_INVALID_ARG, [])
                                     else (let old_seq_str = extract_val (Some d) ''sequence'' VALBUFSZ;
                                               old_seq = (if old_seq_str \<noteq> [] then atoi old_seq_str else 0)
                                           in if old_seq = new_seq then ret (SG_OK, [])
                                              else do {
                                                _ \<leftarrow> move_entry t i old_seq new_seq;
                                                ret (SG_OK, if t = ''firewall_policy'' then [Rebuild_Forward_Chain, Conntrack_Reeval 0]
                                                            else [Rebuild_Nat_Chains]) }) } }))))"

section \<open>Renaming an entry\<close>

text \<open>
  Addresses and services have their name as identifier. An entry written with another name is renamed: it is stored under the new name, every field that
  refers to it is changed, and the old entry goes, all in one transaction. The flags say whether the rules of the firewall and of the address translation
  have to be rebuilt; the lines of the audit log are written after the commit.
\<close>

definition rename_audit :: "string \<Rightarrow> string \<Rightarrow> string \<Rightarrow> string \<Rightarrow> string \<Rightarrow> string \<Rightarrow> string" where
  "rename_audit et eid t old new key = take 511 (''OK '' @ take 32 et @ '':'' @ take 32 eid @ '' (rename cascade '' @ take 32 t @ '':'' @ take 32 old @
     ''->'' @ take 32 new @ ''): '' @ take 32 key @ '' updated'')"

record rename_acc =
  need_fw_rebuild :: bool
  need_nat_rebuild :: bool
  caud :: "string list"

text \<open>The entries one search has found, and the searches for all fields that refer to the type. No result is a failed write.\<close>

fun cascade_entries :: "string \<Rightarrow> string \<Rightarrow> string \<Rightarrow> string \<Rightarrow> string list \<Rightarrow> rename_acc \<Rightarrow> rename_acc option dbop" where
  "cascade_entries t old new key [] acc = ret (Some acc)"
| "cascade_entries t old new key (e # es) acc =
     (let (et, eid) = sg_db_parse_section e 256 256
      in do {
        rc \<leftarrow> sg_db_set_val (Some et) (Some eid) (Some key) (Some new);
        if rc \<noteq> 0 then ret None
        else cascade_entries t old new key es
          \<lparr>need_fw_rebuild = need_fw_rebuild acc \<or> et = ''firewall_policy'', need_nat_rebuild = need_nat_rebuild acc \<or> et = ''network_nat'',
           caud = caud acc @ [rename_audit et eid t old new key]\<rparr> })"

fun cascade_refs :: "(string list \<Rightarrow> string list) \<Rightarrow> string \<Rightarrow> string \<Rightarrow> string \<Rightarrow> (string \<times> string) list \<Rightarrow> rename_acc \<Rightarrow> rename_acc option dbop" where
  "cascade_refs scan t old new [] acc = ret (Some acc)"
| "cascade_refs scan t old new (r # rs) acc = do {
     found \<leftarrow> sg_db_find_referencing scan (Some (fst r)) (Some (snd r)) (Some old);
     case found of
       None \<Rightarrow> cascade_refs scan t old new rs acc
     | Some f \<Rightarrow> do {
         res \<leftarrow> cascade_entries t old new (snd r) (strtok_all (CHR 0x0A) f) acc;
         case res of None \<Rightarrow> ret None | Some acc' \<Rightarrow> cascade_refs scan t old new rs acc' } }"

definition rename_effects :: "string \<Rightarrow> string \<Rightarrow> string \<Rightarrow> rename_acc \<Rightarrow> effect list" where
  "rename_effects t old dat acc =
     map Audit_Log (caud acc) @ (if need_fw_rebuild acc then [Rebuild_Forward_Chain, Conntrack_Reeval 0] else []) @
     (if need_nat_rebuild acc then [Rebuild_Nat_Chains] else []) @
     (if t = ''firewall_address'' \<and> extract_val (Some dat) ''type'' VALBUFSZ = ''fqdn'' then [Fqdn_Object_Removed old, Fqdn_Refresh_Kick] else [])"

definition rename_failed :: "reply dbop" where
  "rename_failed = do { _ \<leftarrow> sg_db_rollback; ret (SG_ERR_IO_FAIL, []) }"

text \<open>What happens between the begin and the end of the transaction.\<close>

definition rename_inside :: "(string list \<Rightarrow> string list) \<Rightarrow> string \<Rightarrow> string \<Rightarrow> string \<Rightarrow> string \<Rightarrow> reply dbop" where
  "rename_inside scan t old new dat = do {
     rc \<leftarrow> sg_db_set (Some t) (Some new) (Some dat);
     if rc \<noteq> 0 then rename_failed
     else do {
       res \<leftarrow> cascade_refs scan t old new (sg_reg_find_referencing (Some t) 16) \<lparr>need_fw_rebuild = False, need_nat_rebuild = False, caud = []\<rparr>;
       case res of
         None \<Rightarrow> rename_failed
       | Some acc \<Rightarrow> do {
           rc \<leftarrow> sg_db_del (Some t) (Some old);
           if rc \<noteq> 0 then rename_failed
           else do {
             rc \<leftarrow> sg_db_commit;
             if rc \<noteq> 0 then rename_failed else ret (SG_OK, rename_effects t old dat acc) } } } }"

definition rename_entry :: "(string list \<Rightarrow> string list) \<Rightarrow> string \<Rightarrow> string \<Rightarrow> string \<Rightarrow> string \<Rightarrow> reply dbop" where
  "rename_entry scan t old new dat = do {
     conflict \<leftarrow> sg_db_get (Some t) (Some new);
     if conflict \<noteq> None then ret (SG_ERR_INVALID_VAL, [])
     else do {
       rc \<leftarrow> sg_db_begin;
       if rc \<noteq> 0 then ret (SG_ERR_IO_FAIL, []) else rename_inside scan t old new dat } }"

text \<open>The part of a write that decides on a rename: no answer means that the write goes on.\<close>

definition rename_stage :: "(string list \<Rightarrow> string list) \<Rightarrow> bool \<Rightarrow> string \<Rightarrow> string \<Rightarrow> string \<Rightarrow> reply option dbop" where
  "rename_stage scan is_new_entry t i dat =
     (let new_name = extract_val (Some dat) ''name'' VALBUFSZ
      in if \<not> is_new_entry \<and> (t = ''firewall_service'' \<or> t = ''firewall_address'') \<and> new_name \<noteq> [] \<and> new_name \<noteq> i
         then do { r \<leftarrow> rename_entry scan t i new_name dat; ret (Some r) }
         else ret None)"

end
