(* ===== verification/Validate_Correct.thy ===== *)
theory Validate_Correct
  imports Validate
begin

text \<open>
  What the validators accept, stated with reference notions that do not scan: splitting at a separator, the value of a
  string of digits, classes of characters. Every validator but the one for free text accepts strings over a
  fixed harmless alphabet only, which is what the callers that put values into commands rely on.
\<close>

section \<open>Splitting and joining\<close>

fun split_on :: "char \<Rightarrow> string \<Rightarrow> string list" where
  "split_on d [] = [[]]"
| "split_on d (c # s) = (if c = d then [] # split_on d s else (c # hd (split_on d s)) # tl (split_on d s))"

fun join :: "char \<Rightarrow> string list \<Rightarrow> string" where
  "join d [] = []"
| "join d [x] = x"
| "join d (x # y # xs) = x @ d # join d (y # xs)"

lemma split_on_Nil [simp]: "split_on d s \<noteq> []"
  by (induction s) auto

lemma join_Cons: "xs \<noteq> [] \<Longrightarrow> join d (x # xs) = x @ d # join d xs"
  by (cases xs) auto

lemma join_split: "join d (split_on d s) = s"
proof (induction s)
  case (Cons c s)
  then show ?case by (cases "split_on d s"; cases "tl (split_on d s)") (auto simp: join_Cons)
qed simp

lemma split_append: "d \<notin> set xs \<Longrightarrow> split_on d (xs @ ys) = (xs @ hd (split_on d ys)) # tl (split_on d ys)"
  by (induction xs) auto

lemma split_none: "d \<notin> set xs \<Longrightarrow> split_on d xs = [xs]"
  using split_append [of d xs "[]"] by simp

lemma split_sep: "d \<notin> set xs \<Longrightarrow> split_on d (xs @ d # ys) = xs # split_on d ys"
  by (simp add: split_append)

lemma split_join: "xs \<noteq> [] \<Longrightarrow> list_all (\<lambda>x. d \<notin> set x) xs \<Longrightarrow> split_on d (join d xs) = xs"
  by (induction d xs rule: join.induct) (simp_all add: split_none split_sep)

lemma split_no_sep: "x \<in> set (split_on d s) \<Longrightarrow> d \<notin> set x"
proof (induction s arbitrary: x)
  case (Cons c s)
  then show ?case by (cases "split_on d s") (auto split: if_splits)
qed simp

lemma split_takeWhile:
  "split_on d s = takeWhile (\<lambda>c. c \<noteq> d) s #
     (case dropWhile (\<lambda>c. c \<noteq> d) s of [] \<Rightarrow> [] | _ # r \<Rightarrow> split_on d r)"
  by (induction s) auto

section \<open>Numbers\<close>

lemma strtol_digits:
  assumes "s \<noteq> []" "list_all is_digit s"
  shows "strtol_value 10 s = min (2 ^ 63 - 1) (int (digits_value 10 s))"
proof -
  have c: "\<not> is_space c \<and> c \<noteq> CHR ''-'' \<and> c \<noteq> CHR ''+'' \<and> digit_val c < 10" if "is_digit c" for c
    using that by (auto simp: is_digit_def is_space_def digit_val_def code_def)
  obtain x xs where s: "s = x # xs" using assms(1) by (cases s) auto
  have sp: "dropWhile is_space s = s" and sg: "take_sign s = (False, s)"
    using c [of x] assms(2) s by (auto simp: take_sign_def)
  have "\<forall>y \<in> set s. digit_val y < 10" using c assms(2) by (auto simp: list_all_iff)
  then have t: "takeWhile (\<lambda>c. digit_val c < 10) s = s" by (simp only: takeWhile_eq_all_conv)
  have "scan_number 10 s = Some (False, digits_value 10 s, dropWhile (\<lambda>c. digit_val c < 10) s)"
    using assms(1) by (simp add: scan_number_def take_base_def Let_def sp sg t)
  then show ?thesis by (simp add: strtol_value_def strtol_def)
qed

text \<open>The decimal numbers of a range, as \<open>sg_is_uint_range\<close> accepts them.\<close>

definition number_in :: "nat \<Rightarrow> nat \<Rightarrow> string \<Rightarrow> bool" where
  "number_in mn mx s \<longleftrightarrow> s \<noteq> [] \<and> list_all is_digit s \<and> mn \<le> digits_value 10 s \<and> digits_value 10 s \<le> mx"

lemma uint_range_iff:
  assumes "mx < 2 ^ 63 - 1"
  shows "sg_is_uint_range (Some s) (int mn) (int mx) \<longleftrightarrow> number_in mn mx s"
proof (cases "s \<noteq> [] \<and> list_all is_digit s")
  case True
  then show ?thesis using assms strtol_digits [of s] by (auto simp: sg_is_uint_range_def number_in_def min_def)
qed (auto simp: sg_is_uint_range_def number_in_def)

lemma uint_range_digits: "sg_is_uint_range (Some s) mn mx \<Longrightarrow> s \<noteq> [] \<and> list_all is_digit s"
  by (auto simp: sg_is_uint_range_def split: if_splits)

section \<open>Addresses\<close>

definition octet :: "string \<Rightarrow> bool" where
  "octet ds \<longleftrightarrow> ds \<noteq> [] \<and> length ds \<le> 3 \<and> list_all is_digit ds \<and> digits_value 10 ds \<le> 255"

lemma octet_loop_eq:
  "d \<le> 3 \<Longrightarrow> octet_loop p v d =
     (let ds = takeWhile is_digit p in
      if length ds + d \<le> 3 then Some (foldl (\<lambda>v c. v * 10 + digit_val c) v ds, dropWhile is_digit p) else None)"
  by (induction p v d rule: octet_loop.induct) (auto simp: Let_def digit_val_def)

lemma dot_not_digit [simp]: "\<not> is_digit (CHR ''.'')" "\<not> is_digit (CHR ''/'')" "\<not> is_digit (CHR ''-'')" "\<not> is_digit (CHR '','')"
  by (simp_all add: is_digit_def code_def)

lemma octet_append: "\<not> is_digit c \<Longrightarrow> \<not> octet (xs @ c # ys)"
  by (simp add: octet_def)

text \<open>A string is its leading digits and a rest that does not start with a digit.\<close>

definition at_end :: "string \<Rightarrow> bool" where
  "at_end r \<longleftrightarrow> r = [] \<or> \<not> is_digit (hd r)"

lemma leading_digits:
  obtains ds r where "p = ds @ r" "list_all is_digit ds" "at_end r"
proof
  show "p = takeWhile is_digit p @ dropWhile is_digit p" by simp
  show "list_all is_digit (takeWhile is_digit p)" by (auto simp: list_all_iff dest: set_takeWhileD)
  show "at_end (dropWhile is_digit p)" unfolding at_end_def using hd_dropWhile by blast
qed

lemma octet_loop_digits:
  assumes "list_all is_digit ds" "at_end r"
  shows "octet_loop (ds @ r) 0 0 = (if length ds \<le> 3 then Some (digits_value 10 ds, r) else None)"
proof -
  have "takeWhile is_digit (ds @ r) = ds \<and> dropWhile is_digit (ds @ r) = r"
    using assms by (cases r) (auto simp: at_end_def list_all_iff takeWhile_append dropWhile_append)
  then show ?thesis by (simp add: octet_loop_eq Let_def digits_value_def)
qed

lemma ipv4_loop_digits:
  assumes "list_all is_digit ds" "at_end r"
  shows "ipv4_loop (ds @ r) n \<longleftrightarrow>
    (if ds = [] then r = [] \<and> n = 4
     else octet ds \<and> (if n < 3 then r \<noteq> [] \<and> hd r = CHR ''.'' \<and> ipv4_loop (tl r) (n + 1) else ipv4_loop r (n + 1)))"
proof (cases ds)
  case Nil
  then show ?thesis using assms(2) by (cases r) (auto simp: ipv4_loop.simps at_end_def)
next
  case (Cons c q)
  then have o: "octet_loop (c # q @ r) 0 0 = (if length ds \<le> 3 then Some (digits_value 10 ds, r) else None)"
    using octet_loop_digits [OF assms] by simp
  have "octet ds \<longleftrightarrow> length ds \<le> 3 \<and> digits_value 10 ds \<le> 255" using assms(1) Cons by (simp add: octet_def)
  then show ?thesis
    using assms(1) Cons unfolding ipv4_loop.simps [of "ds @ r" n]
    by (auto simp: o simp del: octet_loop.simps split: list.split)
qed

lemma split_digits:
  assumes "list_all is_digit ds"
  shows "split_on (CHR ''.'') (ds @ r) =
    (if r = [] then [ds] else if hd r = CHR ''.'' then ds # split_on (CHR ''.'') (tl r)
     else (ds @ hd r # hd (split_on (CHR ''.'') (tl r))) # tl (split_on (CHR ''.'') (tl r)))"
proof -
  have "CHR ''.'' \<notin> set ds" using assms dot_not_digit(1) by (auto simp: list_all_iff)
  then show ?thesis by (cases r) (auto simp: split_append split_none)
qed

lemma ipv4_loop_iff:
  "n \<le> 3 \<Longrightarrow> ipv4_loop p n \<longleftrightarrow> length (split_on (CHR ''.'') p) + n = 4 \<and> list_all octet (split_on (CHR ''.'') p)"
proof (induction "3 - n" arbitrary: n p)
  case 0
  obtain ds r where p: "p = ds @ r" "list_all is_digit ds" "at_end r" by (rule leading_digits)
  have "ipv4_loop r 4 \<longleftrightarrow> r = []" using ipv4_loop_digits [of "[]" r 4] p(3) by simp
  then show ?case
    using 0 p ipv4_loop_digits [OF p(2,3), of n] octet_append
    by (auto simp: split_digits at_end_def octet_def)
next
  case (Suc m)
  obtain ds r where p: "p = ds @ r" "list_all is_digit ds" "at_end r" by (rule leading_digits)
  have IH: "ipv4_loop (tl r) (n + 1) \<longleftrightarrow>
      length (split_on (CHR ''.'') (tl r)) + (n + 1) = 4 \<and> list_all octet (split_on (CHR ''.'') (tl r))"
    using Suc.hyps(1) [of "n + 1" "tl r"] Suc.hyps(2) by auto
  have no: "r = [] \<or> \<not> octet (ds @ hd r # ys)" for ys using p(3) octet_append by (auto simp: at_end_def)
  have nil: "\<not> octet []" by (simp add: octet_def)
  show ?case
    using Suc.hyps(2) p(1) ipv4_loop_digits [OF p(2,3), of n] IH no nil by (auto simp: split_digits [OF p(2)])
qed

lemma sg_is_ipv4_iff: "sg_is_ipv4 (Some s) \<longleftrightarrow> length (split_on (CHR ''.'') s) = 4 \<and> list_all octet (split_on (CHR ''.'') s)"
  using ipv4_loop_iff [of 0 s] by (auto simp: sg_is_ipv4_def)

lemma octet_chars: "octet ds \<Longrightarrow> set ds \<subseteq> {c. is_digit c}"
  by (auto simp: octet_def list_all_iff)

lemma join_chars: "set (join d xs) \<subseteq> insert d (\<Union>(set ` set xs))"
  by (induction d xs rule: join.induct) auto

lemma ipv4_chars: "sg_is_ipv4 (Some s) \<Longrightarrow> c \<in> set s \<Longrightarrow> c = CHR ''.'' \<or> is_digit c"
  using join_chars [of "CHR ''.''" "split_on (CHR ''.'') s"] octet_chars
  by (fastforce simp: sg_is_ipv4_iff list_all_iff join_split)

lemma ipv4_length:
  assumes "sg_is_ipv4 (Some s)"
  shows "length s \<le> 15"
proof -
  obtain a b c d where sp: "split_on (CHR ''.'') s = [a, b, c, d]"
    using assms by (auto simp: sg_is_ipv4_iff length_Suc_conv numeral_eq_Suc)
  then have "s = a @ CHR ''.'' # b @ CHR ''.'' # c @ CHR ''.'' # d" using join_split [of "CHR ''.''" s] by simp
  then have "length s = length a + length b + length c + length d + 3" by simp
  then show ?thesis using assms sp by (auto simp: sg_is_ipv4_iff octet_def)
qed

text \<open>The place of a character, and the two parts around it.\<close>

lemma strchr_split:
  "strchr s c = Some i \<longleftrightarrow> (\<exists>a b. s = a @ c # b \<and> c \<notin> set a \<and> i = length a)"
proof
  assume h: "strchr s c = Some i"
  then have c: "c \<in> set s" "i = length (takeWhile (\<lambda>x. x \<noteq> c) s)" by (auto simp: strchr_def split: if_splits)
  obtain a b where s: "s = a @ c # b" "c \<notin> set a" using split_list_first [OF c(1)] by auto
  have "takeWhile (\<lambda>x. x \<noteq> c) (a @ c # b) = a" using s(2) by (auto simp: takeWhile_append)
  then show "\<exists>a b. s = a @ c # b \<and> c \<notin> set a \<and> i = length a" using s c(2) by auto
next
  assume "\<exists>a b. s = a @ c # b \<and> c \<notin> set a \<and> i = length a"
  then obtain a b where s: "s = a @ c # b" "c \<notin> set a" "i = length a" by blast
  then have "takeWhile (\<lambda>x. x \<noteq> c) (a @ c # b) = a" by (auto simp: takeWhile_append)
  then show "strchr s c = Some i" using s by (simp add: strchr_def)
qed

lemma sg_is_cidr_iff:
  "sg_is_cidr (Some s) \<longleftrightarrow> (\<exists>ip len. s = ip @ ''/'' @ len \<and> sg_is_ipv4 (Some ip) \<and> number_in 0 32 len)"
proof
  assume h: "sg_is_cidr (Some s)"
  then obtain i where i: "strchr s (CHR ''/'') = Some i" by (auto simp: sg_is_cidr_def split: if_splits option.splits)
  then obtain a b where s: "s = a @ CHR ''/'' # b" "i = length a" by (auto simp: strchr_split)
  then show "\<exists>ip len. s = ip @ ''/'' @ len \<and> sg_is_ipv4 (Some ip) \<and> number_in 0 32 len"
    using h i uint_range_iff [of 32 b 0] by (auto simp: sg_is_cidr_def split: if_splits)
next
  assume "\<exists>ip len. s = ip @ ''/'' @ len \<and> sg_is_ipv4 (Some ip) \<and> number_in 0 32 len"
  then obtain ip len where s: "s = ip @ CHR ''/'' # len" "sg_is_ipv4 (Some ip)" "number_in 0 32 len" by auto
  have "CHR ''/'' \<notin> set ip" using ipv4_chars [OF s(2), of "CHR ''/''"] dot_not_digit(2) by auto
  then have i: "strchr s (CHR ''/'') = Some (length ip)" using s(1) by (auto simp: strchr_split)
  have "ip \<noteq> []" using s(2) by (auto simp: sg_is_ipv4_def)
  moreover have "length ip < 64" using ipv4_length [OF s(2)] by simp
  ultimately show "sg_is_cidr (Some s)"
    using i s uint_range_iff [of 32 len 0] by (auto simp: sg_is_cidr_def number_in_def)
qed

section \<open>Host names\<close>

definition label_char :: "char \<Rightarrow> bool" where
  "label_char c \<longleftrightarrow> is_alnum c \<or> c = CHR ''-''"

definition label :: "string \<Rightarrow> bool" where
  "label l \<longleftrightarrow> l \<noteq> [] \<and> length l \<le> 63 \<and> list_all label_char l \<and> hd l \<noteq> CHR ''-'' \<and> last l \<noteq> CHR ''-''"

text \<open>What the scan has checked of a label so far, and splitting with an open label.\<close>

definition open_label :: "string \<Rightarrow> bool" where
  "open_label l \<longleftrightarrow> length l \<le> 63 \<and> list_all label_char l \<and> (l \<noteq> [] \<longrightarrow> hd l \<noteq> CHR ''-'')"

fun split_acc :: "char \<Rightarrow> string \<Rightarrow> string \<Rightarrow> string list" where
  "split_acc d cur [] = [cur]"
| "split_acc d cur (c # s) = (if c = d then cur # split_acc d [] s else split_acc d (cur @ [c]) s)"

lemma split_acc_Nil [simp]: "split_acc d cur s \<noteq> []"
  by (induction d cur s rule: split_acc.induct) auto

lemma split_acc_eq: "split_acc d cur s = (cur @ hd (split_on d s)) # tl (split_on d s)"
  by (induction d cur s rule: split_acc.induct) auto

lemma split_acc_split: "split_acc d [] s = split_on d s"
  by (simp add: split_acc_eq)

lemma label_open: "label l \<longleftrightarrow> open_label l \<and> l \<noteq> [] \<and> last l \<noteq> CHR ''-''"
  by (auto simp: label_def open_label_def)

lemma split_acc_open: "\<not> open_label cur \<Longrightarrow> \<not> (list_all label (butlast (split_acc d cur p)) \<and> open_label (last (split_acc d cur p)))"
proof (induction d cur p rule: split_acc.induct)
  case (2 d cur c p)
  have "\<not> open_label (cur @ [c])" using 2(3) by (auto simp: open_label_def)
  then show ?case using 2 by (auto simp: label_open)
qed simp

lemma open_label_empty: "open_label []"
  by (simp add: open_label_def)

lemma open_label_snoc:
  "open_label cur \<Longrightarrow> c \<noteq> CHR ''.'' \<Longrightarrow>
   open_label (cur @ [c]) \<longleftrightarrow> length cur + 1 \<le> 63 \<and> (if c = CHR ''-'' then cur \<noteq> [] else is_digit c \<or> is_alpha c)"
  by (cases cur) (auto simp: open_label_def label_char_def is_alnum_def is_alpha_def is_digit_def is_upper_def is_lower_def code_def)

lemma fqdn_loop_eq:
  assumes "open_label cur" "cur \<noteq> [] \<longrightarrow> prev = last cur"
  shows "fqdn_loop prev p (length cur) dots (list_all is_digit cur) =
    (let ls = split_acc (CHR ''.'') cur p in
     if list_all label (butlast ls) \<and> open_label (last ls) \<and> (length ls = 1 \<or> last ls \<noteq> [])
     then Some (length (last ls), dots + (length ls - 1), list_all is_digit (last ls)) else None)"
  using assms
proof (induction p arbitrary: prev cur dots)
  case Nil
  then show ?case by simp
next
  case (Cons c p)
  show ?case
  proof (cases "c = CHR ''.''")
    case True
    have IH: "fqdn_loop (CHR ''.'') p 0 (dots + 1) True =
      (let ls = split_acc (CHR ''.'') [] p in
       if list_all label (butlast ls) \<and> open_label (last ls) \<and> (length ls = 1 \<or> last ls \<noteq> [])
       then Some (length (last ls), dots + 1 + (length ls - 1), list_all is_digit (last ls)) else None)"
      using Cons.IH [of "[]" "CHR ''.''" "dots + 1"] by (simp add: open_label_def)
    obtain l ls where sp: "split_acc (CHR ''.'') [] p = l # ls" by (cases "split_acc (CHR ''.'') [] p") auto
    have "p = [] \<Longrightarrow> l = [] \<and> ls = []" "ls = [] \<Longrightarrow> l = p"
      using sp join_split [of "CHR ''.''" p] by (auto simp: split_acc_split)
    then show ?thesis using True Cons.prems IH label_open [of cur] by (auto simp: sp Let_def split: if_splits)
  next
    case False
    have IH: "open_label (cur @ [c]) \<Longrightarrow> fqdn_loop c p (length cur + 1) dots (list_all is_digit (cur @ [c])) =
      (let ls = split_acc (CHR ''.'') (cur @ [c]) p in
       if list_all label (butlast ls) \<and> open_label (last ls) \<and> (length ls = 1 \<or> last ls \<noteq> [])
       then Some (length (last ls), dots + (length ls - 1), list_all is_digit (last ls)) else None)"
      using Cons.IH [of "cur @ [c]" c dots] by simp
    have nd: "is_digit c \<Longrightarrow> c \<noteq> CHR ''-''" "is_alpha c \<Longrightarrow> \<not> is_digit c" "\<not> is_digit (CHR ''-'')"
      by (auto simp: is_digit_def is_alpha_def is_upper_def is_lower_def code_def)
    show ?thesis
    proof (cases "open_label (cur @ [c])")
      case True
      then show ?thesis using IH [OF True] open_label_snoc [OF Cons.prems(1) False] False nd
        by (auto simp: Let_def split: if_splits)
    next
      case F: False
      have "fqdn_loop prev (c # p) (length cur) dots (list_all is_digit cur) = None"
        using F open_label_snoc [OF Cons.prems(1) False] False by (auto split: if_splits)
      then show ?thesis using split_acc_open [OF F, of "CHR ''.''" p] False by (auto simp: Let_def)
    qed
  qed
qed

lemma last_last_split: "last (split_on d s) \<noteq> [] \<Longrightarrow> last (last (split_on d s)) = last s"
proof (induction s)
  case (Cons c s)
  then show ?case by (cases "split_on d s"; cases "tl (split_on d s)"; cases s) (auto split: if_splits)
qed simp

definition host_name :: "string \<Rightarrow> bool" where
  "host_name s \<longleftrightarrow>
     (let ls = split_on (CHR ''.'') s
      in length s \<le> 253 \<and> 2 \<le> length ls \<and> list_all label ls \<and> \<not> list_all is_digit (last ls))"

lemma sg_is_fqdn_iff: "sg_is_fqdn (Some s) \<longleftrightarrow> host_name s"
proof -
  let ?ls = "split_on (CHR ''.'') s"
  have l: "fqdn_loop (CHR 0x00) s 0 0 True =
      (if list_all label (butlast ?ls) \<and> open_label (last ?ls) \<and> (length ?ls = 1 \<or> last ?ls \<noteq> [])
       then Some (length (last ?ls), length ?ls - 1, list_all is_digit (last ?ls)) else None)"
    using fqdn_loop_eq [OF open_label_empty, of "CHR 0x00" s 0] by (simp add: split_acc_split Let_def)
  have a: "list_all label ?ls \<longleftrightarrow> list_all label (butlast ?ls) \<and> label (last ?ls)"
  proof -
    obtain bl la where "?ls = bl @ [la]" by (metis append_butlast_last_id split_on_Nil)
    then show ?thesis by simp
  qed
  have n: "length ?ls = 1 \<or> length ?ls \<ge> 2" using split_on_Nil [of "CHR ''.''" s] by (cases ?ls; cases "tl ?ls") auto
  show ?thesis
  proof (cases "last ?ls = []")
    case True
    then show ?thesis using l a by (auto simp: sg_is_fqdn_def host_name_def label_def Let_def)
  next
    case False
    then have "last s = last (last ?ls)" "s \<noteq> []" using last_last_split [of "CHR ''.''" s] by auto
    then show ?thesis using l a n False
      by (auto simp: sg_is_fqdn_def host_name_def label_open Let_def SG_NET_TARGET_MAX_def)
  qed
qed

section \<open>Lists of tokens\<close>

lemma strtok_split: "strtok_all d s = filter (\<lambda>x. x \<noteq> []) (split_on d s)"
proof (induction d s rule: strtok_all.induct)
  case (1 d s)
  let ?p = "dropWhile (\<lambda>c. c = d) s"
  have skip: "filter (\<lambda>x. x \<noteq> []) (split_on d s) = filter (\<lambda>x. x \<noteq> []) (split_on d ?p)" by (induction s) auto
  show ?case
  proof (cases "?p = []")
    case True
    then have "strtok_all d s = []" by (subst strtok_all.simps) (simp add: Let_def)
    moreover have "filter (\<lambda>x. x \<noteq> []) (split_on d s) = []" unfolding skip True by simp
    ultimately show ?thesis by simp
  next
    case False
    define q where "q = ?p"
    then obtain c r where q: "q = c # r" "c \<noteq> d"
      using False hd_dropWhile [of "\<lambda>c. c = d" s] by (metis (full_types) list.exhaust list.sel(1))
    let ?a = "takeWhile (\<lambda>c. c \<noteq> d) q" and ?b = "dropWhile (\<lambda>c. c \<noteq> d) q"
    have st: "strtok_all d s = ?a # strtok_all d ?b"
      using False q_def by (subst strtok_all.simps) (simp add: Let_def)
    have IH: "strtok_all d ?b = filter (\<lambda>x. x \<noteq> []) (split_on d ?b)" using 1 [OF refl] False q_def by simp
    define b where "b = ?b"
    have "b = [] \<or> hd b = d" using hd_dropWhile [of "\<lambda>c. c \<noteq> d" q] b_def by blast
    then have "filter (\<lambda>x. x \<noteq> []) (split_on d q) = ?a # filter (\<lambda>x. x \<noteq> []) (split_on d b)"
      using q by (subst split_takeWhile, subst b_def [symmetric], cases b) simp_all
    then have "filter (\<lambda>x. x \<noteq> []) (split_on d q) = ?a # filter (\<lambda>x. x \<noteq> []) (split_on d ?b)" by (simp only: b_def)
    then show ?thesis using st IH skip q_def by simp
  qed
qed

lemma empty_later_token: "[] \<in> set (tl (split_on d s)) \<longleftrightarrow> s \<noteq> [] \<and> (last s = d \<or> strstr s [d, d] \<noteq> None)"
proof (induction s)
  case (Cons c s)
  have h: "hd (split_on d s) = [] \<longleftrightarrow> s = [] \<or> hd s = d" by (cases s) auto
  have "[] \<in> set (split_on d s) \<longleftrightarrow> hd (split_on d s) = [] \<or> [] \<in> set (tl (split_on d s))"
    by (cases "split_on d s") auto
  then show ?case using Cons h by (cases s) (auto split: if_splits)
qed simp

lemma empty_token:
  assumes "s \<noteq> []"
  shows "[] \<in> set (split_on d s) \<longleftrightarrow> hd s = d \<or> last s = d \<or> strstr s [d, d] \<noteq> None"
proof -
  have "hd (split_on d s) = [] \<longleftrightarrow> hd s = d" using assms by (cases s) auto
  moreover have "[] \<in> set (split_on d s) \<longleftrightarrow> hd (split_on d s) = [] \<or> [] \<in> set (tl (split_on d s))"
    by (cases "split_on d s") auto
  ultimately show ?thesis using assms by (simp add: empty_later_token)
qed

lemma sg_is_permissions_csv_iff:
  "sg_is_permissions_csv (Some s) \<longleftrightarrow> length s \<le> 256 \<and> list_all (\<lambda>t. t \<in> set sg_permissions_opts) (split_on (CHR '','') s)"
proof (cases "s = []")
  case True
  then show ?thesis by (simp add: sg_is_permissions_csv_def sg_permissions_opts_def)
next
  case False
  let ?ts = "split_on (CHR '','') s"
  have n: "[] \<notin> set sg_permissions_opts" by (simp add: sg_permissions_opts_def)
  show ?thesis
  proof (cases "[] \<in> set ?ts")
    case True
    then have "\<not> list_all (\<lambda>t. t \<in> set sg_permissions_opts) ?ts" using n by (auto simp: list_all_iff)
    then show ?thesis using True empty_token [OF False, of "CHR '',''"] False by (auto simp: sg_is_permissions_csv_def)
  next
    case ne: False
    then have "filter (\<lambda>x. x \<noteq> []) ?ts = ?ts" by (auto simp: filter_id_conv)
    then show ?thesis using ne empty_token [OF False, of "CHR '',''"] False
      by (simp add: sg_is_permissions_csv_def Let_def strtok_split)
  qed
qed

lemma sg_is_access_services_iff:
  "sg_is_access_services (Some s) \<longleftrightarrow> s = [] \<or>
     length s \<le> 256 \<and> strtok_all (CHR '' '') s \<noteq> [] \<and> list_all (\<lambda>t. t \<in> set sg_access_services_opts) (strtok_all (CHR '' '') s)"
  by (auto simp: sg_is_access_services_def Let_def)

section \<open>Ports\<close>

definition port_spec :: "string \<Rightarrow> bool" where
  "port_spec t \<longleftrightarrow> length t < 32 \<and>
     (number_in 1 65535 t \<or>
      (\<exists>a b. t = a @ ''-'' @ b \<and> length a < 16 \<and> number_in 1 65535 a \<and> number_in 1 65535 b \<and> digits_value 10 a \<le> digits_value 10 b))"

lemma number_no_dash: "number_in mn mx s \<Longrightarrow> CHR ''-'' \<notin> set s"
  using dot_not_digit(3) by (auto simp: number_in_def list_all_iff)

lemma port_range_iff:
  assumes "CHR ''-'' \<notin> set a"
  shows "sg_is_port_token (Some (a @ CHR ''-'' # b)) \<longleftrightarrow>
    length a < 16 \<and> number_in 1 65535 a \<and> number_in 1 65535 b \<and> digits_value 10 a \<le> digits_value 10 b"
proof -
  have i: "strchr (a @ CHR ''-'' # b) (CHR ''-'') = Some (length a)" using assms by (auto simp: strchr_split)
  have nb: "strchr b (CHR ''-'') = None \<longleftrightarrow> CHR ''-'' \<notin> set b" by (simp add: strchr_def)
  have d: "strtol_value 10 a \<le> strtol_value 10 b \<longleftrightarrow> digits_value 10 a \<le> digits_value 10 b"
    if "number_in 1 65535 a" "number_in 1 65535 b"
    using that strtol_digits [of a] strtol_digits [of b] by (auto simp: number_in_def)
  have u: "sg_is_uint_range (Some x) 1 65535 \<longleftrightarrow> number_in 1 65535 x" for x using uint_range_iff [of 65535 x 1] by simp
  have ne: "number_in 1 65535 x \<Longrightarrow> x \<noteq> []" for x by (simp add: number_in_def)
  show ?thesis
    using i nb d ne [of a] ne [of b] number_no_dash [of 1 65535 b] by (auto simp: sg_is_port_token_def Let_def u)
qed

lemma sg_is_port_token_iff:
  assumes "length t < 32"
  shows "sg_is_port_token (Some t) \<longleftrightarrow> port_spec t"
proof (cases "CHR ''-'' \<in> set t")
  case False
  then have s: "strchr t (CHR ''-'') = None" "\<nexists>a b. t = a @ ''-'' @ b" by (auto simp: strchr_def)
  show ?thesis using s assms uint_range_iff [of 65535 t 1]
    by (simp add: sg_is_port_token_def port_spec_def) (auto simp: number_in_def)
next
  case True
  then obtain a b where t: "t = a @ CHR ''-'' # b" "CHR ''-'' \<notin> set a" using split_list_first by fastforce
  have nn: "\<not> number_in 1 65535 t" using number_no_dash [of 1 65535 t] True by blast
  have uniq: "a' = a \<and> b' = b" if "t = a' @ ''-'' @ b'" "number_in 1 65535 a'" for a' b'
  proof -
    have "takeWhile (\<lambda>c. c \<noteq> CHR ''-'') t = a" using t by (auto simp: takeWhile_append)
    moreover have "takeWhile (\<lambda>c. c \<noteq> CHR ''-'') t = a'" using that(1) number_no_dash [OF that(2)] by (auto simp: takeWhile_append)
    ultimately show ?thesis using t(1) that(1) by simp
  qed
  show ?thesis using port_range_iff [OF t(2), of b] nn assms uniq t(1) unfolding port_spec_def by fastforce
qed

lemma csv_split: "split_on (CHR '','') p = csv_head p # (case csv_rest p of None \<Rightarrow> [] | Some r \<Rightarrow> split_on (CHR '','') r)"
  unfolding csv_head_def csv_rest_def split_takeWhile [of "CHR '',''" p]
  by (cases "dropWhile (\<lambda>c. c \<noteq> CHR '','') p") (simp_all only: list.case option.case)

lemma port_spec_ne: "port_spec t \<Longrightarrow> t \<noteq> []"
  by (auto simp: port_spec_def number_in_def)

text \<open>The tokens of a list, an empty last one left out.\<close>

definition port_tokens :: "string \<Rightarrow> string list" where
  "port_tokens s = (let ts = split_on (CHR '','') s in if last ts = [] then butlast ts else ts)"

lemma port_loop_iff: "port_loop p n \<longleftrightarrow> (p = [] \<or> length (port_tokens p) + n \<le> 15 \<and> list_all port_spec (port_tokens p))"
proof (induction p n rule: port_loop.induct)
  case (1 p n)
  show ?case
  proof (cases "p = []")
    case False
    obtain ts where ts: "split_on (CHR '','') p = csv_head p # ts" "ts = (case csv_rest p of None \<Rightarrow> [] | Some r \<Rightarrow> split_on (CHR '','') r)"
      using csv_split [of p] by blast
    have tok: "csv_head p \<noteq> [] \<and> length (csv_head p) < 32 \<and> sg_is_port_token (Some (csv_head p)) \<longleftrightarrow> port_spec (csv_head p)"
      using sg_is_port_token_iff [of "csv_head p"] port_spec_ne [of "csv_head p"] by (auto simp: port_spec_def)
    show ?thesis
    proof (cases "csv_rest p")
      case None
      then have "csv_head p = p" using ts join_split [of "CHR '',''" p] by simp
      then show ?thesis using None ts tok False by (subst port_loop.simps) (auto simp: port_tokens_def Let_def)
    next
      case (Some r)
      have pt: "port_tokens p = csv_head p # (if r = [] then [] else port_tokens r)"
        using ts Some by (cases r) (auto simp: port_tokens_def Let_def)
      have IH: "port_loop r (n + 1) \<longleftrightarrow> (r = [] \<or> length (port_tokens r) + (n + 1) \<le> 15 \<and> list_all port_spec (port_tokens r))"
        if "port_spec (csv_head p)" "n + 1 \<le> 15"
        using 1 [OF False _ _ _ Some] that tok by auto
      show ?thesis using Some tok False IH pt by (subst port_loop.simps) auto
    qed
  qed (simp add: port_loop.simps)
qed

lemma sg_is_port_or_range_iff:
  "sg_is_port_or_range (Some s) \<longleftrightarrow> s \<noteq> [] \<and> length (port_tokens s) \<le> 15 \<and> list_all port_spec (port_tokens s)"
  using port_loop_iff [of s 0] by (auto simp: sg_is_port_or_range_def)

lemma csv_option_tokens: "csv_option_loop p v \<Longrightarrow> v \<in> set (split_on (CHR '','') p)"
proof (induction p v rule: csv_option_loop.induct)
  case (1 p v)
  show ?case
  proof (cases "csv_head p = v")
    case True
    then show ?thesis using csv_split [of p] by simp
  next
    case False
    then obtain r where r: "csv_rest p = Some r" "csv_option_loop r v" "p \<noteq> []"
      using 1(2) by (subst (asm) csv_option_loop.simps) (auto split: if_splits option.splits)
    then show ?thesis using 1(1) [OF r(3) False r(1,2)] csv_split [of p] by simp
  qed
qed

lemma csv_option_complete:
  "v \<in> set (split_on (CHR '','') p) \<Longrightarrow> v \<noteq> [] \<Longrightarrow> csv_option_loop p v"
proof (induction p v rule: csv_option_loop.induct)
  case (1 p v)
  have "p \<noteq> []" using 1(2,3) by auto
  then show ?case using 1 csv_split [of p] by (subst csv_option_loop.simps) (auto split: option.splits)
qed

section \<open>Names\<close>

lemma name_loop_iff: "name_loop extra s \<longleftrightarrow> list_all (\<lambda>c. is_alnum c \<or> c \<in> set extra) s"
  by (induction s) auto

text \<open>
  The name validators have one contract: a non-empty string over letters, digits and a few extra characters, its length
  within a bound that is closed downwards.
\<close>

locale name_class =
  fixes valid :: "string option \<Rightarrow> bool" and extra :: string and fits :: "nat \<Rightarrow> bool"
  assumes valid_null: "\<not> valid None"
    and valid_iff: "valid (Some s) \<longleftrightarrow> s \<noteq> [] \<and> fits (length s) \<and> list_all (\<lambda>c. is_alnum c \<or> c \<in> set extra) s"
    and fits_less: "fits n \<Longrightarrow> m \<le> n \<Longrightarrow> fits m"
begin

lemma valid_part: "valid (Some s) \<Longrightarrow> sublist t s \<Longrightarrow> t \<noteq> [] \<Longrightarrow> valid (Some t)"
  by (auto simp: valid_iff list_all_iff sublist_def intro: fits_less)

lemma valid_chars: "valid (Some s) \<Longrightarrow> set s \<subseteq> {c. is_alnum c} \<union> set extra"
  by (auto simp: valid_iff list_all_iff)

lemma valid_append: "valid (Some a) \<Longrightarrow> valid (Some b) \<Longrightarrow> fits (length a + length b) \<Longrightarrow> valid (Some (a @ b))"
  by (auto simp: valid_iff)

end

interpretation safe_id: name_class sg_is_safe_id "''_.-''" "\<lambda>n. n \<le> SG_SAFE_ID_MAX"
  by unfold_locales (auto simp: sg_is_safe_id_def name_loop_iff)

interpretation net_target: name_class sg_is_net_target "''_.-:''" "\<lambda>n. n \<le> SG_NET_TARGET_MAX"
  by unfold_locales (auto simp: sg_is_net_target_def name_loop_iff)

interpretation iface_name: name_class sg_is_iface_name "''_.:-''" "\<lambda>n. n < IF_NAMESIZE"
  by unfold_locales (auto simp: sg_is_iface_name_def name_loop_iff)

interpretation tz_token: name_class sg_is_tz_token "''_./+-''" "\<lambda>n. True"
  by unfold_locales (auto simp: sg_is_tz_token_def name_loop_iff)

section \<open>The alphabet of accepted values\<close>

text \<open>
  Characters that a shell, an \<open>iptables-restore\<close> line or a configuration file gives no meaning beyond a word: letters,
  digits and \<open>_ . - : / + ,\<close> and the blank between words. No quote, no expansion, no separator of commands, no line end.
\<close>

definition plain_char :: "char \<Rightarrow> bool" where
  "plain_char c \<longleftrightarrow> is_alnum c \<or> c \<in> set ''_.-:/+, ''"

lemma digit_plain: "is_digit c \<Longrightarrow> plain_char c"
  by (simp add: plain_char_def is_alnum_def)

lemma digits_plain: "list_all is_digit s \<Longrightarrow> list_all plain_char s"
  by (auto simp: list_all_iff digit_plain)

lemma ipv4_plain: "sg_is_ipv4 (Some s) \<Longrightarrow> list_all plain_char s"
  using ipv4_chars digit_plain by (force simp: list_all_iff plain_char_def)

lemma cidr_plain: "sg_is_cidr (Some s) \<Longrightarrow> list_all plain_char s"
  using ipv4_plain digit_plain by (fastforce simp: sg_is_cidr_iff number_in_def list_all_iff plain_char_def)

lemma uint_plain: "sg_is_uint_range (Some s) mn mx \<Longrightarrow> list_all plain_char s"
  using uint_range_digits digit_plain by (fastforce simp: list_all_iff)

lemma split_chars: "c \<in> set s \<Longrightarrow> c = d \<or> (\<exists>t \<in> set (split_on d s). c \<in> set t)"
  using join_chars [of d "split_on d s"] by (auto simp: join_split)

lemma fqdn_plain: "sg_is_fqdn (Some s) \<Longrightarrow> list_all plain_char s"
  using split_chars [of _ s "CHR ''.''"]
  by (fastforce simp: sg_is_fqdn_iff host_name_def Let_def label_def label_char_def list_all_iff plain_char_def)

lemma names_plain:
  "sg_is_safe_id (Some s) \<Longrightarrow> list_all plain_char s" "sg_is_iface_name (Some s) \<Longrightarrow> list_all plain_char s"
  "sg_is_tz_token (Some s) \<Longrightarrow> list_all plain_char s" "sg_is_net_target (Some s) \<Longrightarrow> list_all plain_char s"
  by (auto simp: safe_id.valid_iff iface_name.valid_iff tz_token.valid_iff net_target.valid_iff list_all_iff plain_char_def)

lemma tokens_plain:
  assumes "list_all (list_all plain_char) (split_on d s)" "plain_char d"
  shows "list_all plain_char s"
  using assms split_chars [of _ s d] by (fastforce simp: list_all_iff)

lemma filtered_tokens_plain:
  assumes "list_all (list_all plain_char) (strtok_all d s)" "plain_char d"
  shows "list_all plain_char s"
  using assms by (intro tokens_plain [of d]) (auto simp: strtok_split list_all_iff)

lemma opts_plain: "t \<in> set sg_permissions_opts \<Longrightarrow> list_all plain_char t" "t \<in> set sg_access_services_opts \<Longrightarrow> list_all plain_char t"
  by (auto simp: sg_permissions_opts_def sg_access_services_opts_def plain_char_def is_alnum_def is_lower_def is_digit_def is_upper_def code_def)

lemma permissions_plain: "sg_is_permissions_csv (Some s) \<Longrightarrow> list_all plain_char s"
  by (rule tokens_plain [of "CHR '',''"])
    (use opts_plain in \<open>auto simp: sg_is_permissions_csv_iff list_all_iff plain_char_def\<close>)

lemma services_plain: "sg_is_access_services (Some s) \<Longrightarrow> list_all plain_char s"
  by (rule filtered_tokens_plain [of "CHR '' ''"])
    (use opts_plain in \<open>auto simp: sg_is_access_services_iff list_all_iff plain_char_def strtok_all.simps [of _ "[]"] Let_def\<close>)

lemma port_plain: "sg_is_port_or_range (Some s) \<Longrightarrow> list_all plain_char s"
proof (rule tokens_plain [of "CHR '',''"])
  assume h: "sg_is_port_or_range (Some s)"
  have "list_all plain_char t" if "port_spec t" for t
    using that digits_plain by (auto simp: port_spec_def number_in_def plain_char_def [of "CHR ''-''"])
  then have "list_all (list_all plain_char) (port_tokens s)" using h by (auto simp: sg_is_port_or_range_iff list_all_iff)
  moreover have "set (split_on (CHR '','') s) \<subseteq> insert [] (set (port_tokens s))"
  proof -
    obtain bl la where "split_on (CHR '','') s = bl @ [la]" by (metis append_butlast_last_id split_on_Nil)
    then show ?thesis by (auto simp: port_tokens_def Let_def)
  qed
  ultimately show "list_all (list_all plain_char) (split_on (CHR '','') s)" by (fastforce simp: list_all_iff)
qed (simp add: plain_char_def)

section \<open>Key and value lines\<close>

text \<open>The format the configuration travels in: one \<open>key=value\<close> line per field.\<close>

definition render_kv :: "(string \<times> string) list \<Rightarrow> string" where
  "render_kv kvs = concat (map (\<lambda>(k, v). k @ ''='' @ v @ [CHR 0x0A]) kvs)"

definition kv_ok :: "string \<times> string \<Rightarrow> bool" where
  "kv_ok kv \<longleftrightarrow> fst kv \<noteq> [] \<and> CHR ''='' \<notin> set (fst kv) \<and> CHR 0x0A \<notin> set (fst kv) \<and> CHR 0x0A \<notin> set (snd kv)"

lemma line_of:
  assumes "CHR 0x0A \<notin> set l"
  shows "first_line (l @ CHR 0x0A # r) = l" "next_line (l @ CHR 0x0A # r) = Some r"
  using assms by (simp_all add: first_line_def next_line_def takeWhile_append dropWhile_append)

lemma line_has_iff:
  assumes "CHR ''='' \<notin> set k" "CHR ''='' \<notin> set key"
  shows "line_has key (k @ CHR ''='' # v) \<longleftrightarrow> k = key"
proof
  assume h: "line_has key (k @ CHR ''='' # v)"
  then have len: "length key \<le> length k + length v" "take (length key) (k @ CHR ''='' # v) = key" "(k @ CHR ''='' # v) ! length key = CHR ''=''"
    by (auto simp: line_has_def)
  consider "length key < length k" | "length key = length k" | "length k < length key" by linarith
  then show "k = key"
  proof cases
    case 1
    then have "k ! length key = CHR ''=''" using len(3) by (simp add: nth_append)
    then show ?thesis using 1 assms(1) nth_mem by metis
  next
    case 2
    then show ?thesis using len(2) by simp
  next
    case 3
    then have "key ! length k = CHR ''=''" using len(1,2) by (metis nth_append_length nth_take)
    then show ?thesis using 3 assms(2) nth_mem by metis
  qed
next
  assume "k = key"
  then show "line_has key (k @ CHR ''='' # v)" by (simp add: line_has_def)
qed

lemma kv_loops:
  assumes "list_all kv_ok kvs" "CHR ''='' \<notin> set key"
  shows "kv_get_loop (render_kv kvs) key n = take (n - 1) (case map_of kvs key of None \<Rightarrow> [] | Some v \<Rightarrow> v)"
    "kv_has_loop (render_kv kvs) key \<longleftrightarrow> key \<in> fst ` set kvs"
proof -
  have "kv_get_loop (render_kv kvs) key n = take (n - 1) (case map_of kvs key of None \<Rightarrow> [] | Some v \<Rightarrow> v) \<and>
      (kv_has_loop (render_kv kvs) key \<longleftrightarrow> key \<in> fst ` set kvs)"
    using assms(1)
  proof (induction kvs)
    case Nil
    then show ?case by (simp add: render_kv_def kv_get_loop.simps kv_has_loop.simps)
  next
    case (Cons kv kvs)
    obtain k v where kv: "kv = (k, v)" by (cases kv)
    have ok: "CHR ''='' \<notin> set k" "CHR 0x0A \<notin> set (k @ CHR ''='' # v)" "list_all kv_ok kvs" using Cons.prems kv by (simp_all add: kv_ok_def [of "(k, v)"])
    let ?p = "(k @ CHR ''='' # v) @ CHR 0x0A # render_kv kvs"
    have p: "render_kv (kv # kvs) = ?p" by (simp add: render_kv_def kv)
    note l = line_of [OF ok(2), of "render_kv kvs"] and h = line_has_iff [OF ok(1) assms(2), of v]
    have "kv_get_loop ?p key n = (if k = key then take (n - 1) v else kv_get_loop (render_kv kvs) key n)"
      by (subst kv_get_loop.simps) (simp only: l h, auto)
    moreover have "kv_has_loop ?p key \<longleftrightarrow> k = key \<or> kv_has_loop (render_kv kvs) key"
      by (subst kv_has_loop.simps) (simp only: l h, auto)
    ultimately show ?case using Cons.IH ok(3) kv unfolding p by auto
  qed
  then show "kv_get_loop (render_kv kvs) key n = take (n - 1) (case map_of kvs key of None \<Rightarrow> [] | Some v \<Rightarrow> v)"
    "kv_has_loop (render_kv kvs) key \<longleftrightarrow> key \<in> fst ` set kvs" by blast+
qed

lemma kv_lookup:
  assumes "list_all kv_ok kvs" "key \<noteq> []" "CHR ''='' \<notin> set key"
  shows "sg_kv_get (Some (render_kv kvs)) (Some key) n = take (n - 1) (case map_of kvs key of None \<Rightarrow> [] | Some v \<Rightarrow> v)"
    "sg_kv_has_key (Some (render_kv kvs)) (Some key) \<longleftrightarrow> key \<in> fst ` set kvs"
  using kv_loops [OF assms(1,3)] assms(2) by (simp_all add: sg_kv_get_def sg_kv_has_key_def)

section \<open>The contracts\<close>

text \<open>
  C39. The address validators accept exactly the texts they are documented to accept: an IPv4 address is four
  decimal octets of at most three digits with dots between them, a network is such an address, a slash and a prefix length
  up to 32, and a host name has at least two labels of letters, digits and inner hyphens, at most 63 characters each and 253 in all,
  the last one not a number. Nothing else passes, and nothing that is of that form is refused.
\<close>

theorem address_validators_spec:
  "(sg_is_ipv4 (Some s) \<longleftrightarrow> length (split_on (CHR ''.'') s) = 4 \<and> list_all octet (split_on (CHR ''.'') s)) \<and>
   (sg_is_cidr (Some s) \<longleftrightarrow> (\<exists>ip len. s = ip @ ''/'' @ len \<and> sg_is_ipv4 (Some ip) \<and> number_in 0 32 len)) \<and>
   (sg_is_fqdn (Some s) \<longleftrightarrow> host_name s)"
  using sg_is_ipv4_iff sg_is_cidr_iff sg_is_fqdn_iff by blast

end
