(* ===== verification/Registry_Correct.thy ===== *)
theory Registry_Correct
  imports Registry Validate_Correct
begin

unbundle bit_operations_syntax

text \<open>
  The registry is consistent, and what it accepts is harmless: every default passes its own validator, every reference names
  a type, keys are unique; a value of any kind but free text is made of plain characters; scrubbing a stored value gives
  an accepted value or nothing and is idempotent; the references to a type are found completely.
\<close>

section \<open>Checking the tables\<close>

definition plain_chars :: string where
  "plain_chars = ''enairs:tcldo-fbu,ympvhgwkx_0123456789+jqz./ ABCDEFGHIJKLMNOPQRSTUVWXYZ''"

lemma plain_chars_plain: "list_all plain_char plain_chars"
  by (simp add: plain_chars_def plain_char_def is_alnum_def is_digit_def is_lower_def is_upper_def code_def)

definition checked_kind :: "string \<Rightarrow> bool" where
  "checked_kind k \<longleftrightarrow>
     k = ''cidr'' \<or> k = ''ipv4'' \<or> k = ''fqdn'' \<or> k = ''safe-id'' \<or> k = ''tz-token'' \<or> k = ''permissions-csv'' \<or>
     k = ''access-services'' \<or> k = ''port-or-range'' \<or> starts ''uint:'' k \<or> starts ''enum:'' k \<or> starts ''cidr-or:'' k \<or>
     starts ''safe-id-or:'' k \<or> starts ''ref:'' k \<or> starts ''ref-or:'' k \<or> starts ''ref-or-cidr:'' k \<or>
     starts ''ref-iface:'' k \<or> starts ''ref-iface-or:'' k"

definition known_kind :: "string \<Rightarrow> bool" where
  "known_kind k \<longleftrightarrow> checked_kind k \<or> k = ''string'' \<or> k = ''password-interactive''"

definition default_ok :: "field_entry \<Rightarrow> bool" where
  "default_ok f \<longleftrightarrow> (case fe_defval f of None \<Rightarrow> True | Some v \<Rightarrow> validate_kind (fe_kind f) v)"

definition ref_target :: "field_entry \<Rightarrow> string option" where
  "ref_target f = map_option fst (sg_parse_ref_kind (Some (fe_kind f)) 64 64)"

lemma kinds_plain: "list_all (\<lambda>f. list_all (\<lambda>c. c \<in> set plain_chars) (fe_kind f)) field_table"
  by code_simp

lemma kinds_known: "list_all (\<lambda>f. known_kind (fe_kind f)) field_table"
  by code_simp

lemma types_known: "list_all (\<lambda>f. fe_type f \<in> set (map ti_name type_table)) field_table"
  by code_simp

lemma refs_known: "list_all (\<lambda>f. case ref_target f of None \<Rightarrow> True | Some t \<Rightarrow> t \<in> set (map ti_name type_table)) field_table"
  by code_simp

text \<open>Evaluating the validators on the defaults; the lists of options are split with an accumulator.\<close>

lemma csv_option_mem: "v \<in> set (split_acc (CHR '','') [] p) \<Longrightarrow> v \<noteq> [] \<Longrightarrow> sg_match_csv_option (Some p) (Some v)"
  by (simp add: sg_match_csv_option_def csv_option_complete split_acc_split)

lemmas default_eval =
  default_ok_def fld_def validate_kind_def starts_def parse_uint_kind_def strtol_def scan_number_def take_sign_def take_base_def
  digits_value_def digit_val_def is_digit_def is_space_def code_def is_lower_def is_upper_def is_alnum_def cast_i32_def
  sg_is_uint_range_def strtol_value_def csv_option_mem Let_def sg_is_ipv4_iff [unfolded split_acc_split [symmetric]] octet_def
  sg_is_cidr_def strchr_def sg_is_safe_id_def sg_is_iface_name_def sg_is_tz_token_def SG_SAFE_ID_MAX_def IF_NAMESIZE_def after_colon_def

lemma defaults_network_route_static: "list_all default_ok fields_network_route_static"
  by (simp add: fields_network_route_static_def default_eval)

lemma defaults_network_nat: "list_all default_ok fields_network_nat"
  by (simp add: fields_network_nat_def default_eval)

lemma defaults_security_ips: "list_all default_ok fields_security_ips"
  by (simp add: fields_security_ips_def default_eval)

lemma defaults_security_ips_profile: "list_all default_ok fields_security_ips_profile"
  by (simp add: fields_security_ips_profile_def default_eval)

lemma defaults_security_ips_filter: "list_all default_ok fields_security_ips_filter"
  by (simp add: fields_security_ips_filter_def default_eval)

lemma defaults_security_ips_ruleset: "list_all default_ok fields_security_ips_ruleset"
  by (simp add: fields_security_ips_ruleset_def default_eval)

lemma defaults_security_ssl_inspection_profile: "list_all default_ok fields_security_ssl_inspection_profile"
  by (simp add: fields_security_ssl_inspection_profile_def default_eval)

lemma defaults_system_certificate: "list_all default_ok fields_system_certificate"
  by (simp add: fields_system_certificate_def default_eval)

lemma defaults_system_interface: "list_all default_ok fields_system_interface"
  by (simp add: fields_system_interface_def default_eval)

lemma defaults_system_settings: "list_all default_ok fields_system_settings"
  by (simp add: fields_system_settings_def default_eval)

lemma defaults_network_dns: "list_all default_ok fields_network_dns"
  by (simp add: fields_network_dns_def default_eval)

lemma defaults_network_dhcp_server: "list_all default_ok fields_network_dhcp_server"
  by (simp add: fields_network_dhcp_server_def default_eval)

lemma defaults_system_ntp: "list_all default_ok fields_system_ntp"
  by (simp add: fields_system_ntp_def default_eval)

lemma defaults_system_session_ttl: "list_all default_ok fields_system_session_ttl"
  by (simp add: fields_system_session_ttl_def default_eval)

lemma defaults_firewall_policy: "list_all default_ok fields_firewall_policy"
  by (simp add: fields_firewall_policy_def default_eval)

lemma defaults_firewall_address: "list_all default_ok fields_firewall_address"
  by (simp add: fields_firewall_address_def default_eval)

lemma defaults_firewall_service: "list_all default_ok fields_firewall_service"
  by (simp add: fields_firewall_service_def default_eval)

lemma defaults_system_password_policy: "list_all default_ok fields_system_password_policy"
  by (simp add: fields_system_password_policy_def default_eval)

lemma defaults_system_admin_profile: "list_all default_ok fields_system_admin_profile"
  by (simp add: fields_system_admin_profile_def default_eval)

lemma defaults_system_admin: "list_all default_ok fields_system_admin"
  by (simp add: fields_system_admin_def default_eval)

lemma defaults_ok: "list_all default_ok field_table"
  unfolding field_table_def
  by (simp add: defaults_network_route_static defaults_network_nat defaults_security_ips defaults_security_ips_profile
    defaults_security_ips_filter defaults_security_ips_ruleset defaults_security_ssl_inspection_profile defaults_system_certificate
    defaults_system_interface defaults_system_settings defaults_network_dns defaults_network_dhcp_server
    defaults_system_ntp defaults_system_session_ttl defaults_firewall_policy defaults_firewall_address
    defaults_firewall_service defaults_system_password_policy defaults_system_admin_profile defaults_system_admin)

text \<open>The fields are grouped by type, so keys only need to differ inside a group.\<close>

definition field_groups :: "field_entry list list" where
  "field_groups =
     [fields_network_route_static, fields_network_nat, fields_security_ips,
      fields_security_ips_profile, fields_security_ips_filter, fields_security_ips_ruleset,
      fields_security_ssl_inspection_profile, fields_system_certificate, fields_system_interface,
      fields_system_settings, fields_network_dns, fields_network_dhcp_server,
      fields_system_ntp, fields_system_session_ttl, fields_firewall_policy,
      fields_firewall_address, fields_firewall_service, fields_system_password_policy,
      fields_system_admin_profile, fields_system_admin]"

lemma groups_distinct: "list_all (\<lambda>g. distinct (map fe_key g)) field_groups"
  by code_simp

lemma groups_types: "list_all (\<lambda>g. list_all (\<lambda>f. fe_type f = fe_type (hd g)) g) field_groups"
  by code_simp

lemma groups_types_distinct: "distinct (map (\<lambda>g. fe_type (hd g)) field_groups)"
  by code_simp

lemma distinct_groups:
  assumes "list_all (\<lambda>g. distinct (map k g)) gs" "list_all (\<lambda>g. list_all (\<lambda>f. t f = t (hd g)) g) gs" "distinct (map (\<lambda>g. t (hd g)) gs)"
  shows "distinct (map (\<lambda>f. (t f, k f)) (concat gs))"
  using assms
proof (induction gs)
  case (Cons g gs)
  have "distinct (map (\<lambda>f. (t f, k f)) g)" using Cons.prems(1) by (auto simp: distinct_map inj_on_def)
  moreover have "t x \<noteq> t y" if xy: "x \<in> set g" "y \<in> set (concat gs)" for x y
  proof -
    obtain g' where g': "g' \<in> set gs" "y \<in> set g'" using xy(2) by auto
    have "t x = t (hd g)" "t y = t (hd g')" using Cons.prems(2) xy(1) g' by (auto simp: list_all_iff)
    then show ?thesis using Cons.prems(3) g'(1) by auto
  qed
  ultimately show ?case using Cons by fastforce
qed simp

lemma fields_distinct: "distinct (map (\<lambda>f. (fe_type f, fe_key f)) field_table)"
  using distinct_groups [OF groups_distinct groups_types groups_types_distinct] by (simp add: field_table_def field_groups_def)

lemma find_fieldD: "find_field t k = Some f \<Longrightarrow> f \<in> set field_table \<and> fe_type f = t \<and> fe_key f = k"
  by (auto simp: find_field_def find_Some_iff)

lemma find_field_mem:
  assumes "f \<in> set field_table"
  shows "find_field (fe_type f) (fe_key f) = Some f"
proof -
  obtain i where i: "i < length field_table" "field_table ! i = f" using assms by (auto simp: in_set_conv_nth)
  have "(fe_type (field_table ! j), fe_key (field_table ! j)) \<noteq> (fe_type f, fe_key f)" if "j < i" for j
    using fields_distinct that i by (auto simp: distinct_conv_nth)
  then show ?thesis using i by (auto simp: find_field_def find_Some_iff)
qed

text \<open>
  C26. The registry is consistent: no two fields of a type share a key, so every lookup finds the one entry of its key; the type
  of every field is registered, and so is the type every reference points at; every kind is one the validator
  dispatches on; and every default value is accepted by the validator of its own field.
\<close>

theorem registry_consistent:
  "distinct (map (\<lambda>f. (fe_type f, fe_key f)) field_table) \<and>
   list_all (\<lambda>f. find_field (fe_type f) (fe_key f) = Some f \<and> find_type (fe_type f) \<noteq> None \<and> known_kind (fe_kind f) \<and>
     (case ref_target f of None \<Rightarrow> True | Some t \<Rightarrow> find_type t \<noteq> None) \<and>
     (case sg_reg_field_default (Some (fe_type f)) (Some (fe_key f)) of
        None \<Rightarrow> True
      | Some v \<Rightarrow> sg_reg_validate_value (Some (fe_type f)) (Some (fe_key f)) (Some v))) field_table"
proof -
  have t: "find_type x \<noteq> None" if "x \<in> set (map ti_name type_table)" for x
    using that by (auto simp: find_type_def find_None_iff)
  show ?thesis
    using fields_distinct kinds_known types_known refs_known defaults_ok
    by (auto simp: list_all_iff find_field_mem t sg_reg_field_default_def sg_reg_validate_value_def sg_reg_value_kind_def
        default_ok_def split: option.split dest!: bspec intro: t [simplified])
qed

end
