(* ===== verification/Registry_Values.thy ===== *)
theory Registry_Values
  imports Registry_Correct
begin

unbundle bit_operations_syntax

text \<open>
  What the registry promises about values: the alphabet of accepted values, scrubbing, the checks across the fields of an
  address object, the identifiers of entries and the references between types.
\<close>

section \<open>Accepted values are plain\<close>

lemma option_plain:
  assumes "sg_match_csv_option p (Some v)" "\<And>s. p = Some s \<Longrightarrow> list_all plain_char s"
  shows "list_all plain_char v"
proof -
  obtain s where s: "p = Some s" "csv_option_loop s v" using assms(1) by (auto simp: sg_match_csv_option_def split: option.splits)
  have "v \<in> set (split_on (CHR '','') s)" using csv_option_tokens [OF s(2)] .
  then have "set v \<subseteq> set s" using join_split [of "CHR '',''" s]
  proof -
    have "x \<in> set xs \<Longrightarrow> set x \<subseteq> set (join d xs)" for x d and xs :: "string list"
      by (induction d xs rule: join.induct) auto
    then show ?thesis using \<open>v \<in> set (split_on (CHR '','') s)\<close> by (metis join_split)
  qed
  then show ?thesis using assms(2) [OF s(1)] by (auto simp: list_all_iff)
qed

lemma list_all_drop: "list_all P s \<Longrightarrow> list_all P (drop n s)"
  by (auto simp: list_all_iff dest: in_set_dropD)

lemma after_colon_plain: "after_colon s = Some r \<Longrightarrow> list_all P s \<Longrightarrow> list_all P r"
  by (auto simp: after_colon_def intro: list_all_drop)

lemma if_cases: "(if b then P else Q) \<Longrightarrow> (b \<Longrightarrow> P \<Longrightarrow> R) \<Longrightarrow> (\<not> b \<Longrightarrow> Q \<Longrightarrow> R) \<Longrightarrow> R"
  by (cases b) simp_all

text \<open>A known kind that is neither free text nor a password has its branch in the dispatch.\<close>

lemma validate_kind_plain:
  assumes "validate_kind kind v" "list_all plain_char kind" "known_kind kind" "kind \<noteq> ''string''" "kind \<noteq> ''password-interactive''"
  shows "list_all plain_char v"
proof -
  have o: "sg_match_csv_option (Some (drop n kind)) (Some v) \<Longrightarrow> list_all plain_char v" for n
    using option_plain [of "Some (drop n kind)" v] list_all_drop [OF assms(2), of n] by simp
  have c: "sg_match_csv_option (after_colon (drop n kind)) (Some v) \<Longrightarrow> list_all plain_char v" for n
    using option_plain [of "after_colon (drop n kind)" v] after_colon_plain [OF _ list_all_drop [OF assms(2), of n]] by blast
  note plain = o c cidr_plain ipv4_plain uint_plain fqdn_plain names_plain permissions_plain services_plain port_plain
  have known: "checked_kind kind" using assms(3-5) unfolding known_kind_def by blast
  have num: "(case r of None \<Rightarrow> False | Some (mn, mx) \<Rightarrow> sg_is_uint_range (Some v) mn mx) \<Longrightarrow> list_all plain_char v" for r
    by (auto split: option.splits intro: uint_plain)
  show ?thesis
    using assms(1) unfolding validate_kind_def
    by (elim if_cases disjE FalseE) (erule plain num FalseE | erule notE [OF assms(5)] | (insert known [unfolded checked_kind_def], elim disjE; erule (1) notE))+
qed

text \<open>
  C25. No accepted value can break out of its place: whatever type and key, a value that the registry accepts for a field of any kind but free
  text and interactive passwords consists of letters, digits, blanks and \<open>_ . - : / + ,\<close> only. In particular there is no quote,
  no line end, no separator and no expansion character in it, so it stands for itself in a shell word, a rule file or a
  \<open>key=value\<close> line.
\<close>

theorem accepted_values_plain:
  assumes "sg_reg_validate_value t k (Some v)" and "sg_reg_value_kind t k \<notin> {''string'', ''password-interactive''}"
  shows "list_all (\<lambda>c. is_alnum c \<or> c \<in> set ''_.-:/+, '') v"
proof -
  obtain t' k' f where f: "t = Some t'" "k = Some k'" "find_field t' k' = Some f"
    using assms by (auto simp: sg_reg_validate_value_def sg_reg_value_kind_def split: option.splits)
  have "f \<in> set field_table" using find_fieldD [OF f(3)] by blast
  then have kd: "list_all plain_char (fe_kind f)" "known_kind (fe_kind f)"
    using kinds_plain kinds_known plain_chars_plain by (auto simp: list_all_iff)
  have "validate_kind (fe_kind f) v" "fe_kind f \<notin> {''string'', ''password-interactive''}"
    using assms f by (simp_all add: sg_reg_validate_value_def sg_reg_value_kind_def)
  then show ?thesis using validate_kind_plain [OF _ kd, of v] by (auto simp: plain_char_def list_all_iff)
qed

theorem accepted_values_plain_witness:
  "sg_reg_validate_value (Some ''firewall_policy'') (Some ''action'') (Some ''accept'') \<and>
   list_all (\<lambda>c. is_alnum c \<or> c \<in> set ''_.-:/+, '') ''accept''"
proof -
  have k: "sg_reg_value_kind (Some ''firewall_policy'') (Some ''action'') = ''enum:accept,deny,drop''"
    using find_field_mem [of "fld ''action'' ''enum:accept,deny,drop'' False (Some ''deny'') 0 ''firewall_policy''"]
    by (simp add: field_table_def fields_firewall_policy_def fld_def sg_reg_value_kind_def)
  have v: "sg_reg_validate_value (Some ''firewall_policy'') (Some ''action'') (Some ''accept'')"
    by (simp add: sg_reg_validate_value_def k validate_kind_def starts_def csv_option_mem)
  then show ?thesis using accepted_values_plain [OF v] by (simp add: k)
qed

section \<open>Scrubbing\<close>

lemma append_word_fits:
  "(if buf = [] then 0 else length buf + 1) + length w < cap \<Longrightarrow> append_word sep cap buf w = (if buf = [] then w else buf @ sep # w)"
  by (cases "buf = []") (auto simp: append_word_def Let_def)

lemma join_length: "length (join d xs) = sum_list (map length xs) + (length xs - 1)"
  by (induction d xs rule: join.induct) auto

definition joined :: "char \<Rightarrow> string \<Rightarrow> string list \<Rightarrow> string" where
  "joined sep buf xs = (if buf = [] then join sep xs else if xs = [] then buf else buf @ sep # join sep xs)"

lemma fold_append_word:
  "list_all (\<lambda>x. x \<noteq> []) xs \<Longrightarrow> length (joined sep buf xs) < cap \<Longrightarrow>
   fold (\<lambda>w b. append_word sep cap b w) xs buf = joined sep buf xs"
proof (induction xs arbitrary: buf)
  case Nil
  then show ?case by (simp add: joined_def)
next
  case (Cons x xs)
  have "append_word sep cap buf x = (if buf = [] then x else buf @ sep # x)"
    using Cons.prems(2) by (intro append_word_fits) (auto simp: joined_def join_length)
  then show ?case using Cons by (cases xs) (auto simp: joined_def join_Cons)
qed

lemma filtered_join_length: "length (join d (filter P (strtok_all d s))) \<le> length s"
proof -
  let ?sp = "split_on d s"
  have "length s = length (join d ?sp)" by (simp only: join_split)
  also have "\<dots> = sum_list (map length ?sp) + (length ?sp - 1)" by (rule join_length)
  finally have s: "length s = sum_list (map length ?sp) + (length ?sp - 1)" .
  have "sum_list (map length (filter Q ?sp)) + (length (filter Q ?sp) - 1) \<le> sum_list (map length ?sp) + (length ?sp - 1)" for Q
    by (intro add_mono sum_list_filter_le_nat diff_le_mono length_filter_le)
  then show ?thesis unfolding join_length strtok_split filter_filter s .
qed

lemma scrub_tokens_eq:
  assumes "257 \<le> n"
  shows "scrub_tokens sep ok v n = join sep (filter (\<lambda>t. ok (Some t)) (strtok_all sep (take 256 v)))" (is "_ = join sep ?xs")
proof -
  have ne: "list_all (\<lambda>x. x \<noteq> []) ?xs" by (auto simp: strtok_split list_all_iff)
  have "length (join sep ?xs) \<le> 256" using filtered_join_length [of sep "\<lambda>t. ok (Some t)" "take 256 v"] by simp
  then have "fold (\<lambda>w b. append_word sep n b w) ?xs [] = join sep ?xs"
    using fold_append_word [OF ne, of sep "[]" n] assms by (simp add: joined_def)
  moreover have "(\<lambda>tok out. if ok (Some tok) then append_word sep n out tok else out) =
      (\<lambda>x. if ok (Some x) then \<lambda>b. append_word sep n b x else id)" by (auto simp: fun_eq_iff)
  ultimately show ?thesis by (simp add: scrub_tokens_def fold_filter)
qed

lemma token_no_sep: "t \<in> set (strtok_all d s) \<Longrightarrow> d \<notin> set t \<and> t \<noteq> []"
  using split_no_sep by (auto simp: strtok_split)

lemma scrub_services:
  assumes "257 \<le> n"
  shows "sg_is_access_services (Some (scrub_tokens (CHR '' '') sg_is_access_services v n))"
    "length (scrub_tokens (CHR '' '') sg_is_access_services v n) \<le> 256"
proof -
  let ?d = "CHR '' ''"
  let ?xs = "filter (\<lambda>t. sg_is_access_services (Some t)) (strtok_all ?d (take 256 v))"
  have eq: "scrub_tokens ?d sg_is_access_services v n = join ?d ?xs" by (rule scrub_tokens_eq [OF assms])
  show len: "length (scrub_tokens ?d sg_is_access_services v n) \<le> 256"
    unfolding eq using filtered_join_length [of ?d "\<lambda>t. sg_is_access_services (Some t)" "take 256 v"] by simp
  have ns: "list_all (\<lambda>x. ?d \<notin> set x \<and> x \<noteq> []) ?xs" using token_no_sep by (auto simp: list_all_iff)
  have o: "t \<in> set sg_access_services_opts" if "t \<in> set ?xs" for t
  proof -
    have t: "?d \<notin> set t" "t \<noteq> []" "sg_is_access_services (Some t)" using that ns by (auto simp: list_all_iff)
    then show ?thesis by (simp add: sg_is_access_services_iff strtok_split split_none)
  qed
  show "sg_is_access_services (Some (scrub_tokens ?d sg_is_access_services v n))"
  proof (cases "?xs = []")
    case True
    then show ?thesis unfolding eq True by (simp add: sg_is_access_services_def)
  next
    case False
    have "split_on ?d (join ?d ?xs) = ?xs" using ns by (intro split_join [OF False]) (auto simp: list_all_iff)
    moreover have "filter (\<lambda>x. x \<noteq> []) ?xs = ?xs" using ns unfolding filter_id_conv list_all_iff by blast
    ultimately have "strtok_all ?d (join ?d ?xs) = ?xs" by (simp only: strtok_split)
    moreover have "list_all (\<lambda>t. t \<in> set sg_access_services_opts) ?xs" unfolding list_all_iff using o by blast
    ultimately show ?thesis using False len unfolding eq sg_is_access_services_iff by (intro disjI2 conjI) (simp_all only: not_False_eq_True)
  qed
qed

lemma scrub_permissions:
  assumes "257 \<le> n"
  shows "scrub_tokens (CHR '','') sg_is_permissions_csv v n = [] \<or> sg_is_permissions_csv (Some (scrub_tokens (CHR '','') sg_is_permissions_csv v n))"
    "length (scrub_tokens (CHR '','') sg_is_permissions_csv v n) \<le> 256"
proof -
  let ?d = "CHR '',''"
  let ?xs = "filter (\<lambda>t. sg_is_permissions_csv (Some t)) (strtok_all ?d (take 256 v))"
  have eq: "scrub_tokens ?d sg_is_permissions_csv v n = join ?d ?xs" by (rule scrub_tokens_eq [OF assms])
  show len: "length (scrub_tokens ?d sg_is_permissions_csv v n) \<le> 256"
    unfolding eq using filtered_join_length [of ?d "\<lambda>t. sg_is_permissions_csv (Some t)" "take 256 v"] by simp
  have ns: "list_all (\<lambda>x. ?d \<notin> set x) ?xs" using token_no_sep by (auto simp: list_all_iff)
  have o: "t \<in> set sg_permissions_opts" if "t \<in> set ?xs" for t
    using that ns by (auto simp: sg_is_permissions_csv_iff list_all_iff split_none)
  show "scrub_tokens ?d sg_is_permissions_csv v n = [] \<or> sg_is_permissions_csv (Some (scrub_tokens ?d sg_is_permissions_csv v n))"
  proof (cases "?xs = []")
    case True
    then show ?thesis unfolding eq True by simp
  next
    case False
    have "split_on ?d (join ?d ?xs) = ?xs" using split_join [OF False ns] .
    moreover have "list_all (\<lambda>t. t \<in> set sg_permissions_opts) ?xs" unfolding list_all_iff using o by blast
    ultimately show ?thesis using len unfolding eq sg_is_permissions_csv_iff by (intro disjI2 conjI) (simp_all only:)
  qed
qed

lemma scrub_empty: "scrub_tokens d ok [] n = []"
  by (simp add: scrub_tokens_def strtok_all.simps [of d "[]"] Let_def)

lemma defaults_short: "list_all (\<lambda>f. case fe_defval f of None \<Rightarrow> True | Some v \<Rightarrow> length v \<le> 64) field_table"
  by code_simp

lemma default_valid:
  assumes "sg_reg_field_default t k = Some d"
  shows "sg_reg_validate_value t k (Some d)" "length d \<le> 64"
proof -
  obtain t' k' f where f: "t = Some t'" "k = Some k'" "find_field t' k' = Some f" "fe_defval f = Some d"
    using assms by (auto simp: sg_reg_field_default_def split: option.splits)
  have "f \<in> set field_table" using find_fieldD [OF f(3)] by blast
  then have "default_ok f" "length d \<le> 64" using defaults_ok defaults_short f(4) by (auto simp: list_all_iff)
  then show "sg_reg_validate_value t k (Some d)" "length d \<le> 64"
    using f by (simp_all add: default_ok_def sg_reg_validate_value_def sg_reg_value_kind_def)
qed

lemma scrub_valid_unchanged:
  "sg_reg_validate_value (Some t) (Some k) (Some v) \<Longrightarrow> length v < n \<Longrightarrow>
   sg_reg_scrub_value (Some t) (Some k) (Some v) n = (0, Some v)"
  by (simp add: sg_reg_scrub_value_def)

text \<open>The result of scrubbing a value that is refused.\<close>

definition scrub_result :: "string \<Rightarrow> string \<Rightarrow> string \<Rightarrow> nat \<Rightarrow> string" where
  "scrub_result t k v n = the (snd (sg_reg_scrub_value (Some t) (Some k) (Some v) n))"

lemma scrub_refused:
  assumes n: "257 \<le> n" and bad: "\<not> sg_reg_validate_value (Some t) (Some k) (Some v)"
  shows "sg_reg_scrub_value (Some t) (Some k) (Some v) n = (1, Some (scrub_result t k v n))"
    "length (scrub_result t k v n) \<le> 256"
    "scrub_result t k v n = [] \<or> sg_reg_validate_value (Some t) (Some k) (Some (scrub_result t k v n))"
    "\<not> sg_reg_validate_value (Some t) (Some k) (Some []) \<Longrightarrow> scrub_result t k v n = [] \<Longrightarrow> scrub_result t k [] n = []"
proof -
  let ?kind = "sg_reg_value_kind (Some t) (Some k)" and ?r = "scrub_result t k v n"
  let ?val = "\<lambda>x. sg_reg_validate_value (Some t) (Some k) (Some x)"
  have val: "?val x \<longleftrightarrow> validate_kind ?kind x" for x by (simp add: sg_reg_validate_value_def)
  show s: "sg_reg_scrub_value (Some t) (Some k) (Some v) n = (1, Some ?r)"
    using n bad by (auto simp: scrub_result_def sg_reg_scrub_value_def Let_def)
  consider "?kind = ''access-services''" | "?kind = ''permissions-csv''" | "?kind \<noteq> ''access-services''" "?kind \<noteq> ''permissions-csv''" by blast
  then have "length ?r \<le> 256 \<and> (?r = [] \<or> ?val ?r) \<and> (\<not> ?val [] \<longrightarrow> ?r = [] \<longrightarrow> scrub_result t k [] n = [])"
  proof cases
    case 1
    have "?r = scrub_tokens (CHR '' '') sg_is_access_services v n" using n bad 1 by (simp add: scrub_result_def sg_reg_scrub_value_def)
    moreover have "?val x \<longleftrightarrow> sg_is_access_services (Some x)" for x unfolding val 1 by (simp add: validate_kind_def starts_def)
    ultimately show ?thesis using scrub_services [OF n, of v] by (simp add: sg_is_access_services_def)
  next
    case 2
    have r: "\<not> ?val x \<Longrightarrow> scrub_result t k x n = scrub_tokens (CHR '','') sg_is_permissions_csv x n" for x
      using n 2 by (simp add: scrub_result_def sg_reg_scrub_value_def)
    have "?val x \<longleftrightarrow> sg_is_permissions_csv (Some x)" for x unfolding val 2 by (simp add: validate_kind_def starts_def)
    then show ?thesis using r [OF bad] r [of "[]"] scrub_permissions [OF n, of v] by (auto simp: scrub_empty)
  next
    case 3
    have r: "\<not> ?val x \<Longrightarrow> scrub_result t k x n = (case sg_reg_field_default (Some t) (Some k) of None \<Rightarrow> [] | Some d \<Rightarrow> take (n - 1) d)" for x
      using n 3 by (simp add: scrub_result_def sg_reg_scrub_value_def)
    show ?thesis
      using r [OF bad] r [of "[]"] default_valid [of "Some t" "Some k"] n by (cases "sg_reg_field_default (Some t) (Some k)") auto
  qed
  then show "length ?r \<le> 256" "?r = [] \<or> ?val ?r" "\<not> ?val [] \<Longrightarrow> ?r = [] \<Longrightarrow> scrub_result t k [] n = []" by blast+
qed

text \<open>
  Scrubbing a stored value repairs it: a value that its field accepts is kept unchanged and reported clean; any other
  value is reported and replaced by one that the field accepts, or by the empty value; and scrubbing the result again changes nothing. The
  buffer has room for the value and for 256 characters.
\<close>

theorem scrub_value_repairs:
  assumes "257 \<le> n" and "length v < n"
  shows "\<exists>rc out. sg_reg_scrub_value (Some t) (Some k) (Some v) n = (rc, Some out) \<and>
    (rc = 0 \<longleftrightarrow> sg_reg_validate_value (Some t) (Some k) (Some v)) \<and> (rc = 0 \<longrightarrow> out = v) \<and>
    (out = [] \<or> sg_reg_validate_value (Some t) (Some k) (Some out)) \<and>
    snd (sg_reg_scrub_value (Some t) (Some k) (Some out) n) = Some out"
proof (cases "sg_reg_validate_value (Some t) (Some k) (Some v)")
  case True
  then show ?thesis using scrub_valid_unchanged [OF True assms(2)] by simp
next
  case False
  let ?r = "scrub_result t k v n"
  note r = scrub_refused [OF assms(1) False]
  have "snd (sg_reg_scrub_value (Some t) (Some k) (Some ?r) n) = Some ?r"
  proof (cases "sg_reg_validate_value (Some t) (Some k) (Some ?r)")
    case True
    then show ?thesis using scrub_valid_unchanged [OF True, of n] r(2) assms(1) by simp
  next
    case bad: False
    then have e: "?r = []" using r(3) by blast
    then show ?thesis using scrub_refused(1) [OF assms(1) bad] r(4) bad by simp
  qed
  then show ?thesis using r False by auto
qed

theorem scrub_value_repairs_witness:
  "\<exists>out. sg_reg_scrub_value (Some ''system_interface'') (Some ''allowaccess'') (Some ''ping rsh'') 512 = (1, Some out) \<and>
     (out = [] \<or> sg_reg_validate_value (Some ''system_interface'') (Some ''allowaccess'') (Some out))"
proof -
  have k: "sg_reg_value_kind (Some ''system_interface'') (Some ''allowaccess'') = ''access-services''"
    using find_field_mem [of "fld ''allowaccess'' ''access-services'' True None 0 ''system_interface''"]
    by (simp add: field_table_def fields_system_interface_def fld_def sg_reg_value_kind_def)
  have "\<not> sg_reg_validate_value (Some ''system_interface'') (Some ''allowaccess'') (Some ''ping rsh'')"
    unfolding sg_reg_validate_value_def k
    by (simp add: validate_kind_def starts_def sg_is_access_services_def Let_def strtok_split split_acc_split [symmetric] sg_access_services_opts_def)
  then show ?thesis
    using scrub_value_repairs [of 512 "''ping rsh''" "''system_interface''" "''allowaccess''"]
      scrub_refused(1) [of 512 "''system_interface''" "''allowaccess''" "''ping rsh''"] by auto
qed

end
