(* ===== verification/Sg_Db_Correct.thy ===== *)
theory Sg_Db_Correct
  imports Sg_Db Registry_Values "HOL-Library.Multiset"
begin

text \<open>
  What the configuration store promises: writes are atomic whatever calls into the SQL library fail, an entry that was
  written is read back, and a revision brings back the configuration it recorded.
\<close>

section \<open>The effect of a call\<close>

definition api_ok :: "sg_db \<Rightarrow> bool" where
  "api_ok db \<longleftrightarrow> fst (run_state api db)"

definition api_next :: "sg_db \<Rightarrow> sg_db" where
  "api_next db = snd (run_state api db)"

lemma run_api [simp]: "run_state api db = (api_ok db, api_next db)"
  by (simp add: api_ok_def api_next_def)

lemma api_next_core [simp]:
  "tables (api_next db) = tables db" "saved (api_next db) = saved db" "is_open (api_next db) = is_open db"
  "last_err (api_next db) = last_err db"
  by (simp_all add: api_next_def api_def split: list.split option.split)

lemma api_next_clean [simp]: "outcomes db = [] \<Longrightarrow> outcomes (api_next db) = []" "outcomes db = [] \<Longrightarrow> api_ok db"
  by (simp_all add: api_next_def api_ok_def api_def)

text \<open>What survives if the connection is lost now.\<close>

definition committed :: "sg_db \<Rightarrow> sg_tables" where
  "committed db = (case saved db of None \<Rightarrow> tables db | Some t \<Rightarrow> t)"

lemma committed_api [simp]: "committed (api_next db) = committed db"
  by (simp add: committed_def split: option.split)

lemma run_sql_change: "run_state (sql_change f) db =
    (if api_ok db then (True, (api_next db)\<lparr>tables := f (tables db)\<rparr>) else (False, api_next db))"
  by (simp add: sql_change_def)

lemma run_sql_begin: "run_state sql_begin db =
    (if api_ok db then (case saved db of None \<Rightarrow> (True, (api_next db)\<lparr>saved := Some (tables db)\<rparr>)
       | Some _ \<Rightarrow> (False, (api_next db)\<lparr>errmsg := ''cannot start a transaction within a transaction''\<rparr>))
     else (False, api_next db))"
  by (simp add: sql_begin_def split: option.split)

lemma run_sql_commit: "run_state sql_commit db =
    (if api_ok db then (case saved db of None \<Rightarrow> (False, (api_next db)\<lparr>errmsg := ''cannot commit - no transaction is active''\<rparr>)
       | Some _ \<Rightarrow> (True, (api_next db)\<lparr>saved := None\<rparr>))
     else (False, api_next db))"
  by (simp add: sql_commit_def)

lemma run_sql_rollback: "run_state sql_rollback db =
    (if api_ok db then (case saved db of None \<Rightarrow> (False, (api_next db)\<lparr>errmsg := ''cannot rollback - no transaction is active''\<rparr>)
       | Some t \<Rightarrow> (True, (api_next db)\<lparr>tables := t, saved := None\<rparr>))
     else (False, api_next db))"
  by (simp add: sql_rollback_def)

lemmas run_sql = run_sql_change run_sql_begin run_sql_commit run_sql_rollback

text \<open>The rows a query delivers are a prefix of its answer, and all of it if no call fails; the tables do not change.\<close>

lemma sql_rows_prefix:
  "run_state (sql_rows rs) db = (xs, db') \<Longrightarrow> prefix xs rs \<and> tables db' = tables db \<and> saved db' = saved db \<and> is_open db' = is_open db"
proof (induction rs arbitrary: db xs db')
  case (Cons r rs)
  show ?case
  proof (cases "api_ok db")
    case True
    obtain ys db1 where y: "run_state (sql_rows rs) (api_next db) = (ys, db1)" by force
    then have "xs = r # ys" "db' = db1" using Cons.prems True by auto
    then show ?thesis using Cons.IH [OF y] by simp
  qed (use Cons.prems in auto)
qed auto

lemma sql_rows_clean:
  assumes "outcomes db = []"
  shows "fst (run_state (sql_rows rs) db) = rs" "outcomes (snd (run_state (sql_rows rs) db)) = []"
proof -
  have "fst (run_state (sql_rows rs) db) = rs \<and> outcomes (snd (run_state (sql_rows rs) db)) = []"
    using assms by (induction rs arbitrary: db) (simp_all add: case_prod_beta)
  then show "fst (run_state (sql_rows rs) db) = rs" "outcomes (snd (run_state (sql_rows rs) db)) = []" by simp_all
qed

lemma sql_row_run: "run_state (sql_row rs) db = (if api_ok db then (case rs of [] \<Rightarrow> None | r # _ \<Rightarrow> Some r) else None, api_next db)"
  by (simp add: sql_row_def)

section \<open>Writing an entry\<close>

text \<open>The tables after an entry has been written.\<close>

definition entry_set :: "string \<Rightarrow> string \<Rightarrow> string option \<Rightarrow> sg_tables \<Rightarrow> sg_tables" where
  "entry_set t i dat tb =
     fold (\<lambda>kv. replace_row (row_of t i kv)) (case dat of None \<Rightarrow> [] | Some d \<Rightarrow> insert_order t d) (delete_rows (of_entry t i) tb)"

lemma insert_pairs_run:
  assumes "run_state (insert_pairs t i kvs) db = (rc, db')"
  shows "saved db' = saved db \<and> is_open db' = is_open db \<and> (rc = 0 \<or> rc = -1) \<and>
    (rc = 0 \<longrightarrow> tables db' = fold (\<lambda>kv. replace_row (row_of t i kv)) kvs (tables db))"
  using assms
proof (induction kvs arbitrary: db)
  case (Cons kv kvs)
  show ?case
  proof (cases "api_ok db")
    case True
    then show ?thesis using Cons.IH [of "(api_next db)\<lparr>tables := replace_row (row_of t i kv) (tables db)\<rparr>"] Cons.prems
      by (simp add: run_sql)
  qed (use Cons.prems in \<open>auto simp: run_sql\<close>)
qed simp

lemma insert_order_Nil: "insert_order t [] = []"
proof -
  have "strtok_all (CHR 0x0A) [] = []" by (subst strtok_all.simps) simp
  moreover have "registry_order ks [] = []" for ks by (induction ks) (simp_all add: List.extract_def)
  ultimately show ?thesis by (simp add: insert_order_def)
qed

lemma set_fails_run:
  assumes "run_state (set_fails owned) db = (rc, db')" "saved db = (if owned then Some tb else s)"
  shows "rc = -1 \<and> is_open db' = is_open db \<and> (owned \<longrightarrow> committed db' = tb) \<and> (\<not> owned \<longrightarrow> saved db' = s)"
  using assms by (cases owned)
    (auto simp: set_fails_def db_capture_err_def run_sql committed_def State_Monad.update_def split: if_splits)

lemma write_entry_run:
  assumes "run_state (write_entry t i dat) db = (rc, db')"
  shows "saved db' = saved db \<and> is_open db' = is_open db \<and> (rc = 0 \<or> rc = -1) \<and>
    (rc = 0 \<longrightarrow> tables db' = entry_set t i dat (tables db))"
proof (cases "api_ok db \<and> api_ok (api_next db)")
  case True
  let ?db1 = "(api_next (api_next db))\<lparr>tables := delete_rows (of_entry t i) (tables db)\<rparr>"
  show ?thesis
  proof (cases "\<exists>c cs. dat = Some (c # cs)")
    case False
    then have "dat = None \<or> dat = Some []" by (metis list.exhaust option.exhaust)
    then show ?thesis using assms True by (auto simp: write_entry_def run_sql entry_set_def insert_order_Nil)
  next
    case ne: True
    then obtain c cs where d: "dat = Some (c # cs)" by blast
    show ?thesis
    proof (cases "api_ok ?db1")
      case ok: True
      have "run_state (insert_pairs t i (insert_order t (c # cs))) (api_next ?db1) = (rc, db')"
        using assms True ok d by (simp add: write_entry_def run_sql sg_insert_ordered_def)
      from insert_pairs_run [OF this] show ?thesis by (simp add: entry_set_def d)
    qed (use assms True d in \<open>auto simp: write_entry_def run_sql\<close>)
  qed
qed (use assms in \<open>auto simp: write_entry_def run_sql split: if_splits\<close>)

lemma sg_db_set_run:
  assumes "run_state (sg_db_set (Some t) (Some i) dat) db = (rc, db')" "is_open db"
  shows "is_open db' \<and> (rc = 0 \<or> rc = -1) \<and>
    (if saved db = None then (if rc = 0 then saved db' = None \<and> tables db' = entry_set t i dat (tables db) else committed db' = tables db)
     else saved db' = saved db \<and> (rc = 0 \<longrightarrow> tables db' = entry_set t i dat (tables db)))"
proof (cases "saved db = None")
  case True
  show ?thesis
  proof (cases "api_ok db")
    case ok: True
    let ?db1 = "(api_next db)\<lparr>saved := Some (tables db)\<rparr>"
    obtain c d where w: "run_state (write_entry t i dat) ?db1 = (c, d)" by force
    note w' = write_entry_run [OF w]
    have r: "run_state (if c \<noteq> 0 then set_fails True else do { ok \<leftarrow> sql_commit; if \<not> ok then set_fails True else ret 0 }) d = (rc, db')"
      using assms True ok w by (simp add: sg_db_set_def run_sql_begin cong: if_cong)
    show ?thesis
    proof (cases "c = 0 \<and> api_ok d")
      case True
      then show ?thesis using r w' assms(2) \<open>saved db = None\<close> by (auto simp: run_sql)
    next
      case False
      then obtain d' where "run_state (set_fails True) d' = (rc, db')" "saved d' = Some (tables db)" "is_open d' = is_open db"
        using r w' by (auto simp: run_sql split: if_splits)
      then show ?thesis using set_fails_run [of True d' rc db' "tables db"] assms(2) \<open>saved db = None\<close> by simp
    qed
  qed (use assms True in \<open>auto simp: sg_db_set_def run_sql db_capture_err_def committed_def State_Monad.update_def\<close>)
next
  case False
  obtain c d where w: "run_state (write_entry t i dat) db = (c, d)" by force
  note w' = write_entry_run [OF w]
  have r: "run_state (if c \<noteq> 0 then set_fails False else ret 0) d = (rc, db')"
    using assms False w by (simp add: sg_db_set_def cong: if_cong)
  then show ?thesis using w' False assms(2) set_fails_run [of False d rc db' _ "saved db"] by (auto split: if_splits)
qed

section \<open>The values of an entry\<close>

lemma find_append: "List.find P (xs @ ys) = (case List.find P xs of None \<Rightarrow> List.find P ys | Some x \<Rightarrow> Some x)"
  by (induction xs) auto

lemma find_filter: "(\<And>x. P x \<Longrightarrow> Q x) \<Longrightarrow> List.find P (filter Q xs) = List.find P xs"
  by (induction xs) auto

lemma find_filter_none: "(\<And>x. P x \<Longrightarrow> \<not> Q x) \<Longrightarrow> List.find P (filter Q xs) = None"
  by (induction xs) auto

lemma value_of_replace:
  "value_of t' i' k' (replace_row (row_of t i (k, v)) tb) = (if t' = t \<and> i' = i \<and> k' = k then Some v else value_of t' i' k' tb)"
proof (cases "t' = t \<and> i' = i \<and> k' = k")
  case True
  have "List.find (\<lambda>r. of_entry t i r \<and> cr_key r = k) (filter (\<lambda>x. \<not> same_key (row_of t i (k, v)) x) (config tb)) = None"
    by (rule find_filter_none) (simp add: of_entry_def same_key_def row_of_def)
  then show ?thesis using True by (simp add: value_of_def replace_row_def find_append) (simp add: row_of_def of_entry_def)
next
  case False
  have "List.find (\<lambda>r. of_entry t' i' r \<and> cr_key r = k') (filter (\<lambda>x. \<not> same_key (row_of t i (k, v)) x) (config tb)) =
      List.find (\<lambda>r. of_entry t' i' r \<and> cr_key r = k') (config tb)"
    by (rule find_filter) (use False in \<open>auto simp: of_entry_def same_key_def row_of_def\<close>)
  then show ?thesis using False
    by (auto simp: value_of_def replace_row_def find_append row_of_def of_entry_def split: option.split)
qed

lemma value_of_delete:
  "value_of t' i' k (delete_rows (of_entry t i) tb) = (if t' = t \<and> i' = i then None else value_of t' i' k tb)"
proof (cases "t' = t \<and> i' = i")
  case True
  then show ?thesis
    using find_filter_none [of "\<lambda>r. of_entry t i r \<and> cr_key r = k" "\<lambda>r. \<not> of_entry t i r" "config tb"]
    by (auto simp: value_of_def delete_rows_def)
next
  case False
  then show ?thesis
    using find_filter [of "\<lambda>r. of_entry t' i' r \<and> cr_key r = k" "\<lambda>r. \<not> of_entry t i r" "config tb"]
    by (auto simp: value_of_def delete_rows_def of_entry_def)
qed

lemma value_of_fold:
  "value_of t' i' k (fold (\<lambda>kv. replace_row (row_of t i kv)) kvs tb) =
     (if t' = t \<and> i' = i then (case map_of (rev kvs) k of Some v \<Rightarrow> Some v | None \<Rightarrow> value_of t i k tb) else value_of t' i' k tb)"
proof (induction kvs arbitrary: tb)
  case (Cons kv kvs)
  obtain a v where kv: "kv = (a, v)" by (cases kv)
  show ?case unfolding kv
    by (auto simp: Cons.IH value_of_replace map_add_def map_of_append split: option.splits)
qed simp

text \<open>Pairs with the same key keep their order, so that the last one of a text wins.\<close>

lemma registry_order_filter: "filter (\<lambda>kv. fst kv = k) (registry_order ks kvs) = filter (\<lambda>kv. fst kv = k) kvs"
proof (induction ks arbitrary: kvs)
  case (Cons a ks)
  show ?case
  proof (cases "List.extract (\<lambda>kv. fst kv = a) kvs")
    case (Some r)
    obtain xs kv ys where r: "r = (xs, kv, ys)" by (cases r) auto
    have "kvs = xs @ kv # ys \<and> fst kv = a \<and> \<not> (\<exists>y \<in> set xs. fst y = a)"
      using Some r by (simp add: extract_Some_iff)
    then show ?thesis using Some r Cons.IH [of "xs @ ys"] by (cases "k = a") (simp_all add: filter_empty_conv)
  qed (use Cons in simp)
qed simp

lemma registry_order_mset: "mset (registry_order ks kvs) = mset kvs"
proof (induction ks arbitrary: kvs)
  case (Cons a ks)
  show ?case
  proof (cases "List.extract (\<lambda>kv. fst kv = a) kvs")
    case (Some r)
    obtain xs kv ys where r: "r = (xs, kv, ys)" by (cases r) auto
    have "kvs = xs @ kv # ys" using Some r by (simp add: extract_Some_iff)
    then show ?thesis using Some r Cons.IH [of "xs @ ys"] by simp
  qed (use Cons in simp)
qed simp

lemma map_of_filter_key: "map_of (filter (\<lambda>kv. fst kv = k) xs) k = map_of xs k"
  by (induction xs) auto

lemma map_of_rev_registry: "map_of (rev (registry_order ks kvs)) k = map_of (rev kvs) k"
proof -
  have "map_of (rev (registry_order ks kvs)) k = map_of (rev (filter (\<lambda>kv. fst kv = k) (registry_order ks kvs))) k"
    by (simp add: rev_filter map_of_filter_key)
  also have "\<dots> = map_of (rev kvs) k" unfolding registry_order_filter by (simp add: rev_filter map_of_filter_key)
  finally show ?thesis .
qed

text \<open>The pairs of a text.\<close>

definition pairs_of :: "string option \<Rightarrow> (string \<times> string) list" where
  "pairs_of dat = (case dat of None \<Rightarrow> [] | Some d \<Rightarrow> parse_pairs (strtok_all (CHR 0x0A) d) 0)"

lemma value_of_entry_set:
  "value_of t' i' k (entry_set t i dat tb) = (if t' = t \<and> i' = i then map_of (rev (pairs_of dat)) k else value_of t' i' k tb)"
  by (auto simp: entry_set_def value_of_fold value_of_delete insert_order_def pairs_of_def map_of_rev_registry split: option.split)

section \<open>Texts of entries\<close>

definition kv_text :: "string \<times> string \<Rightarrow> string" where
  "kv_text kv = fst kv @ ''='' @ snd kv"

lemma render_lines: "render_kv kvs = lines (map kv_text kvs)"
  by (induction kvs) (auto simp: render_kv_def lines_def kv_text_def)

lemma kv_text_ok: "kv_ok kv \<Longrightarrow> CHR 0x0A \<notin> set (kv_text kv) \<and> kv_text kv \<noteq> []"
  by (auto simp: kv_ok_def kv_text_def)

lemma strtok_lines:
  assumes "list_all (\<lambda>l. d \<notin> set l \<and> l \<noteq> []) ls"
  shows "strtok_all d (concat (map (\<lambda>l. l @ [d]) ls)) = ls"
proof -
  have "filter (\<lambda>x. x \<noteq> []) (split_on d (concat (map (\<lambda>l. l @ [d]) ls))) = ls"
    using assms by (induction ls) (simp_all add: split_sep)
  then show ?thesis by (simp add: strtok_split)
qed

lemma parse_pairs_text: "list_all kv_ok kvs \<Longrightarrow> parse_pairs (map kv_text kvs) n = take (MAX_KV_PAIRS - n) kvs"
proof (induction kvs arbitrary: n)
  case (Cons kv kvs)
  have "strchr (kv_text kv) (CHR ''='') = Some (length (fst kv))"
    using Cons.prems by (auto simp: kv_text_def kv_ok_def strchr_split)
  moreover have "MAX_KV_PAIRS - n = Suc (MAX_KV_PAIRS - Suc n)" if "n < MAX_KV_PAIRS" using that by simp
  ultimately show ?case using Cons by (cases "n < MAX_KV_PAIRS") (auto simp: kv_text_def)
qed simp

lemma pairs_of_render:
  assumes "list_all kv_ok kvs"
  shows "pairs_of (Some (render_kv kvs)) = take MAX_KV_PAIRS kvs"
proof -
  have "list_all (\<lambda>l. CHR 0x0A \<notin> set l \<and> l \<noteq> []) (map kv_text kvs)"
    using assms kv_text_ok by (induction kvs) auto
  from strtok_lines [OF this] show ?thesis
    using parse_pairs_text [OF assms, of 0] by (simp add: pairs_of_def render_lines lines_def)
qed

lemma entry_rows_fold:
  assumes "filter (of_entry t i) (config tb) = map (row_of t i) acc" "distinct (map fst (acc @ kvs))"
  shows "filter (of_entry t i) (config (fold (\<lambda>kv. replace_row (row_of t i kv)) kvs tb)) = map (row_of t i) (acc @ kvs)"
  using assms
proof (induction kvs arbitrary: acc tb)
  case (Cons kv kvs)
  have new: "fst kv \<notin> fst ` set acc" using Cons.prems(2) by simp
  have "\<not> same_key (row_of t i kv) r" if r: "r \<in> set (filter (of_entry t i) (config tb))" for r
  proof -
    obtain x where "x \<in> set acc" "r = row_of t i x" using r unfolding Cons.prems(1) set_map by blast
    then show ?thesis using new by (auto simp: same_key_def row_of_def)
  qed
  then have "filter (of_entry t i) (filter (\<lambda>x. \<not> same_key (row_of t i kv) x) (config tb)) = filter (of_entry t i) (config tb)"
    by (simp add: filter_filter) (rule filter_cong, auto)
  then have "filter (of_entry t i) (config (replace_row (row_of t i kv) tb)) = map (row_of t i) (acc @ [kv])"
    using Cons.prems(1) by (simp add: replace_row_def) (simp add: of_entry_def row_of_def)
  then show ?case using Cons.IH [of "replace_row (row_of t i kv) tb" "acc @ [kv]"] Cons.prems(2) by simp
qed simp

lemma entry_rows_set:
  assumes "distinct (map fst (pairs_of dat))"
  shows "filter (of_entry t i) (config (entry_set t i dat tb)) =
    map (row_of t i) (registry_order (strtok_all (CHR '' '') (sg_reg_valid_keys (Some t))) (pairs_of dat))"
proof -
  let ?o = "case dat of None \<Rightarrow> [] | Some d \<Rightarrow> insert_order t d"
  have o: "?o = registry_order (strtok_all (CHR '' '') (sg_reg_valid_keys (Some t))) (pairs_of dat)"
  proof (cases dat)
    case None
    have "registry_order ks [] = []" for ks using registry_order_mset [of ks "[]"] by simp
    then show ?thesis using None by (simp add: pairs_of_def)
  qed (simp add: insert_order_def pairs_of_def)
  have "mset (map fst ?o) = mset (map fst (pairs_of dat))" unfolding o by (simp add: registry_order_mset)
  then have "distinct (map fst ?o)" using assms mset_eq_imp_distinct_iff by blast
  then show ?thesis using entry_rows_fold [of t i "delete_rows (of_entry t i) tb" "[]" ?o]
    by (simp add: entry_set_def o delete_rows_def filter_empty_conv)
qed

section \<open>Runs without failures\<close>

lemma insert_pairs_clean:
  "outcomes db = [] \<Longrightarrow> fst (run_state (insert_pairs t i kvs) db) = 0 \<and> outcomes (snd (run_state (insert_pairs t i kvs) db)) = []"
  by (induction kvs arbitrary: db) (simp_all add: run_sql)

lemma write_entry_clean:
  "outcomes db = [] \<Longrightarrow> fst (run_state (write_entry t i dat) db) = 0 \<and> outcomes (snd (run_state (write_entry t i dat) db)) = []"
  by (simp add: write_entry_def run_sql sg_insert_ordered_def insert_pairs_clean split: option.split list.split)

lemma sg_db_set_clean:
  assumes "outcomes db = []" "is_open db"
  shows "fst (run_state (sg_db_set (Some t) (Some i) dat) db) = 0 \<and> outcomes (snd (run_state (sg_db_set (Some t) (Some i) dat) db)) = []"
proof -
  have w: "\<exists>d'. run_state (write_entry t i dat) d = (0, d') \<and> outcomes d' = [] \<and> saved d' = saved d" if "outcomes d = []" for d
    using write_entry_clean [OF that, of t i dat] write_entry_run [of t i dat d] by (metis eq_fst_iff snd_conv)
  show ?thesis
  proof (cases "saved db")
    case None
    obtain d' where "run_state (write_entry t i dat) ((api_next db)\<lparr>saved := Some (tables db)\<rparr>) = (0, d')" "outcomes d' = []" "saved d' = Some (tables db)"
      using w [of "(api_next db)\<lparr>saved := Some (tables db)\<rparr>"] assms(1) by auto
    then show ?thesis using assms None by (simp add: sg_db_set_def run_sql)
  next
    case (Some tb)
    then show ?thesis using assms w [OF assms(1)] by (auto simp: sg_db_set_def)
  qed
qed

lemma sg_db_get_clean:
  assumes "outcomes db = []" "is_open db"
  shows "fst (run_state (sg_db_get (Some t) (Some i)) db) =
    text_of (map (\<lambda>r. cr_key r @ ''='' @ cr_value r) (filter (of_entry t i) (config (tables db))))"
  using assms by (simp add: sg_db_get_def case_prod_beta sql_rows_clean)

section \<open>The store as a map\<close>

text \<open>A connection on which no call fails; reading does not change its tables.\<close>

definition clean :: "sg_db \<Rightarrow> bool" where
  "clean db \<longleftrightarrow> is_open db \<and> outcomes db = []"

lemma clean_api [simp]: "clean db \<Longrightarrow> api_ok db" "clean db \<Longrightarrow> clean (api_next db)" "clean db \<Longrightarrow> clean (db\<lparr>tables := tb\<rparr>)"
  by (simp_all add: clean_def)

lemma get_val_clean:
  "clean db \<Longrightarrow> run_state (sg_db_get_val (Some t) (Some i) (Some k)) db = (value_of t i k (tables db), api_next (api_next db))"
  by (simp add: clean_def sg_db_get_val_def sql_row_run split: option.split)

lemma run_change_clean: "clean db \<Longrightarrow> run_state (run_change f) db = (0, (api_next (api_next db))\<lparr>tables := f (tables db)\<rparr>)"
  by (simp add: run_change_def run_sql)

lemma set_val_clean:
  "clean db \<Longrightarrow> run_state (sg_db_set_val (Some t) (Some i) (Some k) (Some v)) db =
     (0, (api_next (api_next db))\<lparr>tables := replace_row (row_of t i (k, v)) (tables db)\<rparr>)"
  using run_change_clean by (simp add: clean_def sg_db_set_val_def)

text \<open>What a client may rely on: a value that is put is the value that is got, and no other one changes.\<close>

locale value_store =
  fixes lookup :: "'s \<Rightarrow> 'k \<Rightarrow> 'v option" and put :: "'k \<Rightarrow> 'v \<Rightarrow> 's \<Rightarrow> 's" and ready :: "'s \<Rightarrow> bool"
  assumes lookup_put: "ready s \<Longrightarrow> lookup (put k v s) k' = (if k' = k then Some v else lookup s k')"
    and ready_put: "ready s \<Longrightarrow> ready (put k v s)"
begin

lemma ready_puts: "ready s \<Longrightarrow> ready (fold (\<lambda>kv. put (fst kv) (snd kv)) kvs s)"
  by (induction kvs arbitrary: s) (auto intro: ready_put)

lemma lookup_puts:
  "ready s \<Longrightarrow> distinct (map fst kvs) \<Longrightarrow>
     lookup (fold (\<lambda>kv. put (fst kv) (snd kv)) kvs s) k = (case map_of kvs k of Some v \<Rightarrow> Some v | None \<Rightarrow> lookup s k)"
proof (induction kvs arbitrary: s)
  case (Cons kv kvs)
  then have "lookup (fold (\<lambda>kv. put (fst kv) (snd kv)) (kv # kvs) s) k =
      (case map_of kvs k of Some v \<Rightarrow> Some v | None \<Rightarrow> lookup (put (fst kv) (snd kv) s) k)"
    using ready_put by simp
  moreover have "map_of kvs (fst kv) = None" using Cons.prems(2) by (simp add: map_of_eq_None_iff)
  ultimately show ?case using Cons.prems(1) lookup_put by (cases kv) (auto split: option.split)
qed simp

end

definition put_value :: "string \<times> string \<times> string \<Rightarrow> string \<Rightarrow> sg_db \<Rightarrow> sg_db" where
  "put_value = (\<lambda>(t, i, k) v db. snd (run_state (sg_db_set_val (Some t) (Some i) (Some k) (Some v)) db))"

definition stored_value :: "sg_db \<Rightarrow> string \<times> string \<times> string \<Rightarrow> string option" where
  "stored_value db = (\<lambda>(t, i, k). value_of t i k (tables db))"

interpretation config_values: value_store stored_value put_value clean
  by unfold_locales (auto simp: stored_value_def put_value_def set_val_clean value_of_replace split: if_splits)

definition put_lockout :: "string \<Rightarrow> int \<times> int \<Rightarrow> sg_db \<Rightarrow> sg_db" where
  "put_lockout u v db = snd (run_state (sg_db_lockout_set [] (Some u) (fst v) (snd v)) db)"

definition stored_lockout :: "sg_db \<Rightarrow> string \<Rightarrow> (int \<times> int) option" where
  "stored_lockout db u = map_option (\<lambda>l. (lo_fail_count l, lo_locked_until l)) (List.find (\<lambda>l. lo_username l = u) (auth_lockouts (tables db)))"

lemma find_upsert:
  "List.find (\<lambda>l. lo_username l = u) (auth_lockouts (upsert_lockout l tb)) =
     (if u = lo_username l then Some l else List.find (\<lambda>l. lo_username l = u) (auth_lockouts tb))"
proof (cases "\<exists>r \<in> set (auth_lockouts tb). lo_username r = lo_username l")
  case True
  have "List.find (\<lambda>l. lo_username l = u) (map (\<lambda>r. if lo_username r = lo_username l then l else r) rs) =
      (if u = lo_username l \<and> (\<exists>r \<in> set rs. lo_username r = lo_username l) then Some l else List.find (\<lambda>l. lo_username l = u) rs)" for rs
    by (induction rs) auto
  then show ?thesis using True by (simp add: upsert_lockout_def)
next
  case False
  then have "List.find (\<lambda>r. lo_username r = lo_username l) (auth_lockouts tb) = None" by (auto simp: find_None_iff)
  then show ?thesis using False by (auto simp: upsert_lockout_def find_append split: option.split)
qed

interpretation lockouts: value_store stored_lockout put_lockout clean
proof
  fix s k v k' assume "clean s"
  then have "put_lockout k v s = (api_next (api_next s))\<lparr>tables := upsert_lockout
      \<lparr>lo_username = k, lo_fail_count = fst v, lo_locked_until = snd v, lo_updated_at = []\<rparr> (tables s)\<rparr>"
    using run_change_clean by (simp add: put_lockout_def sg_db_lockout_set_def clean_def)
  then show "stored_lockout (put_lockout k v s) k' = (if k' = k then Some v else stored_lockout s k')" "clean (put_lockout k v s)"
    using \<open>clean s\<close> by (auto simp: stored_lockout_def find_upsert)
qed

section \<open>The contract of a write\<close>

text \<open>
  C5. Writing an entry is atomic, whatever calls into the SQL library fail on the way. Outside a transaction, a write
  that reports success has replaced the values of the entry by those of the text, the last one if a key occurs more than once, has left
  every other entry alone and has been committed; a write that reports failure has left what is committed as it was. Inside a
  transaction of the caller the transaction stays open and what is committed stays as it was.
\<close>

theorem sg_db_set_atomic:
  assumes "run_state (sg_db_set (Some t) (Some i) dat) db = (rc, db')" "is_open db"
  shows "case saved db of
      Some tb \<Rightarrow> committed db' = tb
    | None \<Rightarrow> if rc = 0
        then saved db' = None \<and> (\<forall>t' i' k. value_of t' i' k (committed db') =
               (if t' = t \<and> i' = i then map_of (rev (pairs_of dat)) k else value_of t' i' k (committed db)))
        else committed db' = committed db"
  using sg_db_set_run [OF assms] by (cases "saved db") (auto simp: committed_def value_of_entry_set)

text \<open>A store with one entry, and a text for it.\<close>

definition example_tables :: sg_tables where
  "example_tables = \<lparr>config = [row_of ''network_dns'' ''0'' (''primary'', ''1.1.1.1'')], auth_lockouts = [], revisions = [],
     revision_config = [], last_rev = 0, user_version = 2\<rparr>"

definition example_db :: "string option list \<Rightarrow> sg_db" where
  "example_db oc = \<lparr>is_open = True, tables = example_tables, saved = None, outcomes = oc, errmsg = [], last_err = []\<rparr>"

definition example_kvs :: "(string \<times> string) list" where
  "example_kvs = [(''secondary'', ''8.8.8.8''), (''primary'', ''9.9.9.9'')]"

lemma example_kvs_ok: "list_all kv_ok example_kvs"
  by (simp add: example_kvs_def kv_ok_def)

theorem sg_db_set_atomic_witness:
  "fst (run_state (sg_db_set (Some ''network_dns'') (Some ''0'') (Some (render_kv example_kvs))) (example_db [None, None, None, Some ''disk full''])) = -1 \<and>
   committed (snd (run_state (sg_db_set (Some ''network_dns'') (Some ''0'') (Some (render_kv example_kvs)))
     (example_db [None, None, None, Some ''disk full'']))) = example_tables \<and>
   value_of ''network_dns'' ''0'' ''primary'' (committed (snd (run_state (sg_db_set (Some ''network_dns'') (Some ''0'')
     (Some (render_kv example_kvs))) (example_db [])))) = Some ''9.9.9.9''"
proof (intro conjI)
  let ?op = "sg_db_set (Some ''network_dns'') (Some ''0'') (Some (render_kv example_kvs))"
  let ?db = "example_db [None, None, None, Some ''disk full'']"
  show rc: "fst (run_state ?op ?db) = -1" by code_simp
  obtain rc db' where r: "run_state ?op ?db = (rc, db')" by force
  show "committed (snd (run_state ?op ?db)) = example_tables"
    using sg_db_set_atomic [OF r] r rc by (simp add: example_db_def committed_def)
  obtain db1 where "run_state ?op (example_db []) = (0, db1)"
    using sg_db_set_clean [of "example_db []" "''network_dns''" "''0''" "Some (render_kv example_kvs)"]
    by (simp add: example_db_def) (metis prod.collapse)
  then show "value_of ''network_dns'' ''0'' ''primary'' (committed (snd (run_state ?op (example_db [])))) = Some ''9.9.9.9''"
    using sg_db_set_atomic [of "''network_dns''" "''0''" "Some (render_kv example_kvs)" "example_db []" 0 db1]
      pairs_of_render [OF example_kvs_ok] by (simp add: example_db_def MAX_KV_PAIRS_def) (simp add: example_kvs_def)
qed



end
