(* ===== verification/Sequence_Correct.thy ===== *)
theory Sequence_Correct
  imports Sequence Sg_Db_Correct
begin

text \<open>
  What the renumbering of policies promises: moving an entry puts it where it was asked for and keeps the order of all others.
\<close>

section \<open>Numbers as text\<close>

lemma hex_digit_digit: "d < 10 \<Longrightarrow> is_digit (hex_digit d) \<and> digit_val (hex_digit d) = d"
proof -
  assume "d < 10"
  then have "d \<in> {0, 1, 2, 3, 4, 5, 6, 7, 8, 9}" by auto
  then show ?thesis by (auto simp: hex_digit_def is_digit_def digit_val_def code_def)
qed

lemma dec_digits_spec: "dec_digits n \<noteq> [] \<and> list_all is_digit (dec_digits n) \<and> digits_value 10 (dec_digits n) = n"
proof (induction n rule: dec_digits.induct)
  case (1 n)
  show ?case
  proof (cases "n < 10")
    case True
    then show ?thesis using hex_digit_digit [of n] by (subst (1 2 3) dec_digits.simps) (simp add: digits_value_def)
  next
    case False
    then have "digits_value 10 (dec_digits (n div 10)) = n div 10" "list_all is_digit (dec_digits (n div 10))" using 1 by auto
    then show ?thesis using False hex_digit_digit [of "n mod 10"]
      by (subst (1 2 3) dec_digits.simps) (simp add: digits_value_def)
  qed
qed

lemma dec_digits_length: "n < 10 ^ m \<Longrightarrow> 0 < m \<Longrightarrow> length (dec_digits n) \<le> m"
proof (induction m arbitrary: n)
  case (Suc m)
  show ?case
  proof (cases "n < 10")
    case True
    then show ?thesis by (subst dec_digits.simps) simp
  next
    case False
    then have "0 < m" using Suc.prems by (cases m) auto
    moreover have "n div 10 < 10 ^ m" using Suc.prems by (simp add: less_mult_imp_div_less mult.commute)
    ultimately show ?thesis using Suc.IH [of "n div 10"] False by (subst dec_digits.simps) simp
  qed
qed simp

lemma cast_i32_id: "- (2 ^ 31) \<le> v \<Longrightarrow> v < 2 ^ 31 \<Longrightarrow> cast_i32 v = v"
  unfolding cast_i32_def by (intro signed_take_bit_int_eq_self) simp_all

lemma atoi_dec_int:
  assumes "0 \<le> v" "v < 2 ^ 31"
  shows "atoi (dec_int v) = v" "length (dec_int v) \<le> 10"
proof -
  have d: "dec_int v = dec_digits (nat v)" using assms by (simp add: dec_int_def)
  have "strtol_value 10 (dec_digits (nat v)) = v"
    using strtol_digits [of "dec_digits (nat v)"] dec_digits_spec [of "nat v"] assms by simp
  then show "atoi (dec_int v) = v" using cast_i32_id [of v] assms d by (simp add: atoi_def)
  have "nat v < 10 ^ 10" using assms by simp
  then show "length (dec_int v) \<le> 10" using dec_digits_length [of "nat v" 10] d by simp
qed

section \<open>Sorting with a comparison function\<close>

lemma cmp_insert_mset: "mset (cmp_insert cmp x ys) = add_mset x (mset ys)"
  by (induction ys) auto

lemma qsort_mset: "mset (qsort cmp xs) = mset xs"
  by (induction xs) (simp_all add: qsort_def cmp_insert_mset)

section \<open>The entries of a range\<close>

text \<open>The number of an entry, and whether it is pinned.\<close>

definition seq_at :: "string \<Rightarrow> sg_tables \<Rightarrow> string \<Rightarrow> int option" where
  "seq_at t tb i = map_option atoi (value_of t i ''sequence'' tb)"

definition pinned :: "string \<Rightarrow> sg_tables \<Rightarrow> string \<Rightarrow> bool" where
  "pinned t tb i \<longleftrightarrow> value_of t i ''builtin'' tb = Some ''yes''"

definition in_range :: "string \<Rightarrow> sg_tables \<Rightarrow> int \<Rightarrow> int \<Rightarrow> string option \<Rightarrow> string \<Rightarrow> seq_entry option" where
  "in_range t tb lo hi ex i = (case seq_at t tb i of
      None \<Rightarrow> None
    | Some s \<Rightarrow> if ex \<noteq> Some i \<and> \<not> pinned t tb i \<and> lo \<le> s \<and> s \<le> hi then Some \<lparr>se_id = i, se_seq = s\<rparr> else None)"

lemma collect_loop_clean:
  assumes "clean db" "list_all (\<lambda>i. length i \<le> SG_SAFE_ID_MAX) toks"
  shows "\<exists>db'. run_state (collect_loop (Some t) lo hi ex toks acc) db = (Some (acc @ List.map_filter (in_range t (tables db) lo hi ex) toks), db') \<and>
    clean db' \<and> tables db' = tables db"
  using assms
proof (induction toks arbitrary: db acc)
  case Nil
  then show ?case by (auto simp: map_filter_simps)
next
  case (Cons i toks)
  have rest: "list_all (\<lambda>i. length i \<le> SG_SAFE_ID_MAX) toks" using Cons.prems(2) by simp
  note IH = Cons.IH [OF _ rest]
  let ?db2 = "api_next (api_next db)" let ?db4 = "api_next (api_next ?db2)"
  have c: "clean ?db2" "clean ?db4" using Cons.prems(1) by simp_all
  consider "ex = Some i" | "ex \<noteq> Some i" "pinned t (tables db) i"
    | "ex \<noteq> Some i" "\<not> pinned t (tables db) i" "value_of t i ''sequence'' (tables db) = None"
    | s where "ex \<noteq> Some i" "\<not> pinned t (tables db) i" "value_of t i ''sequence'' (tables db) = Some s" by blast
  then show ?case
  proof cases
    case 1
    then show ?thesis using IH [OF Cons.prems(1), of acc] by (simp add: map_filter_simps in_range_def split: option.split)
  next
    case 2
    then show ?thesis using IH [OF c(1), of acc] Cons.prems(1)
      by (simp add: get_val_clean pinned_def map_filter_simps in_range_def split: option.split)
  next
    case 3
    then show ?thesis using IH [OF c(2), of acc] Cons.prems(1) c(1)
      by (simp add: get_val_clean pinned_def map_filter_simps in_range_def seq_at_def)
  next
    case 4
    then show ?thesis using IH [OF c(2), of acc] IH [OF c(2), of "acc @ [\<lparr>se_id = i, se_seq = atoi s\<rparr>]"] Cons.prems c(1)
      by (simp add: get_val_clean pinned_def map_filter_simps in_range_def seq_at_def)
  qed
qed

text \<open>The identifiers of a type are names the validators have accepted.\<close>

definition safe_ids :: "string \<Rightarrow> sg_tables \<Rightarrow> bool" where
  "safe_ids t tb \<longleftrightarrow> list_all (\<lambda>i. sg_is_safe_id (Some i)) (ids_of t tb)"

definition entry_ids :: "string \<Rightarrow> sg_tables \<Rightarrow> string list" where
  "entry_ids t tb = filter (\<lambda>i. i \<noteq> ''0'') (ids_of t tb)"

lemma safe_line: "sg_is_safe_id (Some i) \<Longrightarrow> CHR 0x0A \<notin> set i \<and> i \<noteq> [] \<and> length i \<le> SG_SAFE_ID_MAX"
  using safe_id.valid_chars [of i] safe_id.valid_iff [of i]
  by (auto simp: is_alnum_def is_digit_def is_upper_def is_lower_def code_def)

lemma list_clean:
  assumes "clean db"
  shows "\<exists>db'. run_state (sg_db_list (Some t)) db = (text_of (entry_ids t (tables db)), db') \<and> clean db' \<and> tables db' = tables db"
proof -
  have c: "outcomes (api_next db) = []" "is_open db" "api_ok db" using assms by (simp_all add: clean_def)
  obtain db' where r: "run_state (sql_rows (ids_of t (tables db))) (api_next db) = (ids_of t (tables db), db')" "outcomes db' = []"
    using sql_rows_clean [OF c(1), of "ids_of t (tables db)"] by (metis prod.collapse)
  then have "run_state (sg_db_list (Some t)) db = (text_of (entry_ids t (tables db)), db')"
    using c by (simp add: sg_db_list_def entry_ids_def)
  moreover have "clean db' \<and> tables db' = tables db" using sql_rows_prefix [OF r(1)] r(2) c(2) by (simp add: clean_def)
  ultimately show ?thesis by blast
qed

lemma collect_clean:
  assumes "clean db" "safe_ids t (tables db)"
  shows "\<exists>db'. run_state (collect_seq_range (Some t) lo hi ex) db =
      (Some (List.map_filter (in_range t (tables db) lo hi ex) (entry_ids t (tables db))), db') \<and> clean db' \<and> tables db' = tables db"
proof -
  obtain db1 where l: "run_state (sg_db_list (Some t)) db = (text_of (entry_ids t (tables db)), db1)" "clean db1" "tables db1 = tables db"
    using list_clean [OF assms(1)] by blast
  have s: "list_all (\<lambda>i. CHR 0x0A \<notin> set i \<and> i \<noteq> []) (entry_ids t (tables db))"
    "list_all (\<lambda>i. length i \<le> SG_SAFE_ID_MAX) (entry_ids t (tables db))"
    using assms(2) safe_line by (auto simp: safe_ids_def entry_ids_def list_all_iff)
  show ?thesis
  proof (cases "entry_ids t (tables db) = []")
    case True
    then show ?thesis using l by (simp add: collect_seq_range_def text_of_def map_filter_simps)
  next
    case False
    then have "run_state (collect_seq_range (Some t) lo hi ex) db = run_state (collect_loop (Some t) lo hi ex (entry_ids t (tables db)) []) db1"
      using l(1) strtok_lines [OF s(1)] by (simp add: collect_seq_range_def text_of_def lines_def)
    then show ?thesis using collect_loop_clean [OF l(2) s(2), of t lo hi ex "[]"] l(3) by simp
  qed
qed

section \<open>Writing the new numbers\<close>

definition shift_writes :: "string \<Rightarrow> int \<Rightarrow> seq_entry list \<Rightarrow> ((string \<times> string \<times> string) \<times> string) list" where
  "shift_writes t d es = map (\<lambda>e. ((t, se_id e, ''sequence''), take 15 (dec_int (cast_i32 (se_seq e + d))))) es"

lemma shift_loop_clean:
  "clean db \<Longrightarrow> run_state (shift_loop (Some t) d es) db =
     (int (length es), fold (\<lambda>kv. put_value (fst kv) (snd kv)) (shift_writes t d es) db)"
proof (induction es arbitrary: db)
  case (Cons e es)
  let ?db1 = "put_value (t, se_id e, ''sequence'') (take 15 (dec_int (cast_i32 (se_seq e + d)))) db"
  have "run_state (sg_db_set_val (Some t) (Some (se_id e)) (Some ''sequence'') (Some (take 15 (dec_int (cast_i32 (se_seq e + d)))))) db = (0, ?db1)"
    using Cons.prems by (simp add: put_value_def set_val_clean)
  moreover have "clean ?db1" using Cons.prems by (rule config_values.ready_put)
  ultimately show ?case using Cons.IH [of ?db1] by (simp add: shift_writes_def)
qed (simp add: shift_writes_def)

lemma entry_ids_distinct: "distinct (entry_ids t tb)"
  by (simp add: entry_ids_def ids_of_def)

lemma in_range_id: "in_range t tb lo hi ex i = Some e \<Longrightarrow> se_id e = i"
  by (auto simp: in_range_def split: option.splits if_splits)

lemma map_filter_ids:
  "map se_id (List.map_filter (in_range t tb lo hi ex) is) = filter (\<lambda>i. in_range t tb lo hi ex i \<noteq> None) is"
  using in_range_id by (induction "is") (auto simp: map_filter_simps split: option.split)

lemma shift_range_clean:
  assumes "clean db" "safe_ids t (tables db)"
  shows "\<exists>n db'. run_state (shift_range (Some t) lo hi d cmp ex) db = (n, db') \<and> clean db' \<and>
    (\<forall>t' i k. value_of t' i k (tables db') =
       (case (if t' = t \<and> k = ''sequence'' \<and> i \<in> set (entry_ids t (tables db)) then in_range t (tables db) lo hi ex i else None) of
          None \<Rightarrow> value_of t' i k (tables db)
        | Some e \<Rightarrow> Some (take 15 (dec_int (cast_i32 (se_seq e + d))))))"
proof -
  define es where "es = List.map_filter (in_range t (tables db) lo hi ex) (entry_ids t (tables db))"
  obtain db1 where c: "run_state (collect_seq_range (Some t) lo hi ex) db = (Some es, db1)" "clean db1" "tables db1 = tables db"
    using collect_clean [OF assms] unfolding es_def by blast
  let ?w = "shift_writes t d (qsort cmp es)"
  let ?db2 = "fold (\<lambda>kv. put_value (fst kv) (snd kv)) ?w db1"
  have run: "\<exists>n. run_state (shift_range (Some t) lo hi d cmp ex) db = (n, ?db2)"
  proof (cases "es = []")
    case True
    then show ?thesis using c(1) by (simp add: shift_range_def shift_writes_def qsort_def)
  next
    case False
    then show ?thesis using c(1) shift_loop_clean [OF c(2), of t d "qsort cmp es"] by (simp add: shift_range_def)
  qed
  have set_es: "set (qsort cmp es) = set es" using mset_eq_setD [OF qsort_mset [of cmp es]] .
  have "distinct (map se_id es)" unfolding es_def map_filter_ids by (simp add: entry_ids_distinct)
  then have ids: "distinct (map se_id (qsort cmp es))"
    using mset_eq_imp_distinct_iff [of "map se_id (qsort cmp es)" "map se_id es"] by (simp add: qsort_mset)
  moreover have "map fst ?w = map (\<lambda>i. (t, i, ''sequence'')) (map se_id (qsort cmp es))" by (simp add: shift_writes_def)
  ultimately have dist: "distinct (map fst ?w)" by (simp add: distinct_map inj_on_def)
  have mo: "map_of ?w (t', i, k) = (case (if t' = t \<and> k = ''sequence'' \<and> i \<in> set (entry_ids t (tables db)) then in_range t (tables db) lo hi ex i else None) of
      None \<Rightarrow> None | Some e \<Rightarrow> Some (take 15 (dec_int (cast_i32 (se_seq e + d)))))" (is "_ = ?r") for t' i k
  proof (cases ?r)
    case None
    have "(t', i, k) \<notin> fst ` set ?w"
    proof
      assume "(t', i, k) \<in> fst ` set ?w"
      then obtain e where e: "e \<in> set es" "t' = t" "k = ''sequence''" "i = se_id e" by (auto simp: shift_writes_def set_es)
      then obtain j where "j \<in> set (entry_ids t (tables db))" "in_range t (tables db) lo hi ex j = Some e" by (auto simp: es_def map_filter_def)
      then show False using None e in_range_id by (auto split: if_splits)
    qed
    then show ?thesis using None by (simp add: map_of_eq_None_iff)
  next
    case (Some v)
    then obtain e where e: "t' = t" "k = ''sequence''" "i \<in> set (entry_ids t (tables db))" "in_range t (tables db) lo hi ex i = Some e"
      "v = take 15 (dec_int (cast_i32 (se_seq e + d)))" by (auto split: if_splits option.splits)
    then have "e \<in> set es" "se_id e = i" using in_range_id by (force simp: es_def map_filter_def)+
    then have "((t', i, k), v) \<in> set ?w" using e set_es by (force simp: shift_writes_def)
    then show ?thesis using dist Some by simp
  qed
  have v: "value_of t' i k (tables ?db2) = (case map_of ?w (t', i, k) of None \<Rightarrow> value_of t' i k (tables db) | Some v \<Rightarrow> Some v)" for t' i k
    using config_values.lookup_puts [OF c(2) dist, of "(t', i, k)"] c(3) by (simp add: stored_value_def split: option.splits)
  have "clean ?db2" using config_values.ready_puts [OF c(2)] .
  then show ?thesis using run v mo by (auto split: option.split)
qed

section \<open>Moving an entry\<close>

lemma seq_at_listed: "seq_at t tb i = Some s \<Longrightarrow> i \<noteq> ''0'' \<Longrightarrow> i \<in> set (entry_ids t tb)"
  by (auto simp: seq_at_def value_of_def entry_ids_def ids_of_def find_Some_iff of_entry_def)

text \<open>The new number of an entry that is not moved itself.\<close>

definition rotated :: "int \<Rightarrow> int \<Rightarrow> int \<Rightarrow> int" where
  "rotated old new s = (if old < new then (if old < s \<and> s \<le> new then s - 1 else s) else if new \<le> s \<and> s < old then s + 1 else s)"

lemma rotated_mono: "a \<noteq> old \<Longrightarrow> b \<noteq> old \<Longrightarrow> rotated old new a < rotated old new b \<longleftrightarrow> a < b"
  by (auto simp: rotated_def)

lemma rotated_new: "s \<noteq> old \<Longrightarrow> rotated old new s \<noteq> new \<or> old = new"
  by (auto simp: rotated_def)

lemma rotated_above: "s \<noteq> old \<Longrightarrow> old \<noteq> new \<Longrightarrow> new < rotated old new s \<longleftrightarrow> (if old < new then new < s else new \<le> s)"
  by (auto simp: rotated_def)

text \<open>Entries that lie in the way of a move can be renumbered.\<close>

definition movable :: "string \<Rightarrow> sg_tables \<Rightarrow> string \<Rightarrow> int \<Rightarrow> int \<Rightarrow> bool" where
  "movable t tb e old new \<longleftrightarrow> list_all (\<lambda>i. i = e \<or> (case seq_at t tb i of None \<Rightarrow> True
     | Some s \<Rightarrow> s \<noteq> old \<and> (rotated old new s = s \<or> \<not> pinned t tb i))) (entry_ids t tb)"

lemma shifted_number:
  assumes "in_range t tb lo hi ex i = Some e" "0 \<le> se_seq e + d" "se_seq e + d < 2 ^ 31"
  shows "atoi (take 15 (dec_int (cast_i32 (se_seq e + d)))) = se_seq e + d"
  using assms cast_i32_id [of "se_seq e + d"] atoi_dec_int [of "se_seq e + d"] by simp

lemma rotate_seq_at:
  assumes "clean db" "safe_ids t (tables db)" "movable t (tables db) e old new" "0 \<le> old" "old < 2 ^ 31" "0 \<le> new" "new < 2 ^ 31" "old \<noteq> new"
  shows "\<exists>n db'. run_state (seq_rotate (Some t) old new (Some e)) db = (n, db') \<and> clean db' \<and>
    (\<forall>i. i \<noteq> e \<longrightarrow> i \<noteq> ''0'' \<longrightarrow> seq_at t (tables db') i = map_option (rotated old new) (seq_at t (tables db) i))"
proof -
  define lo hi d cmp where "lo = (if old < new then old + 1 else new)" and "hi = (if old < new then new else old - 1)"
    and "d = (if old < new then -1 else 1 :: int)" and "cmp = (if old < new then seq_cmp_asc else seq_cmp_desc)"
  have rot: "seq_rotate (Some t) old new (Some e) = shift_range (Some t) lo hi d cmp (Some e)"
    using assms(8) by (simp add: seq_rotate_def lo_def hi_def d_def cmp_def)
  have rng: "rotated old new s = (if lo \<le> s \<and> s \<le> hi then s + d else s)" for s
    by (auto simp: rotated_def lo_def hi_def d_def)
  have bnd: "0 \<le> s + d \<and> s + d < 2 ^ 31" if "lo \<le> s" "s \<le> hi" for s
    using that assms(4-7) by (auto simp: lo_def hi_def d_def split: if_splits)
  obtain n db' where r: "run_state (shift_range (Some t) lo hi d cmp (Some e)) db = (n, db')" "clean db'"
    and v: "\<And>t' i k. value_of t' i k (tables db') =
       (case (if t' = t \<and> k = ''sequence'' \<and> i \<in> set (entry_ids t (tables db)) then in_range t (tables db) lo hi (Some e) i else None) of
          None \<Rightarrow> value_of t' i k (tables db) | Some x \<Rightarrow> Some (take 15 (dec_int (cast_i32 (se_seq x + d)))))"
    using shift_range_clean [OF assms(1,2)] by blast
  have "seq_at t (tables db') i = map_option (rotated old new) (seq_at t (tables db) i)" if i: "i \<noteq> e" "i \<noteq> ''0''" for i
  proof (cases "seq_at t (tables db) i")
    case None
    then have "in_range t (tables db) lo hi (Some e) i = None" by (simp add: in_range_def)
    then show ?thesis using None v [of t i "''sequence''"] by (simp add: seq_at_def split: if_splits)
  next
    case (Some s)
    then have l: "i \<in> set (entry_ids t (tables db))" using seq_at_listed i(2) by blast
    then have m: "rotated old new s = s \<or> \<not> pinned t (tables db) i" using assms(3) i(1) Some by (auto simp: movable_def list_all_iff)
    show ?thesis
    proof (cases "lo \<le> s \<and> s \<le> hi")
      case True
      then have "rotated old new s \<noteq> s" by (simp add: rng d_def)
      then have ir: "in_range t (tables db) lo hi (Some e) i = Some \<lparr>se_id = i, se_seq = s\<rparr>"
        using m True Some i(1) by (simp add: in_range_def)
      have "seq_at t (tables db') i = Some (atoi (take 15 (dec_int (cast_i32 (s + d)))))"
        using v [of t i "''sequence''"] l ir by (simp add: seq_at_def)
      also have "\<dots> = Some (s + d)" using shifted_number [OF ir, of d] bnd [of s] True by simp
      finally show ?thesis using Some True rng [of s] by simp
    next
      case False
      then have "in_range t (tables db) lo hi (Some e) i = None" using Some by (simp add: in_range_def)
      then have "seq_at t (tables db') i = seq_at t (tables db) i" using v [of t i "''sequence''"] by (simp add: seq_at_def)
      then show ?thesis using Some rng [of s] False by auto
    qed
  qed
  then show ?thesis using r rot by auto
qed

text \<open>\<open>above t tb i j\<close>: the rule of entry \<open>i\<close> is tried before the rule of entry \<open>j\<close>.\<close>

definition above :: "string \<Rightarrow> sg_tables \<Rightarrow> string \<Rightarrow> string \<Rightarrow> bool" where
  "above t tb i j \<longleftrightarrow> (case (seq_at t tb i, seq_at t tb j) of (Some a, Some b) \<Rightarrow> b < a | _ \<Rightarrow> False)"

text \<open>A store with policies in the given order of numbers; the middle one may be built in.\<close>

definition example_policies :: "string \<Rightarrow> int \<Rightarrow> int \<Rightarrow> int \<Rightarrow> sg_db" where
  "example_policies bi a b c = \<lparr>is_open = True, tables = \<lparr>config =
       [row_of ''firewall_policy'' ''a'' (''sequence'', dec_int a), row_of ''firewall_policy'' ''b'' (''sequence'', dec_int b),
        row_of ''firewall_policy'' ''b'' (''builtin'', bi), row_of ''firewall_policy'' ''c'' (''sequence'', dec_int c)],
       auth_lockouts = [], revisions = [], revision_config = [], last_rev = 0, user_version = 2\<rparr>,
     saved = None, outcomes = [], errmsg = [], last_err = []\<rparr>"

definition numbers :: "sg_db \<Rightarrow> int option list" where
  "numbers db = map (seq_at ''firewall_policy'' (tables db)) [''a'', ''b'', ''c'']"

text \<open>
  Three consequences of the renumbering on small stores. With gaps the set of numbers does not stay the same; an entry that is moved over a
  pinned one leaves two entries with the same number; and an insertion pushes an entry out of the range of numbers.
\<close>

lemma rotate_changes_numbers:
  "numbers (example_policies ''no'' 1 3 40) = [Some 1, Some 3, Some 40] \<and>
   numbers (snd (run_state (move_entry ''firewall_policy'' ''a'' 1 40) (example_policies ''no'' 1 3 40))) = [Some 40, Some 2, Some 39]"
  by code_simp

lemma rotate_pinned_collides:
  "numbers (snd (run_state (move_entry ''firewall_policy'' ''a'' 2 4) (example_policies ''yes'' 2 3 4))) = [Some 4, Some 3, Some 3]"
  by code_simp

lemma insert_leaves_range:
  "\<exists>n db'. run_state (seq_insert_at (Some ''firewall_policy'') 5 (Some ''d'')) (example_policies ''no'' 2 3 9999) = (n, db') \<and>
     seq_at ''firewall_policy'' (tables db') ''c'' = Some 10000"
proof -
  let ?db = "example_policies ''no'' 2 3 9999"
  have c: "clean ?db" by (simp add: clean_def example_policies_def)
  have rows: "filter (\<lambda>r. cr_type r = ''firewall_policy'') (config (tables ?db)) = config (tables ?db)"
    by (simp add: example_policies_def row_of_def)
  have "map cr_id (config (tables ?db)) = [''a'', ''b'', ''b'', ''c'']" by (simp add: example_policies_def row_of_def)
  then have ids: "ids_of ''firewall_policy'' (tables ?db) = sort (remdups [''a'', ''b'', ''b'', ''c''])" by (simp only: ids_of_def rows)
  have s: "safe_ids ''firewall_policy'' (tables ?db)" unfolding safe_ids_def ids by code_simp
  have e: "''c'' \<in> set (entry_ids ''firewall_policy'' (tables ?db))" unfolding entry_ids_def ids by code_simp
  have v: "value_of ''firewall_policy'' ''c'' ''sequence'' (tables ?db) = Some (dec_int 9999)"
    "value_of ''firewall_policy'' ''c'' ''builtin'' (tables ?db) = None"
    by (simp_all add: value_of_def example_policies_def row_of_def of_entry_def)
  have "in_range ''firewall_policy'' (tables ?db) 5 9999 (Some ''d'') ''c'' = Some \<lparr>se_id = ''c'', se_seq = 9999\<rparr>"
    using atoi_dec_int [of 9999] by (simp add: in_range_def seq_at_def pinned_def v)
  moreover have "cast_i32 10000 = 10000" using cast_i32_id [of 10000] by simp
  moreover have "atoi (take 15 (dec_int 10000)) = 10000" using atoi_dec_int [of 10000] by simp
  ultimately show ?thesis using shift_range_clean [OF c s, of 5 9999 1 seq_cmp_desc "Some ''d''"] e
    by (auto simp: seq_insert_at_def seq_at_def)
qed



end
