(* ===== verification/Registry_Entries.thy ===== *)
theory Registry_Entries
  imports Registry_Values
begin

text \<open>
  Promises about whole entries: the fields of an address object fit its type, the identifier of a filter entry, and the list of fields
  that refer to a type, which the management daemon uses to refuse deletions and to carry renames along.
\<close>

section \<open>Address objects\<close>

definition address_type :: "(string \<times> string) list \<Rightarrow> string" where
  "address_type kvs = (case map_of kvs ''type'' of None \<Rightarrow> ''ipmask'' | Some v \<Rightarrow> if v = [] then ''ipmask'' else v)"

lemma address_default: "sg_reg_field_default (Some ''firewall_address'') (Some ''type'') = Some ''ipmask''"
  using find_field_mem [of "fld ''type'' ''enum:ipmask,fqdn'' False (Some ''ipmask'') 0 ''firewall_address''"]
  by (simp add: field_table_def fields_firewall_address_def fld_def sg_reg_field_default_def)

text \<open>
  C40. The check across the fields of an address object lets exactly the consistent objects pass: an object of type \<open>fqdn\<close> has a
  host name and no subnet, an object of any other type, and one without a type, has a subnet and no host name. The entry is given as
  the lines the daemons exchange; entries of other types always pass.
\<close>

theorem entry_semantics_spec:
  assumes "list_all kv_ok kvs" and "case map_of kvs ''type'' of None \<Rightarrow> True | Some v \<Rightarrow> length v < 32"
  shows "fst (sg_check_entry_semantics (Some t) (Some (render_kv kvs)) n) =
    (if t \<noteq> ''firewall_address'' then 0
     else if (if address_type kvs = ''fqdn'' then ''fqdn'' \<in> fst ` set kvs \<and> ''subnet'' \<notin> fst ` set kvs
              else ''subnet'' \<in> fst ` set kvs \<and> ''fqdn'' \<notin> fst ` set kvs) then 0 else -1)"
proof (cases "t = ''firewall_address''")
  case False
  then show ?thesis by (simp add: sg_check_entry_semantics_def)
next
  case True
  have ty: "sg_kv_get (Some (render_kv kvs)) (Some ''type'') 32 = (case map_of kvs ''type'' of None \<Rightarrow> [] | Some v \<Rightarrow> v)"
    using kv_lookup(1) [OF assms(1), of "''type''" 32] assms(2) by (simp split: option.splits)
  have keys: "sg_kv_has_key (Some (render_kv kvs)) (Some ''subnet'') \<longleftrightarrow> ''subnet'' \<in> fst ` set kvs"
    "sg_kv_has_key (Some (render_kv kvs)) (Some ''fqdn'') \<longleftrightarrow> ''fqdn'' \<in> fst ` set kvs"
    using kv_lookup(2) [OF assms(1), of "''subnet''"] kv_lookup(2) [OF assms(1), of "''fqdn''"] by simp_all
  define hs hf where "hs = sg_kv_has_key (Some (render_kv kvs)) (Some ''subnet'')" and "hf = sg_kv_has_key (Some (render_kv kvs)) (Some ''fqdn'')"
  define at0 where "at0 = (case map_of kvs ''type'' of None \<Rightarrow> [] | Some v \<Rightarrow> v)"
  have at: "(if at0 = [] then take 31 ''ipmask'' else at0) = address_type kvs"
    by (auto simp: at0_def address_type_def split: option.split)
  have "fst (sg_check_entry_semantics (Some t) (Some (render_kv kvs)) n) =
      (if (if at0 = [] then take 31 ''ipmask'' else at0) = ''fqdn'' then (if \<not> hf then -1 else if hs then -1 else 0)
       else if \<not> hs then -1 else if hf then -1 else 0)"
    unfolding True sg_check_entry_semantics_def prod.case option.case ty at0_def [symmetric] hs_def [symmetric] hf_def [symmetric]
      address_default Let_def by (simp only: simp_thms if_True) (simp only: if_distrib [of fst] fst_conv)
  then show ?thesis unfolding at hs_def hf_def keys using True by simp
qed

theorem entry_semantics_spec_witness:
  "fst (sg_check_entry_semantics (Some ''firewall_address'') (Some (render_kv [(''name'', ''web''), (''subnet'', ''10.0.0.0/8'')])) 128) = 0 \<and>
   fst (sg_check_entry_semantics (Some ''firewall_address'') (Some (render_kv [(''type'', ''fqdn''), (''subnet'', ''10.0.0.0/8'')])) 128) = -1"
  using entry_semantics_spec [of "[(''name'', ''web''), (''subnet'', ''10.0.0.0/8'')]" "''firewall_address''" 128]
    entry_semantics_spec [of "[(''type'', ''fqdn''), (''subnet'', ''10.0.0.0/8'')]" "''firewall_address''" 128]
  by (simp add: kv_ok_def address_type_def)

section \<open>Identifiers of filter entries\<close>

lemma atoi_prefix:
  assumes "a \<noteq> []" "list_all is_digit a"
  shows "atoi (a @ CHR ''/'' # b) = cast_i32 (min (2 ^ 63 - 1) (int (digits_value 10 a)))"
proof -
  have c: "\<not> is_space c \<and> c \<noteq> CHR ''-'' \<and> c \<noteq> CHR ''+'' \<and> digit_val c < 10" if "is_digit c" for c
    using that by (auto simp: is_digit_def is_space_def digit_val_def code_def)
  have nd: "\<not> digit_val (CHR ''/'') < 10" by (simp add: digit_val_def is_digit_def is_lower_def is_upper_def code_def)
  let ?s = "a @ CHR ''/'' # b"
  obtain x xs where a: "a = x # xs" using assms(1) by (cases a) auto
  have sp: "dropWhile is_space ?s = ?s" and sg: "take_sign ?s = (False, ?s)"
    using c [of x] assms(2) a by (auto simp: take_sign_def)
  have "\<forall>y \<in> set a. digit_val y < 10" using c assms(2) by (auto simp: list_all_iff)
  then have t: "takeWhile (\<lambda>c. digit_val c < 10) ?s = a" using nd by (simp add: takeWhile_append)
  have "scan_number 10 ?s = Some (False, digits_value 10 a, dropWhile (\<lambda>c. digit_val c < 10) ?s)"
    using assms(1) by (simp add: scan_number_def take_base_def Let_def sp sg t)
  then show ?thesis by (simp add: atoi_def strtol_value_def strtol_def)
qed

lemma filter_id_iff:
  "sg_reg_validate_entry_id (Some ''security_ips-filter'') (Some s) \<longleftrightarrow>
     (\<exists>a b. s = a @ ''/'' @ b \<and> a \<noteq> [] \<and> b \<noteq> [] \<and> list_all is_digit (a @ b) \<and>
        cast_i32 (min (2 ^ 63 - 1) (int (digits_value 10 a))) \<in> {1..31})"
proof (cases "CHR ''/'' \<in> set s")
  case False
  then show ?thesis by (auto simp: sg_reg_validate_entry_id_def sg_reg_entry_id_kind_def strchr_def)
next
  case True
  then obtain a b where s: "s = a @ CHR ''/'' # b" "CHR ''/'' \<notin> set a" using split_list_first by fastforce
  then have i: "strchr s (CHR ''/'') = Some (length a)" by (auto simp: strchr_split)
  have uniq: "a' = a \<and> b' = b" if "s = a' @ CHR ''/'' # b'" "list_all is_digit a'" for a' b'
  proof -
    have "CHR ''/'' \<notin> set a'" using that(2) dot_not_digit(2) by (auto simp: list_all_iff)
    then have "takeWhile (\<lambda>c. c \<noteq> CHR ''/'') s = a'" using that(1) by (auto simp: takeWhile_append)
    moreover have "takeWhile (\<lambda>c. c \<noteq> CHR ''/'') s = a" using s by (auto simp: takeWhile_append)
    ultimately show ?thesis using s(1) that(1) by simp
  qed
  have "sg_reg_validate_entry_id (Some ''security_ips-filter'') (Some s) \<longleftrightarrow>
      a \<noteq> [] \<and> b \<noteq> [] \<and> list_all is_digit (a @ b) \<and> 1 \<le> atoi s \<and> atoi s \<le> 31"
    using s i by (auto simp: sg_reg_validate_entry_id_def sg_reg_entry_id_kind_def Let_def)
  moreover have "1 \<le> atoi s \<and> atoi s \<le> 31 \<longleftrightarrow> cast_i32 (min (2 ^ 63 - 1) (int (digits_value 10 a))) \<in> {1..31}"
    if "a \<noteq> []" "list_all is_digit (a @ b)"
    using atoi_prefix [of a b] s(1) that by simp
  ultimately have "sg_reg_validate_entry_id (Some ''security_ips-filter'') (Some s) \<longleftrightarrow>
      a \<noteq> [] \<and> b \<noteq> [] \<and> list_all is_digit (a @ b) \<and> cast_i32 (min (2 ^ 63 - 1) (int (digits_value 10 a))) \<in> {1..31}" by blast
  moreover define P where "P a b \<longleftrightarrow> a \<noteq> [] \<and> b \<noteq> [] \<and> list_all is_digit (a @ b) \<and>
      cast_i32 (min (2 ^ 63 - 1) (int (digits_value 10 a))) \<in> {1..31}" for a b
  moreover have "P a b \<longleftrightarrow> (\<exists>a' b'. s = a' @ ''/'' @ b' \<and> P a' b')"
  proof
    assume "P a b"
    then show "\<exists>a' b'. s = a' @ ''/'' @ b' \<and> P a' b'" using s(1) by (intro exI [of _ a] exI [of _ b]) simp
  next
    assume "\<exists>a' b'. s = a' @ ''/'' @ b' \<and> P a' b'"
    then obtain a' b' where p: "s = a' @ CHR ''/'' # b'" "P a' b'" by auto
    have "list_all is_digit a'" using p(2) by (simp add: P_def)
    then show "P a b" using uniq [OF p(1)] p(2) by simp
  qed
  ultimately show ?thesis by simp
qed

text \<open>
  The identifier of a filter entry is a profile number, a slash and a sequence number; but the profile number is
  compared after it has been reduced to 32 bits, so numbers far outside 1 to 31 pass as well: \<open>4294967297/1\<close> is
  accepted and stands for profile 1.
\<close>

theorem filter_id_wraps:
  "(sg_reg_validate_entry_id (Some ''security_ips-filter'') (Some s) \<longleftrightarrow>
     (\<exists>a b. s = a @ ''/'' @ b \<and> a \<noteq> [] \<and> b \<noteq> [] \<and> list_all is_digit (a @ b) \<and>
        cast_i32 (min (2 ^ 63 - 1) (int (digits_value 10 a))) \<in> {1..31})) \<and>
   sg_reg_validate_entry_id (Some ''security_ips-filter'') (Some ''4294967297/1'') \<and> atoi ''4294967297/1'' = 1"
proof (intro conjI)
  have d: "list_all is_digit ''4294967297''" "list_all is_digit ''1''" by (simp_all add: is_digit_def code_def)
  have v: "digits_value 10 ''4294967297'' = 4294967297" by (simp add: digits_value_def digit_val_def is_digit_def code_def)
  have c: "cast_i32 (min (2 ^ 63 - 1) (int (digits_value 10 ''4294967297''))) = 1" unfolding v by (simp add: cast_i32_def)
  show "sg_reg_validate_entry_id (Some ''security_ips-filter'') (Some ''4294967297/1'')"
    unfolding filter_id_iff using d c by (intro exI [of _ "''4294967297''"] exI [of _ "''1''"]) (simp del: One_nat_def)
  show "atoi ''4294967297/1'' = 1" using atoi_prefix [of "''4294967297''" "''1''"] d(1) c by simp
qed (rule filter_id_iff)

section \<open>References\<close>

lemma ref_fields_few: "length (filter (\<lambda>f. ref_target f \<noteq> None) field_table) \<le> 16"
  by code_simp

lemma fold_referencing:
  "length out + length (filter (\<lambda>f. ref_target f = Some t) fs) \<le> mx \<Longrightarrow>
   fold (\<lambda>f out. case sg_parse_ref_kind (Some (fe_kind f)) 64 64 of
          None \<Rightarrow> out
        | Some (rt, ro) \<Rightarrow> if rt = t \<and> length out < mx then out @ [(fe_type f, fe_key f)] else out) fs out =
     out @ map (\<lambda>f. (fe_type f, fe_key f)) (filter (\<lambda>f. ref_target f = Some t) fs)"
proof (induction fs arbitrary: out)
  case (Cons f fs)
  then show ?case by (auto simp: ref_target_def split: option.splits)
qed simp

text \<open>
  The references to a type are found completely: with the room for sixteen that its callers give it, the search returns every field of
  the registry whose kind refers to the type, in the order of the table, and nothing else. So no deletion is let
  through, and no rename forgets a field, because the list was cut.
\<close>

theorem find_referencing_complete:
  "sg_reg_find_referencing (Some t) 16 =
     map (\<lambda>f. (fe_type f, fe_key f)) (filter (\<lambda>f. ref_target f = Some t) field_table)"
proof -
  have "length (filter (\<lambda>f. ref_target f = Some t) fs) \<le> length (filter (\<lambda>f. ref_target f \<noteq> None) fs)" for fs
    by (induction fs) auto
  from this [of field_table] show ?thesis using ref_fields_few fold_referencing [of "[]" t field_table 16]
    by (simp add: sg_reg_find_referencing_def)
qed

end
