(* ===== verification/Config_Commands_Correct.thy ===== *)
theory Config_Commands_Correct
  imports Config_Commands Sequence_Correct Registry_Entries
begin

text \<open>
  What the commands promise: nothing changes for a user without the permission, whatever fails; and a deletion takes away one entry
  that nothing refers to.
\<close>

section \<open>Reading an entry\<close>

definition row_text :: "config_row \<Rightarrow> string" where
  "row_text r = cr_key r @ ''='' @ cr_value r"

definition entry_text :: "sg_tables \<Rightarrow> string \<Rightarrow> string \<Rightarrow> string option" where
  "entry_text tb t i = text_of (map row_text (filter (of_entry t i) (config tb)))"

text \<open>Reading may fail in the middle: what comes back is the beginning of the text.\<close>

lemma get_prefix:
  assumes "run_state (sg_db_get (Some t) (Some i)) db = (r, db')"
  shows "tables db' = tables db \<and> (\<exists>n. r = text_of (map row_text (take n (filter (of_entry t i) (config (tables db))))))"
proof (cases "is_open db \<and> api_ok db")
  case True
  obtain rows db1 where q: "run_state (sql_rows (filter (of_entry t i) (config (tables db)))) (api_next db) = (rows, db1)" by force
  note p = sql_rows_prefix [OF q]
  then obtain n where "rows = take n (filter (of_entry t i) (config (tables db)))" by (metis append_eq_conv_conj prefix_def)
  then show ?thesis using assms True q p by (auto simp: sg_db_get_def row_text_def [abs_def])
next
  case False
  then have "r = None" "tables db' = tables db" using assms by (cases "is_open db"; auto simp: sg_db_get_def)+
  then show ?thesis by (intro conjI exI [of _ 0]) (simp_all add: text_of_def)
qed

lemma get_clean:
  assumes "clean db"
  shows "\<exists>db'. run_state (sg_db_get (Some t) (Some i)) db = (entry_text (tables db) t i, db') \<and> clean db' \<and> tables db' = tables db"
proof -
  have c: "outcomes (api_next db) = []" "is_open db" "api_ok db" using assms by (simp_all add: clean_def)
  let ?rows = "filter (of_entry t i) (config (tables db))"
  obtain db' where r: "run_state (sql_rows ?rows) (api_next db) = (?rows, db')" "outcomes db' = []"
    using sql_rows_clean [OF c(1), of ?rows] by (metis prod.collapse)
  then have "run_state (sg_db_get (Some t) (Some i)) db = (entry_text (tables db) t i, db')"
    using c by (simp add: sg_db_get_def entry_text_def row_text_def [abs_def])
  moreover have "clean db' \<and> tables db' = tables db" using sql_rows_prefix [OF r(1)] r(2) c(2) by (simp add: clean_def)
  ultimately show ?thesis by blast
qed

text \<open>A key that is found in the beginning of a text has the value it has in the text.\<close>

lemma first_line_append: "a \<noteq> [] \<Longrightarrow> last a = CHR 0x0A \<Longrightarrow> first_line (a @ b) = first_line a"
  by (auto simp: first_line_def takeWhile_append takeWhile_append1 dest: last_in_set)

lemma next_line_append:
  assumes "a \<noteq> []" "last a = CHR 0x0A"
  shows "\<exists>r. next_line a = Some r \<and> next_line (a @ b) = Some (r @ b) \<and> (r = [] \<or> last r = CHR 0x0A)"
proof -
  have nl: "CHR 0x0A \<in> set a" using assms last_in_set by metis
  then obtain l r where a: "a = l @ CHR 0x0A # r" "CHR 0x0A \<notin> set l" using split_list_first by metis
  then have "next_line a = Some r" "next_line (a @ b) = Some (r @ b)"
    using line_of(2) [OF a(2), of r] line_of(2) [OF a(2), of "r @ b"] by simp_all
  then show ?thesis using assms(2) a(1) by (auto split: if_splits)
qed

lemma kv_get_append:
  "a = [] \<or> last a = CHR 0x0A \<Longrightarrow> kv_get_loop a key n = [] \<or> kv_get_loop a key n = kv_get_loop (a @ b) key n"
proof (induction "length a" arbitrary: a rule: less_induct)
  case less
  show ?case
  proof (cases "a = []")
    case True
    then show ?thesis by (simp add: kv_get_loop.simps)
  next
    case False
    then have l: "last a = CHR 0x0A" using less.prems by simp
    obtain r where r: "next_line a = Some r" "next_line (a @ b) = Some (r @ b)" "r = [] \<or> last r = CHR 0x0A"
      using next_line_append [OF False l] by blast
    have "length r < length a" using next_line_shorter [OF r(1)] .
    from less.hyps [OF this r(3)] show ?thesis
      using r first_line_append [OF False l, of b] False
      by (subst (1 2) kv_get_loop.simps, subst kv_get_loop.simps) simp
  qed
qed

lemma lines_append: "lines (xs @ ys) = lines xs @ lines ys"
  by (simp add: lines_def)

lemma lines_last: "lines ls = [] \<or> last (lines ls) = CHR 0x0A"
  by (induction ls rule: rev_induct) (simp_all add: lines_def)

lemma extract_prefix:
  "extract_val (text_of (take n ls)) key m = [] \<or> extract_val (text_of (take n ls)) key m = extract_val (text_of ls) key m"
proof (cases "take n ls = [] \<or> m = 0")
  case True
  then show ?thesis by (auto simp: extract_val_def text_of_def)
next
  case False
  then have "ls \<noteq> []" by auto
  have "lines ls = lines (take n ls) @ lines (drop n ls)" by (simp flip: lines_append)
  then show ?thesis using False \<open>ls \<noteq> []\<close> kv_get_append [OF lines_last, of "take n ls" key m "lines (drop n ls)"]
    by (simp add: extract_val_def text_of_def)
qed

section \<open>Permissions\<close>

text \<open>The permissions the store gives a user, and whether they allow changes of a type.\<close>

definition user_permissions :: "sg_tables \<Rightarrow> string \<Rightarrow> string" where
  "user_permissions tb user =
     (let prof = extract_val (entry_text tb ''system_admin'' user) ''profile'' VALBUFSZ;
          perms = extract_val (entry_text tb ''system_admin-profile'' prof) ''permissions'' 256
      in if user = ''__webd'' \<or> prof = [] \<or> perms = [] then ''monitor'' else perms)"

definition may_change :: "sg_tables \<Rightarrow> string \<Rightarrow> string \<Rightarrow> bool" where
  "may_change tb user t = (case sg_reg_type_perm (Some t) of
      None \<Rightarrow> False
    | Some req \<Rightarrow> ''admin'' \<in> set (strtok_all (CHR '','') (user_permissions tb user)) \<or>
        req \<noteq> ''admin'' \<and> ''configure'' \<in> set (strtok_all (CHR '','') (user_permissions tb user)))"

lemma permissions_fail_closed:
  assumes "run_state (get_user_permissions user) db = (p, db')"
  shows "tables db' = tables db \<and> (p = ''monitor'' \<or> p = user_permissions (tables db) user)"
proof (cases "user = ''__webd''")
  case True
  then show ?thesis using assms by (simp add: get_user_permissions_def)
next
  case False
  obtain ud db1 where u: "run_state (sg_db_get (Some ''system_admin'') (Some user)) db = (ud, db1)" by force
  define prof where "prof = extract_val ud ''profile'' VALBUFSZ"
  have t1: "tables db1 = tables db" and p1: "prof = [] \<or> prof = extract_val (entry_text (tables db) ''system_admin'' user) ''profile'' VALBUFSZ"
    using get_prefix [OF u] extract_prefix [of _ "map row_text (filter (of_entry ''system_admin'' user) (config (tables db)))" "''profile''" VALBUFSZ]
    by (auto simp: prof_def entry_text_def take_map)
  show ?thesis
  proof (cases "prof = [] \<or> ud = None")
    case True
    then show ?thesis using assms False u t1 by (auto simp: get_user_permissions_def prof_def split: option.splits)
  next
    case ne: False
    obtain pd db2 where q: "run_state (sg_db_get (Some ''system_admin-profile'') (Some prof)) db1 = (pd, db2)" by force
    define perms where "perms = extract_val pd ''permissions'' 256"
    have t2: "tables db2 = tables db" and p2: "perms = [] \<or> perms = extract_val (entry_text (tables db) ''system_admin-profile'' prof) ''permissions'' 256"
      using get_prefix [OF q] t1 extract_prefix [of _ "map row_text (filter (of_entry ''system_admin-profile'' prof) (config (tables db)))" "''permissions''" 256]
      by (auto simp: perms_def entry_text_def take_map)
    have "p = (if pd = None \<or> perms = [] then ''monitor'' else perms) \<and> db' = db2"
      using assms False u ne q by (auto simp: get_user_permissions_def prof_def perms_def Let_def split: option.splits)
    then show ?thesis using t2 p1 p2 ne False by (auto simp: user_permissions_def Let_def)
  qed
qed

lemma monitor_words: "strtok_all (CHR '','') ''monitor'' = [''monitor'']"
  by code_simp

lemma permission_granted:
  assumes "run_state (check_permission user t) db = (r, db')"
  shows "tables db' = tables db \<and> (r = None \<longrightarrow> may_change (tables db) user t)"
proof (cases "sg_reg_type_perm (Some t)")
  case None
  then show ?thesis using assms by (auto simp: check_permission_def get_type_permission_def)
next
  case (Some req)
  obtain p db1 where p: "run_state (get_user_permissions user) db = (p, db1)" by force
  note f = permissions_fail_closed [OF p]
  have "db' = db1" "r = None \<longrightarrow> ''admin'' \<in> set (strtok_all (CHR '','') p) \<or> req \<noteq> ''admin'' \<and> ''configure'' \<in> set (strtok_all (CHR '','') p)"
    using assms p Some by (auto simp: check_permission_def get_type_permission_def has_permission_def split: if_splits)
  then show ?thesis using f Some monitor_words by (auto simp: may_change_def)
qed

text \<open>The entry a request is about.\<close>

definition del_target :: "string \<Rightarrow> string \<times> string" where
  "del_target p = (let s0 = take 255 p in sg_db_parse_section (if s0 \<noteq> [] \<and> last s0 = CHR 0x0A then butlast s0 else s0) 256 256)"

definition insert_target :: "string \<Rightarrow> string \<times> string" where
  "insert_target p = (case strchr p (CHR 0x0A) of None \<Rightarrow> ([], []) | Some nl \<Rightarrow> sg_db_parse_section (take (min nl 255) p) 256 256)"

text \<open>An answer that has changed nothing.\<close>

definition refused :: "sg_db \<Rightarrow> reply \<times> sg_db \<Rightarrow> bool" where
  "refused db r \<longleftrightarrow> fst (fst r) \<noteq> SG_OK \<and> snd (fst r) = [] \<and> tables (snd r) = tables db"

lemma check_permission_error: "run_state (check_permission user t) db = (Some e, db') \<Longrightarrow> e \<noteq> SG_OK"
  by (auto simp: check_permission_def split: option.splits prod.splits if_splits)

text \<open>
  C22. A user without the permission changes nothing, whatever calls into the SQL library fail. Unless the store gives the user the permission
  that the registry demands for the type of the entry, a request to delete or to move an entry is answered with an error, has no effect outside the
  store and leaves its tables as they are: a failure while the permissions are read can only take permissions away.
\<close>

theorem commands_need_permission:
  "(if may_change (tables db) user (fst (del_target p)) then True else refused db (run_state (handle_cfg_del scan user (Some p)) db)) \<and>
   (if may_change (tables db) user (fst (insert_target p)) then True else refused db (run_state (handle_cfg_insert user (Some p)) db)) \<and>
   refused db (run_state (handle_cfg_del scan user None) db) \<and> refused db (run_state (handle_cfg_insert user None) db)"
proof -
  have d: "refused db (run_state (handle_cfg_del scan user (Some p)) db)" if n: "\<not> may_change (tables db) user (fst (del_target p))"
  proof -
    obtain t i where ti: "del_target p = (t, i)" by force
    obtain r db' where c: "run_state (check_permission user t) db = (r, db')" by force
    from permission_granted [OF c] n ti obtain e where e: "r = Some e" "tables db' = tables db" by auto
    then show ?thesis using c check_permission_error [of user t db e db'] ti
      by (cases "sg_reg_type_mode (Some t) < 0") (auto simp: handle_cfg_del_def refused_def del_target_def Let_def)
  qed
  have m: "refused db (run_state (handle_cfg_insert user (Some p)) db)" if n: "\<not> may_change (tables db) user (fst (insert_target p))"
  proof -
    obtain t i where ti: "insert_target p = (t, i)" by force
    obtain r db' where c: "run_state (check_permission user t) db = (r, db')" by force
    from permission_granted [OF c] n ti obtain e where e: "r = Some e" "tables db' = tables db" by auto
    then show ?thesis using c check_permission_error [of user t db e db'] ti
      by (cases "seq_type_is_orderable (Some t)") (auto simp: handle_cfg_insert_def refused_def insert_target_def Let_def split: option.splits)
  qed
  show ?thesis using d m by (simp add: handle_cfg_del_def handle_cfg_insert_def refused_def)
qed

section \<open>Deleting an entry\<close>

text \<open>The rows of the store hold keys and values that fit on a line.\<close>

definition rows_ok :: "sg_tables \<Rightarrow> bool" where
  "rows_ok tb \<longleftrightarrow> list_all (\<lambda>r. kv_ok (cr_key r, cr_value r)) (config tb)"

lemma entry_field:
  assumes "rows_ok tb" "CHR ''='' \<notin> set key" "0 < m"
  shows "extract_val (entry_text tb t i) key m = take (m - 1) (case value_of t i key tb of None \<Rightarrow> [] | Some v \<Rightarrow> v)"
proof -
  define rows kvs where "rows = filter (of_entry t i) (config tb)" and "kvs = map (\<lambda>r. (cr_key r, cr_value r)) rows"
  have ok: "list_all kv_ok kvs" using assms(1) by (auto simp: rows_ok_def kvs_def rows_def list_all_iff)
  have e: "map row_text rows = map kv_text kvs" by (simp add: kvs_def row_text_def kv_text_def)
  have tx: "entry_text tb t i = (if kvs = [] then None else Some (render_kv kvs))"
    by (simp only: entry_text_def text_of_def e render_lines rows_def [symmetric] map_is_Nil_conv)
  have "map_of (map (\<lambda>r. (cr_key r, cr_value r)) (filter (of_entry t i) rs)) key =
      map_option cr_value (List.find (\<lambda>r. of_entry t i r \<and> cr_key r = key) rs)" for rs
    by (induction rs) auto
  then have "map_of kvs key = value_of t i key tb" by (simp add: kvs_def rows_def value_of_def)
  then show ?thesis using kv_loops(1) [OF ok assms(2), of m] tx assms(3) by (auto simp: extract_val_def)
qed

lemma entry_flag:
  assumes "rows_ok tb" "CHR ''='' \<notin> set key"
  shows "extract_val (entry_text tb t i) key VALBUFSZ = ''yes'' \<longleftrightarrow> value_of t i key tb = Some ''yes''"
proof -
  have "take 127 v = ''yes'' \<longleftrightarrow> v = ''yes''" for v :: string
  proof
    assume h: "take 127 v = ''yes''"
    then have "length (take 127 v) = 3" by simp
    then have "length v \<le> 127" by (simp add: min_def split: if_splits)
    then show "v = ''yes''" using h by simp
  qed simp
  then show ?thesis using entry_field [OF assms, of VALBUFSZ t i] by (auto simp: VALBUFSZ_def split: option.splits)
qed

lemma entry_text_None: "entry_text tb t i = None \<longleftrightarrow> (\<forall>k. value_of t i k tb = None)"
  by (auto simp: entry_text_def text_of_def filter_empty_conv value_of_def find_None_iff)

text \<open>An entry is referred to if a field of the registry that refers to its type has its identifier as value.\<close>

definition refers :: "sg_tables \<Rightarrow> string \<Rightarrow> string \<times> string \<Rightarrow> bool" where
  "refers tb i q \<longleftrightarrow> list_ex (\<lambda>r. cr_type r = fst q \<and> cr_key r = snd q \<and> cr_value r = i) (config tb)"

definition referenced :: "sg_tables \<Rightarrow> string \<Rightarrow> string \<Rightarrow> bool" where
  "referenced tb t i \<longleftrightarrow> list_ex (\<lambda>f. ref_target f = Some t \<and> refers tb i (fe_type f, fe_key f)) field_table"

lemma count_lines_text: "count_lines (text_of ls) = 0 \<longleftrightarrow> ls = []"
proof (cases ls)
  case (Cons l ls')
  then have "lines ls \<noteq> []" by (simp add: lines_def)
  then show ?thesis using Cons by (auto simp: count_lines_def text_of_def Let_def)
qed (simp add: count_lines_def text_of_def)

lemma find_referencing_text:
  assumes "clean db" "\<And>xs. mset (scan xs) = mset xs"
  shows "\<exists>ids db'. run_state (sg_db_find_referencing scan (Some (fst q)) (Some (snd q)) (Some i)) db = (text_of (map (\<lambda>i. fst q @ '':'' @ i) ids), db') \<and>
    clean db' \<and> tables db' = tables db \<and> saved db' = saved db \<and>
    set ids = cr_id ` {r \<in> set (config (tables db)). cr_type r = fst q \<and> cr_key r = snd q \<and> cr_value r = i}"
proof -
  define ids where "ids = remdups (map cr_id (filter (\<lambda>r. cr_type r = fst q \<and> cr_key r = snd q \<and> cr_value r = i) (config (tables db))))"
  have c: "outcomes (api_next db) = []" "is_open db" "api_ok db" using assms(1) by (simp_all add: clean_def)
  obtain db' where r: "run_state (sql_rows (scan ids)) (api_next db) = (scan ids, db')" "outcomes db' = []"
    using sql_rows_clean [OF c(1), of "scan ids"] by (metis prod.collapse)
  have "run_state (sg_db_find_referencing scan (Some (fst q)) (Some (snd q)) (Some i)) db = (text_of (map (\<lambda>i. fst q @ '':'' @ i) (scan ids)), db')"
    using c r by (simp add: sg_db_find_referencing_def ids_def [symmetric])
  moreover have "clean db' \<and> tables db' = tables db \<and> saved db' = saved db" using sql_rows_prefix [OF r(1)] r(2) c(2) by (simp add: clean_def)
  moreover have "set (scan ids) = set ids" using assms(2) [of ids] mset_eq_setD by blast
  ultimately show ?thesis by (intro exI [of _ "scan ids"]) (auto simp: ids_def)
qed

lemma find_referencing_clean:
  assumes "clean db" "\<And>xs. mset (scan xs) = mset xs"
  shows "\<exists>found db'. run_state (sg_db_find_referencing scan (Some (fst q)) (Some (snd q)) (Some i)) db = (found, db') \<and> clean db' \<and>
    tables db' = tables db \<and> (count_lines found = 0 \<longleftrightarrow> \<not> refers (tables db) i q)"
proof -
  obtain ids db' where r: "run_state (sg_db_find_referencing scan (Some (fst q)) (Some (snd q)) (Some i)) db = (text_of (map (\<lambda>i. fst q @ '':'' @ i) ids), db')"
    "clean db'" "tables db' = tables db"
    "set ids = cr_id ` {r \<in> set (config (tables db)). cr_type r = fst q \<and> cr_key r = snd q \<and> cr_value r = i}"
    using find_referencing_text [OF assms] by metis
  have "ids = [] \<longleftrightarrow> \<not> refers (tables db) i q"
    using r(4) by (simp add: refers_def list_ex_iff flip: set_empty) blast
  then show ?thesis using r by (simp add: count_lines_text)
qed

lemma count_references_clean:
  assumes "clean db" "\<And>xs. mset (scan xs) = mset xs"
  shows "\<exists>n db'. run_state (count_references scan rs i) db = (n, db') \<and> clean db' \<and> tables db' = tables db \<and>
    (n = 0 \<longleftrightarrow> \<not> list_ex (refers (tables db) i) rs)"
  using assms(1)
proof (induction rs arbitrary: db)
  case (Cons q rs)
  obtain found db1 where f: "run_state (sg_db_find_referencing scan (Some (fst q)) (Some (snd q)) (Some i)) db = (found, db1)" "clean db1"
    "tables db1 = tables db" "count_lines found = 0 \<longleftrightarrow> \<not> refers (tables db) i q"
    using find_referencing_clean [OF Cons.prems assms(2), of q i] by auto
  obtain n db2 where n: "run_state (count_references scan rs i) db1 = (n, db2)" "clean db2" "tables db2 = tables db1"
    "n = 0 \<longleftrightarrow> \<not> list_ex (refers (tables db1) i) rs"
    using Cons.IH [OF f(2)] by auto
  show ?case using f n by simp
qed simp

lemma check_references_clean:
  assumes "clean db" "\<And>xs. mset (scan xs) = mset xs"
  shows "\<exists>db'. run_state (check_references scan t i) db = ((if referenced (tables db) t i then -1 else 0), db') \<and> clean db' \<and> tables db' = tables db"
proof -
  let ?rs = "sg_reg_find_referencing (Some t) 16"
  have "list_ex (refers (tables db) i) ?rs \<longleftrightarrow> referenced (tables db) t i"
    unfolding find_referencing_complete referenced_def by (auto simp: list_ex_iff)
  then show ?thesis using count_references_clean [OF assms, of ?rs i] by (auto simp: check_references_def)
qed

lemma check_deletable_clean:
  assumes "clean db" "rows_ok (tables db)" "\<And>xs. mset (scan xs) = mset xs"
  shows "\<exists>db'. run_state (check_deletable scan t i) db =
      ((if \<forall>k. value_of t i k (tables db) = None then Some SG_ERR_ENTRY_NOT_FOUND
        else if value_of t i ''builtin'' (tables db) = Some ''yes'' \<or> value_of t i ''immutable'' (tables db) = Some ''yes'' then Some SG_ERR_BUILTIN
        else if referenced (tables db) t i then Some SG_ERR_IN_USE else None), db') \<and> clean db' \<and> tables db' = tables db"
proof -
  obtain db1 where g: "run_state (sg_db_get (Some t) (Some i)) db = (entry_text (tables db) t i, db1)" "clean db1" "tables db1 = tables db"
    using get_clean [OF assms(1)] by blast
  obtain db2 where r: "run_state (check_references scan t i) db1 = ((if referenced (tables db) t i then -1 else 0), db2)" "clean db2" "tables db2 = tables db"
    using check_references_clean [OF g(2) assms(3)] g(3) by auto
  have fl: "extract_val (entry_text (tables db) t i) ''builtin'' VALBUFSZ = ''yes'' \<longleftrightarrow> value_of t i ''builtin'' (tables db) = Some ''yes''"
    "extract_val (entry_text (tables db) t i) ''immutable'' VALBUFSZ = ''yes'' \<longleftrightarrow> value_of t i ''immutable'' (tables db) = Some ''yes''"
    using entry_flag [OF assms(2)] by simp_all
  show ?thesis
  proof (cases "entry_text (tables db) t i")
    case None
    then show ?thesis using g entry_text_None [of "tables db" t i] by (auto simp: check_deletable_def)
  next
    case (Some d)
    then have "\<not> (\<forall>k. value_of t i k (tables db) = None)" using entry_text_None [of "tables db" t i] by simp
    then show ?thesis using g r fl Some by (simp add: check_deletable_def is_immutable_def cong: if_cong)
  qed
qed

lemma del_clean:
  "clean db \<Longrightarrow> run_state (sg_db_del (Some t) (Some i)) db = (0, (api_next (api_next db))\<lparr>tables := delete_rows (of_entry t i) (tables db)\<rparr>)"
  using run_change_clean by (simp add: clean_def sg_db_del_def)

lemma del_filters_clean:
  assumes "clean db"
  shows "\<exists>db'. run_state (del_filters pfx plen fids) db = ((), db') \<and> clean db' \<and> (\<forall>t' i' k. value_of t' i' k (tables db') =
    (if t' = ''security_ips-filter'' \<and> i' \<in> set fids \<and> take plen i' = take plen pfx then None else value_of t' i' k (tables db)))"
  using assms
proof (induction fids arbitrary: db)
  case (Cons fid fids)
  show ?case
  proof (cases "take plen fid = take plen pfx")
    case True
    let ?db1 = "(api_next (api_next db))\<lparr>tables := delete_rows (of_entry ''security_ips-filter'' fid) (tables db)\<rparr>"
    have "clean ?db1" using Cons.prems by simp
    from Cons.IH [OF this] show ?thesis using True Cons.prems by (auto simp: del_clean value_of_delete)
  next
    case False
    then show ?thesis using Cons.IH [OF Cons.prems] by auto
  qed
qed auto

text \<open>The filters that go with a profile.\<close>

definition child_of :: "string \<Rightarrow> string \<Rightarrow> string \<Rightarrow> string \<Rightarrow> bool" where
  "child_of t i t' i' \<longleftrightarrow> t = ''security_ips-profile'' \<and> t' = ''security_ips-filter'' \<and> i' \<noteq> ''0'' \<and>
     take (length i + 1) i' = take (length i + 1) (take 23 (i @ ''/''))"

lemma value_of_listed: "value_of t i k tb \<noteq> None \<Longrightarrow> i \<noteq> ''0'' \<Longrightarrow> i \<in> set (entry_ids t tb)"
  by (auto simp: value_of_def entry_ids_def ids_of_def find_Some_iff of_entry_def)

lemma del_children_clean:
  assumes "clean db" "list_all (\<lambda>i. CHR 0x0A \<notin> set i \<and> i \<noteq> []) (ids_of ''security_ips-filter'' (tables db))"
  shows "\<exists>db'. run_state (del_children t i) db = ((), db') \<and> clean db' \<and> (\<forall>t' i' k. value_of t' i' k (tables db') =
    (if child_of t i t' i' then None else value_of t' i' k (tables db)))"
proof (cases "t = ''security_ips-profile''")
  case False
  then show ?thesis using assms(1) by (simp add: del_children_def child_of_def)
next
  case True
  let ?ids = "entry_ids ''security_ips-filter'' (tables db)"
  let ?pfx = "take 23 (i @ ''/'')" let ?n = "length i + 1"
  obtain db1 where l: "run_state (sg_db_list (Some ''security_ips-filter'')) db = (text_of ?ids, db1)" "clean db1" "tables db1 = tables db"
    using list_clean [OF assms(1)] by blast
  obtain db2 where f: "run_state (del_filters ?pfx ?n ?ids) db1 = ((), db2)" "clean db2"
    "\<forall>t' i' k. value_of t' i' k (tables db2) =
      (if t' = ''security_ips-filter'' \<and> i' \<in> set ?ids \<and> take ?n i' = take ?n ?pfx then None else value_of t' i' k (tables db1))"
    using del_filters_clean [OF l(2), of ?pfx ?n ?ids] by (elim exE conjE) (rule that)
  note v = f(3) [rule_format]
  have "list_all (\<lambda>i. CHR 0x0A \<notin> set i \<and> i \<noteq> []) ?ids" using assms(2) by (auto simp: entry_ids_def list_all_iff)
  then have "strtok_all (CHR 0x0A) (lines ?ids) = ?ids" unfolding lines_def by (rule strtok_lines)
  then have "run_state (del_children t i) db = ((), if ?ids = [] then db1 else db2)"
    using True l(1) f(1) by (simp add: del_children_def text_of_def)
  moreover have "value_of t' i' k (tables (if ?ids = [] then db1 else db2)) = (if child_of t i t' i' then None else value_of t' i' k (tables db))" for t' i' k
  proof (cases "child_of t i t' i'")
    case ch: True
    then have c: "t' = ''security_ips-filter''" "i' \<noteq> ''0''" "take ?n i' = take ?n ?pfx" by (simp_all add: child_of_def)
    show ?thesis
    proof (cases "i' \<in> set ?ids")
      case True
      then have "?ids \<noteq> []" by auto
      then show ?thesis using v [of t' i' k] c True ch by (simp only: simp_thms if_True if_False)
    next
      case False
      then have "value_of t' i' k (tables db) = None" using value_of_listed [of t' i' k "tables db"] c by blast
      then show ?thesis using v [of t' i' k] l(3) False by (simp only: simp_thms if_False if_cancel if_distrib [of tables] if_distrib [of "value_of t' i' k"])
    qed
  next
    case False
    then have "\<not> (t' = ''security_ips-filter'' \<and> i' \<in> set ?ids \<and> take ?n i' = take ?n ?pfx)"
      using True by (auto simp: child_of_def entry_ids_def)
    then have "value_of t' i' k (tables db2) = value_of t' i' k (tables db)" using v [of t' i' k] l(3) by (simp only: if_False)
    then show ?thesis using l(3) False by simp
  qed
  ultimately show ?thesis using l(2) f(2) by simp
qed

lemma del_reads_clean:
  assumes "clean db"
  shows "\<exists>x db'. run_state (del_unapply t i) db = (x, db') \<and> clean db' \<and> tables db' = tables db"
    and "\<exists>x db'. run_state (del_cmkid t i) db = (x, db') \<and> clean db' \<and> tables db' = tables db"
proof -
  obtain db1 where g: "run_state (sg_db_get (Some t) (Some i)) db = (entry_text (tables db) t i, db1)" "clean db1" "tables db1 = tables db"
    using get_clean [OF assms] by blast
  show "\<exists>x db'. run_state (del_unapply t i) db = (x, db') \<and> clean db' \<and> tables db' = tables db"
  proof (cases "t = ''network_route_static'' \<or> t = ''firewall_address''")
    case True
    then show ?thesis using g by (elim disjE) (simp_all add: del_unapply_def)
  next
    case False
    then show ?thesis using assms by (simp add: del_unapply_def)
  qed
  show "\<exists>x db'. run_state (del_cmkid t i) db = (x, db') \<and> clean db' \<and> tables db' = tables db"
    using g assms by (cases "t = ''firewall_policy''") (simp_all add: del_cmkid_def)
qed

lemma del_entry_clean:
  assumes "clean db" "list_all (\<lambda>i. CHR 0x0A \<notin> set i \<and> i \<noteq> []) (ids_of ''security_ips-filter'' (tables db))"
  shows "\<exists>e db'. run_state (del_entry t i) db = ((SG_OK, e), db') \<and> (\<forall>t' i' k. value_of t' i' k (tables db') =
    (if t' = t \<and> i' = i \<or> child_of t i t' i' then None else value_of t' i' k (tables db)))"
proof -
  obtain un db1 where u: "run_state (del_unapply t i) db = (un, db1)" "clean db1" "tables db1 = tables db"
    using del_reads_clean(1) [OF assms(1)] by blast
  obtain ck db2 where c: "run_state (del_cmkid t i) db1 = (ck, db2)" "clean db2" "tables db2 = tables db"
    using del_reads_clean(2) [OF u(2)] u(3) by metis
  have ids: "list_all (\<lambda>i. CHR 0x0A \<notin> set i \<and> i \<noteq> []) (ids_of ''security_ips-filter'' (tables db2))" using assms(2) c(3) by simp
  obtain db3 where d: "run_state (del_children t i) db2 = ((), db3)" "clean db3"
    "\<forall>t' i' k. value_of t' i' k (tables db3) = (if child_of t i t' i' then None else value_of t' i' k (tables db2))"
    using del_children_clean [OF c(2) ids, of t i] by (elim exE conjE) (rule that)
  note v = d(3) [rule_format]
  let ?db4 = "(api_next (api_next db3))\<lparr>tables := delete_rows (of_entry t i) (tables db3)\<rparr>"
  have "\<exists>e. run_state (del_entry t i) db = ((SG_OK, e), ?db4)"
    using u(1) c(1) d by (simp add: del_entry_def Let_def del_clean)
  moreover have "value_of t' i' k (tables ?db4) = (if t' = t \<and> i' = i \<or> child_of t i t' i' then None else value_of t' i' k (tables db))" for t' i' k
    using v [of t' i' k] c(3) by (simp add: value_of_delete)
  ultimately show ?thesis by blast
qed

lemma permissions_clean:
  assumes "clean db"
  shows "\<exists>db'. run_state (get_user_permissions user) db = (user_permissions (tables db) user, db') \<and> clean db' \<and> tables db' = tables db"
proof (cases "user = ''__webd''")
  case True
  then show ?thesis using assms by (simp add: get_user_permissions_def user_permissions_def Let_def)
next
  case False
  let ?ud = "entry_text (tables db) ''system_admin'' user"
  define prof where "prof = extract_val ?ud ''profile'' VALBUFSZ"
  obtain db1 where u: "run_state (sg_db_get (Some ''system_admin'') (Some user)) db = (?ud, db1)" "clean db1" "tables db1 = tables db"
    using get_clean [OF assms] by blast
  obtain db2 where q: "run_state (sg_db_get (Some ''system_admin-profile'') (Some prof)) db1 = (entry_text (tables db) ''system_admin-profile'' prof, db2)"
    "clean db2" "tables db2 = tables db"
    using get_clean [OF u(2), of "''system_admin-profile''" prof] u(3) by auto
  have none: "extract_val None k m = []" for k m by (simp add: extract_val_def)
  show ?thesis
  proof (cases "prof = [] \<or> ?ud = None")
    case True
    then have "prof = []" by (auto simp: prof_def none)
    then have "extract_val ?ud ''profile'' VALBUFSZ = []" by (simp add: prof_def)
    then show ?thesis using u False by (cases ?ud) (auto simp: get_user_permissions_def user_permissions_def Let_def)
  next
    case ne: False
    then obtain ud where ud: "?ud = Some ud" by blast
    define pd where "pd = entry_text (tables db) ''system_admin-profile'' prof"
    have p: "extract_val (Some ud) ''profile'' VALBUFSZ = prof" "prof \<noteq> []" using ne ud by (simp_all add: prof_def)
    have "user_permissions (tables db) user = (if extract_val pd ''permissions'' 256 = [] then ''monitor'' else extract_val pd ''permissions'' 256)"
      using False p ud by (simp add: user_permissions_def Let_def pd_def)
    moreover have "run_state (get_user_permissions user) db =
        (if extract_val pd ''permissions'' 256 = [] then ''monitor'' else extract_val pd ''permissions'' 256, db2)"
      using u(1) q(1) False p ud none by (cases pd) (simp_all add: get_user_permissions_def Let_def pd_def [symmetric])
    ultimately show ?thesis using q(2,3) by simp
  qed
qed

lemma check_permission_clean:
  assumes "clean db" "sg_reg_type_perm (Some t) = Some req"
  shows "\<exists>db'. run_state (check_permission user t) db = ((if may_change (tables db) user t then None else Some SG_ERR_PERM_DENIED), db') \<and>
    clean db' \<and> tables db' = tables db"
  using permissions_clean [OF assms(1), of user] assms(2)
  by (auto simp: check_permission_def get_type_permission_def may_change_def has_permission_def)

lemma known_type: "\<not> sg_reg_type_mode (Some t) < 0 \<Longrightarrow> \<exists>req. sg_reg_type_perm (Some t) = Some req"
  by (auto simp: sg_reg_type_mode_def sg_reg_type_perm_def split: option.splits)

text \<open>The answer to a request to delete the entry \<open>(t, i)\<close>, and the state of the entry that decides it.\<close>

definition del_status :: "sg_tables \<Rightarrow> string \<Rightarrow> string \<Rightarrow> string \<Rightarrow> sg_status_t" where
  "del_status tb user t i =
     (if sg_reg_type_mode (Some t) < 0 then SG_ERR_INVALID_ARG
      else if \<not> may_change tb user t then SG_ERR_PERM_DENIED
      else if i = [] \<or> \<not> sg_reg_validate_entry_id (Some t) (Some i) then SG_ERR_INVALID_ARG
      else if \<forall>k. value_of t i k tb = None then SG_ERR_ENTRY_NOT_FOUND
      else if value_of t i ''builtin'' tb = Some ''yes'' \<or> value_of t i ''immutable'' tb = Some ''yes'' then SG_ERR_BUILTIN
      else if referenced tb t i then SG_ERR_IN_USE
      else SG_OK)"

text \<open>A small configuration: an administrator, two addresses and a policy that uses one of them.\<close>

definition example_rows :: "config_row list" where
  "example_rows = [row_of ''system_admin'' ''root'' (''profile'', ''super''), row_of ''system_admin-profile'' ''super'' (''permissions'', ''admin''),
     row_of ''firewall_address'' ''web'' (''subnet'', ''10.0.0.0/8''), row_of ''firewall_address'' ''dmz'' (''subnet'', ''10.1.0.0/16''),
     row_of ''firewall_address'' ''all'' (''subnet'', ''0.0.0.0/0''), row_of ''firewall_address'' ''all'' (''builtin'', ''yes''),
     row_of ''firewall_policy'' ''5'' (''srcaddr'', ''web'')]"

definition example_config :: "string option list \<Rightarrow> sg_db" where
  "example_config oc = (example_db oc)\<lparr>tables := example_tables\<lparr>config := example_rows\<rparr>\<rparr>"

lemma example_status:
  "del_status (tables (example_config [])) ''root'' ''firewall_address'' ''dmz'' = SG_OK"
  "del_status (tables (example_config [])) ''root'' ''firewall_address'' ''web'' = SG_ERR_IN_USE"
proof -
  let ?tb = "tables (example_config [])"
  have m: "\<not> sg_reg_type_mode (Some ''firewall_address'') < 0" "may_change ?tb ''root'' ''firewall_address''"
    "sg_reg_validate_entry_id (Some ''firewall_address'') (Some ''dmz'')" "sg_reg_validate_entry_id (Some ''firewall_address'') (Some ''web'')" by code_simp+
  have v: "value_of ''firewall_address'' ''dmz'' ''subnet'' ?tb \<noteq> None" "value_of ''firewall_address'' ''dmz'' ''builtin'' ?tb = None"
    "value_of ''firewall_address'' ''dmz'' ''immutable'' ?tb = None" "value_of ''firewall_address'' ''web'' ''subnet'' ?tb \<noteq> None"
    "value_of ''firewall_address'' ''web'' ''builtin'' ?tb = None" "value_of ''firewall_address'' ''web'' ''immutable'' ?tb = None" by code_simp+
  have r: "\<not> referenced ?tb ''firewall_address'' ''dmz''" "referenced ?tb ''firewall_address'' ''web''" by code_simp+
  have e: "\<not> (\<forall>k. value_of ''firewall_address'' ''dmz'' k ?tb = None)" by (rule contrapos_nn [OF v(1)]) (erule spec)
  have e': "\<not> (\<forall>k. value_of ''firewall_address'' ''web'' k ?tb = None)" by (rule contrapos_nn [OF v(4)]) (erule spec)
  show "del_status ?tb ''root'' ''firewall_address'' ''dmz'' = SG_OK" "del_status ?tb ''root'' ''firewall_address'' ''web'' = SG_ERR_IN_USE"
    using m v(2,3,5,6) r e e' by (simp_all add: del_status_def)
qed

text \<open>
  The protection of built-in entries does not survive a failure: if the SQL library fails after the first row of the entry has been read, the
  flag is not seen, and the built-in address is deleted.
\<close>

lemma builtin_deleted_on_failure:
  "let (r, db') = run_state (handle_cfg_del (\<lambda>xs. xs) ''root'' (Some ''firewall_address:all''))
        (example_config (replicate 8 None @ [Some ''disk I/O error'']))
   in fst r = SG_OK \<and> value_of ''firewall_address'' ''all'' ''builtin'' (tables db') = None"
  by code_simp

text \<open>
  C6. A request to delete an entry deletes that entry if, and only if, the user may change its type, its identifier is valid, it exists, it is
  neither built in nor immutable, and no field of the registry that refers to its type has it as value; a profile of the intrusion prevention takes its filters
  along, and every other value stays. In every other case the answer names the first condition that fails, and nothing changes. The calls into the SQL
  library are assumed to succeed, and the search for references to deliver its rows in some order.
\<close>

theorem cfg_del_spec:
  assumes "clean db" "rows_ok (tables db)" "list_all (\<lambda>i. CHR 0x0A \<notin> set i \<and> i \<noteq> []) (ids_of ''security_ips-filter'' (tables db))"
    and "\<And>xs. mset (scan xs) = mset xs" "p \<noteq> []" "CHR '':'' \<in> set (if last (take 255 p) = CHR 0x0A then butlast (take 255 p) else take 255 p)"
    and "del_target p = (t, i)"
  shows "\<exists>e db'. run_state (handle_cfg_del scan user (Some p)) db = ((del_status (tables db) user t i, e), db') \<and>
    (if del_status (tables db) user t i = SG_OK
     then \<forall>t' i' k. value_of t' i' k (tables db') = (if t' = t \<and> i' = i \<or> child_of t i t' i' then None else value_of t' i' k (tables db))
     else tables db' = tables db \<and> e = [])"
proof -
  let ?h = "run_state (handle_cfg_del scan user (Some p)) db"
  have h: "?h = (if sg_reg_type_mode (Some t) < 0 then ((SG_ERR_INVALID_ARG, []), db)
      else run_state (do {
        denied \<leftarrow> check_permission user t;
        case denied of
          Some e \<Rightarrow> ret (e, [])
        | None \<Rightarrow>
            if i = [] then ret (SG_ERR_INVALID_ARG, [])
            else if \<not> sg_reg_validate_entry_id (Some t) (Some i) then ret (SG_ERR_INVALID_ARG, [])
            else do {
              refused \<leftarrow> check_deletable scan t i;
              case refused of Some e \<Rightarrow> ret (e, []) | None \<Rightarrow> del_entry t i } }) db)"
    using assms(5-7) by (auto simp: handle_cfg_del_def del_target_def Let_def)
  show ?thesis
  proof (cases "sg_reg_type_mode (Some t) < 0")
    case True
    then show ?thesis using h by (simp add: del_status_def)
  next
    case False
    obtain db1 where c: "run_state (check_permission user t) db = ((if may_change (tables db) user t then None else Some SG_ERR_PERM_DENIED), db1)"
      "clean db1" "tables db1 = tables db"
      using check_permission_clean [OF assms(1)] known_type [OF False] by blast
    obtain db2 where d: "run_state (check_deletable scan t i) db1 =
      ((if \<forall>k. value_of t i k (tables db) = None then Some SG_ERR_ENTRY_NOT_FOUND
        else if value_of t i ''builtin'' (tables db) = Some ''yes'' \<or> value_of t i ''immutable'' (tables db) = Some ''yes'' then Some SG_ERR_BUILTIN
        else if referenced (tables db) t i then Some SG_ERR_IN_USE else None), db2)" "clean db2" "tables db2 = tables db"
      using check_deletable_clean [OF c(2), of scan t i] assms(2,4) c(3) by auto
    have ids: "list_all (\<lambda>i. CHR 0x0A \<notin> set i \<and> i \<noteq> []) (ids_of ''security_ips-filter'' (tables db2))" using assms(3) d(3) by simp
    show ?thesis using h False c d del_entry_clean [OF d(2) ids, of t i] by (auto simp: del_status_def)
  qed
qed

theorem cfg_del_spec_witness:
  "\<exists>e db'. run_state (handle_cfg_del (\<lambda>xs. xs) ''root'' (Some ''firewall_address:dmz'')) (example_config []) = ((SG_OK, e), db') \<and>
     value_of ''firewall_address'' ''dmz'' ''subnet'' (tables db') = None \<and>
     value_of ''firewall_policy'' ''5'' ''srcaddr'' (tables db') = value_of ''firewall_policy'' ''5'' ''srcaddr'' (tables (example_config []))"
proof -
  let ?p = "''firewall_address:dmz''" let ?db = "example_config []"
  have c: "clean ?db" by (simp add: clean_def example_config_def example_db_def)
  have ok: "rows_ok (tables ?db)" by code_simp
  have ids: "list_all (\<lambda>i. CHR 0x0A \<notin> set i \<and> i \<noteq> []) (ids_of ''security_ips-filter'' (tables ?db))" by code_simp
  have co: "CHR '':'' \<in> set (if last (take 255 ?p) = CHR 0x0A then butlast (take 255 ?p) else take 255 ?p)" by code_simp
  have tg: "del_target ?p = (''firewall_address'', ''dmz'')" by code_simp
  have s: "mset ((\<lambda>xs. xs) xs) = mset xs" for xs :: "string list" by simp
  show ?thesis using cfg_del_spec [OF c ok ids s _ co tg, of "''root''"] example_status(1) by (auto simp: child_of_def)
qed

section \<open>What passes the checks is what is stored\<close>

definition accepted_value :: "string \<Rightarrow> string \<Rightarrow> string \<Rightarrow> bool" where
  "accepted_value t k v \<longleftrightarrow> internal_key k \<or> sg_reg_is_valid_key (Some t) (Some k) \<and>
     (v = [] \<and> sg_reg_is_optional (Some t) (Some k) \<or> sg_reg_validate_value (Some t) (Some k) (Some v))"

lemma validate_lines_ok: "validate_lines t ls = SG_OK \<longleftrightarrow> list_all (\<lambda>l. validate_line t l = SG_OK) ls"
  by (induction ls) auto

lemma validate_line_ok:
  "validate_line t l = SG_OK \<Longrightarrow> strchr l (CHR ''='') = Some n \<Longrightarrow> accepted_value t (take n l) (drop (Suc n) l)"
  by (auto simp: validate_line_def accepted_value_def Let_def split: if_splits)

lemma parse_pairs_lines:
  "(k, v) \<in> set (parse_pairs ls n) \<Longrightarrow> \<exists>l \<in> set ls. \<exists>m. strchr l (CHR ''='') = Some m \<and> k = take m l \<and> v = drop (Suc m) l"
  by (induction ls n rule: parse_pairs.induct) (auto split: if_splits option.splits)

lemma validated_pairs:
  assumes "validate_cfg_fields t dat = SG_OK" "(k, v) \<in> set (pairs_of (Some dat))"
  shows "accepted_value t k v"
proof -
  obtain l m where l: "l \<in> set (strtok_all (CHR 0x0A) dat)" "strchr l (CHR ''='') = Some m" "k = take m l" "v = drop (Suc m) l"
    using assms(2) parse_pairs_lines by (fastforce simp: pairs_of_def)
  then have "validate_line t l = SG_OK" using assms(1) by (auto simp: validate_cfg_fields_def validate_lines_ok list_all_iff)
  then show ?thesis using validate_line_ok l by blast
qed

lemma ref_lines_clean:
  assumes "clean db" "run_state (ref_lines t ls) db = (SG_OK, db')"
  shows "tables db' = tables db \<and> list_all (\<lambda>l. case line_ref t l of None \<Rightarrow> True | Some (rt, v) \<Rightarrow> entry_text (tables db) rt v \<noteq> None) ls"
  using assms
proof (induction ls arbitrary: db)
  case (Cons l ls)
  show ?case
  proof (cases "line_ref t l")
    case None
    then show ?thesis using Cons.IH [OF Cons.prems(1)] Cons.prems(2) by simp
  next
    case (Some q)
    obtain rt v where q: "q = (rt, v)" by (cases q)
    obtain db1 where g: "run_state (sg_db_get (Some rt) (Some v)) db = (entry_text (tables db) rt v, db1)" "clean db1" "tables db1 = tables db"
      using get_clean [OF Cons.prems(1)] by blast
    show ?thesis using Cons.IH [OF g(2), unfolded g(3)] g(1) Cons.prems(2) Some q by (cases "entry_text (tables db) rt v") auto
  qed
qed simp



end
