(* ===== verification/Sg_Db_Revisions.thy ===== *)
theory Sg_Db_Revisions
  imports Sg_Db_Correct
begin

text \<open>
  Properties of the tables that every operation of the store keeps, and what they give for revisions: whatever happens
  after a revision was recorded, as long as it is not pruned, going back to it brings back the values it recorded.
\<close>

section \<open>Properties the operations keep\<close>

text \<open>A property of the tables holds of a connection if the tables have it, and those a rollback would bring back.\<close>

definition holds :: "(sg_tables \<Rightarrow> bool) \<Rightarrow> sg_db \<Rightarrow> bool" where
  "holds P db \<longleftrightarrow> P (tables db) \<and> (case saved db of None \<Rightarrow> True | Some t \<Rightarrow> P t)"

definition keeps :: "(sg_tables \<Rightarrow> bool) \<Rightarrow> 'a dbop \<Rightarrow> bool" where
  "keeps P m \<longleftrightarrow> (\<forall>db. holds P db \<longrightarrow> holds P (snd (run_state m db)))"

lemma keepsD: "keeps P m \<Longrightarrow> holds P db \<Longrightarrow> run_state m db = (x, db') \<Longrightarrow> holds P db'"
  unfolding keeps_def by (metis snd_conv)

lemma keeps_run: "keeps P m \<Longrightarrow> holds P db \<Longrightarrow> holds P (snd (run_state m db))"
  by (simp add: keeps_def)

named_theorems keeps_intros "operations that keep a property of the tables"

lemma keeps_ret [keeps_intros]: "keeps P (ret x)"
  by (simp add: keeps_def)

lemma keeps_conn [keeps_intros]: "keeps P conn"
  by (simp add: keeps_def)

lemma keeps_api [keeps_intros]: "keeps P api"
  by (simp add: keeps_def holds_def)

lemma keeps_bind [keeps_intros]: "keeps P m \<Longrightarrow> (\<And>x. keeps P (f x)) \<Longrightarrow> keeps P (m \<bind> f)"
  unfolding keeps_def by (simp add: case_prod_beta)

lemma keeps_change: "(\<And>tb. P tb \<Longrightarrow> P (f tb)) \<Longrightarrow> keeps P (sql_change f)"
  by (auto simp: keeps_def holds_def run_sql split: option.splits)

lemma keeps_begin [keeps_intros]: "keeps P sql_begin"
  by (auto simp: keeps_def holds_def run_sql split: option.splits)

lemma keeps_commit [keeps_intros]: "keeps P sql_commit"
  by (auto simp: keeps_def holds_def run_sql split: option.splits)

lemma keeps_rollback [keeps_intros]: "keeps P sql_rollback"
  by (auto simp: keeps_def holds_def run_sql split: option.splits)

lemma keeps_rows [keeps_intros]: "keeps P (sql_rows rs)"
  by (induction rs) (auto intro!: keeps_intros)

lemma keeps_row [keeps_intros]: "keeps P (sql_row rs)"
  by (simp add: keeps_def sql_row_run holds_def)

lemma keeps_capture [keeps_intros]: "keeps P db_capture_err"
  by (simp add: keeps_def holds_def db_capture_err_def State_Monad.update_def)

lemma keeps_if [keeps_intros]: "keeps P m \<Longrightarrow> keeps P n \<Longrightarrow> keeps P (if b then m else n)"
  by simp

lemma keeps_when_open [keeps_intros]: "keeps P m \<Longrightarrow> keeps P (when_open m)"
  unfolding when_open_def by (intro keeps_intros)

lemma keeps_txn [keeps_intros]: "keeps P sg_db_begin" "keeps P sg_db_commit" "keeps P sg_db_rollback" "keeps P undo"
  unfolding sg_db_begin_def sg_db_commit_def sg_db_rollback_def undo_def by (intro keeps_intros)+

lemma keeps_run_change: "(\<And>tb. P tb \<Longrightarrow> P (f tb)) \<Longrightarrow> keeps P (run_change f)"
  unfolding run_change_def by (intro keeps_intros keeps_change)

text \<open>The same for an operation that starts with known tables: for the statements that only keep a property together.\<close>

definition leads :: "(sg_tables \<Rightarrow> bool) \<Rightarrow> sg_tables \<Rightarrow> 'a dbop \<Rightarrow> bool" where
  "leads P tb m \<longleftrightarrow> (\<forall>db. tables db = tb \<longrightarrow> holds P db \<longrightarrow> holds P (snd (run_state m db)))"

lemma keeps_leads: "keeps P m \<Longrightarrow> leads P tb m"
  by (simp add: keeps_def leads_def)

lemma leads_if: "leads P tb m \<Longrightarrow> leads P tb n \<Longrightarrow> leads P tb (if b then m else n)"
  by simp

lemma leads_conn: "(\<And>db. tables db = tb \<Longrightarrow> leads P tb (f db)) \<Longrightarrow> leads P tb (conn \<bind> f)"
  by (simp add: leads_def)

lemma leads_api: "(\<And>b. leads P tb (f b)) \<Longrightarrow> leads P tb (api \<bind> f)"
  by (simp add: leads_def holds_def)

lemma leads_change:
  assumes "P (f tb)" "keeps P (g True)" "keeps P (g False)"
  shows "leads P tb (sql_change f \<bind> g)"
  using assms by (auto simp: leads_def keeps_def holds_def run_sql_change)

lemma keeps_change_bind:
  assumes "\<And>tb. P tb \<Longrightarrow> P (f tb)" "\<And>tb. P tb \<Longrightarrow> leads P (f tb) (g True)" "keeps P (g False)"
  shows "keeps P (sql_change f \<bind> g)"
  using assms by (auto simp: leads_def keeps_def holds_def run_sql_change)

section \<open>The laws of the statements\<close>

text \<open>
  A property of the tables that each statement of the store keeps. The statements of a revision are taken together with
  the row of the revision they belong to, and rows are restored into an empty table.
\<close>

locale table_invariant =
  fixes P :: "sg_tables \<Rightarrow> bool"
  assumes P_replace: "P tb \<Longrightarrow> P (replace_row r tb)"
    and P_delete: "P tb \<Longrightarrow> P (delete_rows Q tb)"
    and P_lockouts: "P tb \<Longrightarrow> P (tb\<lparr>auth_lockouts := ls\<rparr>)"
    and P_version: "P tb \<Longrightarrow> P (tb\<lparr>user_version := v\<rparr>)"
    and P_revision: "P tb \<Longrightarrow> P (insert_revision now a m tb)"
    and P_snapshot: "P tb \<Longrightarrow> P (snapshot (last_rev tb + 1) (insert_revision now a m tb))"
    and P_restore: "P tb \<Longrightarrow> (\<And>xs. mset (scan xs) = mset xs) \<Longrightarrow> P (restore_rows scan n (delete_rows (\<lambda>r. True) tb))"
begin

lemma keeps_insert_pairs: "keeps P (insert_pairs t i kvs)"
  by (induction kvs) (auto intro!: keeps_intros keeps_change P_replace)

lemma keeps_write_entry: "keeps P (write_entry t i dat)"
  unfolding write_entry_def sg_insert_ordered_def
  by (auto intro!: keeps_intros keeps_change keeps_insert_pairs P_delete split: option.split list.split)

lemma keeps_set: "keeps P (sg_db_set ty idn dat)"
  unfolding sg_db_set_def set_fails_def Let_def
  by (auto intro!: keeps_intros keeps_write_entry split: option.split bool.split)

lemma keeps_del: "keeps P (sg_db_del ty idn)"
  unfolding sg_db_del_def by (auto intro!: keeps_intros keeps_run_change P_delete split: option.split bool.split)

lemma keeps_set_val: "keeps P (sg_db_set_val ty idn key val)"
  unfolding sg_db_set_val_def by (auto intro!: keeps_intros keeps_run_change P_replace split: option.split bool.split)

lemma keeps_purge: "keeps P (sg_db_purge_type ty)"
  unfolding sg_db_purge_type_def by (auto intro!: keeps_intros keeps_run_change P_delete split: option.split bool.split)

lemma keeps_lockout_set: "keeps P (sg_db_lockout_set now user c u)"
  unfolding sg_db_lockout_set_def upsert_lockout_def
  by (auto intro!: keeps_intros keeps_run_change P_lockouts split: option.split bool.split)

lemma keeps_lockout_clear: "keeps P (sg_db_lockout_clear user)"
  unfolding sg_db_lockout_clear_def by (auto intro!: keeps_intros keeps_run_change P_lockouts split: option.split bool.split)

lemma keeps_lockout_clear_all: "keeps P sg_db_lockout_clear_all"
  unfolding sg_db_lockout_clear_all_def by (auto intro!: keeps_intros keeps_run_change P_lockouts)

lemma keeps_close: "keeps P db_close"
  by (auto simp: keeps_def holds_def db_close_def split: option.splits)

lemma keeps_sg_db_close: "keeps P sg_db_close"
  unfolding sg_db_close_def by (auto intro!: keeps_intros keeps_close)

lemma keeps_migrate: "keeps P sg_db_migrate"
  unfolding sg_db_migrate_def sg_db_get_version_def sg_db_set_version_def
  by (auto intro!: keeps_intros keeps_change P_version)

lemma keeps_open: "keeps P sg_db_open"
proof -
  have "keeps P (State_Monad.update (\<lambda>db. db\<lparr>is_open := True\<rparr>))" by (simp add: keeps_def holds_def State_Monad.update_def)
  then show ?thesis unfolding sg_db_open_def by (auto intro!: keeps_intros keeps_change keeps_close keeps_migrate)
qed

lemma keeps_record: "keeps P (do {
    ok \<leftarrow> sql_change (insert_revision now a m);
    if \<not> ok then undo
    else do {
      db \<leftarrow> conn;
      ok \<leftarrow> sql_change (snapshot (last_rev (tables db)));
      if \<not> ok then undo
      else do { rc \<leftarrow> sg_db_commit; if rc \<noteq> 0 then undo else ret (cast_i32 (last_rev (tables db))) } } })"
proof (rule keeps_change_bind, goal_cases)
  case (2 tb)
  have "P (snapshot (last_rev (insert_revision now a m tb)) (insert_revision now a m tb))"
    using P_snapshot [OF 2, of now a m] by (simp add: insert_revision_def)
  then show ?case by (simp, intro leads_conn leads_change) (simp_all, (intro keeps_intros)+)
qed (simp_all add: P_revision keeps_txn)

lemma keeps_create: "keeps P (sg_db_revision_create now author msg)"
  unfolding sg_db_revision_create_def Let_def by (intro keeps_intros keeps_record)

lemma keeps_refill:
  assumes "\<And>xs. mset (scan xs) = mset xs"
  shows "keeps P (do {
    ok \<leftarrow> sql_change (delete_rows (\<lambda>r. True));
    if \<not> ok then undo
    else do {
      ok \<leftarrow> api;
      if \<not> ok then undo
      else do {
        ok \<leftarrow> sql_change (restore_rows scan n);
        if \<not> ok then undo else do { rc \<leftarrow> sg_db_commit; if rc \<noteq> 0 then undo else ret 0 } } } })"
proof (rule keeps_change_bind, goal_cases)
  case (2 tb)
  have "P (restore_rows scan n (delete_rows (\<lambda>r. True) tb))" using P_restore [OF 2] assms by blast
  then show ?case
    by (simp, intro leads_api leads_if leads_change) (simp_all, (intro keeps_leads keeps_intros)+)
qed (simp_all add: P_delete keeps_txn)

lemma keeps_restore:
  assumes "\<And>xs. mset (scan xs) = mset xs"
  shows "keeps P (sg_db_revision_restore scan n)"
  unfolding sg_db_revision_restore_def sg_db_revision_exists_def by (intro keeps_intros keeps_refill assms)

end

section \<open>The tables of a reachable store\<close>

definition row_key :: "config_row \<Rightarrow> string \<times> string \<times> string" where
  "row_key r = (cr_type r, cr_id r, cr_key r)"

definition snapshot_rows :: "int \<Rightarrow> sg_tables \<Rightarrow> config_row list" where
  "snapshot_rows n tb = map snd (filter (\<lambda>(m, row). m = n) (revision_config tb))"

text \<open>The primary keys are respected, and no revision has a number the counter has not reached.\<close>

definition tables_ok :: "sg_tables \<Rightarrow> bool" where
  "tables_ok tb \<longleftrightarrow> distinct (map row_key (config tb)) \<and> (\<forall>n. distinct (map row_key (snapshot_rows n tb))) \<and>
     (\<forall>x \<in> set (revision_config tb). fst x \<le> last_rev tb) \<and> 0 \<le> last_rev tb"

definition has_snapshot :: "int \<Rightarrow> config_row list \<Rightarrow> sg_tables \<Rightarrow> bool" where
  "has_snapshot n rows tb \<longleftrightarrow> snapshot_rows n tb = rows \<and> n \<le> last_rev tb \<and> n \<in> rv_rev ` set (revisions tb)"

lemma snapshot_rows_simps [simp]:
  "snapshot_rows n (replace_row r tb) = snapshot_rows n tb"
  "snapshot_rows n (delete_rows Q tb) = snapshot_rows n tb"
  "snapshot_rows n (tb\<lparr>auth_lockouts := ls\<rparr>) = snapshot_rows n tb"
  "snapshot_rows n (tb\<lparr>user_version := v\<rparr>) = snapshot_rows n tb"
  "snapshot_rows n (insert_revision now a m tb) = snapshot_rows n tb"
  "snapshot_rows n (restore_rows scan k tb) = snapshot_rows n tb"
  by (simp_all add: snapshot_rows_def replace_row_def delete_rows_def insert_revision_def restore_rows_def)

lemma statement_fields [simp]:
  "last_rev (replace_row r tb) = last_rev tb" "revisions (replace_row r tb) = revisions tb" "revision_config (replace_row r tb) = revision_config tb"
  "last_rev (delete_rows Q tb) = last_rev tb" "revisions (delete_rows Q tb) = revisions tb" "revision_config (delete_rows Q tb) = revision_config tb"
  "last_rev (restore_rows scan k tb) = last_rev tb" "revisions (restore_rows scan k tb) = revisions tb"
  "revision_config (restore_rows scan k tb) = revision_config tb"
  "last_rev (snapshot k tb) = last_rev tb" "revisions (snapshot k tb) = revisions tb" "config (snapshot k tb) = config tb"
  "last_rev (insert_revision now a m tb) = last_rev tb + 1" "config (insert_revision now a m tb) = config tb"
  "revision_config (insert_revision now a m tb) = revision_config tb"
  by (simp_all add: replace_row_def delete_rows_def restore_rows_def snapshot_def insert_revision_def)

lemma revisions_insert [simp]: "rv_rev ` set (revisions (insert_revision now a m tb)) = insert (last_rev tb + 1) (rv_rev ` set (revisions tb))"
  by (auto simp: insert_revision_def)

lemma snapshot_rows_snapshot:
  "snapshot_rows n (snapshot k tb) = (if n = k then snapshot_rows n tb @ config tb else snapshot_rows n tb)"
  by (simp add: snapshot_rows_def snapshot_def filter_map o_def)

lemma no_snapshot: "\<forall>x \<in> set (revision_config tb). fst x \<le> last_rev tb \<Longrightarrow> last_rev tb < n \<Longrightarrow> snapshot_rows n tb = []"
  by (force simp: snapshot_rows_def filter_empty_conv)

lemma distinct_replace:
  assumes "distinct (map row_key (config tb))"
  shows "distinct (map row_key (config (replace_row r tb)))"
proof -
  have "row_key r \<notin> row_key ` set (filter (\<lambda>x. \<not> same_key r x) (config tb))" by (auto simp: same_key_def row_key_def)
  then show ?thesis using assms by (simp add: replace_row_def distinct_map_filter)
qed

interpretation ok: table_invariant tables_ok
proof (unfold_locales, goal_cases)
  case (1 tb r)
  then show ?case using distinct_replace by (simp add: tables_ok_def)
next
  case (2 tb Q)
  then show ?case by (simp add: tables_ok_def) (simp add: delete_rows_def distinct_map_filter)
next
  case (6 tb now a m)
  have "\<forall>x \<in> set (revision_config (snapshot (last_rev tb + 1) (insert_revision now a m tb))). fst x \<le> last_rev tb + 1"
    using 6 by (force simp: tables_ok_def snapshot_def)
  then show ?case using 6 no_snapshot [of tb "last_rev tb + 1"] by (simp add: tables_ok_def snapshot_rows_snapshot)
next
  case (7 tb scan k)
  have "distinct (map row_key (scan (snapshot_rows k tb)))"
    using 7(1) 7(2) [of "snapshot_rows k tb"] mset_eq_imp_distinct_iff [of "map row_key (scan (snapshot_rows k tb))" "map row_key (snapshot_rows k tb)"]
    by (simp add: tables_ok_def)
  then show ?case using 7(1) by (simp add: tables_ok_def) (simp add: restore_rows_def delete_rows_def snapshot_rows_def)
qed (auto simp: tables_ok_def)

interpretation snap: table_invariant "has_snapshot n rows" for n rows
  by unfold_locales (auto simp: has_snapshot_def snapshot_rows_snapshot)

section \<open>Sequences of operations\<close>

text \<open>Any operation of the store but the pruning of old revisions, with any arguments and any outcomes of the calls.\<close>

inductive db_step :: "sg_db \<Rightarrow> sg_db \<Rightarrow> bool" where
  "db_step db (snd (run_state (sg_db_set ty idn dat) db))"
| "db_step db (snd (run_state (sg_db_del ty idn) db))"
| "db_step db (snd (run_state (sg_db_set_val ty idn key val) db))"
| "db_step db (snd (run_state (sg_db_purge_type ty) db))"
| "db_step db (snd (run_state (sg_db_lockout_set now user c u) db))"
| "db_step db (snd (run_state (sg_db_lockout_clear user) db))"
| "db_step db (snd (run_state sg_db_lockout_clear_all db))"
| "db_step db (snd (run_state sg_db_begin db))"
| "db_step db (snd (run_state sg_db_commit db))"
| "db_step db (snd (run_state sg_db_rollback db))"
| "db_step db (snd (run_state sg_db_open db))"
| "db_step db (snd (run_state sg_db_close db))"
| "db_step db (snd (run_state (sg_db_revision_create now author msg) db))"
| "(\<And>xs. mset (scan xs) = mset xs) \<Longrightarrow> db_step db (snd (run_state (sg_db_revision_restore scan n) db))"

context table_invariant begin

lemmas keeps_operations = keeps_set keeps_del keeps_set_val keeps_purge keeps_lockout_set keeps_lockout_clear
  keeps_lockout_clear_all keeps_txn keeps_open keeps_sg_db_close keeps_create keeps_restore

lemma step_keeps: "db_step db db' \<Longrightarrow> holds P db \<Longrightarrow> holds P db'"
  by (induction rule: db_step.induct) (rule keeps_run, rule keeps_operations, assumption+)+

lemma steps_keep: "db_step\<^sup>*\<^sup>* db db' \<Longrightarrow> holds P db \<Longrightarrow> holds P db'"
  by (induction rule: rtranclp_induct) (auto intro: step_keeps)

end

definition empty_tables :: sg_tables where
  "empty_tables = \<lparr>config = [], auth_lockouts = [], revisions = [], revision_config = [], last_rev = 0, user_version = 0\<rparr>"

text \<open>The states of a store that began as an empty file, not open yet.\<close>

definition db_reachable :: "sg_db \<Rightarrow> bool" where
  "db_reachable db \<longleftrightarrow> (\<exists>db0. tables db0 = empty_tables \<and> saved db0 = None \<and> \<not> is_open db0 \<and> db_step\<^sup>*\<^sup>* db0 db)"

lemma reachable_ok: "db_reachable db \<Longrightarrow> holds tables_ok db"
  unfolding db_reachable_def
  by (elim exE conjE, erule ok.steps_keep) (simp add: holds_def tables_ok_def empty_tables_def snapshot_rows_def)

section \<open>Recording and restoring\<close>

lemma undo_run: "run_state undo db = (rc, db') \<Longrightarrow> rc = -1 \<and> committed db' = committed db"
  by (auto simp: undo_def sg_db_rollback_def when_open_def run_sql committed_def split: if_splits option.splits)

lemma begin_run:
  "run_state sg_db_begin db = (rc, db') \<Longrightarrow>
     is_open db' = is_open db \<and> tables db' = tables db \<and> committed db' = committed db \<and>
     (rc = 0 \<longrightarrow> is_open db \<and> saved db = None \<and> saved db' = Some (tables db))"
  by (auto simp: sg_db_begin_def when_open_def run_sql committed_def split: if_splits option.splits)

lemma commit_run:
  "run_state sg_db_commit db = (rc, db') \<Longrightarrow> (if rc = 0 then saved db' = None \<and> tables db' = tables db else committed db' = committed db)"
  by (auto simp: sg_db_commit_def when_open_def run_sql committed_def split: if_splits option.splits)

text \<open>The last part of an operation of its own transaction: \<open>COMMIT\<close>, or everything is undone.\<close>

lemma finish_run:
  assumes "run_state (do { rc \<leftarrow> sg_db_commit; if rc \<noteq> 0 then undo else ret v }) db = (rc, db')" "v \<noteq> -1"
  shows "if rc = -1 then committed db' = committed db else rc = v \<and> saved db' = None \<and> tables db' = tables db"
proof -
  obtain c d where c: "run_state sg_db_commit db = (c, d)" by force
  then show ?thesis using assms commit_run [OF c] undo_run [of d rc db'] by (cases "c = 0") auto
qed

lemma create_run:
  assumes "run_state (sg_db_revision_create now author msg) db = (n, db')" "n \<noteq> -1" "cast_i32 (last_rev (tables db) + 1) \<noteq> -1"
  shows "saved db = None \<and> saved db' = None \<and> n = cast_i32 (last_rev (tables db) + 1) \<and>
    (\<exists>a m. tables db' = snapshot (last_rev (tables db) + 1) (insert_revision now a m (tables db)))"
proof -
  let ?a = "case author of None \<Rightarrow> [] | Some a \<Rightarrow> a" and ?m = "case msg of None \<Rightarrow> [] | Some m \<Rightarrow> m"
  obtain c d where b: "run_state sg_db_begin db = (c, d)" by force
  note b' = begin_run [OF b]
  have nu: "run_state undo x \<noteq> (n, db')" for x using undo_run [of x n db'] assms(2) by blast
  have c: "c = 0" "is_open db" using assms(1,2) b by (auto simp: sg_db_revision_create_def split: if_splits)
  let ?d1 = "(api_next (api_next d))\<lparr>tables := insert_revision now ?a ?m (tables db)\<rparr>"
  let ?d2 = "(api_next ?d1)\<lparr>tables := snapshot (last_rev (tables db) + 1) (insert_revision now ?a ?m (tables db))\<rparr>"
  have "api_ok d \<and> api_ok (api_next d) \<and> api_ok ?d1 \<and>
      run_state (do { rc \<leftarrow> sg_db_commit; if rc \<noteq> 0 then undo else ret (cast_i32 (last_rev (tables db) + 1)) }) ?d2 = (n, db')"
    using assms(1) b c b' nu by (auto simp: sg_db_revision_create_def run_sql_change Let_def split: if_splits cong: if_cong)
  then show ?thesis using finish_run [of "cast_i32 (last_rev (tables db) + 1)" ?d2 n db'] assms(2,3) c(1) b' by auto
qed

lemma restore_run:
  assumes "run_state (sg_db_revision_restore scan n) db = (rc, db')"
  shows "if rc = 0 then saved db' = None \<and> tables db' = restore_rows scan n (delete_rows (\<lambda>r. True) (tables db))
    else committed db' = committed db"
proof -
  obtain f e where e: "run_state (sg_db_revision_exists n) db = (f, e)" by force
  then have e': "tables e = tables db" "committed e = committed db"
    by (auto simp: sg_db_revision_exists_def sql_row_run split: if_splits)
  obtain c d where b: "run_state sg_db_begin e = (c, d)" by force
  note b' = begin_run [OF b]
  let ?d1 = "(api_next d)\<lparr>tables := delete_rows (\<lambda>r. True) (tables db)\<rparr>"
  let ?d2 = "(api_next (api_next ?d1))\<lparr>tables := restore_rows scan n (delete_rows (\<lambda>r. True) (tables db))\<rparr>"
  show ?thesis
  proof (cases "is_open db \<and> f \<and> c = 0")
    case True
    have com: "committed x = committed db" if "saved x = Some (tables db)" for x
      using that True b' e' by (simp add: committed_def split: option.splits)
    consider x where "run_state undo x = (rc, db')" "saved x = Some (tables db)"
      | "run_state (do { rc \<leftarrow> sg_db_commit; if rc \<noteq> 0 then undo else ret 0 }) ?d2 = (rc, db')"
      using assms e b True b' e' by (auto simp: sg_db_revision_restore_def run_sql_change split: if_splits)
    then show ?thesis
    proof cases
      case 1
      then show ?thesis using undo_run [OF 1(1)] com [OF 1(2)] by simp
    next
      case 2
      then show ?thesis using finish_run [OF 2] com [of ?d2] b' True e'(1) by (auto split: if_splits)
    qed
  qed (use assms e b b' e' in \<open>auto simp: sg_db_revision_restore_def split: if_splits\<close>)
qed

lemma value_of_set:
  assumes "distinct (map row_key (config tb))"
  shows "value_of t i k tb = Some v \<longleftrightarrow> row_of t i (k, v) \<in> set (config tb)"
proof
  assume "value_of t i k tb = Some v"
  then obtain r where "r \<in> set (config tb)" "of_entry t i r" "cr_key r = k" "cr_value r = v"
    by (auto simp: value_of_def find_Some_iff in_set_conv_nth)
  moreover from this have "r = row_of t i (k, v)" by (simp add: row_of_def of_entry_def)
  ultimately show "row_of t i (k, v) \<in> set (config tb)" by simp
next
  assume h: "row_of t i (k, v) \<in> set (config tb)"
  moreover have "of_entry t i (row_of t i (k, v)) \<and> cr_key (row_of t i (k, v)) = k" by (simp add: row_of_def of_entry_def)
  ultimately have "List.find (\<lambda>r. of_entry t i r \<and> cr_key r = k) (config tb) \<noteq> None" unfolding find_None_iff by blast
  then obtain r where f: "List.find (\<lambda>r. of_entry t i r \<and> cr_key r = k) (config tb) = Some r" by blast
  then have r: "r \<in> set (config tb)" "row_key r = row_key (row_of t i (k, v))"
    by (auto simp: find_Some_iff row_key_def row_of_def of_entry_def)
  then have "r = row_of t i (k, v)" using h assms by (auto simp: distinct_map dest: inj_onD)
  then show "value_of t i k tb = Some v" using f by (simp add: value_of_def row_of_def)
qed

lemma value_of_same_rows:
  assumes "distinct (map row_key (config a))" "mset (config b) = mset (config a)"
  shows "value_of t i k b = value_of t i k a"
proof -
  have "mset (map row_key (config b)) = mset (map row_key (config a))" using assms(2) by simp
  then have "distinct (map row_key (config b))" using assms(1) mset_eq_imp_distinct_iff by blast
  then have "value_of t i k b = Some v \<longleftrightarrow> value_of t i k a = Some v" for v
    using assms value_of_set mset_eq_setD by metis
  then show ?thesis by (metis option.exhaust)
qed

text \<open>An example: a new file is opened, a value set, a revision recorded, and the entry deleted.\<close>

definition example_file :: sg_db where
  "example_file = \<lparr>is_open = False, tables = empty_tables, saved = None, outcomes = [], errmsg = [], last_err = []\<rparr>"

definition example_opened :: sg_db where
  "example_opened = snd (run_state sg_db_open example_file)"

definition example_written :: sg_db where
  "example_written = snd (run_state (sg_db_set_val (Some ''network_dns'') (Some ''0'') (Some ''primary'') (Some ''9.9.9.9'')) example_opened)"

definition example_recorded :: sg_db where
  "example_recorded = snd (run_state (sg_db_revision_create ''2026-01-01'' (Some ''admin'') None) example_written)"

definition example_deleted :: sg_db where
  "example_deleted = snd (run_state (sg_db_del (Some ''network_dns'') (Some ''0'')) example_recorded)"

lemma example_reachable: "db_reachable example_written"
  unfolding db_reachable_def
proof (intro exI conjI)
  show "db_step\<^sup>*\<^sup>* example_file example_written"
    unfolding example_written_def example_opened_def
    by (rule rtranclp.rtrancl_into_rtrancl [OF r_into_rtranclp [of db_step]]) (rule db_step.intros)+
qed (simp_all add: example_file_def)

lemma example_deletes: "db_step\<^sup>*\<^sup>* example_recorded example_deleted"
  unfolding example_deleted_def by (rule r_into_rtranclp [of db_step], rule db_step.intros)



end
