(* ===== verification/Config_Rename.thy ===== *)
theory Config_Rename
  imports Config_Commands_Correct Sg_Db_Revisions
begin

text \<open>
  Renaming an entry: whatever fails, the configuration that is committed holds either the entry under its old name with all its references or under the
  new one; and when nothing fails, every reference follows.
\<close>

section \<open>All or nothing\<close>

text \<open>Operations inside a transaction leave the tables it started with in place.\<close>

definition inside :: "'a dbop \<Rightarrow> bool" where
  "inside m \<longleftrightarrow> (\<forall>db tb. saved db = Some tb \<longrightarrow> is_open db \<longrightarrow> saved (snd (run_state m db)) = Some tb \<and> is_open (snd (run_state m db)))"

named_theorems inside_intros

lemma inside_ret [inside_intros]: "inside (ret x)"
  by (simp add: inside_def)

lemma inside_bind [inside_intros]: "inside m \<Longrightarrow> (\<And>x. inside (f x)) \<Longrightarrow> inside (m \<bind> f)"
  unfolding inside_def by (auto simp: State_Monad.bind_def case_prod_beta)

lemma inside_conn [inside_intros]: "inside conn"
  by (simp add: inside_def)

lemma inside_api [inside_intros]: "inside api"
  by (simp add: inside_def)

lemma inside_if [inside_intros]: "inside m \<Longrightarrow> inside n \<Longrightarrow> inside (if b then m else n)"
  by simp

lemma inside_change [inside_intros]: "inside (sql_change f)"
  by (simp add: inside_def run_sql)

lemma inside_rows [inside_intros]: "inside (sql_rows rs)"
  unfolding inside_def using sql_rows_prefix by (metis prod.collapse)

lemma inside_run_change [inside_intros]: "inside (run_change f)"
  unfolding run_change_def by (intro inside_intros)

lemma inside_set_val [inside_intros]: "inside (sg_db_set_val t i k v)"
  unfolding sg_db_set_val_def by (auto intro!: inside_intros split: option.split bool.split)

lemma inside_del [inside_intros]: "inside (sg_db_del t i)"
  unfolding sg_db_del_def by (auto intro!: inside_intros split: option.split bool.split)

lemma inside_find [inside_intros]: "inside (sg_db_find_referencing scan t k v)"
  unfolding sg_db_find_referencing_def by (auto intro!: inside_intros split: option.split bool.split)

lemma inside_set [inside_intros]: "inside (sg_db_set (Some t) (Some i) dat)"
  unfolding inside_def using sg_db_set_run by (metis option.distinct(1) prod.collapse)

lemma inside_cascade [inside_intros]: "inside (cascade_entries t old new key es acc)"
  by (induction es arbitrary: acc) (auto intro!: inside_intros simp: Let_def split: prod.split)

lemma inside_refs [inside_intros]: "inside (cascade_refs scan t old new rs acc)"
  by (induction rs arbitrary: acc) (auto intro!: inside_intros split: option.split)

text \<open>The rest of a renaming, from inside its transaction: it commits, or nothing has happened.\<close>

definition closes :: "reply dbop \<Rightarrow> bool" where
  "closes m \<longleftrightarrow> (\<forall>db tb r db'. saved db = Some tb \<longrightarrow> is_open db \<longrightarrow> run_state m db = (r, db') \<longrightarrow>
     (if fst r = SG_OK then saved db' = None else committed db' = tb \<and> snd r = []))"

named_theorems closes_intros

lemma closes_bind [closes_intros]:
  assumes "inside m" "\<And>x. closes (f x)"
  shows "closes (m \<bind> f)"
  unfolding closes_def
proof (intro allI impI)
  fix db tb r db' assume db: "saved db = Some tb" "is_open db" "run_state (m \<bind> f) db = (r, db')"
  obtain x d where m: "run_state m db = (x, d)" by force
  then have d: "saved d = Some tb" "is_open d" using assms(1) [unfolded inside_def, rule_format, OF db(1,2)] by simp_all
  have "run_state (f x) d = (r, db')" using db(3) m by simp
  from assms(2) [unfolded closes_def, rule_format, OF d this]
  show "if fst r = SG_OK then saved db' = None else committed db' = tb \<and> snd r = []" .
qed

lemma closes_if [closes_intros]: "closes m \<Longrightarrow> closes n \<Longrightarrow> closes (if b then m else n)"
  by simp

lemma closes_failed [closes_intros]: "closes rename_failed"
  by (auto simp: closes_def rename_failed_def sg_db_rollback_def when_open_def run_sql committed_def split: if_splits)

lemma closes_commit [closes_intros]: "closes (do { rc \<leftarrow> sg_db_commit; if rc \<noteq> 0 then rename_failed else ret (SG_OK, e) })"
proof -
  have f: "fst r \<noteq> SG_OK \<and> committed d' = tb \<and> snd r = []" if "saved d = Some tb" "is_open d" "run_state rename_failed d = (r, d')" for d tb r d'
    using that by (auto simp: rename_failed_def sg_db_rollback_def when_open_def run_sql committed_def split: if_splits)
  show ?thesis unfolding closes_def
  proof (intro allI impI)
    fix db tb r db' assume "saved db = Some tb" "is_open db"
      "run_state (do { rc \<leftarrow> sg_db_commit; if rc \<noteq> 0 then rename_failed else ret (SG_OK, e) }) db = (r, db')"
    then show "if fst r = SG_OK then saved db' = None else committed db' = tb \<and> snd r = []"
      using f [of "api_next db" tb r db'] by (cases "api_ok db") (auto simp: sg_db_commit_def when_open_def run_sql)
  qed
qed

lemma get_keeps:
  assumes "run_state (sg_db_get (Some t) (Some i)) db = (r, db')"
  shows "tables db' = tables db \<and> saved db' = saved db \<and> is_open db' = is_open db"
proof (cases "is_open db \<and> api_ok db")
  case True
  obtain rows d where q: "run_state (sql_rows (filter (of_entry t i) (config (tables db)))) (api_next db) = (rows, d)" by force
  then show ?thesis using assms True sql_rows_prefix [OF q] by (auto simp: sg_db_get_def)
next
  case False
  then show ?thesis using assms by (cases "is_open db") (auto simp: sg_db_get_def)
qed


section \<open>References follow\<close>

text \<open>Primary keys are respected, and identifiers fit on a line and into the buffers.\<close>

definition id_ok :: "string \<Rightarrow> bool" where
  "id_ok i \<longleftrightarrow> CHR 0x0A \<notin> set i \<and> length i < 256"

definition renamable :: "sg_tables \<Rightarrow> bool" where
  "renamable tb \<longleftrightarrow> distinct (map row_key (config tb)) \<and> list_all (\<lambda>r. id_ok (cr_id r)) (config tb)"

lemma renamable_replace: "renamable tb \<Longrightarrow> id_ok (cr_id r) \<Longrightarrow> renamable (replace_row r tb)"
  using distinct_replace by (auto simp: renamable_def replace_row_def list_all_iff)

lemma renamable_delete: "renamable tb \<Longrightarrow> renamable (delete_rows P tb)"
  by (auto simp: renamable_def delete_rows_def list_all_iff distinct_map_filter)

lemma renamable_entry_set: "renamable tb \<Longrightarrow> id_ok i \<Longrightarrow> renamable (entry_set t i dat tb)"
proof -
  assume i: "id_ok i" "renamable tb"
  have "renamable tb' \<Longrightarrow> renamable (fold (\<lambda>kv. replace_row (row_of t i kv)) kvs tb')" for kvs tb'
    using i(1) by (induction kvs arbitrary: tb') (simp_all add: renamable_replace row_of_def)
  then show ?thesis using i(2) by (simp add: entry_set_def renamable_delete)
qed

lemma value_row:
  assumes "renamable tb"
  shows "value_of t i k tb = Some v \<longleftrightarrow> (\<exists>r \<in> set (config tb). cr_type r = t \<and> cr_id r = i \<and> cr_key r = k \<and> cr_value r = v)"
proof
  assume "value_of t i k tb = Some v"
  then show "\<exists>r \<in> set (config tb). cr_type r = t \<and> cr_id r = i \<and> cr_key r = k \<and> cr_value r = v"
    by (auto simp: value_of_def find_Some_iff of_entry_def)
next
  assume "\<exists>r \<in> set (config tb). cr_type r = t \<and> cr_id r = i \<and> cr_key r = k \<and> cr_value r = v"
  then obtain r where r: "r \<in> set (config tb)" "cr_type r = t" "cr_id r = i" "cr_key r = k" "cr_value r = v" by blast
  then obtain r' where f: "List.find (\<lambda>r. of_entry t i r \<and> cr_key r = k) (config tb) = Some r'"
    by (cases "List.find (\<lambda>r. of_entry t i r \<and> cr_key r = k) (config tb)") (auto simp: find_None_iff of_entry_def)
  then have "r' \<in> set (config tb)" "row_key r' = row_key r" using r by (auto simp: find_Some_iff of_entry_def row_key_def)
  then have "r' = r" using assms r(1) by (auto simp: renamable_def distinct_map inj_on_def)
  then show "value_of t i k tb = Some v" using f r(5) by (simp add: value_of_def)
qed

lemma section_parts:
  assumes "CHR '':'' \<notin> set t" "length t < 256" "length i < 256"
  shows "sg_db_parse_section (t @ '':'' @ i) 256 256 = (t, i)"
proof -
  have "strchr (t @ CHR '':'' # i) (CHR '':'') = Some (length t)" using assms(1) unfolding strchr_split by blast
  with assms(2,3) show ?thesis by (simp add: sg_db_parse_section_def)
qed

lemma cascade_entries_clean:
  assumes "clean db" "renamable (tables db)" "list_all id_ok ids" "CHR '':'' \<notin> set q" "length q < 256"
  shows "\<exists>acc' db'. run_state (cascade_entries t old new k (map (\<lambda>i. q @ '':'' @ i) ids) acc) db = (Some acc', db') \<and> clean db' \<and> saved db' = saved db \<and>
    renamable (tables db') \<and> (\<forall>t' i' k'. value_of t' i' k' (tables db') = (if t' = q \<and> k' = k \<and> i' \<in> set ids then Some new else value_of t' i' k' (tables db)))"
  using assms(1-3)
proof (induction ids arbitrary: db acc)
  case (Cons i ids)
  let ?db1 = "(api_next (api_next db))\<lparr>tables := replace_row (row_of q i (k, new)) (tables db)\<rparr>"
  have s: "run_state (sg_db_set_val (Some q) (Some i) (Some k) (Some new)) db = (0, ?db1)" using Cons.prems(1) by (rule set_val_clean)
  let ?acc = "\<lparr>need_fw_rebuild = need_fw_rebuild acc \<or> q = ''firewall_policy'', need_nat_rebuild = need_nat_rebuild acc \<or> q = ''network_nat'',
    caud = caud acc @ [rename_audit q i t old new k]\<rparr>"
  have c: "clean ?db1" "renamable (tables ?db1)" "list_all id_ok ids" using Cons.prems by (simp_all add: renamable_replace row_of_def)
  obtain acc' db' where r: "run_state (cascade_entries t old new k (map (\<lambda>i. q @ '':'' @ i) ids) ?acc) ?db1 = (Some acc', db')" "clean db'" "saved db' = saved ?db1" "renamable (tables db')"
    "\<forall>t' i' k'. value_of t' i' k' (tables db') = (if t' = q \<and> k' = k \<and> i' \<in> set ids then Some new else value_of t' i' k' (tables ?db1))"
    using Cons.IH [OF c, of ?acc] by (elim exE conjE) (rule that)
  have "length i < 256" using Cons.prems(3) by (simp add: id_ok_def)
  then show ?case using s r section_parts [OF assms(4,5)] by (auto simp: value_of_replace)
qed auto

definition type_ok :: "string \<Rightarrow> bool" where
  "type_ok t \<longleftrightarrow> CHR '':'' \<notin> set t \<and> CHR 0x0A \<notin> set t \<and> length t < 256"

lemma types_ok: "list_all (\<lambda>f. type_ok (fe_type f)) field_table"
  by code_simp

lemma cascade_refs_clean:
  assumes "clean db" "renamable (tables db)" "\<And>xs. mset (scan xs) = mset xs" "new \<noteq> old" "list_all (\<lambda>q. type_ok (fst q)) qs"
  shows "\<exists>acc' db'. run_state (cascade_refs scan t old new qs acc) db = (Some acc', db') \<and> clean db' \<and> saved db' = saved db \<and> renamable (tables db') \<and>
    (\<forall>t' i' k'. value_of t' i' k' (tables db') =
       (if (t', k') \<in> set qs \<and> value_of t' i' k' (tables db) = Some old then Some new else value_of t' i' k' (tables db)))"
  using assms(1,2,5)
proof (induction qs arbitrary: db acc)
  case (Cons q qs)
  obtain ids db1 where f: "run_state (sg_db_find_referencing scan (Some (fst q)) (Some (snd q)) (Some old)) db = (text_of (map (\<lambda>i. fst q @ '':'' @ i) ids), db1)"
    "clean db1" "tables db1 = tables db" "saved db1 = saved db"
    "set ids = cr_id ` {r \<in> set (config (tables db)). cr_type r = fst q \<and> cr_key r = snd q \<and> cr_value r = old}"
    using find_referencing_text [OF Cons.prems(1) assms(3), of q old] by (elim exE conjE) (rule that)
  have ids: "i \<in> set ids \<longleftrightarrow> value_of (fst q) i (snd q) (tables db) = Some old" for i
    unfolding f(5) value_row [OF Cons.prems(2)] by auto
  have rn: "renamable (tables db1)" using Cons.prems(2) f(3) by simp
  have ok: "list_all id_ok ids" using Cons.prems(2) f(5) by (auto simp: renamable_def list_all_iff)
  have q: "CHR '':'' \<notin> set (fst q)" "length (fst q) < 256" "list_all (\<lambda>q. type_ok (fst q)) qs" "CHR 0x0A \<notin> set (fst q)"
    using Cons.prems(3) by (simp_all add: type_ok_def)
  obtain acc1 db2 where c: "run_state (cascade_entries t old new (snd q) (map (\<lambda>i. fst q @ '':'' @ i) ids) acc) db1 = (Some acc1, db2)"
    "clean db2" "saved db2 = saved db1" "renamable (tables db2)" "\<forall>t' i' k'. value_of t' i' k' (tables db2) =
       (if t' = fst q \<and> k' = snd q \<and> i' \<in> set ids then Some new else value_of t' i' k' (tables db1))"
    using cascade_entries_clean [OF f(2) rn ok q(1,2), of t old new "snd q" acc] by (elim exE conjE) (rule that)
  note v = c(5) [rule_format, unfolded ids f(3)]
  obtain acc2 db3 where r: "run_state (cascade_refs scan t old new qs acc1) db2 = (Some acc2, db3)" "clean db3" "saved db3 = saved db2" "renamable (tables db3)"
    "\<forall>t' i' k'. value_of t' i' k' (tables db3) =
       (if (t', k') \<in> set qs \<and> value_of t' i' k' (tables db2) = Some old then Some new else value_of t' i' k' (tables db2))"
    using Cons.IH [OF c(2,4) q(3), of acc1] by (elim exE conjE) (rule that)
  note w = r(5) [rule_format]
  have l: "list_all (\<lambda>l. CHR 0x0A \<notin> set l \<and> l \<noteq> []) (map (\<lambda>i. fst q @ '':'' @ i) ids)" using ok q(4) by (auto simp: list_all_iff id_ok_def)
  have "run_state (cascade_refs scan t old new (q # qs) acc) db = (Some acc2, db3)"
  proof (cases "ids = []")
    case True
    then have "db2 = db1" "acc1 = acc" using c(1) by simp_all
    then show ?thesis using True f(1) r(1) by (simp add: text_of_def)
  next
    case False
    then show ?thesis using f(1) c(1) r(1) strtok_lines [OF l] by (simp add: text_of_def lines_def)
  qed
  moreover have "value_of t' i' k' (tables db3) =
      (if (t', k') \<in> set (q # qs) \<and> value_of t' i' k' (tables db) = Some old then Some new else value_of t' i' k' (tables db))" for t' i' k'
    using w [of t' i' k'] v [of t' i' k'] assms(4) by (cases q) (auto split: if_splits)
  ultimately show ?case using r(2-4) c(3) f(4) by simp
qed auto

lemma refs_ok: "list_all (\<lambda>q. type_ok (fst q)) (sg_reg_find_referencing (Some t) 16)"
  using types_ok by (auto simp: find_referencing_complete list_all_iff)

text \<open>The value a field has after the renaming, as a function of the one it has before.\<close>

definition renamed_value :: "string \<Rightarrow> string \<Rightarrow> string \<Rightarrow> string \<Rightarrow> sg_tables \<Rightarrow> string \<Rightarrow> string \<Rightarrow> string \<Rightarrow> string option" where
  "renamed_value t old new dat tb t' i' k' =
     (if t' = t \<and> i' = old then None
      else (let v = (if t' = t \<and> i' = new then map_of (rev (pairs_of (Some dat))) k' else value_of t' i' k' tb)
            in if list_ex (\<lambda>f. ref_target f = Some t \<and> fe_type f = t' \<and> fe_key f = k') field_table \<and> v = Some old then Some new else v))"

lemma refs_iff: "(t', k') \<in> set (sg_reg_find_referencing (Some t) 16) \<longleftrightarrow> list_ex (\<lambda>f. ref_target f = Some t \<and> fe_type f = t' \<and> fe_key f = k') field_table"
  by (auto simp: find_referencing_complete list_ex_iff)

lemma rename_inside_clean:
  assumes "clean db" "saved db = Some tb0" "renamable (tables db)" "\<And>xs. mset (scan xs) = mset xs" "new \<noteq> old" "id_ok new"
  shows "\<exists>e db'. run_state (rename_inside scan t old new dat) db = ((SG_OK, e), db') \<and> saved db' = None \<and>
    (\<forall>t' i' k'. value_of t' i' k' (tables db') = renamed_value t old new dat (tables db) t' i' k')"
proof -
  have o: "outcomes db = []" "is_open db" using assms(1) by (simp_all add: clean_def)
  obtain d1 where s: "run_state (sg_db_set (Some t) (Some new) (Some dat)) db = (0, d1)" "outcomes d1 = []"
    using sg_db_set_clean [OF o] by (metis prod.collapse)
  have d1: "clean d1" "saved d1 = Some tb0" "tables d1 = entry_set t new (Some dat) (tables db)"
    using sg_db_set_run [OF s(1) o(2)] s(2) assms(2) by (simp_all add: clean_def)
  have rn: "renamable (tables d1)" using assms(3,6) d1(3) by (simp add: renamable_entry_set)
  obtain acc d2 where c: "run_state (cascade_refs scan t old new (sg_reg_find_referencing (Some t) 16)
      \<lparr>need_fw_rebuild = False, need_nat_rebuild = False, caud = []\<rparr>) d1 = (Some acc, d2)" "clean d2" "saved d2 = saved d1"
    "\<forall>t' i' k'. value_of t' i' k' (tables d2) = (if (t', k') \<in> set (sg_reg_find_referencing (Some t) 16) \<and> value_of t' i' k' (tables d1) = Some old
       then Some new else value_of t' i' k' (tables d1))"
    using cascade_refs_clean [OF d1(1) rn assms(4,5) refs_ok [of t], of t "\<lparr>need_fw_rebuild = False, need_nat_rebuild = False, caud = []\<rparr>"]
    by (elim exE conjE) (rule that)
  note v = c(4) [rule_format, unfolded refs_iff d1(3) value_of_entry_set]
  let ?d3 = "(api_next (api_next d2))\<lparr>tables := delete_rows (of_entry t old) (tables d2)\<rparr>"
  let ?d4 = "(api_next ?d3)\<lparr>saved := None\<rparr>"
  have o3: "api_ok ?d3" "is_open d2" using c(2) by (simp_all add: clean_def)
  have "run_state (rename_inside scan t old new dat) db = ((SG_OK, rename_effects t old dat acc), ?d4)"
    using s(1) c(1-3) d1(2) o3 del_clean [OF c(2), of t old] by (simp add: rename_inside_def sg_db_commit_def when_open_def run_sql)
  moreover have "tables ?d4 = delete_rows (of_entry t old) (tables d2)" by simp
  then have "value_of t' i' k' (tables ?d4) = renamed_value t old new dat (tables db) t' i' k'" for t' i' k'
    by (simp only: value_of_delete renamed_value_def Let_def v)
  ultimately show ?thesis by (intro exI conjI) auto
qed


section \<open>An example\<close>

definition example_text :: string where
  "example_text = ''name=web2'' @ [CHR 0x0A] @ ''subnet=10.0.0.0/8'' @ [CHR 0x0A]"



text \<open>A search that fails is taken for one that finds nothing: the renaming is committed, and the policy refers to an entry that is no more.\<close>

lemma rename_dangles:
  "let (r, db') = run_state (rename_entry (\<lambda>xs. xs) ''firewall_address'' ''web'' ''web2'' example_text)
        (example_config (replicate 12 None @ [Some ''disk I/O error'']))
   in fst r = SG_OK \<and> saved db' = None \<and> value_of ''firewall_policy'' ''5'' ''srcaddr'' (tables db') = Some ''web'' \<and>
     entry_text (tables db') ''firewall_address'' ''web'' = None"
  by code_simp

text \<open>A check of the new name that fails is taken for one that finds it free: the renaming replaces the other entry.\<close>

lemma rename_overwrites:
  "let (r, db') = run_state (rename_entry (\<lambda>xs. xs) ''firewall_address'' ''web'' ''dmz'' example_text) (example_config [Some ''disk I/O error''])
   in fst r = SG_OK \<and> value_of ''firewall_address'' ''dmz'' ''subnet'' (tables (example_config [])) = Some ''10.1.0.0/16'' \<and>
     value_of ''firewall_address'' ''dmz'' ''subnet'' (tables db') = Some ''10.0.0.0/8''"
  by code_simp

end
