(* ===== verification/Password_Policy.thy ===== *)
theory Password_Policy
  imports C_String
begin

text \<open>
  The password policy of \<open>common/password_policy.c\<close>, which the login program and the management daemon share: counting
  the characters of each class and comparing with the policy, in a fixed order of reasons.
\<close>

record password_policy =
  pol_min_length :: int
  pol_min_uppercase :: int
  pol_min_lowercase :: int
  pol_min_digit :: int
  pol_min_special :: int

text \<open>The counters of the scan: upper case, lower case, digits, everything else, and the length.\<close>

record pw_counts =
  cnt_upper :: int
  cnt_lower :: int
  cnt_digit :: int
  cnt_special :: int
  cnt_len :: int

definition count_char :: "char \<Rightarrow> pw_counts \<Rightarrow> pw_counts" where
  "count_char c n0 =
     (let n = n0\<lparr>cnt_len := cnt_len n0 + 1\<rparr> in
      if is_upper c then n\<lparr>cnt_upper := cnt_upper n + 1\<rparr>
      else if is_lower c then n\<lparr>cnt_lower := cnt_lower n + 1\<rparr>
      else if is_digit c then n\<lparr>cnt_digit := cnt_digit n + 1\<rparr>
      else n\<lparr>cnt_special := cnt_special n + 1\<rparr>)"

definition pw_count :: "string \<Rightarrow> pw_counts" where
  "pw_count pw = fold count_char pw \<lparr>cnt_upper = 0, cnt_lower = 0, cnt_digit = 0, cnt_special = 0, cnt_len = 0\<rparr>"

definition pw_check_policy :: "string \<Rightarrow> string option \<Rightarrow> password_policy \<Rightarrow> int" where
  "pw_check_policy pw username pol =
     (let n = pw_count pw in
      if pol_min_length pol > 0 \<and> cnt_len n < pol_min_length pol then 6
      else if pol_min_uppercase pol > 0 \<and> cnt_upper n < pol_min_uppercase pol then 3
      else if pol_min_lowercase pol > 0 \<and> cnt_lower n < pol_min_lowercase pol then 4
      else if pol_min_digit pol > 0 \<and> cnt_digit n < pol_min_digit pol then 5
      else if pol_min_special pol > 0 \<and> cnt_special n < pol_min_special pol then 2
      else if (case username of None \<Rightarrow> False | Some u \<Rightarrow> u \<noteq> [] \<and> strstr pw u \<noteq> None) then 7
      else 1)"

definition pw_policy_reason :: "int \<Rightarrow> string" where
  "pw_policy_reason rc =
     (if rc = 2 then ''not enough special characters''
      else if rc = 3 then ''not enough uppercase characters''
      else if rc = 4 then ''not enough lowercase characters''
      else if rc = 5 then ''not enough digits''
      else if rc = 6 then ''password too short''
      else if rc = 7 then ''password must not contain username''
      else ''password does not meet policy'')"

section \<open>The policy\<close>

definition is_special :: "char \<Rightarrow> bool" where
  "is_special c \<longleftrightarrow> \<not> is_alnum c"

abbreviation number_of :: "(char \<Rightarrow> bool) \<Rightarrow> string \<Rightarrow> int" where
  "number_of P pw \<equiv> int (length (filter P pw))"

lemma classes_disjoint: "is_upper c \<Longrightarrow> \<not> is_lower c" "is_upper c \<Longrightarrow> \<not> is_digit c" "is_lower c \<Longrightarrow> \<not> is_digit c"
  by (auto simp: is_upper_def is_lower_def is_digit_def)

lemma fold_count:
  "fold count_char pw n =
     n\<lparr>cnt_upper := cnt_upper n + number_of is_upper pw, cnt_lower := cnt_lower n + number_of is_lower pw,
       cnt_digit := cnt_digit n + number_of is_digit pw, cnt_special := cnt_special n + number_of is_special pw,
       cnt_len := cnt_len n + int (length pw)\<rparr>"
proof (induction pw arbitrary: n)
  case (Cons c pw)
  then show ?case by (auto simp: count_char_def Let_def is_special_def is_alnum_def dest: classes_disjoint)
qed simp

lemma strstr_sublist: "strstr s u \<noteq> None \<longleftrightarrow> sublist u s"
proof (induction s u rule: strstr.induct)
  case (2 c s u)
  have "take (length u) (c # s) = u \<longleftrightarrow> prefix u (c # s)" by (metis prefix_def append_take_drop_id append_eq_conv_conj)
  then show ?case using 2 by (auto simp: sublist_Cons_right)
qed auto

text \<open>
  A password satisfies the policy exactly if it is long enough, has enough characters of each of the four classes, and
  does not contain the user name; every refusal gives a reason of its own, and the reason is true of the password.
\<close>

theorem pw_check_policy_spec:
  "(pw_check_policy pw user pol = 1 \<longleftrightarrow>
      pol_min_length pol \<le> int (length pw) \<and> pol_min_uppercase pol \<le> number_of is_upper pw \<and>
      pol_min_lowercase pol \<le> number_of is_lower pw \<and> pol_min_digit pol \<le> number_of is_digit pw \<and>
      pol_min_special pol \<le> number_of is_special pw \<and> \<not> (\<exists>u. user = Some u \<and> u \<noteq> [] \<and> sublist u pw)) \<and>
   (case pw_policy_reason (pw_check_policy pw user pol) of r \<Rightarrow>
      if r = ''password too short'' then int (length pw) < pol_min_length pol
      else if r = ''not enough uppercase characters'' then number_of is_upper pw < pol_min_uppercase pol
      else if r = ''not enough lowercase characters'' then number_of is_lower pw < pol_min_lowercase pol
      else if r = ''not enough digits'' then number_of is_digit pw < pol_min_digit pol
      else if r = ''not enough special characters'' then number_of is_special pw < pol_min_special pol
      else if r = ''password must not contain username'' then \<exists>u. user = Some u \<and> u \<noteq> [] \<and> sublist u pw
      else pw_check_policy pw user pol = 1)"
proof -
  have n: "cnt_len (pw_count pw) = int (length pw)" "cnt_upper (pw_count pw) = number_of is_upper pw"
    "cnt_lower (pw_count pw) = number_of is_lower pw" "cnt_digit (pw_count pw) = number_of is_digit pw"
    "cnt_special (pw_count pw) = number_of is_special pw"
    by (simp_all add: pw_count_def fold_count)
  have u: "(case user of None \<Rightarrow> False | Some u \<Rightarrow> u \<noteq> [] \<and> strstr pw u \<noteq> None) \<longleftrightarrow> (\<exists>u. user = Some u \<and> u \<noteq> [] \<and> sublist u pw)"
    unfolding strstr_sublist by (auto split: option.split)
  define U where "U \<longleftrightarrow> (\<exists>u. user = Some u \<and> u \<noteq> [] \<and> sublist u pw)"
  have pos: "(0 < m \<and> number_of P pw < m) \<longleftrightarrow> number_of P pw < m" "(0 < m \<and> int (length pw) < m) \<longleftrightarrow> int (length pw) < m" for m P by linarith+
  have c: "pw_check_policy pw user pol =
     (if int (length pw) < pol_min_length pol then 6 else if number_of is_upper pw < pol_min_uppercase pol then 3
      else if number_of is_lower pw < pol_min_lowercase pol then 4 else if number_of is_digit pw < pol_min_digit pol then 5
      else if number_of is_special pw < pol_min_special pol then 2 else if U then 7 else 1)"
    unfolding pw_check_policy_def Let_def n u pos U_def by (rule refl)
  show ?thesis unfolding U_def [symmetric] c by (auto simp: pw_policy_reason_def)
qed

end
