(* ===== verification/Auth_Login.thy ===== *)
theory Auth_Login
  imports Config_Commands Password_Policy
begin

text \<open>
  Who may talk to the management daemon: the login command with its lockouts (\<open>mgmtd_user.c\<close>), the password policy kept in the
  store, and the table of session tags that every other request is checked against (\<open>stargazer-mgmtd.c\<close>). The shadow file and the
  hash function of the C library are parameters: \<open>shadow\<close> gives the hash of a user as \<open>getspnam\<close> does, \<open>crypt\<close> hashes a password with a
  salt. The clock is an argument.
\<close>

section \<open>Session tags\<close>

definition MAX_SESSION_TAGS :: nat where "MAX_SESSION_TAGS = 16"
definition SG_USERNAME_MAX :: nat where "SG_USERNAME_MAX = 64"

record session_tag_entry =
  st_tag :: u64
  st_user :: string

type_synonym tag_table = "session_tag_entry list"

definition g_session_tags :: tag_table where
  "g_session_tags = replicate MAX_SESSION_TAGS \<lparr>st_tag = 0, st_user = []\<rparr>"

text \<open>The bytes read from the random device, or none if it cannot be opened or read; a tag is never 0.\<close>

definition session_tag_generate :: "u64 option \<Rightarrow> u64" where
  "session_tag_generate rnd = (case rnd of None \<Rightarrow> 0 | Some tag \<Rightarrow> if tag = 0 then 1 else tag)"

fun tag_insert :: "u64 \<Rightarrow> string \<Rightarrow> tag_table \<Rightarrow> (u64 \<times> tag_table)" where
  "tag_insert tag user [] = (0, [])"
| "tag_insert tag user (e # es) =
     (if st_tag e = 0 then (tag, \<lparr>st_tag = tag, st_user = take (SG_USERNAME_MAX - 1) user\<rparr> # es)
      else (let (r, es') = tag_insert tag user es in (r, e # es')))"

definition session_tag_new :: "u64 option \<Rightarrow> string \<Rightarrow> tag_table \<Rightarrow> u64 \<times> tag_table" where
  "session_tag_new rnd user tags =
     (let tag = session_tag_generate rnd in if tag = 0 then (0, tags) else tag_insert tag user tags)"

definition session_tag_validate :: "string \<Rightarrow> u64 \<Rightarrow> tag_table \<Rightarrow> bool" where
  "session_tag_validate user tag tags \<longleftrightarrow> tag \<noteq> 0 \<and> list_ex (\<lambda>e. st_tag e = tag \<and> st_user e = user) tags"

fun session_tag_delete :: "string \<Rightarrow> u64 \<Rightarrow> tag_table \<Rightarrow> tag_table" where
  "session_tag_delete user tag [] = []"
| "session_tag_delete user tag (e # es) =
     (if st_tag e = tag \<and> st_user e = user then \<lparr>st_tag = 0, st_user = []\<rparr> # es else e # session_tag_delete user tag es)"

definition session_tag_purge_user :: "string \<Rightarrow> tag_table \<Rightarrow> tag_table" where
  "session_tag_purge_user user tags = map (\<lambda>e. if st_tag e \<noteq> 0 \<and> st_user e = user then \<lparr>st_tag = 0, st_user = []\<rparr> else e) tags"

definition admin_notify_change :: "string \<Rightarrow> tag_table \<Rightarrow> tag_table" where
  "admin_notify_change user tags = session_tag_purge_user user tags"

text \<open>The commands that need no tag, and the check in front of all others.\<close>

datatype sg_cmd =
    SG_CMD_SESSION_TAG_NEW | SG_CMD_SESSION_TAG_DEL | SG_CMD_WHOAMI | SG_CMD_DEBUG_FETCH | SG_CMD_HISTORY_LOAD | SG_CMD_HISTORY_SAVE
  | SG_CMD_AUTH_LOGIN | SG_CMD_AUTH_CHANGE_PW | SG_CMD_AUTH_LOGIN_OK | SG_CMD_DHCP_LEASE_EVENT | SG_CMD_OTHER nat

definition tag_exempt :: "sg_cmd \<Rightarrow> bool" where
  "tag_exempt cmd = (case cmd of SG_CMD_OTHER n \<Rightarrow> False | _ \<Rightarrow> True)"

definition tag_gate :: "sg_cmd \<Rightarrow> string \<Rightarrow> u64 \<Rightarrow> tag_table \<Rightarrow> sg_status_t option" where
  "tag_gate cmd user tag tags =
     (if \<not> tag_exempt cmd \<and> user \<noteq> ''__webd'' \<and> \<not> session_tag_validate user tag tags then Some SG_ERR_SESSION_EXPIRED else None)"

text \<open>The two commands that change the table.\<close>

definition handle_tag_new :: "u64 option \<Rightarrow> string \<Rightarrow> tag_table \<Rightarrow> (sg_status_t \<times> u64) \<times> tag_table" where
  "handle_tag_new rnd user tags =
     (if \<not> sg_is_safe_id (Some user) then ((SG_ERR_INVALID_ARG, 0), tags)
      else (let (tag, tags') = session_tag_new rnd user tags
            in if tag = 0 then ((SG_ERR_SYSTEM_FAIL, 0), tags') else ((SG_OK, tag), tags')))"

definition handle_tag_del :: "string \<Rightarrow> u64 \<Rightarrow> tag_table \<Rightarrow> (sg_status_t \<times> u64) \<times> tag_table" where
  "handle_tag_del user tag tags = ((SG_OK, 0), session_tag_delete user tag tags)"

section \<open>The password policy in the store\<close>

definition PW_MIN_PASS_LEN :: int where "PW_MIN_PASS_LEN = 8"

text \<open>One limit of the policy: a value out of range, and a missing one, count as no limit.\<close>

definition policy_value :: "string \<Rightarrow> int \<Rightarrow> int dbop" where
  "policy_value key hi = do {
     v \<leftarrow> sg_db_get_val (Some ''system_password-policy'') (Some ''0'') (Some key);
     ret (case v of None \<Rightarrow> 0 | Some s \<Rightarrow> (let n = atoi s in if n > 0 \<and> n \<le> hi then n else 0)) }"

definition mgmtd_read_password_policy :: "password_policy dbop" where
  "mgmtd_read_password_policy = do {
     l \<leftarrow> policy_value ''min-length'' 256;
     u \<leftarrow> policy_value ''min-uppercase'' 128;
     w \<leftarrow> policy_value ''min-lowercase'' 128;
     d \<leftarrow> policy_value ''min-digit'' 128;
     s \<leftarrow> policy_value ''min-special'' 128;
     ret \<lparr>pol_min_length = l, pol_min_uppercase = u, pol_min_lowercase = w, pol_min_digit = d, pol_min_special = s\<rparr> }"

definition mgmtd_is_policy_enforced :: "string \<Rightarrow> bool dbop" where
  "mgmtd_is_policy_enforced username = do {
     v \<leftarrow> sg_db_get_val (Some ''system_admin'') (Some username) (Some ''enforce-password-policy'');
     ret (v = Some ''enable'') }"

definition mgmtd_validate_password :: "string \<Rightarrow> string \<Rightarrow> string option \<Rightarrow> int dbop" where
  "mgmtd_validate_password username password enforce_override = do {
     enforced \<leftarrow> (case enforce_override of Some (c # cs) \<Rightarrow> ret (c # cs = ''enable'') | _ \<Rightarrow> mgmtd_is_policy_enforced username);
     if \<not> enforced then ret 0
     else do {
       pol \<leftarrow> mgmtd_read_password_policy;
       let pol' = (if pol_min_length pol \<le> 0 then pol\<lparr>pol_min_length := PW_MIN_PASS_LEN\<rparr> else pol);
       let rc = pw_check_policy password (Some username) pol';
       ret (if rc = 1 then 0 else rc) } }"

section \<open>Logging in\<close>

definition AUTH_MAX_FAILS :: int where "AUTH_MAX_FAILS = 5"
definition AUTH_LOCK_BASE :: int where "AUTH_LOCK_BASE = 120"
definition AUTH_LOCK_MAX :: int where "AUTH_LOCK_MAX = 3600"
definition MAX_LINE :: nat where "MAX_LINE = 1024"

fun double_loop :: "nat \<Rightarrow> int \<Rightarrow> int" where
  "double_loop 0 duration = duration"
| "double_loop (Suc n) duration = (if duration < AUTH_LOCK_MAX then double_loop n (duration * 2) else duration)"

definition lock_duration :: "int \<Rightarrow> int" where
  "lock_duration fails = min AUTH_LOCK_MAX (double_loop (nat ((fails - AUTH_MAX_FAILS) div AUTH_MAX_FAILS)) AUTH_LOCK_BASE)"

definition dummy_hash :: string where
  "dummy_hash = ''$6$dummy.salt.value$'' @ replicate 98 (CHR ''A'')"

text \<open>
  Whether a password is right. The hash function is called on every path, with the dummy where the user has no hash; a locked
  hash never matches, and an empty one matches the empty password.
\<close>

definition password_ok :: "(string \<Rightarrow> string \<Rightarrow> string option) \<Rightarrow> string option \<Rightarrow> string \<Rightarrow> bool" where
  "password_ok crypt sp password =
     (let result = crypt password (case sp of None \<Rightarrow> dummy_hash | Some h \<Rightarrow> h) in
      case sp of
        None \<Rightarrow> False
      | Some h \<Rightarrow>
          if h \<noteq> [] \<and> (hd h = CHR ''!'' \<or> hd h = CHR ''*'') then False
          else if h = [] \<and> password = [] then True
          else result = Some h)"

text \<open>The user and the password of a request.\<close>

definition parse_credentials :: "string \<Rightarrow> (string \<times> string) option" where
  "parse_credentials p = (case strchr p (CHR 0x0A) of
      None \<Rightarrow> None
    | Some ulen \<Rightarrow>
        if ulen = 0 \<or> ulen \<ge> SG_USERNAME_MAX then None
        else (let pw_start = drop (Suc ulen) p;
                  pw = (if pw_start \<noteq> [] \<and> last pw_start = CHR 0x0A then butlast pw_start else pw_start)
              in if length pw \<ge> MAX_LINE then None else Some (take ulen p, pw)))"

type_synonym auth_reply = "sg_status_t \<times> (bool \<times> bool) option"

text \<open>The rest of a login with the right password; the flags of the answer are that the password must be changed and that it does not meet the policy.\<close>

definition login_ok :: "string \<Rightarrow> string \<Rightarrow> auth_reply dbop" where
  "login_ok target password = do {
     admin_cfg \<leftarrow> sg_db_get (Some ''system_admin'') (Some target);
     if admin_cfg = None then ret (SG_ERR_AUTH_FAIL, None)
     else do {
       epc \<leftarrow> sg_db_get_val (Some ''system_admin'') (Some target) (Some ''enforce-change-password'');
       enforced \<leftarrow> mgmtd_is_policy_enforced target;
       rc \<leftarrow> (if enforced then mgmtd_validate_password target password None else ret 0);
       ret (SG_OK, Some (epc = Some ''enable'', rc \<noteq> 0)) } }"

text \<open>\<open>stamp\<close> is the clock of the SQL library.\<close>

definition login_failed :: "string \<Rightarrow> int \<Rightarrow> string \<Rightarrow> int \<Rightarrow> int \<Rightarrow> auth_reply dbop" where
  "login_failed stamp now target fails until = do {
     let fails' = fails + 1;
     let until' = (if fails' \<ge> AUTH_MAX_FAILS then now + lock_duration fails' else until);
     _ \<leftarrow> sg_db_lockout_set stamp (Some target) fails' until';
     ret (SG_ERR_AUTH_FAIL, None) }"

definition login_checked :: "(string \<Rightarrow> string \<Rightarrow> string option) \<Rightarrow> (string \<Rightarrow> string option) \<Rightarrow> string \<Rightarrow> int \<Rightarrow> string \<Rightarrow> string \<Rightarrow> auth_reply dbop" where
  "login_checked crypt shadow stamp now target password = do {
     (rc, n, until) \<leftarrow> sg_db_lockout_get (Some target);
     if until > 0 \<and> now < until then ret (SG_ERR_AUTH_FAIL, None)
     else do {
       let n' = (if until > 0 then 0 else n);
       let until' = (if until > 0 then 0 else until);
       if \<not> password_ok crypt (shadow target) password then login_failed stamp now target n' until'
       else do {
         _ \<leftarrow> (if n' > 0 then sg_db_lockout_clear (Some target) else ret 0);
         login_ok target password } } }"

definition handle_auth_login ::
  "(string \<Rightarrow> string \<Rightarrow> string option) \<Rightarrow> (string \<Rightarrow> string option) \<Rightarrow> string \<Rightarrow> int \<Rightarrow> string \<Rightarrow> string option \<Rightarrow> auth_reply dbop" where
  "handle_auth_login crypt shadow stamp now user payload =
     (if user \<noteq> ''root'' \<and> user \<noteq> ''__webd'' then ret (SG_ERR_PERM_DENIED, None)
      else case payload of
        None \<Rightarrow> ret (SG_ERR_MISSING_ARG, None)
      | Some p \<Rightarrow>
          (case parse_credentials p of
             None \<Rightarrow> ret (SG_ERR_INVALID_ARG, None)
           | Some (target, password) \<Rightarrow>
               if \<not> sg_is_safe_id (Some target) then ret (SG_ERR_INVALID_ARG, None)
               else login_checked crypt shadow stamp now target password))"

definition handle_auth_login_ok :: "string \<Rightarrow> auth_reply dbop" where
  "handle_auth_login_ok user = ret (if user \<noteq> ''root'' \<and> user \<noteq> ''__webd'' then (SG_ERR_PERM_DENIED, None) else (SG_OK, None))"

end
