(* ===== verification/Auth_Login_Correct.thy ===== *)
theory Auth_Login_Correct
  imports Auth_Login Config_Commands_Correct "HOL-Library.Multiset"
begin

text \<open>
  What the login command and the session tags promise: the table of tags implements a bounded multiset of sessions, a
  login succeeds only with the right password of an administrator of the store, and the lockout bounds the rate at
  which passwords can be tried.
\<close>

section \<open>Session tags\<close>

text \<open>The sessions of a table: the pairs of tag and user in its slots that are in use.\<close>

definition sessions :: "tag_table \<Rightarrow> (u64 \<times> string) multiset" where
  "sessions tags = image_mset (\<lambda>e. (st_tag e, st_user e)) (filter_mset (\<lambda>e. st_tag e \<noteq> 0) (mset tags))"

lemma sessions_simps [simp]:
  "sessions [] = {#}"
  "sessions (e # es) = (if st_tag e = 0 then sessions es else add_mset (st_tag e, st_user e) (sessions es))"
  by (simp_all add: sessions_def)

lemma zero_no_session: "(0, u) \<notin># sessions tags"
  by (auto simp: sessions_def)

lemma tag_insert_sessions:
  assumes "tag \<noteq> 0" "tag_insert tag user tags = (r, tags')"
  shows "length tags' = length tags \<and> size (sessions tags) \<le> length tags \<and>
     (if size (sessions tags) < length tags
      then r = tag \<and> sessions tags' = add_mset (tag, take (SG_USERNAME_MAX - 1) user) (sessions tags)
      else r = 0 \<and> tags' = tags)"
  using assms(2)
proof (induction tags arbitrary: r tags')
  case (Cons e es)
  have le: "size (sessions xs) \<le> length xs" for xs by (induction xs) auto
  show ?case
  proof (cases "st_tag e = 0")
    case True
    then show ?thesis using Cons.prems assms(1) le [of es] by auto
  next
    case False
    obtain r' es' where q: "tag_insert tag user es = (r', es')" by force
    then show ?thesis using Cons.prems False Cons.IH [OF q] by (auto split: if_splits)
  qed
qed simp

lemma delete_sessions: "sessions (session_tag_delete user tag tags) = sessions tags - {#(tag, user)#}"
proof (induction tags)
  case (Cons e es)
  then show ?case using zero_no_session [of user es] by (auto simp: diff_single_trivial)
qed simp

lemma purge_sessions: "sessions (session_tag_purge_user user tags) = filter_mset (\<lambda>s. snd s \<noteq> user) (sessions tags)"
  by (induction tags) (auto simp: session_tag_purge_user_def)

lemma validate_sessions: "session_tag_validate user tag tags \<longleftrightarrow> (tag, user) \<in># sessions tags"
  by (auto simp: session_tag_validate_def sessions_def list_ex_iff image_iff)

lemma table_length [simp]:
  "length (session_tag_delete user tag tags) = length tags" "length (session_tag_purge_user user tags) = length tags"
  by (induction tags) (auto simp: session_tag_purge_user_def)

text \<open>
  The requests that change the table, and their specification on the multiset of sessions, which has room for
  \<open>MAX_SESSION_TAGS\<close> of them.
\<close>

datatype tag_request = Tag_New "u64 option" string | Tag_Del string u64 | Admin_Changed string

primrec serve :: "tag_request \<Rightarrow> tag_table \<Rightarrow> tag_table" where
  "serve (Tag_New rnd user) tags = snd (handle_tag_new rnd user tags)"
| "serve (Tag_Del user tag) tags = snd (handle_tag_del user tag tags)"
| "serve (Admin_Changed user) tags = admin_notify_change user tags"

primrec session_spec :: "tag_request \<Rightarrow> (u64 \<times> string) multiset \<Rightarrow> (u64 \<times> string) multiset" where
  "session_spec (Tag_New rnd user) S =
     (if sg_is_safe_id (Some user) \<and> rnd \<noteq> None \<and> size S < MAX_SESSION_TAGS
      then add_mset (if the rnd = 0 then 1 else the rnd, take (SG_USERNAME_MAX - 1) user) S else S)"
| "session_spec (Tag_Del user tag) S = S - {#(tag, user)#}"
| "session_spec (Admin_Changed user) S = filter_mset (\<lambda>s. snd s \<noteq> user) S"

lemma serve_sessions:
  assumes "length tags = MAX_SESSION_TAGS"
  shows "length (serve rq tags) = MAX_SESSION_TAGS \<and> sessions (serve rq tags) = session_spec rq (sessions tags)"
proof (cases rq)
  case (Tag_New rnd user)
  define tag where "tag = session_tag_generate rnd"
  obtain r tags' where q: "tag_insert tag user tags = (r, tags')" by force
  show ?thesis
  proof (cases "tag = 0")
    case True
    then have "rnd = None" by (auto simp: tag_def session_tag_generate_def split: option.splits if_splits)
    then show ?thesis using Tag_New True assms
      by (auto simp: handle_tag_new_def session_tag_new_def session_tag_generate_def)
  next
    case False
    then have t: "rnd \<noteq> None" "tag = (if the rnd = 0 then 1 else the rnd)"
      by (auto simp: tag_def session_tag_generate_def split: option.splits)
    have "snd (handle_tag_new rnd user tags) = (if sg_is_safe_id (Some user) then tags' else tags)"
      using False q by (auto simp: handle_tag_new_def session_tag_new_def tag_def [symmetric])
    then show ?thesis using Tag_New tag_insert_sessions [OF False q] assms t by auto
  qed
qed (use assms in \<open>simp_all add: handle_tag_del_def admin_notify_change_def delete_sessions purge_sessions\<close>)

lemma initial_sessions: "length g_session_tags = MAX_SESSION_TAGS" "sessions g_session_tags = {#}"
  by (simp_all add: g_session_tags_def sessions_def)

lemma serve_all:
  assumes "length tags = MAX_SESSION_TAGS"
  shows "length (fold serve rqs tags) = MAX_SESSION_TAGS \<and> sessions (fold serve rqs tags) = fold session_spec rqs (sessions tags)"
  using assms serve_sessions by (induction rqs arbitrary: tags) simp_all


section \<open>Reading the store\<close>

text \<open>Operations that change no table and, where no call fails, leave the connection ready.\<close>

definition reads :: "'a dbop \<Rightarrow> bool" where
  "reads m \<longleftrightarrow> (\<forall>db. tables (snd (run_state m db)) = tables db \<and> (clean db \<longrightarrow> clean (snd (run_state m db))))"

named_theorems reads_intros

lemma reads_ret [reads_intros]: "reads (ret x)"
  by (simp add: reads_def)

lemma reads_bind [reads_intros]: "reads m \<Longrightarrow> (\<And>x. reads (f x)) \<Longrightarrow> reads (m \<bind> f)"
  by (simp add: reads_def case_prod_beta)

lemma reads_if [reads_intros]: "reads m \<Longrightarrow> reads n \<Longrightarrow> reads (if b then m else n)"
  by simp

lemma reads_api [reads_intros]: "reads api"
  by (simp add: reads_def)

lemma reads_conn [reads_intros]: "reads conn"
  by (simp add: reads_def)

lemma reads_row [reads_intros]: "reads (sql_row rs)"
  by (simp add: reads_def sql_row_run)

lemma reads_rows [reads_intros]: "reads (sql_rows rs)"
  by (induction rs) (auto intro!: reads_intros)

lemma reads_get [reads_intros]: "reads (sg_db_get t i)"
  unfolding sg_db_get_def by (auto intro!: reads_intros split: option.split bool.split)

lemma reads_get_val [reads_intros]: "reads (sg_db_get_val t i k)"
  unfolding sg_db_get_val_def by (auto intro!: reads_intros split: option.split bool.split)

lemma reads_lockout_get [reads_intros]: "reads (sg_db_lockout_get u)"
  unfolding sg_db_lockout_get_def by (auto intro!: reads_intros split: option.split bool.split)

lemma reads_enforced [reads_intros]: "reads (mgmtd_is_policy_enforced u)"
  unfolding mgmtd_is_policy_enforced_def by (intro reads_intros)

lemma reads_validate [reads_intros]: "reads (mgmtd_validate_password u pw e)"
  unfolding mgmtd_validate_password_def mgmtd_read_password_policy_def policy_value_def Let_def
  by (auto intro!: reads_intros split: option.split list.split)

lemma reads_login_ok: "reads (login_ok u pw)"
  unfolding login_ok_def by (intro reads_intros)

lemma reads_tables: "reads m \<Longrightarrow> run_state m db = (r, db') \<Longrightarrow> tables db' = tables db \<and> (clean db \<longrightarrow> clean db')"
  unfolding reads_def by (metis snd_conv)

text \<open>Whether a user is an administrator of the store.\<close>

definition is_admin :: "sg_tables \<Rightarrow> string \<Rightarrow> bool" where
  "is_admin tb u \<longleftrightarrow> list_ex (of_entry ''system_admin'' u) (config tb)"

lemma login_ok_status:
  assumes "run_state (login_ok u pw) db = (r, db')"
  shows "fst r = SG_OK \<longrightarrow> is_admin (tables db) u" "clean db \<longrightarrow> (fst r = SG_OK \<longleftrightarrow> is_admin (tables db) u)"
proof -
  obtain g db1 where g: "run_state (sg_db_get (Some ''system_admin'') (Some u)) db = (g, db1)" by (rule prod.exhaust)
  have r: "fst r = SG_OK \<longleftrightarrow> g \<noteq> None"
    using assms g by (auto simp: login_ok_def case_prod_beta split: if_splits)
  obtain n where n: "g = text_of (map row_text (take n (filter (of_entry ''system_admin'' u) (config (tables db)))))"
    using get_prefix [OF g] by blast
  then have "g \<noteq> None \<Longrightarrow> filter (of_entry ''system_admin'' u) (config (tables db)) \<noteq> []" by (auto simp: text_of_def)
  then show "fst r = SG_OK \<longrightarrow> is_admin (tables db) u" using r by (auto simp: is_admin_def list_ex_iff filter_empty_conv)
  have "clean db \<Longrightarrow> g = text_of (map (\<lambda>r. cr_key r @ ''='' @ cr_value r) (filter (of_entry ''system_admin'' u) (config (tables db))))"
    using sg_db_get_clean [of db "''system_admin''" u] g by (simp add: clean_def)
  then show "clean db \<longrightarrow> (fst r = SG_OK \<longleftrightarrow> is_admin (tables db) u)"
    using r by (auto simp: is_admin_def list_ex_iff text_of_def filter_empty_conv split: if_splits)
qed

section \<open>Lockouts\<close>

text \<open>The number of failures of a user and the time until which the user is locked out; no row counts as no failures.\<close>

definition lock_state :: "sg_tables \<Rightarrow> string \<Rightarrow> int \<times> int" where
  "lock_state tb u = (case List.find (\<lambda>l. lo_username l = u) (auth_lockouts tb) of
     None \<Rightarrow> (0, 0) | Some l \<Rightarrow> (lo_fail_count l, lo_locked_until l))"

definition locked :: "int \<times> int \<Rightarrow> int \<Rightarrow> bool" where
  "locked st now \<longleftrightarrow> snd st > 0 \<and> now < snd st"

text \<open>The states that occur: fewer than five failures and no lock, or five and a lock.\<close>

definition lock_ok :: "int \<times> int \<Rightarrow> bool" where
  "lock_ok st \<longleftrightarrow> (0 \<le> fst st \<and> fst st < AUTH_MAX_FAILS \<and> snd st = 0) \<or> (fst st = AUTH_MAX_FAILS \<and> snd st > 0)"

definition lock_next :: "int \<Rightarrow> bool \<Rightarrow> int \<times> int \<Rightarrow> int \<times> int" where
  "lock_next now ok st =
     (if locked st now then st
      else (let n = (if snd st > 0 then 0 else fst st) in
            if ok then (if n > 0 then (0, 0) else st)
            else (n + 1, if n + 1 = AUTH_MAX_FAILS then now + AUTH_LOCK_BASE else 0)))"

lemma lock_next_ok: "lock_ok st \<Longrightarrow> 0 \<le> now \<Longrightarrow> lock_ok (lock_next now ok st)"
  by (auto simp: lock_ok_def lock_next_def Let_def AUTH_MAX_FAILS_def AUTH_LOCK_BASE_def)

lemma base_duration: "lock_duration AUTH_MAX_FAILS = AUTH_LOCK_BASE"
  by (simp add: lock_duration_def AUTH_MAX_FAILS_def AUTH_LOCK_BASE_def AUTH_LOCK_MAX_def)

lemma find_head: "List.find P xs = (case filter P xs of [] \<Rightarrow> None | x # _ \<Rightarrow> Some x)"
  by (induction xs) auto

lemma lockout_get_clean:
  assumes "clean db" "lock_ok (lock_state (tables db) u)"
  shows "run_state (sg_db_lockout_get (Some u)) db = ((0, lock_state (tables db) u), api_next (api_next db))"
proof -
  have "cast_i32 n = n" if "0 \<le> n" "n \<le> 5" for n using that by (simp add: cast_i32_def signed_take_bit_int_eq_self)
  moreover have "0 \<le> fst (lock_state (tables db) u)" "fst (lock_state (tables db) u) \<le> 5"
    using assms(2) by (auto simp: lock_ok_def AUTH_MAX_FAILS_def)
  ultimately show ?thesis using assms(1)
    by (auto simp: sg_db_lockout_get_def clean_def sql_row_run lock_state_def find_head split: list.splits)
qed

lemma lock_state_set: "lock_state (upsert_lockout l tb) u = (if u = lo_username l then (lo_fail_count l, lo_locked_until l) else lock_state tb u)"
  by (simp add: lock_state_def find_upsert)

lemma lock_state_clear:
  "lock_state (tb\<lparr>auth_lockouts := filter (\<lambda>r. lo_username r \<noteq> v) (auth_lockouts tb)\<rparr>) u = (if u = v then (0, 0) else lock_state tb u)"
  by (simp add: lock_state_def find_filter find_filter_none)

text \<open>A login with well-formed credentials, as a step of the lock of its user.\<close>

lemma login_checked_locks:
  assumes "clean db" "lock_ok (lock_state (tables db) t)" "run_state (login_checked crypt shadow stamp now t pw) db = (r, db')"
  shows "clean db' \<and> lock_state (tables db') u =
     (if u = t then lock_next now (password_ok crypt (shadow t) pw) (lock_state (tables db) t) else lock_state (tables db) u)"
proof -
  obtain n until where st: "lock_state (tables db) t = (n, until)" by (rule prod.exhaust)
  define db1 where "db1 = api_next (api_next db)"
  have c1: "clean db1" "tables db1 = tables db" using assms(1) by (simp_all add: db1_def)
  define m where "m = (if until > 0 then 0 else n)"
  have run: "run_state (login_checked crypt shadow stamp now t pw) db =
      (if locked (n, until) now then ((SG_ERR_AUTH_FAIL, None), db1)
       else if \<not> password_ok crypt (shadow t) pw then run_state (login_failed stamp now t m 0) db1
       else run_state (do { _ \<leftarrow> (if m > 0 then sg_db_lockout_clear (Some t) else ret 0); login_ok t pw }) db1)"
    using lockout_get_clean [OF assms(1,2)] st assms(2)
    by (auto simp: login_checked_def locked_def m_def db1_def Let_def lock_ok_def)
  consider (locked) "locked (n, until) now" | (failed) "\<not> locked (n, until) now" "\<not> password_ok crypt (shadow t) pw"
    | (ok) "\<not> locked (n, until) now" "password_ok crypt (shadow t) pw" by blast
  then show ?thesis
  proof cases
    case locked
    then show ?thesis using run assms(3) c1 st by (auto simp: lock_next_def)
  next
    case failed
    have m5: "m + 1 \<ge> AUTH_MAX_FAILS \<longleftrightarrow> m + 1 = AUTH_MAX_FAILS" using assms(2) st by (auto simp: lock_ok_def m_def AUTH_MAX_FAILS_def)
    then have f: "run_state (login_failed stamp now t m 0) db1 = (let v = (if m + 1 = AUTH_MAX_FAILS then now + AUTH_LOCK_BASE else 0) in
        ((SG_ERR_AUTH_FAIL, None), (api_next (api_next db1))\<lparr>tables := upsert_lockout \<lparr>lo_username = t, lo_fail_count = m + 1,
           lo_locked_until = v, lo_updated_at = stamp\<rparr> (tables db1)\<rparr>))"
      using c1 base_duration by (auto simp: login_failed_def Let_def sg_db_lockout_set_def run_change_clean clean_def)
    then show ?thesis using run failed assms(1,3) c1 st
      by (auto simp: lock_state_set lock_next_def m_def Let_def db1_def)
  next
    case ok
    define db2 where "db2 = snd (run_state (if m > 0 then sg_db_lockout_clear (Some t) else ret 0) db1)"
    have c2: "clean db2" "lock_state (tables db2) u = (if u = t \<and> m > 0 then (0, 0) else lock_state (tables db) u)" for u
      using c1 assms(1) by (auto simp: db2_def db1_def sg_db_lockout_clear_def run_change_clean clean_def lock_state_clear)
    have "run_state (login_checked crypt shadow stamp now t pw) db = run_state (login_ok t pw) db2"
      using run ok by (simp add: db2_def case_prod_beta)
    then show ?thesis using reads_tables [OF reads_login_ok, of t pw db2 r db'] assms(3) ok c2 st
      by (auto simp: lock_next_def m_def Let_def)
  qed
qed

text \<open>The lockout operations leave the entries of the configuration alone.\<close>

lemma lockout_config:
  "config (tables (snd (run_state (sg_db_lockout_set stamp u n t) db))) = config (tables db)"
  "config (tables (snd (run_state (sg_db_lockout_clear u) db))) = config (tables db)"
  by (auto simp: sg_db_lockout_set_def sg_db_lockout_clear_def run_change_def run_sql upsert_lockout_def case_prod_beta split: option.split bool.split)

text \<open>The status of a login with well-formed credentials.\<close>

lemma login_checked_status:
  assumes "run_state (login_checked crypt shadow stamp now t pw) db = (r, db')"
  shows "fst r = SG_OK \<longrightarrow> password_ok crypt (shadow t) pw \<and> is_admin (tables db) t"
    "clean db \<and> lock_ok (lock_state (tables db) t) \<longrightarrow>
       (fst r = SG_OK \<longleftrightarrow> password_ok crypt (shadow t) pw \<and> is_admin (tables db) t \<and> \<not> locked (lock_state (tables db) t) now)"
proof -
  obtain rc n until db1 where g: "run_state (sg_db_lockout_get (Some t)) db = ((rc, n, until), db1)" by (metis prod.exhaust)
  note g1 = reads_tables [OF reads_lockout_get g]
  define m where "m = (if until > 0 then 0 else n)"
  define db2 where "db2 = snd (run_state (if m > 0 then sg_db_lockout_clear (Some t) else ret 0) db1)"
  have t2: "is_admin (tables db2) t = is_admin (tables db) t" using g1 by (auto simp: db2_def is_admin_def lockout_config)
  have bad: "\<not> password_ok crypt (shadow t) pw \<Longrightarrow> fst r \<noteq> SG_OK" "locked (n, until) now \<Longrightarrow> fst r \<noteq> SG_OK"
    using assms g by (auto simp: login_checked_def locked_def login_failed_def Let_def case_prod_beta split: if_splits)
  have good: "run_state (login_ok t pw) db2 = (r, db')" if "password_ok crypt (shadow t) pw" "\<not> locked (n, until) now"
    using assms g that by (auto simp: login_checked_def locked_def db2_def m_def Let_def case_prod_beta split: if_splits)
  show "fst r = SG_OK \<longrightarrow> password_ok crypt (shadow t) pw \<and> is_admin (tables db) t"
    using bad login_ok_status(1) [OF good] t2 by blast
  have c2: "clean db2" if "clean db"
    using that g1 by (auto simp: db2_def sg_db_lockout_clear_def run_change_clean clean_def split: if_splits)
  show "clean db \<and> lock_ok (lock_state (tables db) t) \<longrightarrow>
       (fst r = SG_OK \<longleftrightarrow> password_ok crypt (shadow t) pw \<and> is_admin (tables db) t \<and> \<not> locked (lock_state (tables db) t) now)"
  proof
    assume c: "clean db \<and> lock_ok (lock_state (tables db) t)"
    then have "lock_state (tables db) t = (n, until)" using lockout_get_clean g by simp
    then show "fst r = SG_OK \<longleftrightarrow> password_ok crypt (shadow t) pw \<and> is_admin (tables db) t \<and> \<not> locked (lock_state (tables db) t) now"
      using bad login_ok_status(2) [OF good] t2 c2 c by auto
  qed
qed

section \<open>Trying passwords\<close>

text \<open>A login request: the time and its text, the caller and the payload.\<close>

record login_request =
  lr_now :: int
  lr_stamp :: string
  lr_caller :: string
  lr_payload :: "string option"

text \<open>The user and the password of a request that gets as far as the lockout check.\<close>

definition credentials :: "login_request \<Rightarrow> (string \<times> string) option" where
  "credentials a =
     (if lr_caller a \<noteq> ''root'' \<and> lr_caller a \<noteq> ''__webd'' then None
      else case Option.bind (lr_payload a) parse_credentials of
             None \<Rightarrow> None
           | Some (t, pw) \<Rightarrow> if sg_is_safe_id (Some t) then Some (t, pw) else None)"

definition attempt :: "(string \<Rightarrow> string \<Rightarrow> string option) \<Rightarrow> (string \<Rightarrow> string option) \<Rightarrow> login_request \<Rightarrow> auth_reply dbop" where
  "attempt crypt shadow a = handle_auth_login crypt shadow (lr_stamp a) (lr_now a) (lr_caller a) (lr_payload a)"

lemma attempt_checked:
  "attempt crypt shadow a = (case credentials a of
      Some (t, pw) \<Rightarrow> login_checked crypt shadow (lr_stamp a) (lr_now a) t pw
    | None \<Rightarrow> ret (if lr_caller a \<noteq> ''root'' \<and> lr_caller a \<noteq> ''__webd'' then SG_ERR_PERM_DENIED
                 else if lr_payload a = None then SG_ERR_MISSING_ARG else SG_ERR_INVALID_ARG, None))"
  by (auto simp: attempt_def handle_auth_login_def credentials_def split: option.split)

definition right_password :: "(string \<Rightarrow> string \<Rightarrow> string option) \<Rightarrow> (string \<Rightarrow> string option) \<Rightarrow> string \<Rightarrow> login_request \<Rightarrow> bool" where
  "right_password crypt shadow u a =
     (case credentials a of None \<Rightarrow> False | Some (t, pw) \<Rightarrow> t = u \<and> password_ok crypt (shadow u) pw)"

text \<open>The requests for a user whose password is compared with the hash of the user, those that the lockout does not refuse.\<close>

definition compares :: "string \<Rightarrow> login_request \<Rightarrow> sg_db \<Rightarrow> bool" where
  "compares u a db = (case credentials a of None \<Rightarrow> False | Some (t, pw) \<Rightarrow> t = u \<and> \<not> locked (lock_state (tables db) u) (lr_now a))"

primrec guesses :: "(string \<Rightarrow> string \<Rightarrow> string option) \<Rightarrow> (string \<Rightarrow> string option) \<Rightarrow> string \<Rightarrow> login_request list \<Rightarrow> sg_db \<Rightarrow> int" where
  "guesses crypt shadow u [] db = 0"
| "guesses crypt shadow u (a # as) db =
     (if compares u a db then 1 else 0) + guesses crypt shadow u as (snd (run_state (attempt crypt shadow a) db))"

definition attempts :: "(string \<Rightarrow> string \<Rightarrow> string option) \<Rightarrow> (string \<Rightarrow> string option) \<Rightarrow> login_request list \<Rightarrow> sg_db \<Rightarrow> sg_db" where
  "attempts crypt shadow as db = fold (\<lambda>a db. snd (run_state (attempt crypt shadow a) db)) as db"

definition locks_ok :: "sg_db \<Rightarrow> bool" where
  "locks_ok db \<longleftrightarrow> clean db \<and> (\<forall>u. lock_ok (lock_state (tables db) u))"

lemma attempt_locks:
  assumes "locks_ok db"
  shows "clean (snd (run_state (attempt crypt shadow a) db))"
    "lock_state (tables (snd (run_state (attempt crypt shadow a) db))) u =
       (case credentials a of
          Some (t, pw) \<Rightarrow> if u = t then lock_next (lr_now a) (password_ok crypt (shadow t) pw) (lock_state (tables db) u) else lock_state (tables db) u
        | None \<Rightarrow> lock_state (tables db) u)"
proof -
  obtain r db' where run: "run_state (attempt crypt shadow a) db = (r, db')" by (rule prod.exhaust)
  have "clean db' \<and> lock_state (tables db') u = (case credentials a of
          Some (t, pw) \<Rightarrow> if u = t then lock_next (lr_now a) (password_ok crypt (shadow t) pw) (lock_state (tables db) u) else lock_state (tables db) u
        | None \<Rightarrow> lock_state (tables db) u)"
  proof (cases "credentials a")
    case None
    then show ?thesis using run assms by (auto simp: attempt_checked locks_ok_def)
  next
    case (Some tp)
    obtain t pw where tp: "tp = (t, pw)" by (rule prod.exhaust)
    then have "run_state (login_checked crypt shadow (lr_stamp a) (lr_now a) t pw) db = (r, db')"
      using run Some by (simp add: attempt_checked)
    from login_checked_locks [OF _ _ this, of u] show ?thesis using assms Some tp by (auto simp: locks_ok_def)
  qed
  then show "clean (snd (run_state (attempt crypt shadow a) db))"
    "lock_state (tables (snd (run_state (attempt crypt shadow a) db))) u = (case credentials a of
          Some (t, pw) \<Rightarrow> if u = t then lock_next (lr_now a) (password_ok crypt (shadow t) pw) (lock_state (tables db) u) else lock_state (tables db) u
        | None \<Rightarrow> lock_state (tables db) u)"
    using run by simp_all
qed

lemma attempt_locks_ok: "locks_ok db \<Longrightarrow> 0 \<le> lr_now a \<Longrightarrow> locks_ok (snd (run_state (attempt crypt shadow a) db))"
  using attempt_locks by (auto simp: locks_ok_def intro: lock_next_ok split: option.split)

lemma attempts_locks_ok: "locks_ok db \<Longrightarrow> list_all (\<lambda>a. 0 \<le> lr_now a) as \<Longrightarrow> locks_ok (attempts crypt shadow as db)"
  unfolding attempts_def by (induction as arbitrary: db) (auto intro: attempt_locks_ok)

lemma no_locks_ok: "clean db \<Longrightarrow> auth_lockouts (tables db) = [] \<Longrightarrow> locks_ok db"
  by (simp add: locks_ok_def lock_state_def lock_ok_def AUTH_MAX_FAILS_def)

text \<open>
  How many passwords are left to try before time \<open>b\<close>, in a window no longer than a lock: none while a lock outlasts the window, otherwise
  what is left of five, or five again where a lock ends in the window.
\<close>

definition guesses_left :: "int \<Rightarrow> int \<times> int \<Rightarrow> int" where
  "guesses_left b st = (if snd st \<ge> b \<and> snd st > 0 then 0 else if snd st > 0 then AUTH_MAX_FAILS else AUTH_MAX_FAILS - fst st)"

lemma guesses_left_bounds: "lock_ok st \<Longrightarrow> 0 \<le> guesses_left b st \<and> guesses_left b st \<le> 5"
  by (auto simp: guesses_left_def lock_ok_def AUTH_MAX_FAILS_def)

lemma lock_next_left:
  assumes "lock_ok st" "a \<le> now" "now < a + AUTH_LOCK_BASE" "0 \<le> now"
  shows "(if locked st now then 0 else 1) + guesses_left (a + AUTH_LOCK_BASE) (lock_next now False st) \<le> guesses_left (a + AUTH_LOCK_BASE) st"
  using assms by (auto simp: lock_ok_def lock_next_def locked_def guesses_left_def Let_def AUTH_MAX_FAILS_def AUTH_LOCK_BASE_def)

lemma guesses_bound:
  assumes "locks_ok db" "list_all (\<lambda>r. 0 \<le> lr_now r \<and> a \<le> lr_now r \<and> lr_now r < a + AUTH_LOCK_BASE) as"
    "list_all (\<lambda>r. \<not> right_password crypt shadow u r) as"
  shows "guesses crypt shadow u as db \<le> guesses_left (a + AUTH_LOCK_BASE) (lock_state (tables db) u)"
  using assms
proof (induction as arbitrary: db)
  case Nil
  then show ?case using guesses_left_bounds by (simp add: locks_ok_def)
next
  case (Cons r as)
  define db' where "db' = snd (run_state (attempt crypt shadow r) db)"
  have IH: "guesses crypt shadow u as db' \<le> guesses_left (a + AUTH_LOCK_BASE) (lock_state (tables db') u)"
    using Cons attempt_locks_ok by (simp add: db'_def)
  have ok: "lock_ok (lock_state (tables db) u)" using Cons.prems(1) by (simp add: locks_ok_def)
  note st = attempt_locks(2) [OF Cons.prems(1), of crypt shadow r u, folded db'_def]
  have "(if compares u r db then 1 else 0) + guesses_left (a + AUTH_LOCK_BASE) (lock_state (tables db') u) \<le>
      guesses_left (a + AUTH_LOCK_BASE) (lock_state (tables db) u)"
  proof (cases "\<exists>pw. credentials r = Some (u, pw)")
    case True
    then obtain pw where pw: "credentials r = Some (u, pw)" by blast
    then have "\<not> password_ok crypt (shadow u) pw" using Cons.prems(3) by (simp add: right_password_def)
    then show ?thesis using st pw Cons.prems(2) lock_next_left [OF ok, of a "lr_now r"] by (auto simp: compares_def split: if_splits)
  next
    case False
    then show ?thesis using st by (auto simp: compares_def split: option.splits if_splits)
  qed
  then show ?case using IH by (simp add: db'_def [symmetric])
qed


text \<open>A store with one administrator, whose hash stands for the password itself.\<close>

definition admin_db :: "string option list \<Rightarrow> sg_db" where
  "admin_db oc = (example_db oc)\<lparr>tables := example_tables\<lparr>config := [row_of ''system_admin'' ''eve'' (''profile'', ''super'')]\<rparr>\<rparr>"

definition plain_crypt :: "string \<Rightarrow> string \<Rightarrow> string option" where
  "plain_crypt pw h = Some (''$'' @ pw)"

definition one_shadow :: "string \<Rightarrow> string option" where
  "one_shadow u = (if u = ''eve'' then Some ''$s'' else None)"

definition login_as :: "int \<Rightarrow> string \<Rightarrow> login_request" where
  "login_as now pw = \<lparr>lr_now = now, lr_stamp = [], lr_caller = ''root'', lr_payload = Some (''eve'' @ [CHR 0x0A] @ pw @ [CHR 0x0A])\<rparr>"

lemma example_credentials: "credentials (login_as now ''s'') = Some (''eve'', ''s'')" "credentials (login_as now ''x'') = Some (''eve'', ''x'')"
proof -
  have "parse_credentials (''eve'' @ [CHR 0x0A] @ ''s'' @ [CHR 0x0A]) = Some (''eve'', ''s'')"
    "parse_credentials (''eve'' @ [CHR 0x0A] @ ''x'' @ [CHR 0x0A]) = Some (''eve'', ''x'')" "sg_is_safe_id (Some ''eve'')" by code_simp+
  then show "credentials (login_as now ''s'') = Some (''eve'', ''s'')" "credentials (login_as now ''x'') = Some (''eve'', ''x'')"
    by (simp_all add: credentials_def login_as_def)
qed


text \<open>
  The counter is reset when a lock has expired, so that it never passes five and the duration is never doubled: every lock
  lasts 120 seconds.
\<close>

lemma lock_never_escalates:
  assumes "clean db" "auth_lockouts (tables db) = []" "list_all (\<lambda>r. 0 \<le> lr_now r) as" "snd (lock_state (tables (attempts crypt shadow as db)) u) > 0"
  shows "\<exists>r \<in> set as. snd (lock_state (tables (attempts crypt shadow as db)) u) = lr_now r + 120"
proof -
  have "snd (lock_state (tables (attempts crypt shadow as db)) u) = snd (lock_state (tables db) u) \<or> snd (lock_state (tables (attempts crypt shadow as db)) u) = 0
      \<or> (\<exists>r \<in> set as. snd (lock_state (tables (attempts crypt shadow as db)) u) = lr_now r + AUTH_LOCK_BASE)" if "locks_ok db" for db
    using that assms(3)
  proof (induction as arbitrary: db)
    case (Cons r as)
    define db' where "db' = snd (run_state (attempt crypt shadow r) db)"
    have "snd (lock_state (tables db') u) \<in> {snd (lock_state (tables db) u), 0, lr_now r + AUTH_LOCK_BASE}"
      using attempt_locks(2) [OF Cons.prems(1), of crypt shadow r u] by (auto simp: db'_def lock_next_def Let_def split: option.splits if_splits)
    moreover have "locks_ok db'" using Cons.prems attempt_locks_ok by (simp add: db'_def)
    ultimately show ?case using Cons.IH [of db'] Cons.prems(2) by (auto simp: attempts_def db'_def)
  qed (simp add: attempts_def)
  from this [OF no_locks_ok [OF assms(1,2)]] show ?thesis using assms(2,4) by (auto simp: lock_state_def AUTH_LOCK_BASE_def)
qed

text \<open>A failed lookup counts as no lockout: after five wrong passwords the right one is refused, but accepted if the lookup fails.\<close>

lemma lockout_fails_open:
  "(let db = attempts plain_crypt one_shadow (replicate 5 (login_as 100 ''x'')) (admin_db [])
    in fst (run_state (attempt plain_crypt one_shadow (login_as 110 ''s'')) db) = (SG_ERR_AUTH_FAIL, None) \<and>
       fst (run_state (attempt plain_crypt one_shadow (login_as 110 ''s'')) (db\<lparr>outcomes := [Some ''disk I/O error'']\<rparr>)) = (SG_OK, Some (False, False)))"
  by code_simp

section \<open>Logging in\<close>

text \<open>
  C18. A login succeeds only for the right password of an administrator, whatever calls into the SQL library fail: the caller is the login program
  or the web server, the credentials are well formed, the shadow file has an unlocked hash that the password matches (or both are empty), and
  the store has an entry for the administrator. Where no call fails, and the lockouts are those that logins leave behind, a login succeeds
  exactly if in addition no lock of the user is in force.
\<close>

theorem login_authentic:
  assumes "run_state (attempt crypt shadow a) db = (r, db')"
  shows "(fst r = SG_OK \<longrightarrow> (\<exists>u pw. credentials a = Some (u, pw) \<and> password_ok crypt (shadow u) pw \<and> is_admin (tables db) u)) \<and>
    (locks_ok db \<longrightarrow> (fst r = SG_OK \<longleftrightarrow>
       (\<exists>u pw. credentials a = Some (u, pw) \<and> password_ok crypt (shadow u) pw \<and> is_admin (tables db) u \<and> \<not> locked (lock_state (tables db) u) (lr_now a))))"
proof (cases "credentials a")
  case None
  then show ?thesis using assms by (auto simp: attempt_checked split: if_splits)
next
  case (Some tp)
  obtain u pw where tp: "tp = (u, pw)" by (rule prod.exhaust)
  have run: "run_state (login_checked crypt shadow (lr_stamp a) (lr_now a) u pw) db = (r, db')"
    using assms Some tp by (simp add: attempt_checked)
  have "locks_ok db \<Longrightarrow> clean db \<and> lock_ok (lock_state (tables db) u)" by (simp add: locks_ok_def)
  moreover have e: "(\<exists>t p. credentials a = Some (t, p) \<and> P t p) \<longleftrightarrow> P u pw" for P using Some tp by simp
  ultimately show ?thesis unfolding e using login_checked_status [OF run] by blast
qed

theorem login_authentic_witness:
  "fst (run_state (attempt plain_crypt one_shadow (login_as 100 ''s'')) (admin_db [])) = (SG_OK, Some (False, False)) \<and>
   (\<exists>u pw. credentials (login_as 100 ''s'') = Some (u, pw) \<and> password_ok plain_crypt (one_shadow u) pw \<and> is_admin (tables (admin_db [])) u)"
proof -
  obtain r db' where q: "run_state (attempt plain_crypt one_shadow (login_as 100 ''s'')) (admin_db []) = (r, db')" by (rule prod.exhaust)
  have r: "fst (run_state (attempt plain_crypt one_shadow (login_as 100 ''s'')) (admin_db [])) = (SG_OK, Some (False, False))" by code_simp
  then have "fst r = SG_OK" by (simp add: q)
  then have "\<exists>u pw. credentials (login_as 100 ''s'') = Some (u, pw) \<and> password_ok plain_crypt (one_shadow u) pw \<and> is_admin (tables (admin_db [])) u"
    using login_authentic [OF q] by blast
  then show ?thesis using r by blast
qed

end
