(* ===== verification/Web_Session.thy ===== *)
theory Web_Session
  imports C_String
begin

text \<open>
  The session store of the web daemon (\<open>webd_session.c\<close>): a table of sixteen slots, each free or holding the
  session of one login. Every operation runs from start to end under the lock of the table, so the store is a
  state machine whose steps are the operations; the clock and the random bytes of a token are arguments of the
  steps that read them.
\<close>

unbundle bit_operations_syntax

section \<open>Data\<close>

definition WEBD_MAX_SESSIONS :: nat where "WEBD_MAX_SESSIONS = 16"
definition WEBD_TOKEN_LEN :: nat where "WEBD_TOKEN_LEN = 64"
definition WEBD_SESSION_TTL :: int where "WEBD_SESSION_TTL = 3600"
definition WEBD_IDLE_TIMEOUT :: int where "WEBD_IDLE_TIMEOUT = 900"

record webd_session_t =
  token :: string
  username :: string
  ipc_session_tag :: u64
  created :: int
  last_used :: int

type_synonym store = "webd_session_t list"

text \<open>A slot after \<open>memset(&sessions[i], 0, sizeof(sessions[i]))\<close>; the table starts in this state.\<close>

definition blank :: webd_session_t where
  "blank = \<lparr>token = [], username = [], ipc_session_tag = 0, created = 0, last_used = 0\<rparr>"

definition sessions0 :: store where
  "sessions0 = replicate WEBD_MAX_SESSIONS blank"

section \<open>Operations\<close>

definition hex :: string where
  "hex = ''0123456789abcdef''"

fun hex_encode :: "bytes \<Rightarrow> string" where
  "hex_encode [] = []"
| "hex_encode (b # bs) = hex ! unat (drop_bit 4 b) # hex ! unat (b AND 0x0F) # hex_encode bs"

text \<open>The first index from \<open>i\<close> on whose slot satisfies a test.\<close>

fun find_slot :: "(webd_session_t \<Rightarrow> bool) \<Rightarrow> store \<Rightarrow> nat \<Rightarrow> nat option" where
  "find_slot P [] i = None"
| "find_slot P (s # ss) i = (if P s then Some i else find_slot P ss (Suc i))"

text \<open>The loop that looks for the least recently used slot: \<open>slot\<close> and \<open>oldest\<close> are its variables.\<close>

fun oldest_loop :: "store \<Rightarrow> nat \<Rightarrow> nat \<Rightarrow> int \<Rightarrow> nat" where
  "oldest_loop [] i slot oldest = slot"
| "oldest_loop (s # ss) i slot oldest =
     (if last_used s < oldest then oldest_loop ss (Suc i) i (last_used s) else oldest_loop ss (Suc i) slot oldest)"

definition pick_slot :: "store \<Rightarrow> nat" where
  "pick_slot ss = (case find_slot (\<lambda>s. token s = []) ss 0 of
      Some i \<Rightarrow> i
    | None \<Rightarrow> oldest_loop (drop 1 ss) 1 0 (last_used (ss ! 0)))"

text \<open>
  \<open>rnd\<close> is what \<open>getrandom\<close> delivered and \<open>now\<close> the clock. The result is the token handed to the caller, or
  nothing if \<open>getrandom\<close> did not deliver 32 bytes. The user name is cut to its buffer of 64 bytes.
\<close>

definition session_create_with_tag :: "string \<Rightarrow> u64 \<Rightarrow> bytes \<Rightarrow> int \<Rightarrow> store \<Rightarrow> string option \<times> store" where
  "session_create_with_tag user tag rnd now ss =
     (if length rnd \<noteq> 32 then (None, ss)
      else let s = \<lparr>token = hex_encode rnd, username = take 63 user, ipc_session_tag = tag, created = now, last_used = now\<rparr>
           in (Some (token s), ss[pick_slot ss := s]))"

text \<open>\<open>memcmp\<close> of a stored token with an argument, both of at least \<open>WEBD_TOKEN_LEN\<close> bytes.\<close>

definition token_matches :: "string \<Rightarrow> webd_session_t \<Rightarrow> bool" where
  "token_matches tok s \<longleftrightarrow> token s \<noteq> [] \<and> take WEBD_TOKEN_LEN (token s) = take WEBD_TOKEN_LEN tok"

definition session_lookup :: "string option \<Rightarrow> int \<Rightarrow> store \<Rightarrow> webd_session_t option \<times> store" where
  "session_lookup arg now ss = (case arg of
      None \<Rightarrow> (None, ss)
    | Some tok \<Rightarrow>
        if length tok \<noteq> WEBD_TOKEN_LEN then (None, ss)
        else (case find_slot (token_matches tok) ss 0 of
                None \<Rightarrow> (None, ss)
              | Some i \<Rightarrow>
                  if now - created (ss ! i) > WEBD_SESSION_TTL then (None, ss[i := blank])
                  else if now - last_used (ss ! i) > WEBD_IDLE_TIMEOUT then (None, ss[i := blank])
                  else let s = (ss ! i)\<lparr>last_used := now\<rparr> in (Some s, ss[i := s])))"

text \<open>
  The argument of \<open>session_destroy\<close> is the caller's buffer: \<open>memcmp\<close> reads \<open>WEBD_TOKEN_LEN\<close> bytes of it, and its
  terminating NUL counts as one. A shorter buffer would be read past its end: the result is then undefined.
\<close>

definition session_destroy :: "string option \<Rightarrow> store \<Rightarrow> store option" where
  "session_destroy arg ss = (case arg of
      None \<Rightarrow> Some ss
    | Some tok \<Rightarrow>
        (let buf = tok @ [CHR 0x00]
         in if length buf < WEBD_TOKEN_LEN \<and> (\<exists>s \<in> set ss. token s \<noteq> []) then None
            else (case find_slot (token_matches buf) ss 0 of
                    None \<Rightarrow> Some ss
                  | Some i \<Rightarrow> Some (ss[i := blank]))))"

definition session_expired :: "int \<Rightarrow> webd_session_t \<Rightarrow> bool" where
  "session_expired now s \<longleftrightarrow> token s \<noteq> [] \<and>
     (now - created s > WEBD_SESSION_TTL \<or> now - last_used s > WEBD_IDLE_TIMEOUT)"

definition session_expire_check :: "int \<Rightarrow> store \<Rightarrow> store" where
  "session_expire_check now ss = map (\<lambda>s. if session_expired now s then blank else s) ss"

definition session_destroy_all :: "store \<Rightarrow> store" where
  "session_destroy_all ss = replicate WEBD_MAX_SESSIONS blank"

definition session_count :: "store \<Rightarrow> nat" where
  "session_count ss = length (filter (\<lambda>s. token s \<noteq> []) ss)"

end
