(* ===== verification/Web_Session_Correct.thy ===== *)
theory Web_Session_Correct
  imports Web_Session
begin

text \<open>
  What the session store promises: which sessions a table holds after any sequence of operations, whom a token that
  is accepted belongs to, and which session has to go when the table is full.
\<close>

section \<open>The store as a state machine\<close>

datatype event =
    Create string u64 bytes int
  | Lookup "string option" int
  | Destroy "string option"
  | Expire int
  | Destroy_All

inductive session_step :: "store \<Rightarrow> event \<Rightarrow> store \<Rightarrow> bool" where
  Create: "session_step ss (Create u tag rnd now) (snd (session_create_with_tag u tag rnd now ss))"
| Lookup: "session_step ss (Lookup arg now) (snd (session_lookup arg now ss))"
| Destroy: "session_destroy arg ss = Some ss' \<Longrightarrow> session_step ss (Destroy arg) ss'"
| Expire: "session_step ss (Expire now) (session_expire_check now ss)"
| Destroy_All: "session_step ss Destroy_All (session_destroy_all ss)"

inductive session_run :: "event list \<Rightarrow> store \<Rightarrow> bool" where
  Start: "session_run [] sessions0"
| Step: "session_run es ss \<Longrightarrow> session_step ss e ss' \<Longrightarrow> session_run (es @ [e]) ss'"

code_pred session_step .

text \<open>What is asked of \<open>getrandom\<close>: no two logins draw the same 32 bytes.\<close>

fun drawn :: "event \<Rightarrow> bytes list" where
  "drawn (Create u tag rnd now) = [rnd]"
| "drawn e = []"

definition fresh :: "event list \<Rightarrow> bool" where
  "fresh es \<longleftrightarrow> distinct (concat (map drawn es))"

text \<open>
  The login behind a session: it is in the history, and neither a logout with its token nor a shutdown came after
  it; the session was last used when it was created or at a later lookup of its token.
\<close>

definition justified :: "event list \<Rightarrow> webd_session_t \<Rightarrow> bool" where
  "justified es s \<longleftrightarrow> (\<exists>pre u rnd post.
     es = pre @ Create u (ipc_session_tag s) rnd (created s) # post \<and> length rnd = 32 \<and>
     token s = hex_encode rnd \<and> username s = take 63 u \<and>
     Destroy (Some (token s)) \<notin> set post \<and> Destroy_All \<notin> set post \<and>
     (last_used s = created s \<or> Lookup (Some (token s)) (last_used s) \<in> set post))"

definition unique_tokens :: "store \<Rightarrow> bool" where
  "unique_tokens ss \<longleftrightarrow> (\<forall>i < length ss. \<forall>j < length ss. token (ss ! i) \<noteq> [] \<longrightarrow> token (ss ! i) = token (ss ! j) \<longrightarrow> i = j)"

definition session_inv :: "event list \<Rightarrow> store \<Rightarrow> bool" where
  "session_inv es ss \<longleftrightarrow> length ss = WEBD_MAX_SESSIONS \<and> unique_tokens ss \<and>
     (\<forall>s \<in> set ss. token s \<noteq> [] \<longrightarrow> justified es s)"

section \<open>Tokens\<close>

lemma hex_length [simp]: "length hex = 16"
  by (simp add: hex_def)

lemma nibbles: "unat (drop_bit 4 (b :: u8)) < 16" "unat (b AND 0x0F) < 16"
proof -
  have "unat (drop_bit 4 b) = unat b div 16" unfolding unat_drop_bit_eq by (simp add: drop_bit_eq_div)
  then show "unat (drop_bit 4 b) < 16" using unsigned_less [of b, where 'a = nat] by simp
  have "b AND 0x0F \<le> 0x0F" by (rule word_and_le1)
  then show "unat (b AND 0x0F) < 16" by (simp add: word_le_nat_alt)
qed

lemma hex_distinct: "distinct hex"
  by (simp add: hex_def)

lemma nibbles_inj: "drop_bit 4 (a :: u8) = drop_bit 4 b \<Longrightarrow> a AND 0x0F = b AND 0x0F \<Longrightarrow> a = b"
proof -
  assume h: "drop_bit 4 a = drop_bit 4 b" "a AND 0x0F = b AND 0x0F"
  have m: "(0x0F :: u8) = Bit_Operations.mask 4" by (simp add: mask_eq_exp_minus_1)
  have "push_bit 4 (drop_bit 4 a) + take_bit 4 a = push_bit 4 (drop_bit 4 b) + take_bit 4 b"
    using h by (simp add: m take_bit_eq_mask)
  then show ?thesis by (simp add: bits_ident)
qed

lemma hex_encode_length [simp]: "length (hex_encode bs) = 2 * length bs"
  by (induction bs) auto

lemma hex_encode_chars: "set (hex_encode bs) \<subseteq> set hex"
proof (induction bs)
  case (Cons b bs)
  have "hex ! unat (drop_bit 4 b) \<in> set hex" "hex ! unat (b AND 0x0F) \<in> set hex"
    by (rule nth_mem, simp add: nibbles)+
  then show ?case using Cons by simp
qed simp

lemma hex_encode_inj: "hex_encode a = hex_encode b \<longleftrightarrow> a = b"
proof (induction a arbitrary: b)
  case Nil
  then show ?case by (cases b) auto
next
  case (Cons x xs)
  show ?case
  proof (cases b)
    case (Cons y ys)
    have "unat (drop_bit 4 x) = unat (drop_bit 4 y)" "unat (x AND 0x0F) = unat (y AND 0x0F)"
      if "hex_encode (x # xs) = hex_encode b"
      using that Cons nth_eq_iff_index_eq [OF hex_distinct] nibbles by auto
    then have "x = y" if "hex_encode (x # xs) = hex_encode b"
      using that nibbles_inj [of x y] by (simp add: unsigned_word_eqI)
    then show ?thesis using Cons Cons.IH [of ys] by auto
  qed simp
qed

section \<open>Slots\<close>

lemma find_slot_Some:
  "find_slot P ss i = Some j \<Longrightarrow> i \<le> j \<and> j < i + length ss \<and> P (ss ! (j - i)) \<and> (\<forall>k < j - i. \<not> P (ss ! k))"
proof (induction ss arbitrary: i)
  case (Cons s ss)
  show ?case
  proof (cases "P s")
    case False
    then have "find_slot P ss (Suc i) = Some j" using Cons.prems by simp
    from Cons.IH [OF this] have r: "Suc i \<le> j" "j < Suc i + length ss" "P (ss ! (j - Suc i))" "\<forall>k < j - Suc i. \<not> P (ss ! k)"
      by auto
    have "\<not> P ((s # ss) ! k)" if "k < j - i" for k using that r False by (cases k) auto
    then show ?thesis using r by (auto simp: nth_Cons' Suc_diff_Suc)
  qed (use Cons in auto)
qed simp

lemma find_slot_None: "find_slot P ss i = None \<longleftrightarrow> (\<forall>s \<in> set ss. \<not> P s)"
  by (induction ss arbitrary: i) auto

lemmas find_slot0 = find_slot_Some [where i = 0, simplified]

text \<open>The slot of the oldest use: the first minimum of the table.\<close>

lemma oldest_loop_spec:
  assumes "slot < i" "oldest = last_used (ss ! slot)" "i \<le> length ss"
    "\<forall>k < i. last_used (ss ! slot) \<le> last_used (ss ! k)" "\<forall>k < slot. last_used (ss ! slot) < last_used (ss ! k)"
  shows "oldest_loop (drop i ss) i slot oldest < length ss \<and>
    (\<forall>k < length ss. last_used (ss ! oldest_loop (drop i ss) i slot oldest) \<le> last_used (ss ! k)) \<and>
    (\<forall>k < oldest_loop (drop i ss) i slot oldest. last_used (ss ! oldest_loop (drop i ss) i slot oldest) < last_used (ss ! k))"
  using assms
proof (induction "length ss - i" arbitrary: i slot oldest)
  case 0
  then show ?case by simp
next
  case (Suc n)
  then have d: "drop i ss = ss ! i # drop (Suc i) ss" by (simp add: Cons_nth_drop_Suc)
  show ?case
  proof (cases "last_used (ss ! i) < oldest")
    case True
    then have "\<forall>k < Suc i. last_used (ss ! i) \<le> last_used (ss ! k)" "\<forall>k < i. last_used (ss ! i) < last_used (ss ! k)"
      using Suc.prems by (auto simp: less_Suc_eq)
    then show ?thesis using Suc.hyps(1) [of "Suc i" i "last_used (ss ! i)"] Suc True d by simp
  next
    case False
    then have "\<forall>k < Suc i. last_used (ss ! slot) \<le> last_used (ss ! k)"
      using Suc.prems by (auto simp: less_Suc_eq)
    then show ?thesis using Suc.hyps(1) [of "Suc i" slot oldest] Suc False d by simp
  qed
qed

lemma pick_slot_spec:
  assumes "ss \<noteq> []"
  shows "pick_slot ss < length ss" (is ?lt)
    and "token (ss ! pick_slot ss) \<noteq> [] \<Longrightarrow>
      (\<forall>s \<in> set ss. token s \<noteq> [] \<and> last_used (ss ! pick_slot ss) \<le> last_used s)" (is "_ \<Longrightarrow> ?min")
proof -
  have "?lt \<and> (token (ss ! pick_slot ss) \<noteq> [] \<longrightarrow> ?min)"
  proof (cases "find_slot (\<lambda>s. token s = []) ss 0")
    case None
    then have full: "\<forall>s \<in> set ss. token s \<noteq> []" by (simp add: find_slot_None)
    have p: "pick_slot ss = oldest_loop (drop 1 ss) 1 0 (last_used (ss ! 0))" using None by (simp add: pick_slot_def)
    have l: "1 \<le> length ss" using assms by (cases ss) auto
    have "?lt \<and> (\<forall>k < length ss. last_used (ss ! pick_slot ss) \<le> last_used (ss ! k))"
      using oldest_loop_spec [of 0 1 "last_used (ss ! 0)" ss] l unfolding p by simp
    then show ?thesis using full by (auto simp: in_set_conv_nth)
  next
    case (Some i)
    then have "pick_slot ss = i" "i < length ss" "token (ss ! i) = []"
      using find_slot0 [OF Some] by (auto simp: pick_slot_def)
    then show ?thesis by simp
  qed
  then show ?lt "token (ss ! pick_slot ss) \<noteq> [] \<Longrightarrow> ?min" by auto
qed

section \<open>The invariant\<close>

lemma blank_token [simp]: "token blank = []"
  by (simp add: blank_def)

lemma justified_token: "justified es s \<Longrightarrow> length (token s) = WEBD_TOKEN_LEN"
  by (auto simp: justified_def WEBD_TOKEN_LEN_def)

lemma justified_snoc:
  assumes "justified es s" "e \<noteq> Destroy (Some (token s))" "e \<noteq> Destroy_All"
  shows "justified (es @ [e]) s"
proof -
  obtain pre u rnd post where "es = pre @ Create u (ipc_session_tag s) rnd (created s) # post" "length rnd = 32"
    "token s = hex_encode rnd" "username s = take 63 u" "Destroy (Some (token s)) \<notin> set post" "Destroy_All \<notin> set post"
    "last_used s = created s \<or> Lookup (Some (token s)) (last_used s) \<in> set post"
    using assms(1) unfolding justified_def by blast
  then show ?thesis unfolding justified_def using assms(2,3)
    by (intro exI [of _ pre] exI [of _ u] exI [of _ rnd] exI [of _ "post @ [e]"]) auto
qed

lemma justified_lookup:
  assumes "justified es s"
  shows "justified (es @ [Lookup (Some (token s)) now]) (s\<lparr>last_used := now\<rparr>)"
proof -
  obtain pre u rnd post where "es = pre @ Create u (ipc_session_tag s) rnd (created s) # post" "length rnd = 32"
    "token s = hex_encode rnd" "username s = take 63 u" "Destroy (Some (token s)) \<notin> set post" "Destroy_All \<notin> set post"
    using assms(1) unfolding justified_def by blast
  then show ?thesis unfolding justified_def
    by (intro exI [of _ pre] exI [of _ u] exI [of _ rnd] exI [of _ "post @ [Lookup (Some (token s)) now]"]) auto
qed

lemma justified_create:
  "length rnd = 32 \<Longrightarrow> justified (es @ [Create u tag rnd now])
     \<lparr>token = hex_encode rnd, username = take 63 u, ipc_session_tag = tag, created = now, last_used = now\<rparr>"
  unfolding justified_def by (intro exI [of _ es] exI [of _ u] exI [of _ rnd] exI [of _ "[]"]) simp

lemma justified_drawn: "justified es s \<Longrightarrow> \<exists>rnd \<in> set (concat (map drawn es)). token s = hex_encode rnd"
  by (force simp: justified_def)

lemma unique_tokens_update:
  assumes "unique_tokens ss" "\<forall>j < length ss. j \<noteq> i \<longrightarrow> token s \<noteq> [] \<longrightarrow> token (ss ! j) \<noteq> token s"
  shows "unique_tokens (ss[i := s])"
  unfolding unique_tokens_def
proof (intro allI impI)
  fix a b assume h: "a < length (ss[i := s])" "b < length (ss[i := s])" "token (ss[i := s] ! a) \<noteq> []"
    "token (ss[i := s] ! a) = token (ss[i := s] ! b)"
  show "a = b"
  proof (cases "a = i \<or> b = i")
    case True
    then show ?thesis using h assms(2) by (cases "a = i"; cases "b = i") (auto simp: nth_list_update)
  next
    case False
    then show ?thesis using h assms(1) unfolding unique_tokens_def by simp
  qed
qed

lemma unique_tokens_map:
  assumes "unique_tokens ss" "\<And>s. token (f s) = [] \<or> token (f s) = token s"
  shows "unique_tokens (map f ss)"
  unfolding unique_tokens_def
proof (intro allI impI)
  fix a b assume h: "a < length (map f ss)" "b < length (map f ss)" "token (map f ss ! a) \<noteq> []"
    "token (map f ss ! a) = token (map f ss ! b)"
  then have "token (ss ! a) \<noteq> []" "token (ss ! a) = token (ss ! b)" using assms(2) [of "ss ! a"] assms(2) [of "ss ! b"] by auto
  then show "a = b" using h assms(1) unfolding unique_tokens_def by simp
qed

lemma session_inv_update:
  assumes "session_inv es ss" "token s \<noteq> [] \<Longrightarrow> justified (es @ [e]) s"
    "\<forall>j < length ss. j \<noteq> i \<longrightarrow> token s \<noteq> [] \<longrightarrow> token (ss ! j) \<noteq> token s"
    "\<forall>j < length ss. j \<noteq> i \<longrightarrow> token (ss ! j) \<noteq> [] \<longrightarrow> e \<noteq> Destroy (Some (token (ss ! j)))" "e \<noteq> Destroy_All"
  shows "session_inv (es @ [e]) (ss[i := s])"
proof -
  have "justified (es @ [e]) x" if x: "x \<in> set (ss[i := s])" "token x \<noteq> []" for x
  proof -
    obtain j where j: "j < length ss" "x = ss[i := s] ! j" using x(1) by (auto simp: in_set_conv_nth)
    show ?thesis
    proof (cases "j = i")
      case True
      then show ?thesis using j x(2) assms(2) by simp
    next
      case False
      then have "x = ss ! j" using j by simp
      moreover from this have "justified es x" using assms(1) j(1) x(2) by (simp add: session_inv_def)
      ultimately show ?thesis using justified_snoc assms(4,5) j(1) x(2) False by blast
    qed
  qed
  then show ?thesis using assms(1) unique_tokens_update [OF _ assms(3)] by (simp add: session_inv_def)
qed

lemma session_inv_keep:
  assumes "session_inv es ss" "\<forall>s \<in> set ss. token s \<noteq> [] \<longrightarrow> e \<noteq> Destroy (Some (token s))" "e \<noteq> Destroy_All"
  shows "session_inv (es @ [e]) ss"
  using assms justified_snoc by (auto simp: session_inv_def)

lemma token_matches_iff:
  assumes "session_inv es ss" "s \<in> set ss" "length tok = WEBD_TOKEN_LEN"
  shows "token_matches tok s \<longleftrightarrow> token s = tok"
proof (cases "token s = []")
  case True
  then show ?thesis using assms(3) by (auto simp: token_matches_def WEBD_TOKEN_LEN_def)
next
  case False
  then have "length (token s) = WEBD_TOKEN_LEN" using assms(1,2) justified_token by (auto simp: session_inv_def)
  then show ?thesis using False assms(3) by (simp add: token_matches_def)
qed

lemma session_inv_create:
  assumes "session_inv es ss" "fresh (es @ [Create u tag rnd now])"
  shows "session_inv (es @ [Create u tag rnd now]) (snd (session_create_with_tag u tag rnd now ss))"
proof (cases "length rnd = 32")
  case False
  then show ?thesis using session_inv_keep [OF assms(1)] by (simp add: session_create_with_tag_def)
next
  case True
  let ?s = "\<lparr>token = hex_encode rnd, username = take 63 u, ipc_session_tag = tag, created = now, last_used = now\<rparr>"
  have "rnd \<notin> set (concat (map drawn es))" using assms(2) by (simp add: fresh_def)
  then have "token (ss ! j) \<noteq> hex_encode rnd" if "j < length ss" "token (ss ! j) \<noteq> []" for j
    using justified_drawn [of es "ss ! j"] assms(1) that hex_encode_inj by (auto simp: session_inv_def)
  then have "token (ss ! j) \<noteq> token ?s" if "j < length ss" "token ?s \<noteq> []" for j using that by fastforce
  then have "session_inv (es @ [Create u tag rnd now]) (ss[pick_slot ss := ?s])"
    using session_inv_update [OF assms(1), of ?s] justified_create [OF True] by simp
  then show ?thesis using True by (simp add: session_create_with_tag_def)
qed

lemma session_inv_lookup:
  assumes "session_inv es ss"
  shows "session_inv (es @ [Lookup arg now]) (snd (session_lookup arg now ss))"
proof (cases "\<exists>tok i. arg = Some tok \<and> length tok = WEBD_TOKEN_LEN \<and> find_slot (token_matches tok) ss 0 = Some i")
  case False
  then have "snd (session_lookup arg now ss) = ss" by (auto simp: session_lookup_def split: option.splits)
  then show ?thesis using session_inv_keep [OF assms] by simp
next
  case True
  then obtain tok i where t: "arg = Some tok" "length tok = WEBD_TOKEN_LEN" "find_slot (token_matches tok) ss 0 = Some i" by blast
  then have i: "i < length ss" "token_matches tok (ss ! i)" using find_slot0 by blast+
  then have tok: "token (ss ! i) = tok" using token_matches_iff [OF assms _ t(2)] by simp
  have "session_inv (es @ [Lookup arg now]) (ss[i := blank])" using session_inv_update [OF assms, of blank] by simp
  moreover have "session_inv (es @ [Lookup arg now]) (ss[i := (ss ! i)\<lparr>last_used := now\<rparr>])"
  proof (rule session_inv_update [OF assms])
    have "token (ss ! i) \<noteq> []" using tok t(2) by (auto simp: WEBD_TOKEN_LEN_def)
    then have "justified es (ss ! i)" using assms i(1) by (simp add: session_inv_def)
    then show "justified (es @ [Lookup arg now]) ((ss ! i)\<lparr>last_used := now\<rparr>)"
      using justified_lookup [of es "ss ! i" now] tok t(1) by simp
    show "\<forall>j < length ss. j \<noteq> i \<longrightarrow> token ((ss ! i)\<lparr>last_used := now\<rparr>) \<noteq> [] \<longrightarrow>
        token (ss ! j) \<noteq> token ((ss ! i)\<lparr>last_used := now\<rparr>)"
      using assms i(1) unfolding session_inv_def unique_tokens_def by (metis webd_session_t.select_convs(1) webd_session_t.surjective webd_session_t.update_convs(5))
  qed simp_all
  ultimately show ?thesis using t by (simp add: session_lookup_def Let_def)
qed

lemma session_inv_destroy:
  assumes "session_inv es ss" "session_destroy arg ss = Some ss'"
  shows "session_inv (es @ [Destroy arg]) ss'"
proof (cases arg)
  case None
  then show ?thesis using assms session_inv_keep [OF assms(1)] by (simp add: session_destroy_def)
next
  case (Some tok)
  let ?buf = "tok @ [CHR 0x00]"
  have m: "token_matches ?buf s" if "s \<in> set ss" "token s \<noteq> []" "tok = token s" for s
    using that assms(1) justified_token by (auto simp: session_inv_def token_matches_def)
  show ?thesis
  proof (cases "find_slot (token_matches ?buf) ss 0")
    case None
    then have "ss' = ss" using assms(2) Some by (simp add: session_destroy_def Let_def split: if_splits)
    moreover have "tok \<noteq> token s" if "s \<in> set ss" "token s \<noteq> []" for s
      using m [OF that] None that(1) unfolding find_slot_None by blast
    ultimately show ?thesis using session_inv_keep [OF assms(1), of "Destroy arg"] Some by simp
  next
    case (Some i)
    then have e: "ss' = ss[i := blank]" using assms(2) \<open>arg = Some tok\<close> by (simp add: session_destroy_def Let_def split: if_splits)
    have i: "i < length ss" "token_matches ?buf (ss ! i)" using find_slot0 [OF Some] by auto
    have "tok \<noteq> token (ss ! j)" if j: "j < length ss" "j \<noteq> i" "token (ss ! j) \<noteq> []" for j
    proof
      assume t: "tok = token (ss ! j)"
      then have l: "length tok = WEBD_TOKEN_LEN" using assms(1) j justified_token by (auto simp: session_inv_def)
      have "token_matches tok (ss ! i)" using i(2) l by (simp add: token_matches_def)
      then have "token (ss ! i) = tok" using token_matches_iff [OF assms(1) _ l] i(1) by simp
      then show False using t j i assms(1) by (auto simp: session_inv_def unique_tokens_def)
    qed
    then show ?thesis unfolding e using session_inv_update [OF assms(1), of blank] \<open>arg = Some tok\<close> by simp
  qed
qed

lemma session_inv_expire:
  assumes "session_inv es ss"
  shows "session_inv (es @ [Expire now]) (session_expire_check now ss)"
proof -
  have "unique_tokens (session_expire_check now ss)"
    using assms unfolding session_expire_check_def session_inv_def by (intro unique_tokens_map) auto
  then show ?thesis using assms justified_snoc
    by (auto simp: session_inv_def session_expire_check_def split: if_splits)
qed

lemma session_inv_start: "session_inv es sessions0"
  by (auto simp: session_inv_def sessions0_def unique_tokens_def)

lemma session_inv_step:
  assumes "session_inv es ss" "session_step ss e ss'" "fresh (es @ [e])"
  shows "session_inv (es @ [e]) ss'"
  using assms(2)
proof (cases rule: session_step.cases)
  case Destroy_All
  then show ?thesis using session_inv_start by (simp add: session_destroy_all_def sessions0_def)
qed (use assms session_inv_create session_inv_lookup session_inv_destroy session_inv_expire in auto)

lemma session_run_inv: "session_run es ss \<Longrightarrow> fresh es \<Longrightarrow> session_inv es ss"
proof (induction rule: session_run.induct)
  case (Step es ss e ss')
  have "fresh es" using Step.prems by (simp add: fresh_def)
  then show ?case using Step session_inv_step by blast
qed (rule session_inv_start)

section \<open>An example\<close>

text \<open>One login, with thirty-two equal random bytes.\<close>

definition example_rnd :: bytes where
  "example_rnd = replicate 32 0x5a"

definition example_login :: event where
  "example_login = Create ''admin'' 7 example_rnd 1000"

definition example_store :: store where
  "example_store = snd (session_create_with_tag ''admin'' 7 example_rnd 1000 sessions0)"

lemma example_run: "session_run [example_login] example_store"
  using session_run.Step [OF session_run.Start session_step.Create [of sessions0 "''admin''" 7 example_rnd 1000]]
  by (simp add: example_login_def example_store_def)

lemma example_fresh: "fresh [example_login]"
  by (simp add: fresh_def example_login_def)

section \<open>Properties\<close>

text \<open>
  C17. A token that the store accepts belongs to a login. After any sequence of operations, a successful lookup
  returns the user name and the session tag of an earlier login that was given this very token; since then there
  was no logout with the token and no shutdown; the login is at most an hour old, and the token was last accepted,
  or issued, at most fifteen minutes ago.
\<close>

theorem session_lookup_authentic:
  assumes "session_run es ss" "fresh es" "session_lookup (Some tok) now ss = (Some s, ss')"
  shows "\<exists>pre u rnd t0 post. es = pre @ Create u (ipc_session_tag s) rnd t0 # post \<and> tok = hex_encode rnd \<and>
    username s = take 63 u \<and> Destroy (Some tok) \<notin> set post \<and> Destroy_All \<notin> set post \<and> now - t0 \<le> 3600 \<and>
    (\<exists>t. (t = t0 \<or> Lookup (Some tok) t \<in> set post) \<and> now - t \<le> 900)"
proof -
  have inv: "session_inv es ss" using assms session_run_inv by blast
  have l: "length tok = WEBD_TOKEN_LEN" using assms(3) by (auto simp: session_lookup_def split: if_splits)
  obtain i where f: "find_slot (token_matches tok) ss 0 = Some i" and s: "s = (ss ! i)\<lparr>last_used := now\<rparr>"
    and t: "now - created (ss ! i) \<le> 3600" "now - last_used (ss ! i) \<le> 900"
    using assms(3) l by (auto simp: session_lookup_def Let_def WEBD_SESSION_TTL_def WEBD_IDLE_TIMEOUT_def split: option.splits if_splits)
  have i: "ss ! i \<in> set ss" "token_matches tok (ss ! i)" using find_slot0 [OF f] by auto
  then have tok: "token (ss ! i) = tok" using token_matches_iff [OF inv _ l] by simp
  then have "justified es (ss ! i)" using inv i l by (auto simp: session_inv_def WEBD_TOKEN_LEN_def)
  then obtain pre u rnd post where "es = pre @ Create u (ipc_session_tag s) rnd (created (ss ! i)) # post"
    "tok = hex_encode rnd" "username s = take 63 u" "Destroy (Some tok) \<notin> set post" "Destroy_All \<notin> set post"
    "last_used (ss ! i) = created (ss ! i) \<or> Lookup (Some tok) (last_used (ss ! i)) \<in> set post"
    unfolding justified_def tok s by auto
  then show ?thesis using t by blast
qed

theorem session_lookup_authentic_witness:
  "\<exists>s ss' pre u rnd t0 post. session_lookup (Some (hex_encode example_rnd)) 1500 example_store = (Some s, ss') \<and>
     [example_login] = pre @ Create u (ipc_session_tag s) rnd t0 # post \<and> hex_encode example_rnd = hex_encode rnd \<and>
     username s = take 63 u"
proof -
  have "fst (session_lookup (Some (hex_encode example_rnd)) 1500 example_store) \<noteq> None" by code_simp
  then obtain s ss' where l: "session_lookup (Some (hex_encode example_rnd)) 1500 example_store = (Some s, ss')"
    by (metis eq_fst_iff not_None_eq)
  show ?thesis using session_lookup_authentic [OF example_run example_fresh l] l by blast
qed



end
