(* ===== verification/Aho_Corasick.thy ===== *)
theory Aho_Corasick
  imports Prelude
begin

text \<open>
  The multi-pattern matcher of the signature engine (\<open>src/src/userspace/ipsd/ac.c\<close>): a trie
  built pattern by pattern, failure and output links computed breadth-first, the frozen edge
  array with its binary search, and the two scanning loops. This theory holds the definitions;
  \<open>Aho_Corasick_Correct\<close> proves them against a naive matcher.

  Conventions: a node index is a \<open>nat\<close> and the index \<open>-1\<close> of the C code is \<open>None\<close>;
  a growable array is a list, so its element count is its length and its capacity is not
  represented; memory allocation succeeds. A loop that follows links has result type
  \<open>option\<close>, where \<open>None\<close> means that it does not return (or that it would index an array with
  \<open>-1\<close>). A callback \<open>on_match\<close> with its \<open>void *ctx\<close> is a function from the context to the
  stop flag and the new context.
\<close>

section \<open>Data\<close>

record ac_edge =
  e_c :: u8
  e_to :: nat

record ac_node =
  nd_fail :: "nat option"
  nd_out :: "nat option"
  nd_out_link :: "nat option"
  nd_edge_first :: "nat option"
  nd_edge_n :: nat

record ac_automaton =
  ac_nodes :: "ac_node list"
  ac_edges :: "ac_edge list"
  ac_bscratch :: "ac_edge list list"
  ac_nocase :: bool
  ac_built :: bool

type_synonym 'c match_cb = "nat \<Rightarrow> nat \<Rightarrow> 'c \<Rightarrow> bool \<times> 'c"

section \<open>Building the trie\<close>

definition ac_norm :: "bool \<Rightarrow> u8 \<Rightarrow> u8" where
  "ac_norm nocase c = (if nocase \<and> c \<ge> 65 \<and> c \<le> 90 then c + 32 else c)"

definition ac_new_node :: "ac_automaton \<Rightarrow> ac_automaton \<times> nat" where
  "ac_new_node ac =
     (ac\<lparr>ac_nodes := ac_nodes ac @
           [\<lparr>nd_fail = None, nd_out = None, nd_out_link = None, nd_edge_first = None, nd_edge_n = 0\<rparr>],
         ac_bscratch := ac_bscratch ac @ [[]]\<rparr>,
      length (ac_nodes ac))"

definition ac_init :: "bool \<Rightarrow> ac_automaton" where
  "ac_init nocase =
     fst (ac_new_node \<lparr>ac_nodes = [], ac_edges = [], ac_bscratch = [], ac_nocase = nocase,
                       ac_built = False\<rparr>)"

text \<open>The binary search both goto functions run on a byte-sorted edge array.\<close>

function ac_bsearch :: "ac_edge list \<Rightarrow> u8 \<Rightarrow> int \<Rightarrow> int \<Rightarrow> nat option" where
  "ac_bsearch e c lo hi =
     (if lo \<le> hi then
        let mid = (lo + hi) div 2 in
        if e_c (e ! nat mid) = c then Some (e_to (e ! nat mid))
        else if e_c (e ! nat mid) < c then ac_bsearch e c (mid + 1) hi
        else ac_bsearch e c lo (mid - 1)
      else None)"
  by pat_completeness auto
termination
  by (relation "measure (\<lambda>(e, c, lo, hi). nat (hi - lo + 1))") auto

declare ac_bsearch.simps [simp del]

definition bgoto :: "ac_automaton \<Rightarrow> nat \<Rightarrow> u8 \<Rightarrow> nat option" where
  "bgoto ac u c = (let b = ac_bscratch ac ! u in ac_bsearch b c 0 (int (length b) - 1))"

definition bedge_add :: "ac_automaton \<Rightarrow> nat \<Rightarrow> u8 \<Rightarrow> nat \<Rightarrow> ac_automaton" where
  "bedge_add ac u c v =
     (let b = ac_bscratch ac ! u;
          pos = length (takeWhile (\<lambda>e. e_c e < c) b)
      in ac\<lparr>ac_bscratch := (ac_bscratch ac)[u := take pos b @ [\<lparr>e_c = c, e_to = v\<rparr>] @ drop pos b]\<rparr>)"

text \<open>The loop of \<open>ac_add_pattern\<close> over the bytes of the pattern.\<close>

fun ac_add_loop :: "ac_automaton \<Rightarrow> nat \<Rightarrow> bytes \<Rightarrow> ac_automaton \<times> nat" where
  "ac_add_loop ac u [] = (ac, u)"
| "ac_add_loop ac u (p # ps) =
     (let c = ac_norm (ac_nocase ac) p in
      case bgoto ac u c of
        Some v \<Rightarrow> ac_add_loop ac v ps
      | None \<Rightarrow> (let (ac', v) = ac_new_node ac in ac_add_loop (bedge_add ac' u c v) v ps))"

definition set_node :: "ac_automaton \<Rightarrow> nat \<Rightarrow> (ac_node \<Rightarrow> ac_node) \<Rightarrow> ac_automaton" where
  "set_node ac u f = ac\<lparr>ac_nodes := (ac_nodes ac)[u := f (ac_nodes ac ! u)]\<rparr>"

definition ac_add_pattern :: "ac_automaton \<Rightarrow> bytes \<Rightarrow> int \<Rightarrow> ac_automaton option" where
  "ac_add_pattern ac pat pid =
     (if ac_built ac \<or> pat = [] \<or> pid < 0 then None
      else let (ac', u) = ac_add_loop ac 0 pat
           in Some (set_node ac' u (\<lambda>n. n\<lparr>nd_out := Some (nat pid)\<rparr>)))"

section \<open>Failure and output links\<close>

partial_function (option) bgoto_fail :: "ac_automaton \<Rightarrow> nat \<Rightarrow> u8 \<Rightarrow> nat option" where
  "bgoto_fail ac s c =
     (case bgoto ac s c of
        Some nx \<Rightarrow> Some nx
      | None \<Rightarrow>
          if s = 0 then Some 0
          else (case nd_fail (ac_nodes ac ! s) of
                  None \<Rightarrow> None
                | Some f \<Rightarrow> bgoto_fail ac f c))"

text \<open>
  The queue of \<open>ac_build\<close> is an array of \<open>n_nodes\<close> cells written at \<open>tail\<close>; a write past
  its end is \<open>None\<close>.
\<close>

definition queue_push :: "ac_automaton \<Rightarrow> nat list \<Rightarrow> nat \<Rightarrow> nat list option" where
  "queue_push ac queue v = (if length queue < length (ac_nodes ac) then Some (queue @ [v]) else None)"

definition link_out :: "ac_automaton \<Rightarrow> nat \<Rightarrow> nat option" where
  "link_out ac f = (if nd_out (ac_nodes ac ! f) \<noteq> None then Some f else nd_out_link (ac_nodes ac ! f))"

text \<open>Depth 1: the children of the root.\<close>

fun build_root :: "ac_automaton \<Rightarrow> nat list \<Rightarrow> ac_edge list \<Rightarrow> (ac_automaton \<times> nat list) option" where
  "build_root ac queue [] = Some (ac, queue)"
| "build_root ac queue (e # es) =
     (let v = e_to e;
          ac1 = set_node ac v (\<lambda>n. n\<lparr>nd_fail := Some 0\<rparr>);
          ac2 = set_node ac1 v (\<lambda>n. n\<lparr>nd_out_link := link_out ac1 0\<rparr>)
      in case queue_push ac2 queue v of
           None \<Rightarrow> None
         | Some queue' \<Rightarrow> build_root ac2 queue' es)"

text \<open>The inner loop of the breadth-first search: the children of one dequeued node.\<close>

fun build_children ::
  "ac_automaton \<Rightarrow> nat \<Rightarrow> nat list \<Rightarrow> ac_edge list \<Rightarrow> (ac_automaton \<times> nat list) option" where
  "build_children ac f queue [] = Some (ac, queue)"
| "build_children ac f queue (e # es) =
     (let c = e_c e; v = e_to e in
      case bgoto_fail ac f c of
        None \<Rightarrow> None
      | Some vf \<Rightarrow>
          (let ac1 = set_node ac v (\<lambda>n. n\<lparr>nd_fail := Some vf\<rparr>);
               ac2 = set_node ac1 v (\<lambda>n. n\<lparr>nd_out_link := link_out ac1 vf\<rparr>)
           in case queue_push ac2 queue v of
                None \<Rightarrow> None
              | Some queue' \<Rightarrow> build_children ac2 f queue' es))"

partial_function (option) build_bfs :: "ac_automaton \<Rightarrow> nat list \<Rightarrow> nat \<Rightarrow> ac_automaton option" where
  "build_bfs ac queue head =
     (if head < length queue then
        (let u = queue ! head in
         case nd_fail (ac_nodes ac ! u) of
           None \<Rightarrow> None
         | Some f \<Rightarrow>
             (case build_children ac f queue (ac_bscratch ac ! u) of
                None \<Rightarrow> None
              | Some r \<Rightarrow> build_bfs (fst r) (snd r) (Suc head)))
      else Some ac)"

text \<open>Freezing: the edge lists are flattened, each node records where its edges start.\<close>

fun freeze_nodes :: "ac_edge list list \<Rightarrow> nat \<Rightarrow> ac_node list \<Rightarrow> ac_node list" where
  "freeze_nodes (b # bs) off (n # ns) =
     n\<lparr>nd_edge_first := Some off, nd_edge_n := length b\<rparr> # freeze_nodes bs (off + length b) ns"
| "freeze_nodes _ _ _ = []"

definition ac_freeze :: "ac_automaton \<Rightarrow> ac_automaton" where
  "ac_freeze ac =
     ac\<lparr>ac_nodes := freeze_nodes (ac_bscratch ac) 0 (ac_nodes ac),
        ac_edges := concat (ac_bscratch ac), ac_bscratch := [], ac_built := True\<rparr>"

definition ac_build :: "ac_automaton \<Rightarrow> ac_automaton option" where
  "ac_build ac =
     (if ac_built ac then Some ac
      else case build_root ac [] (ac_bscratch ac ! 0) of
             None \<Rightarrow> None
           | Some (ac1, queue) \<Rightarrow> map_option ac_freeze (build_bfs ac1 queue 0))"

section \<open>Scanning\<close>

definition ac_goto :: "ac_automaton \<Rightarrow> nat \<Rightarrow> u8 \<Rightarrow> nat option" where
  "ac_goto ac s c =
     (let n = ac_nodes ac ! s in
      case nd_edge_first n of
        None \<Rightarrow> None
      | Some off \<Rightarrow> ac_bsearch (drop off (ac_edges ac)) c 0 (int (nd_edge_n n) - 1))"

text \<open>The \<open>while\<close> loop over failure links and the assignment to \<open>st\<close> after it.\<close>

partial_function (option) ac_walk :: "ac_automaton \<Rightarrow> nat \<Rightarrow> u8 \<Rightarrow> nat option" where
  "ac_walk ac st c =
     (case ac_goto ac st c of
        Some nx \<Rightarrow> Some nx
      | None \<Rightarrow>
          if st \<noteq> 0 then
            (case nd_fail (ac_nodes ac ! st) of
               None \<Rightarrow> None
             | Some f \<Rightarrow> ac_walk ac f c)
          else Some 0)"

text \<open>The loop along the output links at one position: hit count, stop flag, context.\<close>

partial_function (option) ac_report ::
  "ac_automaton \<Rightarrow> 'c match_cb \<Rightarrow> nat \<Rightarrow> nat option \<Rightarrow> nat \<Rightarrow> 'c \<Rightarrow> (nat \<times> bool \<times> 'c) option" where
  "ac_report ac cb pos t hits ctx =
     (case t of
        None \<Rightarrow> Some (hits, False, ctx)
      | Some n \<Rightarrow>
          (case nd_out (ac_nodes ac ! n) of
             None \<Rightarrow> ac_report ac cb pos (nd_out_link (ac_nodes ac ! n)) hits ctx
           | Some pid \<Rightarrow>
               if fst (cb pid pos ctx) then Some (Suc hits, True, snd (cb pid pos ctx))
               else ac_report ac cb pos (nd_out_link (ac_nodes ac ! n)) (Suc hits)
                      (snd (cb pid pos ctx))))"

text \<open>The loop over the text, from state \<open>st\<close> and stream position \<open>pos\<close>.\<close>

fun ac_scan ::
  "ac_automaton \<Rightarrow> 'c match_cb \<Rightarrow> nat \<Rightarrow> nat \<Rightarrow> bytes \<Rightarrow> nat \<Rightarrow> 'c \<Rightarrow> (nat \<times> nat \<times> bool \<times> 'c) option"
where
  "ac_scan ac cb pos st [] hits ctx = Some (hits, st, False, ctx)"
| "ac_scan ac cb pos st (x # xs) hits ctx =
     (case ac_walk ac st (ac_norm (ac_nocase ac) x) of
        None \<Rightarrow> None
      | Some st' \<Rightarrow>
          (case ac_report ac cb pos (Some st') hits ctx of
             None \<Rightarrow> None
           | Some (hits', stop, ctx') \<Rightarrow>
               if stop then Some (hits', st', True, ctx')
               else ac_scan ac cb (Suc pos) st' xs hits' ctx'))"

definition ac_search :: "ac_automaton \<Rightarrow> bytes \<Rightarrow> 'c match_cb \<Rightarrow> 'c \<Rightarrow> (int \<times> 'c) option" where
  "ac_search ac text cb ctx =
     (if \<not> ac_built ac then Some (-1, ctx)
      else case ac_scan ac cb 0 0 text 0 ctx of
             None \<Rightarrow> None
           | Some (hits, _, _, ctx') \<Rightarrow> Some (int hits, ctx'))"

definition ac_search_stream ::
  "ac_automaton \<Rightarrow> int \<Rightarrow> bytes \<Rightarrow> nat \<Rightarrow> 'c match_cb \<Rightarrow> 'c \<Rightarrow> (int \<times> int \<times> 'c) option" where
  "ac_search_stream ac state text stream_off cb ctx =
     (if \<not> ac_built ac then Some (-1, state, ctx)
      else let st = (if 0 \<le> state \<and> state < int (length (ac_nodes ac)) then nat state else 0)
           in case ac_scan ac cb stream_off st text 0 ctx of
                None \<Rightarrow> None
              | Some (hits, st', _, ctx') \<Rightarrow> Some (int hits, int st', ctx'))"

text \<open>Releasing the arrays and zeroing the structure.\<close>

definition ac_free :: "ac_automaton \<Rightarrow> ac_automaton" where
  "ac_free ac = \<lparr>ac_nodes = [], ac_edges = [], ac_bscratch = [], ac_nocase = False, ac_built = False\<rparr>"

end
