(* ===== verification/Aho_Corasick_Correct.thy ===== *)
theory Aho_Corasick_Correct
  imports Aho_Corasick
begin

text \<open>
  Correctness of the matcher. The trie is related to the words its nodes spell (\<open>L\<close>, the label
  of each node) and to the dictionary of normalised patterns (\<open>D\<close>, pattern to identifier); the
  links are related to longest suffixes; the two scanning loops are shown equal to a naive
  matcher that tests every suffix of the text read so far.
\<close>

section \<open>Specification\<close>

text \<open>The identifiers of the dictionary words that are suffixes of \<open>w\<close>, the longest first.\<close>

fun suffix_hits :: "(bytes \<rightharpoonup> nat) \<Rightarrow> bytes \<Rightarrow> nat list" where
  "suffix_hits D [] = (case D [] of None \<Rightarrow> [] | Some i \<Rightarrow> [i])"
| "suffix_hits D (x # xs) = (case D (x # xs) of None \<Rightarrow> [] | Some i \<Rightarrow> [i]) @ suffix_hits D xs"

text \<open>Every hit while reading \<open>text\<close> after \<open>pre\<close>, with the position of its last byte.\<close>

fun naive_hits :: "(bytes \<rightharpoonup> nat) \<Rightarrow> bytes \<Rightarrow> nat \<Rightarrow> bytes \<Rightarrow> (nat \<times> nat) list" where
  "naive_hits D pre pos [] = []"
| "naive_hits D pre pos (x # xs) =
     map (\<lambda>i. (i, pos)) (suffix_hits D (pre @ [x])) @ naive_hits D (pre @ [x]) (Suc pos) xs"

text \<open>Feeding hits to a callback until it asks to stop: hits delivered, stop flag, context.\<close>

fun feed_hits :: "'c match_cb \<Rightarrow> (nat \<times> nat) list \<Rightarrow> 'c \<Rightarrow> nat \<times> bool \<times> 'c" where
  "feed_hits cb [] ctx = (0, False, ctx)"
| "feed_hits cb (h # hs) ctx =
     (if fst (cb (fst h) (snd h) ctx) then (1, True, snd (cb (fst h) (snd h) ctx))
      else let r = feed_hits cb hs (snd (cb (fst h) (snd h) ctx)) in (Suc (fst r), snd r))"

text \<open>The dictionary of a list of patterns: the last identifier of equal patterns wins.\<close>

definition pattern_dict :: "bool \<Rightarrow> (bytes \<times> nat) list \<Rightarrow> bytes \<rightharpoonup> nat" where
  "pattern_dict nocase pats = map_of (rev (map (\<lambda>(p, i). (map (ac_norm nocase) p, i)) pats))"

text \<open>Adding a list of patterns one after the other, as the clients of the automaton do.\<close>

fun ac_add_all :: "ac_automaton \<Rightarrow> (bytes \<times> nat) list \<Rightarrow> ac_automaton option" where
  "ac_add_all ac [] = Some ac"
| "ac_add_all ac ((p, i) # ps) =
     (case ac_add_pattern ac p (int i) of None \<Rightarrow> None | Some ac' \<Rightarrow> ac_add_all ac' ps)"

text \<open>The trie with its labels and dictionary, before the links are computed.\<close>

definition trie_inv :: "ac_automaton \<Rightarrow> bytes list \<Rightarrow> (bytes \<rightharpoonup> nat) \<Rightarrow> bool" where
  "trie_inv ac L D \<longleftrightarrow>
     length L = length (ac_nodes ac) \<and> length (ac_bscratch ac) = length L \<and>
     L \<noteq> [] \<and> L ! 0 = [] \<and> distinct L \<and>
     (\<forall>u < length L. sorted_wrt (\<lambda>a b. e_c a < e_c b) (ac_bscratch ac ! u)) \<and>
     (\<forall>u < length L. \<forall>e \<in> set (ac_bscratch ac ! u).
        e_to e < length L \<and> L ! e_to e = L ! u @ [e_c e]) \<and>
     (\<forall>v < length L. v \<noteq> 0 \<longrightarrow> (\<exists>u < length L. \<exists>e \<in> set (ac_bscratch ac ! u). e_to e = v)) \<and>
     (\<forall>u < length L. nd_out (ac_nodes ac ! u) = D (L ! u)) \<and>
     dom D \<subseteq> set L \<and> D [] = None"

text \<open>The links of a node: longest proper suffix in the trie, longest proper suffix in \<open>D\<close>.\<close>

definition link_ok :: "ac_automaton \<Rightarrow> bytes list \<Rightarrow> (bytes \<rightharpoonup> nat) \<Rightarrow> nat \<Rightarrow> bool" where
  "link_ok ac L D v \<longleftrightarrow>
     (\<exists>f < length L. nd_fail (ac_nodes ac ! v) = Some f \<and> L ! f = lsuf (set L) (tl (L ! v))) \<and>
     (if lsuf (dom D) (tl (L ! v)) \<in> dom D
      then \<exists>t < length L. nd_out_link (ac_nodes ac ! v) = Some t \<and> L ! t = lsuf (dom D) (tl (L ! v))
      else nd_out_link (ac_nodes ac ! v) = None)"

text \<open>
  The state of the breadth-first search: all children of the nodes \<open>P\<close> and the children of
  \<open>u\<close> along the edges \<open>done\<close> are in the queue, with correct links, in order of depth.
\<close>

definition bfs_inv ::
  "ac_automaton \<Rightarrow> bytes list \<Rightarrow> (bytes \<rightharpoonup> nat) \<Rightarrow> nat set \<Rightarrow> nat \<Rightarrow> ac_edge list \<Rightarrow> nat list \<Rightarrow> bool"
where
  "bfs_inv ac L D P u done queue \<longleftrightarrow>
     trie_inv ac L D \<and> nd_out_link (ac_nodes ac ! 0) = None \<and>
     distinct queue \<and> 0 \<notin> set queue \<and> set queue \<subseteq> {..<length L} \<and>
     (\<forall>v \<in> set queue. link_ok ac L D v) \<and>
     sorted (map (\<lambda>v. length (L ! v)) queue) \<and>
     P \<subseteq> insert 0 (set queue) \<and>
     (\<forall>p \<in> P. \<forall>e \<in> set (ac_bscratch ac ! p). e_to e \<in> set queue) \<and>
     (\<forall>e \<in> set done. e_to e \<in> set queue) \<and>
     (\<forall>v \<in> set queue. (\<exists>p \<in> P. \<exists>e \<in> set (ac_bscratch ac ! p). e_to e = v) \<or>
                       (\<exists>e \<in> set done. e_to e = v)) \<and>
     u < length L \<and> u \<notin> P \<and> set done \<subseteq> set (ac_bscratch ac ! u) \<and>
     (\<forall>p \<in> P. length (L ! p) \<le> length (L ! u))"

text \<open>The finished automaton.\<close>

definition ac_ok :: "ac_automaton \<Rightarrow> bytes list \<Rightarrow> (bytes \<rightharpoonup> nat) \<Rightarrow> bool" where
  "ac_ok ac L D \<longleftrightarrow>
     ac_built ac \<and> length L = length (ac_nodes ac) \<and> L \<noteq> [] \<and> L ! 0 = [] \<and> distinct L \<and>
     prefix_closed (set L) \<and>
     (\<forall>u < length L. \<forall>c v. ac_goto ac u c = Some v \<longleftrightarrow> v < length L \<and> L ! v = L ! u @ [c]) \<and>
     (\<forall>u < length L. nd_out (ac_nodes ac ! u) = D (L ! u)) \<and>
     dom D \<subseteq> set L \<and> D [] = None \<and>
     (\<forall>v < length L. v \<noteq> 0 \<longrightarrow> link_ok ac L D v) \<and> nd_out_link (ac_nodes ac ! 0) = None"

section \<open>Binary search\<close>

lemma ac_bsearch_iff:
  assumes sorted: "\<And>i j. i < j \<Longrightarrow> j < n \<Longrightarrow> e_c (e ! i) < e_c (e ! j)"
    and "0 \<le> lo" "hi < int n"
  shows "ac_bsearch e c lo hi = Some v \<longleftrightarrow>
    (\<exists>i. lo \<le> int i \<and> int i \<le> hi \<and> e_c (e ! i) = c \<and> e_to (e ! i) = v)"
  using assms
proof (induction e c lo hi rule: ac_bsearch.induct)
  case (1 e c lo hi)
  define m where "m = (lo + hi) div 2"
  define k where "k = nat m"
  show ?case
  proof (cases "lo \<le> hi")
    case True
    then have m: "lo \<le> m" "m \<le> hi" "int k = m" using "1.prems" by (auto simp: m_def k_def)
    have k: "k < n" using m "1.prems" by simp
    have less: "e_c (e ! i) < e_c (e ! j) \<longleftrightarrow> i < j" if "i < n" "j < n" for i j
      using "1.prems"(1) [of i j] "1.prems"(1) [of j i] that
      by (cases i j rule: linorder_cases) (simp_all add: order_less_asym)
    have inj: "i = k" if "e_c (e ! i) = e_c (e ! k)" "int i \<le> hi" for i
    proof -
      have "i < n" using that "1.prems"(3) by linarith
      then show ?thesis using that(1) less [of i k] less [of k i] k by (metis linorder_neqE_nat order_less_irrefl)
    qed
    consider "e_c (e ! k) = c" | "e_c (e ! k) < c" | "e_c (e ! k) > c" by force
    then show ?thesis
    proof cases
      case 1
      then have "ac_bsearch e c lo hi = Some (e_to (e ! k))"
        using True by (simp add: ac_bsearch.simps [of e c lo hi] Let_def flip: m_def k_def)
      then show ?thesis using 1 m inj by (metis option.inject)
    next
      case 2
      then have "e_c (e ! k) \<noteq> c" by simp
      then have "ac_bsearch e c lo hi = ac_bsearch e c (m + 1) hi"
        using True 2 by (simp add: ac_bsearch.simps [of e c lo hi] Let_def flip: m_def k_def)
      also have "\<dots> = Some v \<longleftrightarrow>
          (\<exists>i. m + 1 \<le> int i \<and> int i \<le> hi \<and> e_c (e ! i) = c \<and> e_to (e ! i) = v)"
        by (rule "1.IH"(1) [OF True m_def, folded k_def])
           (use 2 m "1.prems" in \<open>auto simp: k_def\<close>)
      also have "\<dots> \<longleftrightarrow> (\<exists>i. lo \<le> int i \<and> int i \<le> hi \<and> e_c (e ! i) = c \<and> e_to (e ! i) = v)"
      proof -
        have "m + 1 \<le> int i" if "int i \<le> hi" "e_c (e ! i) = c" for i
        proof -
          have "i < n" using that(1) "1.prems"(3) by linarith
          then have "k < i" using less [of k i] k 2 that(2) by simp
          then show ?thesis using m(3) by linarith
        qed
        then have "m + 1 \<le> int i \<longleftrightarrow> lo \<le> int i" if "int i \<le> hi" "e_c (e ! i) = c" for i
          using that m(1) by fastforce
        then show ?thesis by blast
      qed
      finally show ?thesis .
    next
      case 3
      then have "e_c (e ! k) \<noteq> c" "\<not> e_c (e ! k) < c" by auto
      then have "ac_bsearch e c lo hi = ac_bsearch e c lo (m - 1)"
        using True by (simp add: ac_bsearch.simps [of e c lo hi] Let_def flip: m_def k_def)
      also have "\<dots> = Some v \<longleftrightarrow>
          (\<exists>i. lo \<le> int i \<and> int i \<le> m - 1 \<and> e_c (e ! i) = c \<and> e_to (e ! i) = v)"
        by (rule "1.IH"(2) [OF True m_def, folded k_def])
           (use 3 m "1.prems" in \<open>auto simp: k_def\<close>)
      also have "\<dots> \<longleftrightarrow> (\<exists>i. lo \<le> int i \<and> int i \<le> hi \<and> e_c (e ! i) = c \<and> e_to (e ! i) = v)"
      proof -
        have "int i \<le> m - 1" if "int i \<le> hi" "e_c (e ! i) = c" for i
        proof -
          have "i < n" using that(1) "1.prems"(3) by linarith
          then have "i < k" using less [of i k] k 3 that(2) by simp
          then show ?thesis using m(3) by linarith
        qed
        then have "int i \<le> m - 1 \<longleftrightarrow> int i \<le> hi" if "e_c (e ! i) = c" for i
          using that m(2) by fastforce
        then show ?thesis by blast
      qed
      finally show ?thesis .
    qed
  next
    case False
    then show ?thesis by (auto simp: ac_bsearch.simps [of e c lo hi])
  qed
qed

lemma ac_bsearch_sorted:
  assumes "sorted_wrt (\<lambda>a b. e_c a < e_c b) b" "\<And>i. i < length b \<Longrightarrow> e ! i = b ! i"
  shows "ac_bsearch e c 0 (int (length b) - 1) = Some v \<longleftrightarrow> (\<exists>x \<in> set b. e_c x = c \<and> e_to x = v)"
proof -
  have "ac_bsearch e c 0 (int (length b) - 1) = Some v \<longleftrightarrow>
      (\<exists>i. 0 \<le> int i \<and> int i \<le> int (length b) - 1 \<and> e_c (e ! i) = c \<and> e_to (e ! i) = v)"
    using assms by (intro ac_bsearch_iff [where n = "length b"]) (auto simp: sorted_wrt_iff_nth_less)
  also have "\<dots> \<longleftrightarrow> (\<exists>i < length b. e_c (b ! i) = c \<and> e_to (b ! i) = v)"
  proof -
    have "0 \<le> int i \<and> int i \<le> int (length b) - 1 \<longleftrightarrow> i < length b" for i by linarith
    then show ?thesis using assms(2) by auto
  qed
  also have "\<dots> \<longleftrightarrow> (\<exists>x \<in> set b. e_c x = c \<and> e_to x = v)"
    by (metis in_set_conv_nth)
  finally show ?thesis .
qed

section \<open>The trie\<close>

lemma trie_invD:
  assumes "trie_inv ac L D"
  shows trie_len: "length (ac_nodes ac) = length L" "length (ac_bscratch ac) = length L"
    and trie_root: "L \<noteq> []" "0 < length L" "L ! 0 = []"
    and trie_distinct: "distinct L"
    and trie_sorted: "u < length L \<Longrightarrow> sorted_wrt (\<lambda>a b. e_c a < e_c b) (ac_bscratch ac ! u)"
    and trie_edge: "u < length L \<Longrightarrow> e \<in> set (ac_bscratch ac ! u) \<Longrightarrow> e_to e < length L"
      "u < length L \<Longrightarrow> e \<in> set (ac_bscratch ac ! u) \<Longrightarrow> L ! e_to e = L ! u @ [e_c e]"
    and trie_parent: "v < length L \<Longrightarrow> v \<noteq> 0 \<Longrightarrow>
      \<exists>u < length L. \<exists>e \<in> set (ac_bscratch ac ! u). e_to e = v"
    and trie_out: "u < length L \<Longrightarrow> nd_out (ac_nodes ac ! u) = D (L ! u)"
    and trie_dom: "dom D \<subseteq> set L" "D [] = None"
  using assms unfolding trie_inv_def by auto

lemma trie_label_inj:
  "trie_inv ac L D \<Longrightarrow> u < length L \<Longrightarrow> v < length L \<Longrightarrow> L ! u = L ! v \<longleftrightarrow> u = v"
  by (simp add: trie_distinct nth_eq_iff_index_eq)

lemma bgoto_iff:
  assumes inv: "trie_inv ac L D" and u: "u < length L"
  shows "bgoto ac u c = Some v \<longleftrightarrow> v < length L \<and> L ! v = L ! u @ [c]"
proof -
  have "bgoto ac u c = Some v \<longleftrightarrow> (\<exists>e \<in> set (ac_bscratch ac ! u). e_c e = c \<and> e_to e = v)"
    unfolding bgoto_def Let_def by (rule ac_bsearch_sorted) (simp_all add: trie_sorted [OF inv u])
  also have "\<dots> \<longleftrightarrow> v < length L \<and> L ! v = L ! u @ [c]"
  proof
    assume v: "v < length L \<and> L ! v = L ! u @ [c]"
    then have "v \<noteq> 0" using trie_root(3) [OF inv] by (metis snoc_eq_iff_butlast)
    then obtain u' e where e: "u' < length L" "e \<in> set (ac_bscratch ac ! u')" "e_to e = v"
      using trie_parent [OF inv] v by blast
    then have "L ! u' @ [e_c e] = L ! u @ [c]" using trie_edge(2) [OF inv] v by metis
    then show "\<exists>e \<in> set (ac_bscratch ac ! u). e_c e = c \<and> e_to e = v"
      using e u trie_label_inj [OF inv] by auto
  qed (use trie_edge [OF inv u] in auto)
  finally show ?thesis .
qed

lemma bgoto_None_iff:
  assumes "trie_inv ac L D" "u < length L"
  shows "bgoto ac u c = None \<longleftrightarrow> L ! u @ [c] \<notin> set L"
proof -
  have "bgoto ac u c = None \<longleftrightarrow> (\<forall>v. bgoto ac u c \<noteq> Some v)" by simp
  then show ?thesis using bgoto_iff [OF assms, of c] by (auto simp: in_set_conv_nth)
qed

lemma trie_prefix_closed:
  assumes inv: "trie_inv ac L D" shows "prefix_closed (set L)"
  unfolding prefix_closed_def
proof (intro allI impI)
  fix w c assume "w @ [c] \<in> set L"
  then obtain v where v: "v < length L" "L ! v = w @ [c]" by (metis in_set_conv_nth)
  then have "v \<noteq> 0" using trie_root(3) [OF inv] by (metis snoc_eq_iff_butlast)
  then obtain u e where "u < length L" "e \<in> set (ac_bscratch ac ! u)" "e_to e = v"
    using trie_parent [OF inv] v by blast
  then show "w \<in> set L" using trie_edge(2) [OF inv] v by (metis butlast_snoc nth_mem)
qed

lemma trie_inv_init: "trie_inv (ac_init nocase) [[]] Map.empty"
  by (simp add: trie_inv_def ac_init_def ac_new_node_def)

lemma sorted_insert_edge:
  assumes "sorted_wrt (\<lambda>a b. e_c a < e_c b) b" "\<forall>e \<in> set b. e_c e \<noteq> c"
  shows "sorted_wrt (\<lambda>a b. e_c a < e_c b)
    (take (length (takeWhile (\<lambda>e. e_c e < c) b)) b @ [\<lparr>e_c = c, e_to = v\<rparr>] @
     drop (length (takeWhile (\<lambda>e. e_c e < c) b)) b)"
  using assms
proof (induction b)
  case (Cons x xs)
  then show ?case by (cases "e_c x < c") (auto dest: set_takeWhileD in_set_takeD in_set_dropD)
qed simp

text \<open>A missing edge is added together with a fresh node at its end.\<close>

lemma trie_inv_extend:
  assumes inv: "trie_inv ac L D" and u: "u < length L" and new: "L ! u @ [c] \<notin> set L"
  shows "trie_inv (bedge_add (fst (ac_new_node ac)) u c (length L)) (L @ [L ! u @ [c]]) D"
proof -
  note len = trie_len [OF inv]
  define b where "b = ac_bscratch ac ! u"
  define b' where "b' = take (length (takeWhile (\<lambda>e. e_c e < c) b)) b @
    [\<lparr>e_c = c, e_to = length L\<rparr>] @ drop (length (takeWhile (\<lambda>e. e_c e < c) b)) b"
  define ac' where "ac' = bedge_add (fst (ac_new_node ac)) u c (length L)"
  have set_b': "set b' = insert \<lparr>e_c = c, e_to = length L\<rparr> (set b)"
    by (auto simp: b'_def dest: in_set_takeD in_set_dropD) (metis UnE append_take_drop_id set_append)
  have "\<forall>e \<in> set b. e_c e \<noteq> c"
    using trie_edge [OF inv u] new unfolding b_def by (metis nth_mem)
  then have srt: "sorted_wrt (\<lambda>a b. e_c a < e_c b) b'"
    unfolding b'_def b_def using trie_sorted [OF inv u] by (intro sorted_insert_edge)
  have bs: "ac_bscratch ac' = (ac_bscratch ac @ [[]])[u := b']"
    using u len by (simp add: ac'_def bedge_add_def ac_new_node_def Let_def b'_def b_def nth_append)
  have bs_nth: "ac_bscratch ac' ! w = (if w = u then b' else if w = length L then [] else ac_bscratch ac ! w)"
    if "w < Suc (length L)" for w
    using that u len by (auto simp: bs nth_append nth_list_update)
  have nds: "ac_nodes ac' ! w = ac_nodes ac ! w" if "w < length L" for w
    using that len by (simp add: ac'_def bedge_add_def ac_new_node_def Let_def nth_append)
  have lens: "length (ac_nodes ac') = Suc (length L)" "length (ac_bscratch ac') = Suc (length L)"
    using len by (simp_all add: ac'_def bedge_add_def ac_new_node_def Let_def)
  have fresh: "nd_out (ac_nodes ac' ! length L) = None"
    using len by (simp add: ac'_def bedge_add_def ac_new_node_def Let_def nth_append)
  have none: "D (L ! u @ [c]) = None" using trie_dom [OF inv] new by auto
  have par: "\<exists>p < Suc (length L). \<exists>e \<in> set (ac_bscratch ac' ! p). e_to e = v"
    if v: "v < Suc (length L)" "v \<noteq> 0" for v
  proof (cases "v = length L")
    case True
    then show ?thesis using u bs_nth [of u] set_b' by (intro exI [of _ u]) auto
  next
    case False
    then obtain p e where "p < length L" "e \<in> set (ac_bscratch ac ! p)" "e_to e = v"
      using trie_parent [OF inv, of v] v by (metis less_SucE)
    then show ?thesis using bs_nth [of p] set_b' b_def by (intro exI [of _ p]) auto
  qed
  have "trie_inv ac' (L @ [L ! u @ [c]]) D"
    unfolding trie_inv_def
    using par trie_root [OF inv] trie_distinct [OF inv] trie_dom [OF inv] new u fresh
      none trie_sorted [OF inv] trie_edge [OF inv] trie_out [OF inv]
    by (auto simp: lens bs_nth nds nth_append less_Suc_eq srt set_b' b_def)
  then show ?thesis by (simp add: ac'_def)
qed


lemma ac_add_loop_frame [simp]:
  "ac_nocase (fst (ac_add_loop ac u ps)) = ac_nocase ac"
  "ac_built (fst (ac_add_loop ac u ps)) = ac_built ac"
  by (induction ac u ps rule: ac_add_loop.induct)
     (auto simp: Let_def bedge_add_def ac_new_node_def split: option.split)

lemma ac_add_loop_trie:
  assumes "trie_inv ac L D" "u < length L"
  shows "\<exists>L'. trie_inv (fst (ac_add_loop ac u ps)) L' D \<and> snd (ac_add_loop ac u ps) < length L' \<and>
    L' ! snd (ac_add_loop ac u ps) = L ! u @ map (ac_norm (ac_nocase ac)) ps"
  using assms
proof (induction ps arbitrary: ac u L)
  case Nil
  then show ?case by auto
next
  case (Cons p ps)
  define c where "c = ac_norm (ac_nocase ac) p"
  show ?case
  proof (cases "bgoto ac u c")
    case (Some v)
    then have "v < length L" "L ! v = L ! u @ [c]" using bgoto_iff [OF Cons.prems] by auto
    then show ?thesis using Cons.IH [OF Cons.prems(1), of v] Some by (simp add: Let_def flip: c_def)
  next
    case None
    define ac' where "ac' = bedge_add (fst (ac_new_node ac)) u c (length L)"
    have "trie_inv ac' (L @ [L ! u @ [c]]) D"
      unfolding ac'_def using trie_inv_extend Cons.prems None bgoto_None_iff by blast
    moreover have "ac_nocase ac' = ac_nocase ac"
      by (simp add: ac'_def bedge_add_def ac_new_node_def Let_def)
    moreover have "ac_add_loop ac u (p # ps) = ac_add_loop ac' (length L) ps"
      using None trie_len(1) [OF Cons.prems(1)]
      by (simp add: Let_def ac'_def ac_new_node_def flip: c_def)
    ultimately show ?thesis
      using Cons.IH [of ac' "L @ [L ! u @ [c]]" "length L"] by (simp add: nth_append c_def)
  qed
qed

lemma trie_inv_cong:
  assumes "trie_inv ac L D" "length (ac_nodes ac') = length (ac_nodes ac)"
    "ac_bscratch ac' = ac_bscratch ac" "\<And>u. u < length L \<Longrightarrow> nd_out (ac_nodes ac' ! u) = D' (L ! u)"
    "dom D' \<subseteq> set L" "D' [] = None"
  shows "trie_inv ac' L D'"
  using assms unfolding trie_inv_def by metis

lemma ac_add_pattern_eq:
  "ac_add_pattern ac pat pid =
     (if ac_built ac \<or> pat = [] \<or> pid < 0 then None
      else Some (set_node (fst (ac_add_loop ac 0 pat)) (snd (ac_add_loop ac 0 pat))
                   (\<lambda>n. n\<lparr>nd_out := Some (nat pid)\<rparr>)))"
  by (simp add: ac_add_pattern_def split: prod.split)

lemma ac_add_pattern_trie:
  assumes inv: "trie_inv ac L D" and add: "ac_add_pattern ac pat pid = Some ac'"
  shows "\<exists>L'. trie_inv ac' L' (D(map (ac_norm (ac_nocase ac)) pat \<mapsto> nat pid))"
proof -
  define r where "r = ac_add_loop ac 0 pat"
  define w where "w = map (ac_norm (ac_nocase ac)) pat"
  obtain L' where L': "trie_inv (fst r) L' D" "snd r < length L'" "L' ! snd r = w"
    using ac_add_loop_trie [OF inv trie_root(2) [OF inv], of pat] trie_root(3) [OF inv]
    by (auto simp: r_def w_def)
  have "w \<noteq> []" using add by (auto simp: ac_add_pattern_def w_def split: if_splits)
  have ac': "ac' = set_node (fst r) (snd r) (\<lambda>n. n\<lparr>nd_out := Some (nat pid)\<rparr>)"
    using add by (simp add: ac_add_pattern_eq r_def split: if_splits)
  have out: "nd_out (ac_nodes ac' ! u) = (D(w \<mapsto> nat pid)) (L' ! u)" if "u < length L'" for u
    using that L' trie_len(1) [OF L'(1)] trie_out [OF L'(1)] trie_label_inj [OF L'(1)]
    by (auto simp: ac' set_node_def nth_list_update)
  have "trie_inv ac' L' (D(w \<mapsto> nat pid))"
  proof (rule trie_inv_cong [OF L'(1) _ _ out])
    show "dom (D(w \<mapsto> nat pid)) \<subseteq> set L'"
      using trie_dom(1) [OF L'(1)] nth_mem [OF L'(2)] L'(3) by simp
    show "(D(w \<mapsto> nat pid)) [] = None" using trie_dom(2) [OF L'(1)] \<open>w \<noteq> []\<close> by simp
  qed (simp_all add: ac' set_node_def)
  then show ?thesis unfolding w_def by blast
qed

lemma ac_add_pattern_frame:
  "ac_add_pattern ac pat pid = Some ac' \<Longrightarrow> ac_nocase ac' = ac_nocase ac \<and> \<not> ac_built ac'"
  by (auto simp: ac_add_pattern_eq set_node_def split: if_splits)

lemma map_add_pattern_dict_Cons:
  "D ++ pattern_dict nocase ((p, i) # ps) = D(map (ac_norm nocase) p \<mapsto> i) ++ pattern_dict nocase ps"
  by (rule ext) (simp add: pattern_dict_def map_add_def fun_upd_def split: option.split)

lemma ac_add_all_trie:
  assumes "trie_inv ac L D" "ac_add_all ac pats = Some ac'"
  shows "\<exists>L'. trie_inv ac' L' (D ++ pattern_dict (ac_nocase ac) pats)"
  using assms
proof (induction ac pats arbitrary: L D rule: ac_add_all.induct)
  case (1 ac)
  then show ?case by (auto simp: pattern_dict_def)
next
  case (2 ac p i ps)
  obtain ac1 where ac1: "ac_add_pattern ac p (int i) = Some ac1" "ac_add_all ac1 ps = Some ac'"
    using "2.prems"(2) by (auto split: option.splits)
  obtain L1 where L1: "trie_inv ac1 L1 (D(map (ac_norm (ac_nocase ac)) p \<mapsto> i))"
    using ac_add_pattern_trie [OF "2.prems"(1) ac1(1)] by auto
  have "ac_nocase ac1 = ac_nocase ac" using ac_add_pattern_frame [OF ac1(1)] by simp
  then show ?case
    using "2.IH" [OF ac1(1) L1 ac1(2)] by (simp only: map_add_pattern_dict_Cons)
qed

lemma ac_add_all_frame:
  "ac_add_all ac pats = Some ac' \<Longrightarrow> \<not> ac_built ac \<Longrightarrow> ac_nocase ac' = ac_nocase ac \<and> \<not> ac_built ac'"
  by (induction ac pats rule: ac_add_all.induct)
     (auto split: option.splits dest: ac_add_pattern_frame)

text \<open>Adding succeeds for non-empty patterns: the only error is an argument the C code rejects.\<close>

lemma ac_add_all_Some:
  "\<not> ac_built ac \<Longrightarrow> \<forall>(p, i) \<in> set pats. p \<noteq> [] \<Longrightarrow> \<exists>ac'. ac_add_all ac pats = Some ac'"
proof (induction ac pats rule: ac_add_all.induct)
  case (2 ac p i ps)
  then obtain ac1 where "ac_add_pattern ac p (int i) = Some ac1"
    by (auto simp: ac_add_pattern_eq)
  then show ?case using 2 by (auto dest: ac_add_pattern_frame)
qed simp


section \<open>Failure and output links\<close>

lemma lsuf_subset: "D \<subseteq> S \<Longrightarrow> lsuf D (lsuf S w) = lsuf D w"
  by (induction w) auto

lemma lsuf_unfold: "lsuf D w = (if w \<in> D then w else lsuf D (tl w))"
  by (cases w) auto

text \<open>
  Both link-following loops (\<open>bgoto_fail\<close> while the links are built, the \<open>while\<close> loop of the
  scan) satisfy the same recursion; they reach the longest suffix that the trie spells.
\<close>

lemma follow_links:
  assumes F: "\<And>s. F s = (case g s of Some nx \<Rightarrow> Some nx
      | None \<Rightarrow> if s = 0 then Some 0 else (case fail s of None \<Rightarrow> None | Some f \<Rightarrow> F f))"
    and g: "\<And>u v. u < length L \<Longrightarrow> g u = Some v \<longleftrightarrow> v < length L \<and> L ! v = L ! u @ [c]"
    and fail: "\<And>u. u < length L \<Longrightarrow> u \<noteq> 0 \<Longrightarrow> length (L ! u) \<le> k \<Longrightarrow>
        \<exists>f < length L. fail u = Some f \<and> L ! f = lsuf (set L) (tl (L ! u))"
    and root: "0 < length L" "L ! 0 = []" and dist: "distinct L" and pc: "prefix_closed (set L)"
    and s: "s < length L" "length (L ! s) \<le> k"
  shows "\<exists>t < length L. F s = Some t \<and> L ! t = lsuf (set L) (L ! s @ [c])"
  using s
proof (induction "length (L ! s)" arbitrary: s rule: less_induct)
  case less
  show ?case
  proof (cases "g s")
    case (Some nx)
    then have nx: "nx < length L" "L ! nx = L ! s @ [c]" using g [OF less.prems(1)] by auto
    then have "lsuf (set L) (L ! s @ [c]) = L ! nx" using nth_mem by fastforce
    then show ?thesis using F [of s] Some nx by (intro exI [of _ nx]) simp
  next
    case None
    then have notin: "L ! s @ [c] \<notin> set L" using g [OF less.prems(1)] by (metis in_set_conv_nth option.distinct(1))
    show ?thesis
    proof (cases "s = 0")
      case True
      then show ?thesis using F [of s] None notin root by (intro exI [of _ 0]) auto
    next
      case False
      then have "L ! s \<noteq> []" using less.prems(1) root dist nth_eq_iff_index_eq by metis
      then obtain x xs where xs: "L ! s = x # xs" by (cases "L ! s") auto
      obtain f where f: "f < length L" "fail s = Some f" "L ! f = lsuf (set L) xs"
        using fail [OF less.prems(1) False less.prems(2)] xs by auto
      have "length (L ! f) < length (L ! s)" using lsuf_length [of "set L" xs] f xs by simp
      then obtain t where "t < length L" "F f = Some t" "L ! t = lsuf (set L) (L ! f @ [c])"
        using less.hyps f less.prems(2) by (meson le_trans less_imp_le_nat)
      then show ?thesis
        using F [of s] None False f xs notin lsuf_fail_step [OF pc, of x xs c] by auto
    qed
  qed
qed

lemma bgoto_fail_link:
  assumes inv: "trie_inv ac L D" and s: "s < length L"
    and links: "\<And>u. u < length L \<Longrightarrow> u \<noteq> 0 \<Longrightarrow> length (L ! u) \<le> length (L ! s) \<Longrightarrow> link_ok ac L D u"
  shows "\<exists>t < length L. bgoto_fail ac s c = Some t \<and> L ! t = lsuf (set L) (L ! s @ [c])"
proof (rule follow_links [where g = "\<lambda>u. bgoto ac u c" and fail = "\<lambda>u. nd_fail (ac_nodes ac ! u)"])
  show "bgoto_fail ac s c = (case bgoto ac s c of Some nx \<Rightarrow> Some nx
      | None \<Rightarrow> if s = 0 then Some 0 else (case nd_fail (ac_nodes ac ! s) of None \<Rightarrow> None
          | Some f \<Rightarrow> bgoto_fail ac f c))" for s
    by (subst bgoto_fail.simps) (auto split: option.split)
  show "\<exists>f < length L. nd_fail (ac_nodes ac ! u) = Some f \<and> L ! f = lsuf (set L) (tl (L ! u))"
    if "u < length L" "u \<noteq> 0" "length (L ! u) \<le> length (L ! s)" for u
    using links [OF that] unfolding link_ok_def by blast
qed (use s trie_root [OF inv] trie_distinct [OF inv] trie_prefix_closed [OF inv] bgoto_iff [OF inv]
     in auto)

text \<open>Setting the two links of a node, as both breadth-first loops do.\<close>

definition set_links :: "ac_automaton \<Rightarrow> nat \<Rightarrow> nat \<Rightarrow> ac_automaton" where
  "set_links ac v vf =
     (let ac1 = set_node ac v (\<lambda>n. n\<lparr>nd_fail := Some vf\<rparr>)
      in set_node ac1 v (\<lambda>n. n\<lparr>nd_out_link := link_out ac1 vf\<rparr>))"

lemma set_links_nodes:
  assumes "v < length (ac_nodes ac)"
  shows "ac_nodes (set_links ac v vf) ! u =
    (if u = v then (ac_nodes ac ! u)\<lparr>nd_fail := Some vf, nd_out_link := link_out ac vf\<rparr>
     else ac_nodes ac ! u)"
    "length (ac_nodes (set_links ac v vf)) = length (ac_nodes ac)"
    "ac_bscratch (set_links ac v vf) = ac_bscratch ac"
    "ac_nocase (set_links ac v vf) = ac_nocase ac"
proof -
  have "link_out (set_node ac v (\<lambda>n. n\<lparr>nd_fail := Some vf\<rparr>)) vf = link_out ac vf"
    using assms by (cases "v = vf") (simp_all add: link_out_def set_node_def)
  then show "ac_nodes (set_links ac v vf) ! u =
    (if u = v then (ac_nodes ac ! u)\<lparr>nd_fail := Some vf, nd_out_link := link_out ac vf\<rparr>
     else ac_nodes ac ! u)"
    using assms by (simp add: set_links_def set_node_def Let_def)
qed (simp_all add: set_links_def set_node_def Let_def)

lemma link_ok_cong:
  "ac_nodes ac' ! v = ac_nodes ac ! v \<Longrightarrow> link_ok ac' L D v = link_ok ac L D v"
  by (simp add: link_ok_def)

lemma link_ok_set_links:
  assumes inv: "trie_inv ac L D" and root: "nd_out_link (ac_nodes ac ! 0) = None"
    and v: "v < length L" and vf: "vf < length L" "L ! vf = lsuf (set L) (tl (L ! v))"
    and ok: "vf \<noteq> 0 \<Longrightarrow> link_ok ac L D vf"
  shows "link_ok (set_links ac v vf) L D v"
proof -
  define w where "w = tl (L ! v)"
  have lw: "lsuf (dom D) w = lsuf (dom D) (L ! vf)"
    using lsuf_subset [OF trie_dom(1) [OF inv]] vf(2) by (simp add: w_def)
  have out: "nd_out (ac_nodes ac ! vf) = D (L ! vf)" using trie_out [OF inv vf(1)] .
  have *: "if lsuf (dom D) w \<in> dom D
      then \<exists>t < length L. link_out ac vf = Some t \<and> L ! t = lsuf (dom D) w
      else link_out ac vf = None"
  proof (cases "L ! vf \<in> dom D")
    case True
    then show ?thesis using lw out vf(1) by (auto simp: link_out_def)
  next
    case False
    then have lw': "lsuf (dom D) w = lsuf (dom D) (tl (L ! vf))" using lw lsuf_unfold by metis
    have lo: "link_out ac vf = nd_out_link (ac_nodes ac ! vf)" using False out by (auto simp: link_out_def)
    show ?thesis
    proof (cases "vf = 0")
      case True
      then show ?thesis using lw' lo root trie_root(3) [OF inv] trie_dom(2) [OF inv] by auto
    next
      case False
      then show ?thesis using ok lw' lo by (simp add: link_ok_def)
    qed
  qed
  have "ac_nodes (set_links ac v vf) ! v =
      (ac_nodes ac ! v)\<lparr>nd_fail := Some vf, nd_out_link := link_out ac vf\<rparr>"
    using set_links_nodes(1) [of v ac] v trie_len(1) [OF inv] by simp
  then show ?thesis using * [unfolded w_def] vf by (simp add: link_ok_def)
qed


lemma bfs_invD:
  assumes "bfs_inv ac L D P u done queue"
  shows bfs_trie: "trie_inv ac L D" and bfs_root: "nd_out_link (ac_nodes ac ! 0) = None"
    and bfs_queue: "distinct queue" "0 \<notin> set queue" "set queue \<subseteq> {..<length L}"
      "sorted (map (\<lambda>v. length (L ! v)) queue)"
    and bfs_links: "v \<in> set queue \<Longrightarrow> link_ok ac L D v"
    and bfs_P: "P \<subseteq> insert 0 (set queue)" "p \<in> P \<Longrightarrow> e \<in> set (ac_bscratch ac ! p) \<Longrightarrow> e_to e \<in> set queue"
      "p \<in> P \<Longrightarrow> length (L ! p) \<le> length (L ! u)"
    and bfs_done: "e \<in> set done \<Longrightarrow> e_to e \<in> set queue" "set done \<subseteq> set (ac_bscratch ac ! u)"
    and bfs_origin: "v \<in> set queue \<Longrightarrow> (\<exists>p \<in> P. \<exists>e \<in> set (ac_bscratch ac ! p). e_to e = v) \<or>
        (\<exists>e \<in> set done. e_to e = v)"
    and bfs_u: "u < length L" "u \<notin> P"
  using assms unfolding bfs_inv_def by auto

text \<open>A child of \<open>u\<close> not yet queued is fresh and at most one level below everything queued.\<close>

lemma bfs_child_fresh:
  assumes inv: "bfs_inv ac L D P u done queue"
    and e: "e \<in> set (ac_bscratch ac ! u)" "e \<notin> set done"
  shows "e_to e \<notin> set queue"
proof
  note t = bfs_trie [OF inv]
  assume "e_to e \<in> set queue"
  then consider p e' where "p \<in> P" "e' \<in> set (ac_bscratch ac ! p)" "e_to e' = e_to e"
    | e' where "e' \<in> set done" "e_to e' = e_to e" using bfs_origin [OF inv] by blast
  then show False
  proof cases
    case 1
    then have p: "p < length L" using bfs_P(1) [OF inv] bfs_queue(3) [OF inv] trie_root(2) [OF t] by auto
    have "L ! p = L ! u"
      using trie_edge(2) [OF t p 1(2)] trie_edge(2) [OF t bfs_u(1) [OF inv] e(1)] 1(3) by simp
    then show False using trie_label_inj [OF t p bfs_u(1) [OF inv]] 1(1) bfs_u(2) [OF inv] by simp
  next
    case 2
    then have "e' \<in> set (ac_bscratch ac ! u)" using bfs_done(2) [OF inv] by auto
    then have "e_c e' = e_c e"
      using trie_edge(2) [OF t bfs_u(1) [OF inv]] e(1) 2(2) by (metis last_snoc)
    then show False using 2 e(2) by (metis ac_edge.equality old.unit.exhaust)
  qed
qed

lemma bfs_depth:
  assumes inv: "bfs_inv ac L D P u done queue" and v: "v \<in> set queue"
  shows "length (L ! v) \<le> Suc (length (L ! u))"
proof -
  note t = bfs_trie [OF inv]
  consider p e where "p \<in> P" "e \<in> set (ac_bscratch ac ! p)" "e_to e = v"
    | e where "e \<in> set done" "e_to e = v" using bfs_origin [OF inv v] by blast
  then show ?thesis
  proof cases
    case 1
    then have "p < length L" using bfs_P(1) [OF inv] bfs_queue(3) [OF inv] trie_root(2) [OF t] by auto
    then have "L ! v = L ! p @ [e_c e]" using trie_edge(2) [OF t _ 1(2)] 1(3) by simp
    then show ?thesis using bfs_P(3) [OF inv 1(1)] by simp
  next
    case 2
    then have "e \<in> set (ac_bscratch ac ! u)" using bfs_done(2) [OF inv] by auto
    then have "L ! v = L ! u @ [e_c e]" using trie_edge(2) [OF t bfs_u(1) [OF inv]] 2(2) by blast
    then show ?thesis by simp
  qed
qed

text \<open>One iteration of either loop: the links of the child are set and the child is queued.\<close>

lemma bfs_push:
  assumes inv: "bfs_inv ac L D P u done queue"
    and e: "e \<in> set (ac_bscratch ac ! u)" "e \<notin> set done"
    and vf: "vf < length L" "L ! vf = lsuf (set L) (tl (L ! u @ [e_c e]))"
    and ok: "vf \<noteq> 0 \<Longrightarrow> link_ok ac L D vf"
  shows "bfs_inv (set_links ac (e_to e) vf) L D P u (done @ [e]) (queue @ [e_to e])"
    and "queue_push (set_links ac (e_to e) vf) queue (e_to e) = Some (queue @ [e_to e])"
proof -
  note t = bfs_trie [OF inv]
  define v where "v = e_to e"
  have v: "v < length L" "L ! v = L ! u @ [e_c e]"
    using trie_edge [OF t bfs_u(1) [OF inv] e(1)] by (simp_all add: v_def)
  have v0: "v \<noteq> 0" using v(2) trie_root(3) [OF t] by (metis snoc_eq_iff_butlast)
  have fresh: "v \<notin> set queue" using bfs_child_fresh [OF inv e] by (simp add: v_def)
  have vn: "v < length (ac_nodes ac)" using v(1) trie_len(1) [OF t] by simp
  note nds = set_links_nodes [OF vn, of vf]
  have t': "trie_inv (set_links ac v vf) L D"
    by (rule trie_inv_cong [OF t]) (use nds trie_out [OF t] trie_dom [OF t] in auto)
  have vf': "L ! vf = lsuf (set L) (tl (L ! v))" using vf(2) v(2) by simp
  have "link_ok (set_links ac v vf) L D v"
    by (rule link_ok_set_links [OF t bfs_root [OF inv] v(1) vf(1) vf' ok])
  moreover have "link_ok (set_links ac v vf) L D x" if "x \<in> set queue" for x
    using bfs_links [OF inv that] fresh that nds(1) [of x] by (subst link_ok_cong [of _ _ ac]) auto
  moreover have "sorted (map (\<lambda>x. length (L ! x)) (queue @ [v]))"
    using bfs_queue(4) [OF inv] bfs_depth [OF inv] v(2) by (auto simp: sorted_append)
  ultimately show "bfs_inv (set_links ac (e_to e) vf) L D P u (done @ [e]) (queue @ [e_to e])"
    using inv t' fresh v v0 nds(1-3) e(1) unfolding bfs_inv_def v_def [symmetric]
    by (auto simp flip: v_def)
  have "card (set (queue @ [v])) \<le> card {..<length L}"
    using bfs_queue [OF inv] v(1) v0 by (intro card_mono) auto
  then have "length queue < length L"
    using bfs_queue(1) [OF inv] fresh by (auto simp: distinct_card)
  then show "queue_push (set_links ac (e_to e) vf) queue (e_to e) = Some (queue @ [e_to e])"
    using nds(2) trie_len(1) [OF t] by (simp add: queue_push_def v_def)
qed


lemma build_root_bfs:
  assumes "bfs_inv ac L D {} 0 done queue" "ac_bscratch ac ! 0 = done @ es"
  shows "\<exists>ac' queue'. build_root ac queue es = Some (ac', queue') \<and>
    bfs_inv ac' L D {} 0 (done @ es) queue' \<and> ac_bscratch ac' = ac_bscratch ac \<and>
    ac_nocase ac' = ac_nocase ac"
  using assms
proof (induction es arbitrary: ac "done" queue)
  case (Cons e es)
  note inv = Cons.prems(1) and t = bfs_trie [OF Cons.prems(1)]
  define ac2 where "ac2 = set_links ac (e_to e) 0"
  have "distinct (done @ e # es)"
    using trie_sorted [OF t trie_root(2) [OF t]] Cons.prems(2)
    by (metis distinct_map sorted_wrt_map strict_sorted_iff)
  then have e: "e \<in> set (ac_bscratch ac ! 0)" "e \<notin> set done" using Cons.prems(2) by auto
  have vn: "e_to e < length (ac_nodes ac)"
    using trie_edge(1) [OF t bfs_u(1) [OF inv] e(1)] trie_len(1) [OF t] by simp
  have lab: "L ! 0 = lsuf (set L) (tl (L ! 0 @ [e_c e]))" using trie_root(3) [OF t] by simp
  note push = bfs_push [OF inv e trie_root(2) [OF t] lab, simplified, folded ac2_def]
  note nds = set_links_nodes [OF vn, of 0, folded ac2_def]
  have "build_root ac queue (e # es) = build_root ac2 (queue @ [e_to e]) es"
    using push(2) by (simp add: ac2_def set_links_def Let_def)
  then show ?case using Cons.IH [OF push(1)] Cons.prems(2) nds by simp
qed auto

lemma build_children_bfs:
  assumes "bfs_inv ac L D P u done queue" "ac_bscratch ac ! u = done @ es"
    "f < length L" "L ! f = lsuf (set L) (tl (L ! u))" "L ! u \<noteq> []"
    "\<And>x. x < length L \<Longrightarrow> x \<noteq> 0 \<Longrightarrow> length (L ! x) \<le> length (L ! u) \<Longrightarrow> link_ok ac L D x"
  shows "\<exists>ac' queue' new. build_children ac f queue es = Some (ac', queue') \<and>
    bfs_inv ac' L D P u (done @ es) queue' \<and> ac_bscratch ac' = ac_bscratch ac \<and>
    ac_nocase ac' = ac_nocase ac \<and> queue' = queue @ new"
  using assms
proof (induction es arbitrary: ac "done" queue)
  case (Cons e es)
  note inv = Cons.prems(1) and t = bfs_trie [OF Cons.prems(1)]
  obtain x xs where xs: "L ! u = x # xs" using Cons.prems(5) by (cases "L ! u") auto
  have lenf: "length (L ! f) < length (L ! u)"
    using Cons.prems(4) xs lsuf_length [of "set L" xs] by simp
  obtain vf where vf: "vf < length L" "bgoto_fail ac f (e_c e) = Some vf"
      "L ! vf = lsuf (set L) (L ! f @ [e_c e])"
    using bgoto_fail_link [OF t Cons.prems(3), of "e_c e"] Cons.prems(6) lenf by (meson le_trans less_imp_le_nat)
  have lab: "L ! vf = lsuf (set L) (tl (L ! u @ [e_c e]))"
    using vf(3) Cons.prems(4) xs lsuf_snoc [OF trie_prefix_closed [OF t], of xs "e_c e"] by simp
  have "length (L ! vf) \<le> length (L ! u)"
    unfolding lab using lsuf_length [of "set L" "tl (L ! u @ [e_c e])"] xs by simp
  then have okf: "vf \<noteq> 0 \<Longrightarrow> link_ok ac L D vf" using Cons.prems(6) vf(1) by blast
  define ac2 where "ac2 = set_links ac (e_to e) vf"
  have "distinct (done @ e # es)"
    using trie_sorted [OF t bfs_u(1) [OF inv]] Cons.prems(2)
    by (metis distinct_map sorted_wrt_map strict_sorted_iff)
  then have e: "e \<in> set (ac_bscratch ac ! u)" "e \<notin> set done" using Cons.prems(2) by auto
  have v: "e_to e < length L" "L ! e_to e = L ! u @ [e_c e]"
    using trie_edge [OF t bfs_u(1) [OF inv] e(1)] by auto
  then have vn: "e_to e < length (ac_nodes ac)" using trie_len(1) [OF t] by simp
  note push = bfs_push [OF inv e vf(1) lab okf, folded ac2_def]
  note nds = set_links_nodes [OF vn, of vf, folded ac2_def]
  have links: "link_ok ac2 L D y"
    if "y < length L" "y \<noteq> 0" "length (L ! y) \<le> length (L ! u)" for y
    using Cons.prems(6) [OF that] that v(2) nds(1) [of y] by (subst link_ok_cong [of _ _ ac]) auto
  have "build_children ac f queue (e # es) = build_children ac2 f (queue @ [e_to e]) es"
    using push(2) vf(2) by (simp add: ac2_def set_links_def Let_def)
  then show ?case
    using Cons.IH [OF push(1) _ Cons.prems(3-5) links] Cons.prems(2) nds by simp blast
qed auto


text \<open>The root loop starts from a trie without links.\<close>

lemma bfs_inv_start:
  assumes "trie_inv ac L D" "nd_out_link (ac_nodes ac ! 0) = None"
  shows "bfs_inv ac L D {} 0 [] []"
  using assms trie_root(2) [OF assms(1)] by (simp add: bfs_inv_def)

text \<open>
  With \<open>head\<close> nodes dequeued, everything at most as deep as the next node has been queued.
\<close>

definition bfs_at :: "ac_automaton \<Rightarrow> bytes list \<Rightarrow> (bytes \<rightharpoonup> nat) \<Rightarrow> nat list \<Rightarrow> nat \<Rightarrow> bool" where
  "bfs_at ac L D queue head \<longleftrightarrow>
     head \<le> length queue \<and> trie_inv ac L D \<and> nd_out_link (ac_nodes ac ! 0) = None \<and>
     distinct queue \<and> 0 \<notin> set queue \<and> set queue \<subseteq> {..<length L} \<and>
     (\<forall>v \<in> set queue. link_ok ac L D v) \<and> sorted (map (\<lambda>v. length (L ! v)) queue) \<and>
     (\<forall>p \<in> insert 0 (set (take head queue)). \<forall>e \<in> set (ac_bscratch ac ! p). e_to e \<in> set queue) \<and>
     (\<forall>v \<in> set queue. \<exists>p \<in> insert 0 (set (take head queue)). \<exists>e \<in> set (ac_bscratch ac ! p). e_to e = v)"

lemma bfs_level_complete:
  assumes at: "bfs_at ac L D queue head"
    and v: "v < length L" "v \<noteq> 0"
    and k: "head < length queue \<Longrightarrow> length (L ! v) \<le> length (L ! (queue ! head))"
  shows "v \<in> set queue"
  using v k
proof (induction "length (L ! v)" arbitrary: v rule: less_induct)
  case less
  have t: "trie_inv ac L D" using at by (simp add: bfs_at_def)
  obtain p e where p: "p < length L" "e \<in> set (ac_bscratch ac ! p)" "e_to e = v"
    using trie_parent [OF t less.prems(1,2)] by blast
  then have lv: "L ! v = L ! p @ [e_c e]" using trie_edge(2) [OF t] by auto
  have "p \<in> insert 0 (set (take head queue))"
  proof (cases "p = 0")
    case False
    have "head < length queue \<Longrightarrow> length (L ! p) \<le> length (L ! (queue ! head))"
      using less.prems(3) lv by simp
    then have "p \<in> set queue" using less.hyps [of p] lv p(1) False by simp
    then obtain j where j: "j < length queue" "queue ! j = p" by (metis in_set_conv_nth)
    have "j < head"
    proof (rule ccontr)
      assume "\<not> j < head"
      then have "length (L ! (queue ! head)) \<le> length (L ! p)"
        using at j sorted_nth_mono [of "map (\<lambda>v. length (L ! v)) queue" head j]
        by (auto simp: bfs_at_def)
      then show False using less.prems(3) lv j \<open>\<not> j < head\<close> by simp
    qed
    then show ?thesis using j by (metis insertCI in_set_conv_nth length_take min_less_iff_conj nth_take)
  qed simp
  then show ?case using at p unfolding bfs_at_def by blast
qed

lemma build_bfs_correct:
  assumes "bfs_at ac L D queue head"
  shows "\<exists>ac'. build_bfs ac queue head = Some ac' \<and> trie_inv ac' L D \<and>
    nd_out_link (ac_nodes ac' ! 0) = None \<and> (\<forall>v < length L. v \<noteq> 0 \<longrightarrow> link_ok ac' L D v) \<and>
    ac_bscratch ac' = ac_bscratch ac \<and> ac_nocase ac' = ac_nocase ac"
  using assms
proof (induction "length L - head" arbitrary: ac queue head rule: less_induct)
  case less
  note at = less.prems
  have t: "trie_inv ac L D" using at by (simp add: bfs_at_def)
  show ?case
  proof (cases "head < length queue")
    case False
    then have "link_ok ac L D v" if "v < length L" "v \<noteq> 0" for v
      using bfs_level_complete [OF at that] at by (simp add: bfs_at_def)
    then show ?thesis using False at by (subst build_bfs.simps) (simp add: bfs_at_def)
  next
    case True
    define u where "u = queue ! head"
    define P where "P = insert 0 (set (take head queue))"
    have uq: "u \<in> set queue" using True by (simp add: u_def)
    have u: "u < length L" "u \<noteq> 0" "link_ok ac L D u"
      using at uq unfolding bfs_at_def by (blast, metis, blast)
    obtain f where f: "f < length L" "nd_fail (ac_nodes ac ! u) = Some f"
        "L ! f = lsuf (set L) (tl (L ! u))" using u(3) by (auto simp: link_ok_def)
    have sub: "set (take head queue) \<subseteq> set queue" by (rule set_take_subset)
    have uP: "u \<notin> P"
      using at True u(2) by (auto simp: bfs_at_def P_def u_def in_set_conv_nth nth_eq_iff_index_eq)
    have depth: "length (L ! p) \<le> length (L ! u)" if p: "p \<in> P" for p
    proof (cases "p = 0")
      case False
      then obtain j where "j < head" "queue ! j = p" using p by (auto simp: P_def in_set_conv_nth)
      then show ?thesis
        using at True sorted_nth_mono [of "map (\<lambda>v. length (L ! v)) queue" j head]
        by (simp add: bfs_at_def u_def)
    qed (simp add: trie_root(3) [OF t])
    have inv: "bfs_inv ac L D P u [] queue"
      using at u(1) uP depth sub unfolding bfs_inv_def bfs_at_def P_def [symmetric]
      by (auto simp: P_def)
    have une: "L ! u \<noteq> []" using u trie_label_inj [OF t u(1) trie_root(2) [OF t]] trie_root(3) [OF t] by metis
    have links: "link_ok ac L D x" if "x < length L" "x \<noteq> 0" "length (L ! x) \<le> length (L ! u)" for x
      using bfs_level_complete [OF at that(1,2)] that(3) at by (simp add: u_def bfs_at_def)
    obtain ac' queue' new where r: "build_children ac f queue (ac_bscratch ac ! u) = Some (ac', queue')"
        "bfs_inv ac' L D P u (ac_bscratch ac ! u) queue'" "ac_bscratch ac' = ac_bscratch ac"
        "ac_nocase ac' = ac_nocase ac" "queue' = queue @ new"
      using build_children_bfs [OF inv _ f(1,3) une links] by auto
    have tk: "set (take (Suc head) queue') = insert u (set (take head queue))"
      using True r(5) by (simp add: take_Suc_conv_app_nth u_def)
    have "bfs_at ac' L D queue' (Suc head)"
      using r(2,3) True r(5) unfolding bfs_at_def bfs_inv_def tk by (auto simp: P_def)
    moreover have "length L - Suc head < length L - head"
    proof -
      have "length queue \<le> length L"
        using at by (metis bfs_at_def card_lessThan card_mono distinct_card finite_lessThan)
      then show ?thesis using True by simp
    qed
    ultimately show ?thesis
      using less.hyps [of "Suc head" ac' queue'] True f(2) r
      by (subst build_bfs.simps) (simp add: u_def Let_def)
  qed
qed


section \<open>Freezing\<close>

lemma freeze_nodes_nth:
  assumes "length bs = length ns" "u < length ns"
  shows "freeze_nodes bs off ns ! u =
    (ns ! u)\<lparr>nd_edge_first := Some (off + seg_start bs u), nd_edge_n := length (bs ! u)\<rparr>"
  using assms
proof (induction bs off ns arbitrary: u rule: freeze_nodes.induct)
  case (1 b bs off n ns)
  then show ?case by (cases u) (auto simp: seg_start_def)
qed auto

lemma length_freeze_nodes: "length bs = length ns \<Longrightarrow> length (freeze_nodes bs off ns) = length ns"
  by (induction bs off ns rule: freeze_nodes.induct) auto

lemma ac_goto_freeze:
  assumes inv: "trie_inv ac L D" and u: "u < length L"
  shows "ac_goto (ac_freeze ac) u c = Some v \<longleftrightarrow> v < length L \<and> L ! v = L ! u @ [c]"
proof -
  note len = trie_len [OF inv]
  have "ac_goto (ac_freeze ac) u c =
      ac_bsearch (drop (seg_start (ac_bscratch ac) u) (concat (ac_bscratch ac))) c 0
        (int (length (ac_bscratch ac ! u)) - 1)"
    using u len by (simp add: ac_goto_def ac_freeze_def freeze_nodes_nth)
  also have "\<dots> = Some v \<longleftrightarrow> (\<exists>x \<in> set (ac_bscratch ac ! u). e_c x = c \<and> e_to x = v)"
    using u len by (intro ac_bsearch_sorted trie_sorted [OF inv] nth_seg_start) auto
  also have "\<dots> \<longleftrightarrow> bgoto ac u c = Some v"
    unfolding bgoto_def Let_def by (rule ac_bsearch_sorted [symmetric]) (simp_all add: trie_sorted [OF inv u])
  finally show ?thesis using bgoto_iff [OF inv u] by simp
qed

lemma ac_freeze_ok:
  assumes inv: "trie_inv ac L D" and root: "nd_out_link (ac_nodes ac ! 0) = None"
    and links: "\<And>v. v < length L \<Longrightarrow> v \<noteq> 0 \<Longrightarrow> link_ok ac L D v"
  shows "ac_ok (ac_freeze ac) L D"
proof -
  note len = trie_len [OF inv]
  have nd: "nd_fail (ac_nodes (ac_freeze ac) ! u) = nd_fail (ac_nodes ac ! u)"
    "nd_out (ac_nodes (ac_freeze ac) ! u) = nd_out (ac_nodes ac ! u)"
    "nd_out_link (ac_nodes (ac_freeze ac) ! u) = nd_out_link (ac_nodes ac ! u)" if "u < length L" for u
    using that len by (simp_all add: ac_freeze_def freeze_nodes_nth)
  have "length (ac_nodes (ac_freeze ac)) = length L" "ac_built (ac_freeze ac)"
    using len by (simp_all add: ac_freeze_def length_freeze_nodes)
  moreover have "link_ok (ac_freeze ac) L D v" if "v < length L" "v \<noteq> 0" for v
    using links [OF that] nd [OF that(1)] by (simp add: link_ok_def)
  ultimately show ?thesis
    unfolding ac_ok_def
    using trie_root [OF inv] trie_distinct [OF inv] trie_prefix_closed [OF inv] trie_dom [OF inv]
      ac_goto_freeze [OF inv] trie_out [OF inv] nd root by auto
qed

text \<open>Every step keeps the root free of an output link, from \<open>ac_init\<close> on.\<close>

definition fresh_links :: "ac_automaton \<Rightarrow> bool" where
  "fresh_links ac \<longleftrightarrow> ac_nodes ac \<noteq> [] \<and> nd_out_link (ac_nodes ac ! 0) = None"

lemma fresh_links_add_loop: "fresh_links ac \<Longrightarrow> fresh_links (fst (ac_add_loop ac u ps))"
  by (induction ac u ps rule: ac_add_loop.induct)
     (auto simp: Let_def bedge_add_def ac_new_node_def fresh_links_def nth_append split: option.split)

lemma fresh_links_set_node:
  "fresh_links ac \<Longrightarrow> (\<And>n. nd_out_link (f n) = nd_out_link n) \<Longrightarrow> fresh_links (set_node ac u f)"
  by (cases "u = 0") (auto simp: fresh_links_def set_node_def)

lemma fresh_links_add_all: "ac_add_all ac pats = Some ac' \<Longrightarrow> fresh_links ac \<Longrightarrow> fresh_links ac'"
proof (induction ac pats rule: ac_add_all.induct)
  case (2 ac p i ps)
  then obtain ac1 where ac1: "ac_add_pattern ac p (int i) = Some ac1" "ac_add_all ac1 ps = Some ac'"
    by (auto split: option.splits)
  have "fresh_links (fst (ac_add_loop ac 0 p))" using "2.prems"(2) by (rule fresh_links_add_loop)
  then have "fresh_links ac1"
    using ac1(1) fresh_links_set_node by (auto simp: ac_add_pattern_eq split: if_splits)
  then show ?case using "2.IH" ac1 by blast
qed simp

lemma ac_build_trie:
  assumes inv: "trie_inv ac L D" and "\<not> ac_built ac" "fresh_links ac"
  shows "\<exists>ac'. ac_build ac = Some ac' \<and> ac_ok ac' L D \<and> ac_nocase ac' = ac_nocase ac"
proof -
  have "bfs_inv ac L D {} 0 [] []" using bfs_inv_start [OF inv] assms(3) by (simp add: fresh_links_def)
  then obtain ac1 queue where r: "build_root ac [] (ac_bscratch ac ! 0) = Some (ac1, queue)"
      "bfs_inv ac1 L D {} 0 (ac_bscratch ac ! 0) queue" "ac_bscratch ac1 = ac_bscratch ac"
      "ac_nocase ac1 = ac_nocase ac"
    using build_root_bfs [of ac L D "[]" "[]"] by auto
  have "bfs_at ac1 L D queue 0"
    using r(2,3) unfolding bfs_at_def bfs_inv_def by auto
  then obtain ac2 where b: "build_bfs ac1 queue 0 = Some ac2" "trie_inv ac2 L D"
      "nd_out_link (ac_nodes ac2 ! 0) = None" "\<forall>v < length L. v \<noteq> 0 \<longrightarrow> link_ok ac2 L D v"
      "ac_nocase ac2 = ac_nocase ac1"
    using build_bfs_correct by blast
  then have "ac_ok (ac_freeze ac2) L D" using ac_freeze_ok by blast
  moreover have "ac_build ac = Some (ac_freeze ac2)" using assms(2) r(1) b(1) by (simp add: ac_build_def)
  moreover have "ac_nocase (ac_freeze ac2) = ac_nocase ac" using b(5) r(4) by (simp add: ac_freeze_def)
  ultimately show ?thesis by blast
qed

lemma ac_compile_ok:
  assumes "ac_add_all (ac_init nocase) pats = Some ac1"
  shows "\<exists>ac L. ac_build ac1 = Some ac \<and> ac_ok ac L (pattern_dict nocase pats) \<and> ac_nocase ac = nocase"
proof -
  have init: "ac_nocase (ac_init nocase) = nocase" "\<not> ac_built (ac_init nocase)" "fresh_links (ac_init nocase)"
    by (simp_all add: ac_init_def ac_new_node_def fresh_links_def)
  obtain L where "trie_inv ac1 L (pattern_dict nocase pats)"
    using ac_add_all_trie [OF trie_inv_init assms] init by auto
  then show ?thesis
    using ac_build_trie [of ac1 L] ac_add_all_frame [OF assms] fresh_links_add_all [OF assms] init by metis
qed


section \<open>Scanning\<close>

lemma ac_okD:
  assumes "ac_ok ac L D"
  shows ok_built: "ac_built ac" and ok_len: "length (ac_nodes ac) = length L"
    and ok_root: "0 < length L" "L ! 0 = []" "nd_out_link (ac_nodes ac ! 0) = None"
    and ok_distinct: "distinct L" and ok_pc: "prefix_closed (set L)"
    and ok_goto: "u < length L \<Longrightarrow> ac_goto ac u c = Some v \<longleftrightarrow> v < length L \<and> L ! v = L ! u @ [c]"
    and ok_out: "u < length L \<Longrightarrow> nd_out (ac_nodes ac ! u) = D (L ! u)"
    and ok_dom: "dom D \<subseteq> set L" "D [] = None"
    and ok_links: "u < length L \<Longrightarrow> u \<noteq> 0 \<Longrightarrow> link_ok ac L D u"
  using assms unfolding ac_ok_def by auto

lemma ac_walk_link:
  assumes ok: "ac_ok ac L D" and s: "s < length L"
  shows "\<exists>t < length L. ac_walk ac s c = Some t \<and> L ! t = lsuf (set L) (L ! s @ [c])"
proof (rule follow_links [where g = "\<lambda>u. ac_goto ac u c" and fail = "\<lambda>u. nd_fail (ac_nodes ac ! u)"
      and k = "length (L ! s)"])
  show "ac_walk ac s c = (case ac_goto ac s c of Some nx \<Rightarrow> Some nx
      | None \<Rightarrow> if s = 0 then Some 0 else (case nd_fail (ac_nodes ac ! s) of None \<Rightarrow> None
          | Some f \<Rightarrow> ac_walk ac f c))" for s
    by (subst ac_walk.simps) (auto split: option.split)
  show "\<exists>f < length L. nd_fail (ac_nodes ac ! u) = Some f \<and> L ! f = lsuf (set L) (tl (L ! u))"
    if "u < length L" "u \<noteq> 0" "length (L ! u) \<le> length (L ! s)" for u
    using ok_links [OF ok that(1,2)] unfolding link_ok_def by blast
qed (use s ok_root [OF ok] ok_distinct [OF ok] ok_pc [OF ok] ok_goto [OF ok] in auto)

lemma suffix_hits_unfold:
  "suffix_hits D w = (case D w of None \<Rightarrow> [] | Some i \<Rightarrow> [i]) @ (if w = [] then [] else suffix_hits D (tl w))"
  by (cases w) auto

lemma suffix_hits_lsuf: "dom D \<subseteq> S \<Longrightarrow> D [] = None \<Longrightarrow> suffix_hits D (lsuf S w) = suffix_hits D w"
  by (induction w) (auto split: option.split)

lemma suffix_hits_none:
  "lsuf (dom D) w \<notin> dom D \<Longrightarrow> D [] = None \<Longrightarrow> suffix_hits D w = []"
  by (induction w) (auto split: option.split if_splits)

text \<open>The walk along the output links delivers the dictionary suffixes of the node's word.\<close>

lemma ac_report_node:
  assumes ok: "ac_ok ac L D" and n: "n < length L"
  shows "ac_report ac cb pos (Some n) hits ctx =
    (let r = feed_hits cb (map (\<lambda>i. (i, pos)) (suffix_hits D (L ! n))) ctx in Some (hits + fst r, snd r))"
  using n
proof (induction "length (L ! n)" arbitrary: n hits ctx rule: less_induct)
  case less
  define rest where "rest = (\<lambda>hits ctx. ac_report ac cb pos (nd_out_link (ac_nodes ac ! n)) hits ctx)"
  define tl_hits where "tl_hits = (if L ! n = [] then [] else suffix_hits D (tl (L ! n)))"
  have rest: "rest hits ctx =
      (let r = feed_hits cb (map (\<lambda>i. (i, pos)) tl_hits) ctx in Some (hits + fst r, snd r))" for hits ctx
  proof (cases "n = 0")
    case True
    then show ?thesis using ok_root [OF ok] by (simp add: rest_def tl_hits_def ac_report.simps)
  next
    case False
    have ne: "L ! n \<noteq> []"
      using False less.prems ok_root [OF ok] ok_distinct [OF ok] by (metis nth_eq_iff_index_eq)
    have lk: "link_ok ac L D n" by (rule ok_links [OF ok less.prems False])
    show ?thesis
    proof (cases "lsuf (dom D) (tl (L ! n)) \<in> dom D")
      case True
      then obtain t where t: "t < length L" "nd_out_link (ac_nodes ac ! n) = Some t"
          "L ! t = lsuf (dom D) (tl (L ! n))" using lk by (auto simp: link_ok_def)
      have "length (L ! t) < length (L ! n)"
        using lsuf_length [of "dom D" "tl (L ! n)"] t(3) ne by (cases "L ! n") auto
      moreover have "suffix_hits D (L ! t) = tl_hits"
        using suffix_hits_lsuf [of D "dom D", OF _ ok_dom(2) [OF ok]] t(3) ne by (simp add: tl_hits_def)
      ultimately show ?thesis using less.hyps [OF _ t(1)] t(2) by (simp add: rest_def)
    next
      case F: False
      then show ?thesis
        using lk suffix_hits_none [OF F ok_dom(2) [OF ok]] ne
        by (simp add: rest_def tl_hits_def link_ok_def ac_report.simps)
    qed
  qed
  have hits: "suffix_hits D (L ! n) = (case D (L ! n) of None \<Rightarrow> [] | Some i \<Rightarrow> [i]) @ tl_hits"
    by (subst suffix_hits_unfold) (simp add: tl_hits_def)
  show ?case
    unfolding hits using ok_out [OF ok less.prems] rest
    by (subst ac_report.simps) (auto simp: Let_def rest_def split: option.split)
qed

lemma feed_hits_append:
  "feed_hits cb (xs @ ys) ctx =
    (let r = feed_hits cb xs ctx in
     if fst (snd r) then r else let r' = feed_hits cb ys (snd (snd r)) in (fst r + fst r', snd r'))"
  by (induction xs arbitrary: ctx) (auto simp: Let_def)

text \<open>
  The scanning loop from the state of \<open>pre\<close> delivers the naive hits until the callback stops
  it; if it is not stopped, it ends in the state of \<open>pre @ text\<close>.
\<close>

lemma ac_scan_correct:
  assumes ok: "ac_ok ac L D" and st: "st < length L" "L ! st = lsuf (set L) pre"
  shows "\<exists>st' < length L.
    ac_scan ac cb pos st data hits ctx =
      (let r = feed_hits cb (naive_hits D pre pos (map (ac_norm (ac_nocase ac)) data)) ctx
       in Some (hits + fst r, st', snd r)) \<and>
    (\<not> fst (snd (feed_hits cb (naive_hits D pre pos (map (ac_norm (ac_nocase ac)) data)) ctx)) \<longrightarrow>
       L ! st' = lsuf (set L) (pre @ map (ac_norm (ac_nocase ac)) data)) \<and>
    (\<exists>q. L ! st' = lsuf (set L) (pre @ map (ac_norm (ac_nocase ac)) q))"
  using st
proof (induction data arbitrary: st pre pos hits ctx)
  case Nil
  then show ?case by (auto intro: exI [of _ "[]"])
next
  case (Cons x xs)
  define c where "c = ac_norm (ac_nocase ac) x"
  obtain t where t: "t < length L" "ac_walk ac st c = Some t" "L ! t = lsuf (set L) (L ! st @ [c])"
    using ac_walk_link [OF ok Cons.prems(1)] by blast
  have lt: "L ! t = lsuf (set L) (pre @ [c])"
    using t(3) Cons.prems(2) lsuf_snoc [OF ok_pc [OF ok]] by simp
  define here where "here = map (\<lambda>i. (i, pos)) (suffix_hits D (pre @ [c]))"
  define r where "r = feed_hits cb here ctx"
  have rep: "ac_report ac cb pos (Some t) hits ctx = Some (hits + fst r, snd r)"
    using ac_report_node [OF ok t(1)] suffix_hits_lsuf [OF ok_dom [OF ok]] lt
    by (simp add: r_def here_def Let_def)
  have scan: "ac_scan ac cb pos st (x # xs) hits ctx =
      (if fst (snd r) then Some (hits + fst r, t, True, snd (snd r))
       else ac_scan ac cb (Suc pos) t xs (hits + fst r) (snd (snd r)))"
    using t(2) rep by (simp add: c_def split: prod.split)
  show ?case
  proof (cases "fst (snd r)")
    case True
    then have "feed_hits cb (naive_hits D pre pos (map (ac_norm (ac_nocase ac)) (x # xs))) ctx = r"
      by (simp add: feed_hits_append r_def here_def Let_def flip: c_def)
    moreover have "\<exists>q. L ! t = lsuf (set L) (pre @ map (ac_norm (ac_nocase ac)) q)"
      using lt by (auto simp: c_def intro: exI [of _ "[x]"])
    ultimately show ?thesis using True t(1) scan by (intro exI [of _ t]) (auto simp: prod_eq_iff)
  next
    case False
    then have "feed_hits cb (naive_hits D pre pos (map (ac_norm (ac_nocase ac)) (x # xs))) ctx =
      (let r' = feed_hits cb (naive_hits D (pre @ [c]) (Suc pos) (map (ac_norm (ac_nocase ac)) xs))
                  (snd (snd r)) in (fst r + fst r', snd r'))"
      by (simp add: feed_hits_append r_def here_def Let_def flip: c_def)
    moreover have "\<exists>q. L ! t' = lsuf (set L) (pre @ map (ac_norm (ac_nocase ac)) q)"
      if "L ! t' = lsuf (set L) ((pre @ [c]) @ map (ac_norm (ac_nocase ac)) q)" for t' q
      using that by (intro exI [of _ "x # q"]) (simp add: c_def)
    ultimately show ?thesis
      using Cons.IH [OF t(1) lt, of "Suc pos" "hits + fst r" "snd (snd r)"] False scan
      by (fastforce simp: Let_def add.assoc simp flip: c_def)
  qed
qed


lemma feed_hits_go: "(\<And>i k c. \<not> fst (cb i k c)) \<Longrightarrow> \<not> fst (snd (feed_hits cb hs ctx))"
  by (induction hs arbitrary: ctx) (auto simp: Let_def)

text \<open>The labels are determined by the automaton, so a state stands for one word.\<close>

lemma ac_ok_labels:
  assumes ok: "ac_ok ac L D" and ok': "ac_ok ac L' D'" and u: "u < length L"
  shows "L' ! u = L ! u"
  using u
proof (induction "length (L ! u)" arbitrary: u rule: less_induct)
  case less
  have len: "length L' = length L" using ok_len [OF ok] ok_len [OF ok'] by simp
  show ?case
  proof (cases "L ! u" rule: rev_cases)
    case Nil
    then have "u = 0" using less.prems ok_root [OF ok] ok_distinct [OF ok] by (metis nth_eq_iff_index_eq)
    then show ?thesis using Nil ok_root(2) [OF ok'] by simp
  next
    case (snoc w c)
    then have "w \<in> set L" using ok_pc [OF ok] less.prems unfolding prefix_closed_def by (metis nth_mem)
    then obtain p where p: "p < length L" "L ! p = w" by (metis in_set_conv_nth)
    have "ac_goto ac p c = Some u" using ok_goto [OF ok p(1)] less.prems snoc p(2) by simp
    then have "L' ! u = L' ! p @ [c]" using ok_goto [OF ok'] p(1) len by simp
    then show ?thesis using less.hyps [of p] p snoc by simp
  qed
qed

section \<open>The interface of a streaming scanner\<close>

text \<open>
  What the stream reassembly relies on: a state that stands for the bytes read so far, a scan
  that delivers the hits of the new bytes to the callback and moves to the state of the longer
  stream, and hit lists that split where the stream is cut.
\<close>

locale stream_scanner =
  fixes compiled :: "'a \<Rightarrow> 'd \<Rightarrow> bool"
    and reads :: "'a \<Rightarrow> 'd \<Rightarrow> int \<Rightarrow> bytes \<Rightarrow> bool"
    and scan :: "'a \<Rightarrow> int \<Rightarrow> bytes \<Rightarrow> nat \<Rightarrow> 'c match_cb \<Rightarrow> 'c \<Rightarrow> (int \<times> int \<times> 'c) option"
    and hits :: "'d \<Rightarrow> bytes \<Rightarrow> nat \<Rightarrow> bytes \<Rightarrow> (nat \<times> nat) list"
  assumes reads_start: "compiled a d \<Longrightarrow> reads a d 0 []"
    and scan_reads: "reads a d s pre \<Longrightarrow>
      \<exists>s'. scan a s bs off cb ctx =
             (let r = feed_hits cb (hits d pre off bs) ctx in Some (int (fst r), s', snd (snd r))) \<and>
           (\<not> fst (snd (feed_hits cb (hits d pre off bs) ctx)) \<longrightarrow> reads a d s' (pre @ bs)) \<and>
           (\<exists>q. reads a d s' (pre @ q))"
    and hits_append: "hits d pre off (xs @ ys) = hits d pre off xs @ hits d (pre @ xs) (off + length xs) ys"
    and reads_unique: "reads a d s pre \<Longrightarrow> reads a d s' pre \<Longrightarrow> s = s'"
begin

text \<open>Cutting the stream does not change what the callback sees.\<close>

lemma scan_split:
  assumes rd: "reads a d s pre" and go: "\<And>i k c. \<not> fst (cb i k c)"
  shows "\<exists>n1 s1 c1 n2 s2 c2. scan a s xs off cb ctx = Some (n1, s1, c1) \<and>
       scan a s1 ys (off + length xs) cb c1 = Some (n2, s2, c2) \<and>
       scan a s (xs @ ys) off cb ctx = Some (n1 + n2, s2, c2)"
proof -
  define r where "r = feed_hits cb (hits d pre off xs) ctx"
  obtain s1 where s1: "scan a s xs off cb ctx = Some (int (fst r), s1, snd (snd r))" "reads a d s1 (pre @ xs)"
    using scan_reads [OF rd, of xs off cb ctx] feed_hits_go [OF go] by (auto simp: Let_def r_def)
  define r' where "r' = feed_hits cb (hits d (pre @ xs) (off + length xs) ys) (snd (snd r))"
  obtain s2 where s2: "scan a s1 ys (off + length xs) cb (snd (snd r)) = Some (int (fst r'), s2, snd (snd r'))"
      "reads a d s2 ((pre @ xs) @ ys)"
    using scan_reads [OF s1(2), of ys "off + length xs" cb "snd (snd r)"] feed_hits_go [OF go]
    by (auto simp: Let_def r'_def)
  obtain s3 where s3: "scan a s (xs @ ys) off cb ctx = Some (int (fst r) + int (fst r'), s3, snd (snd r'))"
      "reads a d s3 (pre @ xs @ ys)"
    using scan_reads [OF rd, of "xs @ ys" off cb ctx] feed_hits_go [OF go]
    by (auto simp: Let_def hits_append feed_hits_append r_def r'_def)
  have "s3 = s2" using reads_unique [OF s3(2)] s2(2) by simp
  then show ?thesis using s1 s2 s3 by auto
qed

lemma scan_never_stuck:
  "reads a d s pre \<Longrightarrow> \<exists>r. scan a s bs off cb ctx = Some r"
  using scan_reads [of a d s pre bs off cb ctx] by (auto simp: Let_def)

end

text \<open>The compiled automaton and its state, as a streaming scanner.\<close>

definition ac_compiled :: "ac_automaton \<Rightarrow> bool \<times> (bytes \<rightharpoonup> nat) \<Rightarrow> bool" where
  "ac_compiled ac d \<longleftrightarrow> ac_nocase ac = fst d \<and> (\<exists>L. ac_ok ac L (snd d))"

definition ac_reads :: "ac_automaton \<Rightarrow> bool \<times> (bytes \<rightharpoonup> nat) \<Rightarrow> int \<Rightarrow> bytes \<Rightarrow> bool" where
  "ac_reads ac d st pre \<longleftrightarrow> ac_nocase ac = fst d \<and>
     (\<exists>L. ac_ok ac L (snd d) \<and> 0 \<le> st \<and> nat st < length L \<and>
          L ! nat st = lsuf (set L) (map (ac_norm (fst d)) pre))"

definition ac_hits :: "bool \<times> (bytes \<rightharpoonup> nat) \<Rightarrow> bytes \<Rightarrow> nat \<Rightarrow> bytes \<Rightarrow> (nat \<times> nat) list" where
  "ac_hits d pre off bs = naive_hits (snd d) (map (ac_norm (fst d)) pre) off (map (ac_norm (fst d)) bs)"

lemma naive_hits_append:
  "naive_hits D pre off (xs @ ys) = naive_hits D pre off xs @ naive_hits D (pre @ xs) (off + length xs) ys"
  by (induction xs arbitrary: pre off) auto

interpretation ac_stream: stream_scanner ac_compiled ac_reads ac_search_stream ac_hits
proof
  fix a :: ac_automaton and d :: "bool \<times> (bytes \<rightharpoonup> nat)"
  assume "ac_compiled a d"
  then show "ac_reads a d 0 []" using ok_root by (fastforce simp: ac_compiled_def ac_reads_def)
next
  fix a :: ac_automaton and d :: "bool \<times> (bytes \<rightharpoonup> nat)" and s pre bs off and cb :: "'c match_cb" and ctx
  assume "ac_reads a d s pre"
  then obtain L where nc: "ac_nocase a = fst d" and ok: "ac_ok a L (snd d)"
    and s: "0 \<le> s" "nat s < length L" "L ! nat s = lsuf (set L) (map (ac_norm (fst d)) pre)"
    by (auto simp: ac_reads_def)
  obtain t where t: "t < length L"
      "ac_scan a cb off (nat s) bs 0 ctx =
         (let r = feed_hits cb (ac_hits d pre off bs) ctx in Some (fst r, t, snd r))"
      "\<not> fst (snd (feed_hits cb (ac_hits d pre off bs) ctx)) \<longrightarrow>
         L ! t = lsuf (set L) (map (ac_norm (fst d)) (pre @ bs))"
      "\<exists>q. L ! t = lsuf (set L) (map (ac_norm (fst d)) (pre @ q))"
    using ac_scan_correct [OF ok s(2,3), where data = bs and cb = cb and pos = off and hits = 0 and ctx = ctx]
    by (auto simp: ac_hits_def nc)
  have "s < int (length L)" using s(1,2) by linarith
  then have "ac_search_stream a s bs off cb ctx =
      (let r = feed_hits cb (ac_hits d pre off bs) ctx in Some (int (fst r), int t, snd (snd r)))"
    using t(2) ok_built [OF ok] ok_len [OF ok] s(1)
    by (simp add: ac_search_stream_def Let_def case_prod_beta)
  moreover have "\<not> fst (snd (feed_hits cb (ac_hits d pre off bs) ctx)) \<longrightarrow> ac_reads a d (int t) (pre @ bs)"
    using t(1,3) ok nc by (auto simp: ac_reads_def)
  moreover have "\<exists>q. ac_reads a d (int t) (pre @ q)"
    using t(1,4) ok nc by (auto simp: ac_reads_def)
  ultimately show "\<exists>s'. ac_search_stream a s bs off cb ctx =
        (let r = feed_hits cb (ac_hits d pre off bs) ctx in Some (int (fst r), s', snd (snd r))) \<and>
      (\<not> fst (snd (feed_hits cb (ac_hits d pre off bs) ctx)) \<longrightarrow> ac_reads a d s' (pre @ bs)) \<and>
      (\<exists>q. ac_reads a d s' (pre @ q))"
    by blast
next
  fix a :: ac_automaton and d :: "bool \<times> (bytes \<rightharpoonup> nat)" and s s' pre
  assume "ac_reads a d s pre" "ac_reads a d s' pre"
  then obtain L L' where L: "ac_ok a L (snd d)" "ac_ok a L' (snd d)" "0 \<le> s" "nat s < length L" "0 \<le> s'"
      "nat s' < length L'" "L ! nat s = lsuf (set L) (map (ac_norm (fst d)) pre)"
      "L' ! nat s' = lsuf (set L') (map (ac_norm (fst d)) pre)"
    by (auto simp: ac_reads_def)
  have "L' = L"
    using ac_ok_labels [OF L(1,2)] ok_len [OF L(1)] ok_len [OF L(2)] by (simp add: list_eq_iff_nth_eq)
  then have "nat s = nat s'" using L ok_distinct [OF L(1)] by (metis nth_eq_iff_index_eq)
  then show "s = s'" using L(3,5) by linarith
qed (simp add: ac_hits_def naive_hits_append)

lemma ac_compile_compiled:
  assumes "ac_add_all (ac_init nocase) pats = Some ac1"
  shows "\<exists>ac. ac_build ac1 = Some ac \<and> ac_compiled ac (nocase, pattern_dict nocase pats)"
  using ac_compile_ok [OF assms] by (auto simp: ac_compiled_def)

section \<open>Hits are occurrences\<close>

lemma suffix_hits_iff: "i \<in> set (suffix_hits D w) \<longleftrightarrow> (\<exists>p. suffix p w \<and> D p = Some i)"
proof (induction w)
  case (Cons x xs)
  then show ?case by (cases "D (x # xs)") (auto simp: suffix_Cons)
qed (auto split: option.split)

lemma naive_hits_iff:
  "(i, k) \<in> set (naive_hits D pre off w) \<longleftrightarrow>
     (\<exists>j < length w. k = off + j \<and> (\<exists>p. suffix p (pre @ take (Suc j) w) \<and> D p = Some i))"
proof (induction w arbitrary: pre off)
  case (Cons x xs)
  have "(i, k) \<in> set (naive_hits D pre off (x # xs)) \<longleftrightarrow>
      (k = off \<and> i \<in> set (suffix_hits D (pre @ [x]))) \<or>
      (\<exists>j < length xs. k = Suc off + j \<and> (\<exists>p. suffix p ((pre @ [x]) @ take (Suc j) xs) \<and> D p = Some i))"
    using Cons.IH [of "pre @ [x]" "Suc off"] by auto
  also have "\<dots> \<longleftrightarrow> (\<exists>j < length (x # xs). k = off + j \<and>
      (\<exists>p. suffix p (pre @ take (Suc j) (x # xs)) \<and> D p = Some i))"
    by (simp add: suffix_hits_iff Ex_less_Suc2)
  finally show ?case .
qed simp

lemma feed_hits_collect:
  "feed_hits (\<lambda>i k acc. (False, acc @ [(i, k)])) hs acc = (length hs, False, acc @ hs)"
  by (induction hs arbitrary: acc) (simp_all add: Let_def)

lemma ac_search_feed:
  assumes "ac_compiled ac d"
  shows "ac_search ac bs cb ctx =
    (let r = feed_hits cb (ac_hits d [] 0 bs) ctx in Some (int (fst r), snd (snd r)))"
proof -
  obtain L where nc: "ac_nocase ac = fst d" and ok: "ac_ok ac L (snd d)"
    using assms by (auto simp: ac_compiled_def)
  show ?thesis
    using ac_scan_correct [OF ok ok_root(1) [OF ok], where pre = "[]" and data = bs and cb = cb and pos = 0
        and hits = 0 and ctx = ctx] ok_root(2) [OF ok] ok_built [OF ok]
    by (auto simp: ac_search_def ac_hits_def nc Let_def case_prod_beta)
qed


section \<open>Properties\<close>

text \<open>
  C4. The matcher is correct: for every list of non-empty patterns the automaton can be built
  (the breadth-first search ends and never writes past its queue), and the scan of any buffer
  ends and drives the callback exactly as a naive matcher does that tests every suffix of the
  text read so far against the dictionary, the longest pattern first, until the callback stops
  it; the return value is the number of hits delivered.
\<close>

theorem ac_search_correct:
  assumes "\<forall>(p, i) \<in> set pats. p \<noteq> []"
  shows "\<exists>ac1 ac. ac_add_all (ac_init nocase) pats = Some ac1 \<and> ac_build ac1 = Some ac \<and>
    (\<forall>bs cb (ctx :: 'c). ac_search ac bs cb ctx =
       (let r = feed_hits cb (naive_hits (pattern_dict nocase pats) [] 0 (map (ac_norm nocase) bs)) ctx
        in Some (int (fst r), snd (snd r))))"
proof -
  have "\<not> ac_built (ac_init nocase)" by (simp add: ac_init_def ac_new_node_def)
  then obtain ac1 where ac1: "ac_add_all (ac_init nocase) pats = Some ac1"
    using ac_add_all_Some assms by blast
  then obtain ac where "ac_build ac1 = Some ac" "ac_compiled ac (nocase, pattern_dict nocase pats)"
    using ac_compile_compiled by blast
  then show ?thesis using ac1 ac_search_feed by (fastforce simp: ac_hits_def)
qed

theorem ac_search_correct_witness:
  "\<exists>ac1 ac. ac_add_all (ac_init True) [([104, 101], 0), ([83, 104, 101], 1), ([104, 105, 115], 2)] = Some ac1 \<and>
    ac_build ac1 = Some ac \<and>
    ac_search ac [85, 115, 72, 69, 114] (\<lambda>i k acc. (False, acc @ [(i, k)])) [] = Some (2, [(1, 3), (0, 3)])"
  using ac_search_correct [where pats = "[([104, 101], 0), ([83, 104, 101], 1), ([104, 105, 115], 2)]"
      and nocase = True and 'c = "(nat \<times> nat) list"]
  by (fastforce simp: pattern_dict_def ac_norm_def feed_hits_collect)

text \<open>
  Soundness and completeness of the reported hits: collecting every hit of a buffer gives
  the pair \<open>(i, k)\<close> if and only if \<open>i\<close> is the identifier of a (normalised) pattern that ends at
  byte \<open>k\<close> of the (normalised) buffer.
\<close>

theorem ac_search_occurrences:
  assumes "ac_add_all (ac_init nocase) pats = Some ac1" and "ac_build ac1 = Some ac"
  shows "\<exists>acc. ac_search ac bs (\<lambda>i k acc. (False, acc @ [(i, k)])) [] = Some (int (length acc), acc) \<and>
    (\<forall>i k. (i, k) \<in> set acc \<longleftrightarrow>
       k < length bs \<and>
       (\<exists>p. suffix p (take (Suc k) (map (ac_norm nocase) bs)) \<and> pattern_dict nocase pats p = Some i))"
proof -
  obtain ac' where "ac_build ac1 = Some ac'" "ac_compiled ac' (nocase, pattern_dict nocase pats)"
    using ac_compile_compiled [OF assms(1)] by blast
  then have c: "ac_compiled ac (nocase, pattern_dict nocase pats)" using assms(2) by simp
  show ?thesis
    by (simp add: ac_search_feed [OF c] Let_def feed_hits_collect ac_hits_def naive_hits_iff)
qed

theorem ac_search_occurrences_witness:
  "\<exists>ac1 ac acc. ac_add_all (ac_init False) [([97, 98], 7)] = Some ac1 \<and> ac_build ac1 = Some ac \<and>
    ac_search ac [97, 97, 98] (\<lambda>i k acc. (False, acc @ [(i, k)])) [] = Some (int (length acc), acc) \<and>
    (7, 2) \<in> set acc"
proof -
  obtain ac1 where ac1: "ac_add_all (ac_init False) [([97, 98], 7)] = Some ac1"
    using ac_add_all_Some [of "ac_init False" "[([97, 98], 7)]"]
    by (auto simp: ac_init_def ac_new_node_def)
  obtain ac where ac: "ac_build ac1 = Some ac" using ac_compile_compiled [OF ac1] by blast
  show ?thesis
    using ac_search_occurrences [OF ac1 ac, of "[97, 97, 98]"] ac1 ac
    by (fastforce simp: pattern_dict_def ac_norm_def suffix_def)
qed



end
