(* ===== verification/Bitmap.thy ===== *)
theory Bitmap
  imports Prelude
begin

unbundle bit_operations_syntax

text \<open>
  The received-byte bitmap of the stream reassembly (\<open>bit_get\<close>, \<open>bit_set\<close>, \<open>bit_clear\<close> of
  \<open>src/src/userspace/ipsd/reass.c\<close>): a byte array with one bit per stream offset. The locale
  \<open>bitmap\<close> states what the loops of the reassembly need of it, and proves the effect of the
  loops that mark, slide and clear ranges; the interpretation discharges its laws for the byte
  array.
\<close>

section \<open>Operations\<close>

definition bit_get :: "bytes \<Rightarrow> nat \<Rightarrow> bool" where
  "bit_get bm i \<longleftrightarrow> drop_bit (i AND 7) (bm ! drop_bit 3 i) AND 1 \<noteq> 0"

definition bit_set :: "bytes \<Rightarrow> nat \<Rightarrow> bytes" where
  "bit_set bm i = bm[drop_bit 3 i := bm ! drop_bit 3 i OR push_bit (i AND 7) 1]"

definition bit_clear :: "bytes \<Rightarrow> nat \<Rightarrow> bytes" where
  "bit_clear bm i = bm[drop_bit 3 i := bm ! drop_bit 3 i AND NOT (push_bit (i AND 7) 1)]"

text \<open>The offsets the array has a byte for.\<close>

definition bm_size :: "bytes \<Rightarrow> nat" where
  "bm_size bm = 8 * length bm"

section \<open>The interface\<close>

locale bitmap =
  fixes size :: "'b \<Rightarrow> nat"
    and get :: "'b \<Rightarrow> nat \<Rightarrow> bool"
    and set1 :: "'b \<Rightarrow> nat \<Rightarrow> 'b"
    and clear1 :: "'b \<Rightarrow> nat \<Rightarrow> 'b"
  assumes size_set [simp]: "size (set1 b i) = size b"
    and size_clear [simp]: "size (clear1 b i) = size b"
    and get_set: "i < size b \<Longrightarrow> j < size b \<Longrightarrow> get (set1 b i) j \<longleftrightarrow> j = i \<or> get b j"
    and get_clear: "i < size b \<Longrightarrow> j < size b \<Longrightarrow> get (clear1 b i) j \<longleftrightarrow> j \<noteq> i \<and> get b j"
begin

lemma size_clear_range [simp]: "size (fold (\<lambda>i b. clear1 b i) is b) = size b"
  by (induction "is" arbitrary: b) auto

lemma get_clear_range:
  assumes "\<forall>i \<in> set is. i < size b" "j < size b"
  shows "get (fold (\<lambda>i b. clear1 b i) is b) j \<longleftrightarrow> j \<notin> set is \<and> get b j"
  using assms by (induction "is" arbitrary: b) (auto simp: get_clear)

text \<open>The loop that copies bit \<open>i + n\<close> to bit \<open>i\<close> for every \<open>i < k\<close>, lowest first.\<close>

definition slide1 :: "nat \<Rightarrow> nat \<Rightarrow> 'b \<Rightarrow> 'b" where
  "slide1 n i b = (if get b (i + n) then set1 b i else clear1 b i)"

lemma size_slide [simp]: "size (fold (slide1 n) is b) = size b"
  by (induction "is" arbitrary: b) (auto simp: slide1_def)

lemma get_slide1:
  assumes "i + n < size b" "j < size b"
  shows "get (slide1 n i b) j \<longleftrightarrow> (if j = i then get b (i + n) else get b j)"
  using assms by (auto simp: slide1_def get_set get_clear)

lemma get_slide:
  assumes "k + n \<le> size b" "j < size b" "n > 0"
  shows "get (fold (slide1 n) [0..<k] b) j \<longleftrightarrow> (if j < k then get b (j + n) else get b j)"
  using assms
proof (induction k arbitrary: j)
  case (Suc k)
  have "get (fold (slide1 n) [0..<k] b) (k + n) \<longleftrightarrow> get b (k + n)" using Suc by simp
  then show ?case using Suc.IH [of j] Suc.prems by (auto simp: get_slide1 less_Suc_eq)
qed simp

text \<open>
  The loop that stores \<open>p ! (i - base)\<close> at the offsets not marked yet and marks them: a byte
  that is already there stays.
\<close>

definition write1 :: "'v list \<Rightarrow> nat \<Rightarrow> nat \<Rightarrow> 'v list \<times> 'b \<Rightarrow> 'v list \<times> 'b" where
  "write1 p base i s =
     (if get (snd s) i then s else ((fst s)[i := p ! (i - base)], set1 (snd s) i))"

lemma write_size [simp]:
  "length (fst (fold (write1 p base) is s)) = length (fst s)"
  "size (snd (fold (write1 p base) is s)) = size (snd s)"
  by (induction "is" arbitrary: s) (auto simp: write1_def)

lemma write1_get:
  assumes "i < size (snd s)" "j < size (snd s)"
  shows "get (snd (write1 p base i s)) j \<longleftrightarrow> j = i \<or> get (snd s) j"
  using assms by (auto simp: write1_def get_set)

lemma write1_nth:
  assumes "i < length (fst s)" "j < length (fst s)"
  shows "fst (write1 p base i s) ! j = (if j = i \<and> \<not> get (snd s) i then p ! (i - base) else fst s ! j)"
  using assms by (auto simp: write1_def)

lemma write_get:
  assumes "base \<le> e" "e \<le> size (snd s)" "j < size (snd s)"
  shows "get (snd (fold (write1 p base) [base..<e] s)) j \<longleftrightarrow> get (snd s) j \<or> base \<le> j \<and> j < e"
  using assms(1,2)
proof (induction e rule: dec_induct)
  case (step e)
  then show ?case using assms(3) by (auto simp: write1_get less_Suc_eq)
qed auto

lemma write_nth:
  assumes "base \<le> e" "e \<le> size (snd s)" "e \<le> length (fst s)" "j < length (fst s)"
  shows "fst (fold (write1 p base) [base..<e] s) ! j =
    (if base \<le> j \<and> j < e \<and> \<not> get (snd s) j then p ! (j - base) else fst s ! j)"
  using assms(1,2,3)
proof (induction e rule: dec_induct)
  case (step e)
  have "get (snd (fold (write1 p base) [base..<e] s)) e \<longleftrightarrow> get (snd s) e"
    using write_get [of base e s e p] step by simp
  then show ?case using step assms(4) by (auto simp: write1_nth less_Suc_eq)
qed auto

end

section \<open>The byte array is a bitmap\<close>

lemma drop_bit_3_nat: "drop_bit 3 (i :: nat) = i div 8"
  by (simp add: drop_bit_eq_div)

lemma and_7_nat: "(i :: nat) AND 7 = i mod 8"
  using take_bit_eq_mask [of 3 i] by (simp add: take_bit_eq_mod mask_eq_exp_minus_1)

lemmas bit_index = drop_bit_3_nat and_7_nat

lemma bit_get_bit: "bit_get bm i \<longleftrightarrow> bit (bm ! (i div 8)) (i mod 8)"
  by (simp add: bit_get_def bit_index and_one_eq bit_iff_odd_drop_bit odd_iff_mod_2_eq_one)

lemma push_bit_one_bit: "bit (2 ^ (i mod 8) :: u8) (j mod 8) \<longleftrightarrow> j mod 8 = i mod 8"
  by (simp add: bit_exp_iff)

lemma div_mod_8_eq: "(i :: nat) div 8 = j div 8 \<Longrightarrow> i mod 8 = j mod 8 \<Longrightarrow> i = j"
  by (metis div_mult_mod_eq)

interpretation bm: bitmap bm_size bit_get bit_set bit_clear
proof
  fix b i j assume "i < bm_size b" "j < bm_size b"
  then have "i div 8 < length b" "j div 8 < length b" by (auto simp: bm_size_def)
  then show "bit_get (bit_set b i) j \<longleftrightarrow> j = i \<or> bit_get b j"
    and "bit_get (bit_clear b i) j \<longleftrightarrow> j \<noteq> i \<and> bit_get b j"
    using div_mod_8_eq [of j i]
    by (auto simp: bit_get_bit bit_set_def bit_clear_def bit_index nth_list_update bit_or_iff
        bit_and_iff bit_not_iff push_bit_one_bit)
qed (simp_all add: bm_size_def bit_set_def bit_clear_def)

end
