(* ===== verification/Reassembly.thy ===== *)
theory Reassembly
  imports Aho_Corasick_Correct Bitmap
begin

text \<open>
  TCP stream reassembly with the streaming matcher behind it
  (\<open>src/src/userspace/ipsd/reass.c\<close>). This theory holds the definitions;
  \<open>Reassembly_Correct\<close> proves them.

  Conventions: sequence numbers are 32-bit words; offsets in the window are natural numbers, with
  \<open>mod 2 ^ 32\<close> written where the C code adds two \<open>uint32_t\<close>. A pointer that may be \<open>NULL\<close> is
  an \<open>option\<close>; the flow pointer itself is never \<open>NULL\<close>. The content of a fresh \<open>malloc\<close> block is the
  parameter \<open>junk\<close>. The result \<open>None\<close> of an operation means that it does not return or
  dereferences \<open>NULL\<close>. The callback gets, besides the C arguments, the flow as it stands while
  the bytes are fed: the C callback reads it through its context pointer.
\<close>

section \<open>Data\<close>

definition REASS_MAX_BYTES :: nat where "REASS_MAX_BYTES = 16384"
definition REASS_GAP_LIMIT :: nat where "REASS_GAP_LIMIT = 4096"

definition REASS_OK :: int where "REASS_OK = 0"
definition REASS_FAILCLOSED :: int where "REASS_FAILCLOSED = -1"

record reass_dir =
  rd_buf :: "bytes option"
  rd_filled :: "bytes option"
  rd_cap :: nat
  rd_base_seq :: u32
  rd_next_off :: nat
  rd_max_off :: nat
  rd_scanned :: nat
  rd_scan_limit :: nat
  rd_ac_state :: int
  rd_have_base :: bool

record reass_flow =
  rf_ac :: "ac_automaton option"
  rf_dir :: "reass_dir list"
  rf_failed :: bool

type_synonym 'c reass_match_cb = "reass_flow \<Rightarrow> nat \<Rightarrow> nat \<Rightarrow> nat \<Rightarrow> 'c \<Rightarrow> bool \<times> 'c"

definition feed_trampoline :: "'c reass_match_cb option \<Rightarrow> reass_flow \<Rightarrow> nat \<Rightarrow> 'c match_cb" where
  "feed_trampoline cb rf dir rule_id end_off ctx =
     (case cb of None \<Rightarrow> (False, ctx) | Some f \<Rightarrow> f rf rule_id end_off dir ctx)"

section \<open>Operations\<close>

text \<open>One direction of a flow: zeroed, and after its two allocations succeeded.\<close>

definition reass_dir_zero :: reass_dir where
  "reass_dir_zero =
     \<lparr>rd_buf = None, rd_filled = None, rd_cap = 0, rd_base_seq = 0, rd_next_off = 0, rd_max_off = 0,
      rd_scanned = 0, rd_scan_limit = 0, rd_ac_state = 0, rd_have_base = False\<rparr>"

definition reass_dir_init :: "(nat \<Rightarrow> u8) \<Rightarrow> nat \<Rightarrow> reass_dir" where
  "reass_dir_init junk cap =
     reass_dir_zero\<lparr>rd_cap := cap, rd_scan_limit := cap, rd_ac_state := 0,
       rd_buf := Some (map junk [0..<cap]), rd_filled := Some (replicate ((cap + 7) div 8) 0)\<rparr>"

definition reass_flow_free :: "reass_flow \<Rightarrow> reass_flow" where
  "reass_flow_free rf =
     rf\<lparr>rf_dir := map (\<lambda>d. d\<lparr>rd_buf := None, rd_filled := None\<rparr>) (rf_dir rf), rf_ac := None\<rparr>"

text \<open>\<open>alloc i\<close> tells whether both allocations of direction \<open>i\<close> succeed.\<close>

definition reass_flow_init ::
  "(nat \<Rightarrow> u8) \<Rightarrow> (nat \<Rightarrow> bool) \<Rightarrow> ac_automaton option \<Rightarrow> nat \<Rightarrow> int \<times> reass_flow" where
  "reass_flow_init junk alloc ac cap_bytes =
     (let cap = (if cap_bytes \<noteq> 0 then cap_bytes else REASS_MAX_BYTES);
          d = reass_dir_init junk cap;
          rf = \<lparr>rf_ac = ac, rf_dir = [d, reass_dir_zero], rf_failed = False\<rparr>;
          rf' = \<lparr>rf_ac = ac, rf_dir = [d, d], rf_failed = False\<rparr>
      in if \<not> alloc 0 then (-1, reass_flow_free rf)
         else if \<not> alloc 1 then (-1, reass_flow_free rf')
         else (0, rf'))"

definition put_dir :: "reass_flow \<Rightarrow> nat \<Rightarrow> reass_dir \<Rightarrow> reass_flow" where
  "put_dir rf dir d = rf\<lparr>rf_dir := (rf_dir rf)[dir := d]\<rparr>"

text \<open>
  Feeding the bytes \<open>[from, to)\<close> of a direction to the matcher, with the state kept in the
  direction; the caller sets \<open>scanned\<close> afterwards.
\<close>

definition reass_feed ::
  "ac_automaton \<Rightarrow> reass_flow \<Rightarrow> nat \<Rightarrow> nat \<Rightarrow> nat \<Rightarrow> 'c reass_match_cb option \<Rightarrow> 'c \<Rightarrow>
   (reass_flow \<times> 'c) option" where
  "reass_feed ac rf dir from to cb ctx =
     (let d = rf_dir rf ! dir in
      case rd_buf d of
        None \<Rightarrow> None
      | Some buf \<Rightarrow>
          (case ac_search_stream ac (rd_ac_state d) (take (to - from) (drop from buf)) from
                  (feed_trampoline cb rf dir) ctx of
             None \<Rightarrow> None
           | Some (_, st, ctx') \<Rightarrow>
               Some (put_dir rf dir (d\<lparr>rd_ac_state := st, rd_scanned := to\<rparr>), ctx')))"

text \<open>The loop body that stores the missing bytes, and the loop that extends the contiguous part.\<close>

definition reass_write1 :: "bytes \<Rightarrow> nat \<Rightarrow> nat \<Rightarrow> bytes \<times> bytes \<Rightarrow> bytes \<times> bytes" where
  "reass_write1 p base i s =
     (if bit_get (snd s) i then s else ((fst s)[i := p ! (i - base)], bit_set (snd s) i))"

function reass_extend :: "bytes \<Rightarrow> nat \<Rightarrow> nat \<Rightarrow> nat" where
  "reass_extend filled cap next_off =
     (if next_off < cap \<and> bit_get filled next_off then reass_extend filled cap (Suc next_off)
      else next_off)"
  by pat_completeness auto
termination
  by (relation "measure (\<lambda>(filled, cap, next_off). cap - next_off)") auto

declare reass_extend.simps [simp del]

text \<open>Storing \<open>p\<close> at offset \<open>base\<close> of a direction: the bytes, \<open>max_off\<close> and \<open>next_off\<close>.\<close>

definition reass_place :: "reass_dir \<Rightarrow> bytes \<Rightarrow> bytes \<Rightarrow> nat \<Rightarrow> bytes \<Rightarrow> reass_dir" where
  "reass_place d buf filled base p =
     (let e0 = (base + length p) mod 2 ^ 32;
          e = (if rd_cap d < e0 then rd_cap d else e0);
          (buf', filled') = fold (reass_write1 p base) [base..<e] (buf, filled);
          max_off = (if rd_max_off d < e then e else rd_max_off d)
      in d\<lparr>rd_buf := Some buf', rd_filled := Some filled', rd_max_off := max_off,
           rd_next_off := reass_extend filled' (rd_cap d) (rd_next_off d)\<rparr>)"

text \<open>The part of a feed that the scan limit allows, and whether there is anything to feed.\<close>

definition feed_to :: "reass_dir \<Rightarrow> nat" where
  "feed_to d = (if rd_next_off d < rd_scan_limit d then rd_next_off d else rd_scan_limit d)"

definition reass_feed_new ::
  "reass_flow \<Rightarrow> nat \<Rightarrow> 'c reass_match_cb option \<Rightarrow> 'c \<Rightarrow> (reass_flow \<times> 'c) option" where
  "reass_feed_new rf dir cb ctx =
     (let d = rf_dir rf ! dir in
      case rf_ac rf of
        None \<Rightarrow> Some (rf, ctx)
      | Some ac \<Rightarrow>
          if feed_to d > rd_scanned d then reass_feed ac rf dir (rd_scanned d) (feed_to d) cb ctx
          else Some (rf, ctx))"

text \<open>The first segment of a direction fixes its base.\<close>

definition rebased :: "u32 \<Rightarrow> reass_dir \<Rightarrow> reass_dir" where
  "rebased seq d = (if rd_have_base d then d else d\<lparr>rd_base_seq := seq, rd_have_base := True\<rparr>)"

text \<open>
  \<open>reass_segment\<close>; the telemetry counter \<open>g_reass_fed\<close> (an \<open>unsigned long\<close>) is threaded through.
\<close>

definition reass_segment ::
  "u64 \<Rightarrow> reass_flow \<Rightarrow> int \<Rightarrow> u32 \<Rightarrow> bytes option \<Rightarrow> 'c reass_match_cb option \<Rightarrow> 'c \<Rightarrow>
   (int \<times> u64 \<times> reass_flow \<times> 'c) option" where
  "reass_segment fed rf dir seq data_opt cb ctx =
     (case data_opt of None \<Rightarrow> Some (REASS_FAILCLOSED, fed, rf, ctx) | Some bs \<Rightarrow>
      if dir < 0 \<or> dir > 1 \<or> rf_failed rf then Some (REASS_FAILCLOSED, fed, rf, ctx)
      else let d0 = rf_dir rf ! nat dir in
      case rd_buf d0 of None \<Rightarrow> Some (REASS_FAILCLOSED, fed, rf, ctx) | Some buf \<Rightarrow>
      case rd_filled d0 of None \<Rightarrow> Some (REASS_FAILCLOSED, fed, rf, ctx) | Some filled \<Rightarrow>
      if bs = [] then Some (REASS_OK, fed, rf, ctx)
      else
        let d = rebased seq d0;
            rf1 = put_dir rf (nat dir) d;
            soff0 = sint (seq - rd_base_seq d);
            skip = (if soff0 < 0 then nat (- soff0) else 0)
        in if soff0 < 0 \<and> skip \<ge> length bs then Some (REASS_OK, fed, rf1, ctx)
        else
          let p = drop skip bs;
              soff = nat soff0
          in if soff \<ge> rd_cap d then
               (if rd_next_off d < rd_cap d \<and> soff - rd_next_off d > REASS_GAP_LIMIT
                then Some (REASS_FAILCLOSED, fed, rf1\<lparr>rf_failed := True\<rparr>, ctx)
                else Some (REASS_OK, fed, rf1, ctx))
             else
               let d2 = reass_place d buf filled soff p;
                   rf2 = put_dir rf (nat dir) d2;
                   fed' = (if rf_ac rf \<noteq> None \<and> feed_to d2 > rd_scanned d2
                           then fed + of_nat (feed_to d2 - rd_scanned d2) else fed)
               in case reass_feed_new rf2 (nat dir) cb ctx of
                    None \<Rightarrow> None
                  | Some (rf3, ctx') \<Rightarrow>
                      if rd_next_off d2 < rd_cap d2 \<and> rd_max_off d2 - rd_next_off d2 > REASS_GAP_LIMIT
                      then Some (REASS_FAILCLOSED, fed', rf3\<lparr>rf_failed := True\<rparr>, ctx')
                      else Some (REASS_OK, fed', rf3, ctx'))"

text \<open>One direction of \<open>reass_flow_rebind\<close>: restart the matcher and read the window again.\<close>

definition reass_rescan ::
  "ac_automaton option \<Rightarrow> reass_flow \<Rightarrow> nat \<Rightarrow> 'c reass_match_cb option \<Rightarrow> 'c \<Rightarrow> (reass_flow \<times> 'c) option" where
  "reass_rescan ac rf dir cb ctx =
     (let d = (rf_dir rf ! dir)\<lparr>rd_ac_state := 0, rd_scanned := 0, rd_scan_limit := rd_cap (rf_dir rf ! dir)\<rparr>;
          rf1 = put_dir rf dir d
      in case ac of
           None \<Rightarrow> Some (rf1, ctx)
         | Some a \<Rightarrow>
             if rd_buf d \<noteq> None \<and> rd_next_off d > 0 then reass_feed a rf1 dir 0 (rd_next_off d) cb ctx
             else Some (rf1, ctx))"

definition reass_flow_rebind ::
  "reass_flow \<Rightarrow> ac_automaton option \<Rightarrow> 'c reass_match_cb option \<Rightarrow> 'c \<Rightarrow> (reass_flow \<times> 'c) option" where
  "reass_flow_rebind rf ac cb ctx =
     (case reass_rescan ac (rf\<lparr>rf_ac := ac\<rparr>) 0 cb ctx of
        None \<Rightarrow> None
      | Some (rf1, ctx1) \<Rightarrow> reass_rescan ac rf1 1 cb ctx1)"

text \<open>Dropping \<open>n\<close> bytes at the head: \<open>memmove\<close>, the bitmap loops and the counters.\<close>

definition reass_slide1 :: "nat \<Rightarrow> nat \<Rightarrow> bytes \<Rightarrow> bytes" where
  "reass_slide1 n i filled =
     (if bit_get filled (i + n) then bit_set filled i else bit_clear filled i)"

definition reass_slide :: "reass_dir \<Rightarrow> bytes \<Rightarrow> bytes \<Rightarrow> nat \<Rightarrow> reass_dir" where
  "reass_slide d buf filled n =
     (let keep = (if rd_max_off d > n then rd_max_off d - n else 0);
          buf' = take keep (drop n buf) @ drop keep buf;
          filled1 = fold (reass_slide1 n) [0..<keep] filled;
          filled2 = fold (\<lambda>i b. bit_clear b i) [keep..<rd_max_off d] filled1
      in d\<lparr>rd_buf := Some buf', rd_filled := Some filled2,
           rd_base_seq := rd_base_seq d + of_nat n,
           rd_next_off := (if rd_next_off d > n then rd_next_off d - n else 0),
           rd_max_off := keep,
           rd_scanned := (if rd_scanned d > n then rd_scanned d - n else 0),
           rd_scan_limit := (if rd_scan_limit d > n then rd_scan_limit d - n else 0)\<rparr>)"

definition reass_consume ::
  "reass_flow \<Rightarrow> int \<Rightarrow> nat \<Rightarrow> bool \<Rightarrow> 'c reass_match_cb option \<Rightarrow> 'c \<Rightarrow> (reass_flow \<times> 'c) option" where
  "reass_consume rf dir n0 reset_ac cb ctx =
     (if dir < 0 \<or> dir > 1 then Some (rf, ctx)
      else let d = rf_dir rf ! nat dir in
      case rd_buf d of None \<Rightarrow> Some (rf, ctx) | Some buf \<Rightarrow>
      let n = (if n0 > rd_next_off d then rd_next_off d else n0) in
      case (if n > 0 then map_option (\<lambda>filled. reass_slide d buf filled n) (rd_filled d) else Some d) of
        None \<Rightarrow> None
      | Some d1 \<Rightarrow>
          let rf1 = put_dir rf (nat dir) d1 in
          if reset_ac then reass_rescan (rf_ac rf1) rf1 (nat dir) cb ctx else Some (rf1, ctx))"

definition reass_set_scan_limit ::
  "reass_flow \<Rightarrow> int \<Rightarrow> nat \<Rightarrow> 'c reass_match_cb option \<Rightarrow> 'c \<Rightarrow> (reass_flow \<times> 'c) option" where
  "reass_set_scan_limit rf dir limit cb ctx =
     (if dir < 0 \<or> dir > 1 then Some (rf, ctx)
      else let d = rf_dir rf ! nat dir;
               limit' = (if limit > rd_cap d then rd_cap d else limit)
           in reass_feed_new (put_dir rf (nat dir) (d\<lparr>rd_scan_limit := limit'\<rparr>)) (nat dir) cb ctx)"

text \<open>The view the verifier gets: the buffer pointer and the contiguous length.\<close>

definition reass_dir_buf :: "reass_flow \<Rightarrow> int \<Rightarrow> (bytes \<times> nat) option" where
  "reass_dir_buf rf dir =
     (if dir < 0 \<or> dir > 1 then None
      else map_option (\<lambda>buf. (buf, rd_next_off (rf_dir rf ! nat dir))) (rd_buf (rf_dir rf ! nat dir)))"

definition reass_inspected_bytes :: "reass_flow \<Rightarrow> nat" where
  "reass_inspected_bytes rf = (rd_next_off (rf_dir rf ! 0) + rd_next_off (rf_dir rf ! 1)) mod 2 ^ 32"


end
