(* ===== verification/Reassembly_Correct.thy ===== *)
theory Reassembly_Correct
  imports Reassembly
begin

text \<open>
  Correctness of the stream reassembly. A direction is related to the map of the bytes it has
  received (\<open>recv\<close>); storing a segment is a first-wins merge into that map, dropping the head
  is a shift of it, and the bytes handed to the matcher are the contiguous part, each once and in
  stream order.
\<close>

section \<open>Specification\<close>

text \<open>The bytes a direction holds, by offset in its window.\<close>

definition recv :: "reass_dir \<Rightarrow> nat \<rightharpoonup> u8" where
  "recv d i =
     (case (rd_buf d, rd_filled d) of
        (Some buf, Some filled) \<Rightarrow> if i < rd_cap d \<and> bit_get filled i then Some (buf ! i) else None
      | _ \<Rightarrow> None)"

text \<open>
  The bytes a segment brings into a window of \<open>cap\<close> bytes when it starts \<open>off\<close> bytes after the
  window does (\<open>off\<close> is negative for a segment that starts before it).
\<close>

definition seg_bytes :: "nat \<Rightarrow> int \<Rightarrow> bytes \<Rightarrow> nat \<rightharpoonup> u8" where
  "seg_bytes cap off bs i =
     (if off \<le> int i \<and> int i < off + int (length bs) \<and> i < cap then Some (bs ! nat (int i - off)) else None)"

text \<open>The contiguous stream of a direction.\<close>

definition stream :: "reass_dir \<Rightarrow> bytes" where
  "stream d = map (\<lambda>i. the (recv d i)) [0..<rd_next_off d]"

text \<open>The invariant of a direction whose buffers are allocated.\<close>

definition dir_shape :: "reass_dir \<Rightarrow> bool" where
  "dir_shape d \<longleftrightarrow>
     (\<exists>buf filled. rd_buf d = Some buf \<and> rd_filled d = Some filled \<and> length buf = rd_cap d \<and>
        length filled = (rd_cap d + 7) div 8) \<and> 0 < rd_cap d"

definition dir_ok :: "reass_dir \<Rightarrow> bool" where
  "dir_ok d \<longleftrightarrow> dir_shape d \<and>
     rd_next_off d \<le> rd_max_off d \<and> rd_max_off d \<le> rd_cap d \<and>
     rd_scanned d \<le> rd_next_off d \<and> rd_scan_limit d \<le> rd_cap d \<and>
     (\<forall>i < rd_next_off d. recv d i \<noteq> None) \<and> recv d (rd_next_off d) = None \<and>
     (\<forall>i \<ge> rd_max_off d. recv d i = None) \<and> (0 < rd_max_off d \<longrightarrow> recv d (rd_max_off d - 1) \<noteq> None) \<and>
     (\<not> rd_have_base d \<longrightarrow> rd_max_off d = 0)"

text \<open>The contiguous bytes that the scan limit allows and that the matcher has not read.\<close>

definition unread :: "reass_dir \<Rightarrow> bytes" where
  "unread d = take (feed_to d - rd_scanned d) (drop (rd_scanned d) (stream d))"

text \<open>
  The invariant of a flow: both directions; unless the flow has failed closed, the data behind a
  gap is bounded; with a matcher, nothing that may be read is left unread, and its states
  stand for some text the automaton has read.
\<close>

definition flow_ok :: "bool \<times> (bytes \<rightharpoonup> nat) \<Rightarrow> reass_flow \<Rightarrow> bool" where
  "flow_ok dict rf \<longleftrightarrow> length (rf_dir rf) = 2 \<and> (\<forall>d \<in> set (rf_dir rf). dir_ok d) \<and>
     (\<not> rf_failed rf \<longrightarrow> (\<forall>d \<in> set (rf_dir rf). rd_max_off d - rd_next_off d \<le> REASS_GAP_LIMIT)) \<and>
     (\<forall>ac. rf_ac rf = Some ac \<longrightarrow> ac_compiled ac dict \<and>
        (\<forall>d \<in> set (rf_dir rf). feed_to d \<le> rd_scanned d \<and> (\<exists>pre. ac_reads ac dict (rd_ac_state d) pre)))"

section \<open>The window\<close>

lemma reass_write1_bm: "reass_write1 = bm.write1"
  by (intro ext) (simp add: reass_write1_def bm.write1_def)

lemma reass_slide1_bm: "reass_slide1 = bm.slide1"
  by (intro ext) (simp add: reass_slide1_def bm.slide1_def)

lemma dir_shapeE:
  assumes "dir_shape d"
  obtains buf filled where "rd_buf d = Some buf" "rd_filled d = Some filled" "length buf = rd_cap d"
    "rd_cap d \<le> bm_size filled" "length filled = (rd_cap d + 7) div 8" "0 < rd_cap d"
proof -
  obtain buf filled where "rd_buf d = Some buf" "rd_filled d = Some filled" "length buf = rd_cap d"
    "length filled = (rd_cap d + 7) div 8" "0 < rd_cap d" using assms by (auto simp: dir_shape_def)
  moreover have "rd_cap d \<le> 8 * ((rd_cap d + 7) div 8)" by linarith
  ultimately show ?thesis by (intro that [of buf filled]) (auto simp: bm_size_def)
qed

lemma recv_shape:
  "rd_buf d = Some buf \<Longrightarrow> rd_filled d = Some filled \<Longrightarrow>
   recv d i = (if i < rd_cap d \<and> bit_get filled i then Some (buf ! i) else None)"
  by (simp add: recv_def)

lemma recv_beyond [simp]: "rd_cap d \<le> i \<Longrightarrow> recv d i = None"
  by (simp add: recv_def split: option.split)

lemma recv_cong:
  "rd_buf d' = rd_buf d \<Longrightarrow> rd_filled d' = rd_filled d \<Longrightarrow> rd_cap d' = rd_cap d \<Longrightarrow> recv d' = recv d"
  by (intro ext) (auto simp: recv_def split: option.split)

lemma stream_take:
  assumes "dir_ok d" "rd_buf d = Some buf"
  shows "stream d = take (rd_next_off d) buf"
proof -
  obtain filled where f: "rd_filled d = Some filled" "length buf = rd_cap d"
    using assms by (auto simp: dir_ok_def dir_shape_def)
  have "recv d i = Some (buf ! i)" if "i < rd_next_off d" for i
    using assms that f by (auto simp: dir_ok_def recv_shape split: if_splits)
  moreover have "rd_next_off d \<le> length buf" using assms f by (auto simp: dir_ok_def)
  ultimately show ?thesis by (intro nth_equalityI) (auto simp: stream_def)
qed

lemma length_stream [simp]: "length (stream d) = rd_next_off d"
  by (simp add: stream_def)

text \<open>\<open>r\<close> is the end of the run of marked offsets that starts at \<open>n\<close>.\<close>

definition run_end :: "(nat \<Rightarrow> bool) \<Rightarrow> nat \<Rightarrow> nat \<Rightarrow> nat \<Rightarrow> bool" where
  "run_end g cap n r \<longleftrightarrow> n \<le> r \<and> (n \<le> cap \<longrightarrow> r \<le> cap) \<and> (\<forall>i. n \<le> i \<and> i < r \<longrightarrow> i < cap \<and> g i) \<and>
     \<not> (r < cap \<and> g r)"

lemma run_end_Suc: "n < cap \<Longrightarrow> g n \<Longrightarrow> run_end g cap (Suc n) r \<Longrightarrow> run_end g cap n r"
  unfolding run_end_def by (metis Suc_leD Suc_leI le_neq_implies_less)

lemma reass_extend_spec: "run_end (bit_get f) cap n (reass_extend f cap n)"
proof (induction f cap n rule: reass_extend.induct)
  case (1 f cap n)
  show ?case
  proof (cases "n < cap \<and> bit_get f n")
    case True
    then have "reass_extend f cap n = reass_extend f cap (Suc n)" by (subst reass_extend.simps) simp
    then show ?thesis using run_end_Suc [OF _ _ 1] True by presburger
  next
    case False
    then have "reass_extend f cap n = n" by (subst reass_extend.simps) auto
    then show ?thesis using False by (auto simp: run_end_def)
  qed
qed

section \<open>Storing a segment\<close>

text \<open>Where the write loop ends, with the wrap-around of the C sum.\<close>

definition seg_end :: "nat \<Rightarrow> nat \<Rightarrow> bytes \<Rightarrow> nat" where
  "seg_end cap base p = (let e = (base + length p) mod 2 ^ 32 in if cap < e then cap else e)"

lemma reass_place_write:
  assumes d: "rd_buf d = Some buf" "rd_filled d = Some filled" "length buf = rd_cap d"
    "rd_cap d \<le> bm_size filled" and b: "base < rd_cap d"
  shows "\<exists>buf' filled'. rd_buf (reass_place d buf filled base p) = Some buf' \<and>
    rd_filled (reass_place d buf filled base p) = Some filled' \<and>
    length buf' = rd_cap d \<and> length filled' = length filled \<and>
    rd_next_off (reass_place d buf filled base p) = reass_extend filled' (rd_cap d) (rd_next_off d) \<and>
    rd_max_off (reass_place d buf filled base p) = max (rd_max_off d) (seg_end (rd_cap d) base p) \<and>
    (\<forall>i < rd_cap d. bit_get filled' i \<longleftrightarrow> bit_get filled i \<or> base \<le> i \<and> i < seg_end (rd_cap d) base p) \<and>
    (\<forall>i < rd_cap d. buf' ! i = (if base \<le> i \<and> i < seg_end (rd_cap d) base p \<and> \<not> bit_get filled i
                                 then p ! (i - base) else buf ! i))"
proof -
  define e where "e = seg_end (rd_cap d) base p"
  define r where "r = fold (reass_write1 p base) [base..<e] (buf, filled)"
  have place: "reass_place d buf filled base p = d\<lparr>rd_buf := Some (fst r), rd_filled := Some (snd r),
      rd_max_off := (if rd_max_off d < e then e else rd_max_off d),
      rd_next_off := reass_extend (snd r) (rd_cap d) (rd_next_off d)\<rparr>"
    by (simp add: reass_place_def r_def e_def seg_end_def Let_def case_prod_beta)
  have e: "e \<le> rd_cap d" by (simp add: e_def seg_end_def Let_def)
  have len: "length (fst r) = rd_cap d" "bm_size (snd r) = bm_size filled"
    using d by (simp_all add: r_def reass_write1_bm)
  have get: "\<forall>i < rd_cap d. bit_get (snd r) i \<longleftrightarrow> bit_get filled i \<or> base \<le> i \<and> i < e"
    using bm.write_get [of base e "(buf, filled)"] d e
    by (cases "base \<le> e") (auto simp: r_def reass_write1_bm)
  have nth: "\<forall>i < rd_cap d. fst r ! i =
      (if base \<le> i \<and> i < e \<and> \<not> bit_get filled i then p ! (i - base) else buf ! i)"
    using bm.write_nth [of base e "(buf, filled)"] d e
    by (cases "base \<le> e") (auto simp: r_def reass_write1_bm)
  have "length (snd r) = length filled" using len(2) by (simp add: bm_size_def)
  then show ?thesis using len get nth by (simp add: place e_def [symmetric] max_def)
qed

lemma reass_place_fields [simp]:
  "rd_cap (reass_place d buf filled base p) = rd_cap d"
  "rd_scanned (reass_place d buf filled base p) = rd_scanned d"
  "rd_scan_limit (reass_place d buf filled base p) = rd_scan_limit d"
  "rd_ac_state (reass_place d buf filled base p) = rd_ac_state d"
  "rd_have_base (reass_place d buf filled base p) = rd_have_base d"
  "rd_base_seq (reass_place d buf filled base p) = rd_base_seq d"
  by (simp_all add: reass_place_def Let_def case_prod_beta)

lemma recv_place:
  assumes "dir_shape d" "rd_buf d = Some buf" "rd_filled d = Some filled" "base < rd_cap d"
  shows "recv (reass_place d buf filled base p) i =
    (case recv d i of
       Some v \<Rightarrow> Some v
     | None \<Rightarrow> if base \<le> i \<and> i < seg_end (rd_cap d) base p then Some (p ! (i - base)) else None)"
proof -
  have b: "length buf = rd_cap d" "rd_cap d \<le> bm_size filled"
    using assms(1-3) by (auto elim!: dir_shapeE)
  have "seg_end (rd_cap d) base p \<le> rd_cap d" by (simp add: seg_end_def Let_def)
  then show ?thesis
    using reass_place_write [OF assms(2,3) b assms(4), of p] assms(2,3)
    by (cases "i < rd_cap d") (auto simp: recv_shape)
qed

lemma seg_end_nowrap: "base + length p < 2 ^ 32 \<Longrightarrow> seg_end cap base p = min cap (base + length p)"
  by (simp add: seg_end_def Let_def min_def)

lemma recv_place_merge:
  assumes "dir_shape d" "rd_buf d = Some buf" "rd_filled d = Some filled" "base < rd_cap d"
    "base + length p < 2 ^ 32"
  shows "recv (reass_place d buf filled base p) = seg_bytes (rd_cap d) (int base) p ++ recv d"
proof
  fix i
  have "nat (int i - int base) = i - base" by simp
  moreover have "int i < int base + int (length p) \<longleftrightarrow> i < base + length p" by linarith
  ultimately show "recv (reass_place d buf filled base p) i = (seg_bytes (rd_cap d) (int base) p ++ recv d) i"
    by (simp add: recv_place [OF assms(1-4)] seg_end_nowrap [OF assms(5)] seg_bytes_def map_add_def
        split: option.split)
qed

lemma dir_shape_place:
  assumes "dir_shape d" "rd_buf d = Some buf" "rd_filled d = Some filled" "base < rd_cap d"
  shows "dir_shape (reass_place d buf filled base p)"
proof -
  have "length buf = rd_cap d" "rd_cap d \<le> bm_size filled" "length filled = (rd_cap d + 7) div 8"
    using assms(1-3) by (auto elim!: dir_shapeE)
  then show ?thesis
    using reass_place_write [OF assms(2,3) _ _ assms(4), of p] assms(1) by (auto simp: dir_shape_def)
qed

lemma next_off_place:
  fixes p :: bytes
  assumes "dir_ok d" "rd_buf d = Some buf" "rd_filled d = Some filled" "base < rd_cap d"
  defines "d' \<equiv> reass_place d buf filled base p"
  shows "rd_next_off d \<le> rd_next_off d'" "rd_next_off d' \<le> rd_cap d"
    "\<forall>i < rd_next_off d'. recv d' i \<noteq> None" "recv d' (rd_next_off d') = None"
proof -
  have sh: "dir_shape d" using assms(1) by (simp add: dir_ok_def)
  have b: "length buf = rd_cap d" "rd_cap d \<le> bm_size filled"
    using sh assms(2,3) by (auto elim!: dir_shapeE)
  obtain buf' filled' where w: "rd_buf d' = Some buf'" "rd_filled d' = Some filled'"
      "rd_next_off d' = reass_extend filled' (rd_cap d) (rd_next_off d)"
    using reass_place_write [OF assms(2,3) b assms(4), of p] by (auto simp: d'_def)
  have cap: "rd_cap d' = rd_cap d" by (simp add: d'_def)
  have r: "run_end (bit_get filled') (rd_cap d) (rd_next_off d) (rd_next_off d')"
    by (simp add: w(3) reass_extend_spec)
  have le: "rd_next_off d \<le> rd_cap d" using assms(1) by (simp add: dir_ok_def)
  show "rd_next_off d \<le> rd_next_off d'" "rd_next_off d' \<le> rd_cap d"
    using r le by (auto simp: run_end_def)
  show "recv d' (rd_next_off d') = None"
    using r le w(1,2) cap by (auto simp: run_end_def recv_shape)
  show "\<forall>i < rd_next_off d'. recv d' i \<noteq> None"
  proof (intro allI impI)
    fix i assume i: "i < rd_next_off d'"
    show "recv d' i \<noteq> None"
    proof (cases "i < rd_next_off d")
      case True
      then have "recv d i \<noteq> None" using assms(1) by (simp add: dir_ok_def)
      then show ?thesis
        using recv_place [OF sh assms(2,3,4), of p i] by (auto simp: d'_def)
    next
      case False
      then show ?thesis using r i w(1,2) cap by (auto simp: run_end_def recv_shape)
    qed
  qed
qed

lemma dir_ok_place:
  assumes "dir_ok d" "rd_have_base d" "rd_buf d = Some buf" "rd_filled d = Some filled" "base < rd_cap d"
    and p: "p \<noteq> []" "base + length p < 2 ^ 32"
  shows "dir_ok (reass_place d buf filled base p)"
proof -
  let ?d = "reass_place d buf filled base p"
  have sh: "dir_shape d" using assms(1) by (simp add: dir_ok_def)
  have b: "length buf = rd_cap d" "rd_cap d \<le> bm_size filled"
    using sh assms(3,4) by (auto elim!: dir_shapeE)
  have mx: "rd_max_off ?d = max (rd_max_off d) (seg_end (rd_cap d) base p)"
    using reass_place_write [OF assms(3,4) b assms(5), of p] by auto
  have se: "seg_end (rd_cap d) base p \<le> rd_cap d" by (simp add: seg_end_def Let_def)
  have beyond: "\<forall>i \<ge> rd_max_off ?d. recv ?d i = None"
    using recv_place [OF sh assms(3,4,5), of p] assms(1) mx by (simp add: dir_ok_def)
  have e: "base < seg_end (rd_cap d) base p"
    using p assms(5) by (simp add: seg_end_nowrap [OF p(2)])
  have top: "0 < rd_max_off ?d \<longrightarrow> recv ?d (rd_max_off ?d - 1) \<noteq> None"
    using recv_place [OF sh assms(3,4,5), of p "rd_max_off ?d - 1"] assms(1) e mx
    by (auto simp: dir_ok_def max_def split: if_splits option.splits)
  note n = next_off_place [OF assms(1,3,4,5), of p]
  have "rd_next_off ?d \<le> rd_max_off ?d"
    using n(3) beyond by (metis not_le_imp_less order_refl)
  moreover have "dir_shape ?d" using dir_shape_place [OF sh assms(3,4,5)] .
  ultimately show ?thesis
    using assms(1,2) n beyond top mx se by (simp add: dir_ok_def)
qed

section \<open>Feeding the matcher\<close>

lemma put_dir_simps [simp]:
  "rf_dir (put_dir rf dir d) = (rf_dir rf)[dir := d]" "rf_ac (put_dir rf dir d) = rf_ac rf"
  "rf_failed (put_dir rf dir d) = rf_failed rf"
  by (simp_all add: put_dir_def)

lemma put_dir_same: "put_dir rf dir (rf_dir rf ! dir) = rf"
  by (simp add: put_dir_def)

lemma reass_feed_spec:
  fixes cb :: "'c reass_match_cb option" and ctx :: 'c and lo hi :: nat
  assumes rd: "ac_reads ac dict (rd_ac_state (rf_dir rf ! dir)) pre"
    and buf: "rd_buf (rf_dir rf ! dir) = Some buf"
  defines "R \<equiv> feed_hits (feed_trampoline cb rf dir) (ac_hits dict pre lo (take (hi - lo) (drop lo buf))) ctx"
  shows "\<exists>st. reass_feed ac rf dir lo hi cb ctx =
      Some (put_dir rf dir ((rf_dir rf ! dir)\<lparr>rd_ac_state := st, rd_scanned := hi\<rparr>), snd (snd R)) \<and>
    (\<not> fst (snd R) \<longrightarrow> ac_reads ac dict st (pre @ take (hi - lo) (drop lo buf))) \<and>
    (\<exists>q. ac_reads ac dict st (pre @ q))"
  using ac_stream.scan_reads [OF rd, of "take (hi - lo) (drop lo buf)" lo
      "feed_trampoline cb rf dir" ctx] buf
  by (auto simp: reass_feed_def R_def Let_def)

lemma unread_slice:
  assumes "dir_ok d" "rd_buf d = Some buf"
  shows "take (feed_to d - rd_scanned d) (drop (rd_scanned d) buf) = unread d"
proof -
  have "feed_to d \<le> rd_next_off d" by (simp add: feed_to_def)
  then show ?thesis
    using assms by (simp add: unread_def stream_take drop_take min_def)
qed

lemma unread_Nil: "feed_to d \<le> rd_scanned d \<Longrightarrow> unread d = []"
  by (simp add: unread_def)

lemma reass_feed_new_spec:
  fixes cb :: "'c reass_match_cb option" and ctx :: 'c
  assumes ok: "dir_ok (rf_dir rf ! dir)" and ac: "rf_ac rf = Some ac"
    and rd: "ac_reads ac dict (rd_ac_state (rf_dir rf ! dir)) pre"
  defines "d \<equiv> rf_dir rf ! dir"
  defines "R \<equiv> feed_hits (feed_trampoline cb rf dir) (ac_hits dict pre (rd_scanned d) (unread d)) ctx"
  shows "\<exists>st. reass_feed_new rf dir cb ctx =
      Some (put_dir rf dir (d\<lparr>rd_ac_state := st, rd_scanned := max (rd_scanned d) (feed_to d)\<rparr>), snd (snd R)) \<and>
    (\<not> fst (snd R) \<longrightarrow> ac_reads ac dict st (pre @ unread d)) \<and>
    (\<exists>q. ac_reads ac dict st (pre @ q))"
proof (cases "feed_to d > rd_scanned d")
  case True
  obtain buf where buf: "rd_buf d = Some buf" using ok by (auto simp: d_def dir_ok_def dir_shape_def)
  show ?thesis
    using reass_feed_spec [OF rd, where buf = buf and cb = cb and lo = "rd_scanned d" and hi = "feed_to d" and ctx = ctx] True buf ac
      unread_slice [OF ok, of buf]
    by (simp add: reass_feed_new_def Let_def d_def R_def max_def)
next
  case False
  then have u: "unread d = []" by (simp add: unread_Nil)
  have "reass_feed_new rf dir cb ctx = Some (put_dir rf dir d, ctx)"
    using False ac by (simp add: reass_feed_new_def d_def put_dir_same)
  moreover have "d\<lparr>rd_ac_state := rd_ac_state d, rd_scanned := max (rd_scanned d) (feed_to d)\<rparr> = d"
    using False by (simp add: max_def)
  moreover have "R = (0, False, ctx)" by (simp add: R_def u ac_hits_def)
  ultimately show ?thesis using rd u by (intro exI [of _ "rd_ac_state d"]) (auto simp: d_def intro: exI [of _ "[]"])
qed

lemma reass_feed_new_no_ac: "rf_ac rf = None \<Longrightarrow> reass_feed_new rf dir cb ctx = Some (rf, ctx)"
  by (simp add: reass_feed_new_def)

section \<open>One segment\<close>

text \<open>The offset of a segment in the window, once the first segment has fixed the base.\<close>

definition seg_off :: "u32 \<Rightarrow> reass_dir \<Rightarrow> int" where
  "seg_off seq d = sint (seq - rd_base_seq (rebased seq d))"

lemma rebased_simps [simp]:
  "rd_buf (rebased seq d) = rd_buf d" "rd_filled (rebased seq d) = rd_filled d"
  "rd_cap (rebased seq d) = rd_cap d" "rd_next_off (rebased seq d) = rd_next_off d"
  "rd_max_off (rebased seq d) = rd_max_off d" "rd_scanned (rebased seq d) = rd_scanned d"
  "rd_scan_limit (rebased seq d) = rd_scan_limit d" "rd_ac_state (rebased seq d) = rd_ac_state d"
  "rd_have_base (rebased seq d)" "feed_to (rebased seq d) = feed_to d"
  by (simp_all add: rebased_def feed_to_def)

lemma recv_rebased [simp]: "recv (rebased seq d) = recv d"
  by (rule recv_cong) simp_all

lemma dir_ok_rebased [simp]: "dir_ok d \<Longrightarrow> dir_ok (rebased seq d)"
  by (simp add: dir_ok_def dir_shape_def)

lemma recv_update [simp]:
  "recv (d\<lparr>rd_ac_state := st\<rparr>) = recv d" "recv (d\<lparr>rd_scanned := k\<rparr>) = recv d"
  "recv (d\<lparr>rd_scan_limit := l\<rparr>) = recv d"
  by (rule recv_cong; simp)+

lemma dir_ok_scanned:
  "dir_ok d \<Longrightarrow> k \<le> rd_next_off d \<Longrightarrow> dir_ok (d\<lparr>rd_ac_state := st, rd_scanned := k\<rparr>)"
  by (simp add: dir_ok_def dir_shape_def)

text \<open>A segment that brings no byte into the window.\<close>

definition seg_misses :: "nat \<Rightarrow> int \<Rightarrow> bytes \<Rightarrow> bool" where
  "seg_misses cap off bs \<longleftrightarrow> off + int (length bs) \<le> 0 \<or> int cap \<le> off"

lemma seg_bytes_misses: "seg_misses cap off bs \<Longrightarrow> seg_bytes cap off bs = Map.empty"
  by (auto simp: seg_misses_def seg_bytes_def)

lemma seg_bytes_clip:
  "off < 0 \<Longrightarrow> seg_bytes cap (int (nat off)) (drop (nat (- off)) bs) = seg_bytes cap off bs"
proof
  fix i
  assume off: "off < 0"
  then have "nat (- off) + i = nat (int i - off)" by linarith
  then show "seg_bytes cap (int (nat off)) (drop (nat (- off)) bs) i = seg_bytes cap off bs i"
    using off by (auto simp: seg_bytes_def less_diff_conv add.commute)
qed

text \<open>Data beyond the window while a gap is open: the test of the second early return.\<close>

definition gap_beyond :: "reass_dir \<Rightarrow> int \<Rightarrow> bool" where
  "gap_beyond d off \<longleftrightarrow> int (rd_cap d) \<le> off \<and> rd_next_off d < rd_cap d \<and>
     nat off - rd_next_off d > REASS_GAP_LIMIT"

lemma reass_segment_misses:
  assumes "0 \<le> dir" "dir \<le> 1" "\<not> rf_failed rf" "bs \<noteq> []"
    and d: "rd_buf (rf_dir rf ! nat dir) = Some buf" "rd_filled (rf_dir rf ! nat dir) = Some filled"
    and "0 < rd_cap (rf_dir rf ! nat dir)"
    and m: "seg_misses (rd_cap (rf_dir rf ! nat dir)) (seg_off seq (rf_dir rf ! nat dir)) bs"
  shows "reass_segment fed rf dir seq (Some bs) cb ctx =
    (let d = rf_dir rf ! nat dir; gap = gap_beyond d (seg_off seq d) in
     Some (if gap then REASS_FAILCLOSED else REASS_OK, fed,
           (put_dir rf (nat dir) (rebased seq d))\<lparr>rf_failed := gap\<rparr>, ctx))"
proof -
  define off where "off = sint (seq - rd_base_seq (rebased seq (rf_dir rf ! nat dir)))"
  have "off < 0 \<and> length bs \<le> nat (- off) \<or> 0 \<le> off \<and> rd_cap (rf_dir rf ! nat dir) \<le> nat off"
    using m assms(4) by (cases bs) (auto simp: seg_misses_def seg_off_def off_def [symmetric])
  then show ?thesis
    using assms(1-7) unfolding reass_segment_def Let_def seg_off_def off_def [symmetric] gap_beyond_def
    by (cases "off < 0") (auto simp: put_dir_def le_nat_iff)
qed

lemma reass_segment_place:
  assumes "0 \<le> dir" "dir \<le> 1" "\<not> rf_failed rf" "bs \<noteq> []"
    and d: "rd_buf (rf_dir rf ! nat dir) = Some buf" "rd_filled (rf_dir rf ! nat dir) = Some filled"
    and c: "0 < rd_cap (rf_dir rf ! nat dir)"
    and m: "\<not> seg_misses (rd_cap (rf_dir rf ! nat dir)) (seg_off seq (rf_dir rf ! nat dir)) bs"
  shows "reass_segment fed rf dir seq (Some bs) cb ctx =
    (let d = rf_dir rf ! nat dir; off = seg_off seq d;
         d2 = reass_place (rebased seq d) buf filled (nat off) (drop (nat (- off)) bs);
         gap = (rd_next_off d2 < rd_cap d2 \<and> rd_max_off d2 - rd_next_off d2 > REASS_GAP_LIMIT)
     in map_option (\<lambda>(rf3, ctx').
          (if gap then REASS_FAILCLOSED else REASS_OK,
           if rf_ac rf \<noteq> None \<and> feed_to d2 > rd_scanned d2
             then fed + of_nat (feed_to d2 - rd_scanned d2) else fed,
           rf3\<lparr>rf_failed := gap \<or> rf_failed rf3\<rparr>, ctx'))
        (reass_feed_new (put_dir rf (nat dir) d2) (nat dir) cb ctx))"
proof -
  define off where "off = sint (seq - rd_base_seq (rebased seq (rf_dir rf ! nat dir)))"
  have "\<not> (off < 0 \<and> length bs \<le> nat (- off))" "\<not> rd_cap (rf_dir rf ! nat dir) \<le> nat off"
    using m c by (auto simp: seg_misses_def seg_off_def off_def [symmetric])
  then show ?thesis
    using assms(1-6) unfolding reass_segment_def Let_def seg_off_def off_def [symmetric]
    by (cases "off < 0") (auto split: option.split)
qed

text \<open>
  The matcher has read the bytes between the two scan positions, after \<open>pre\<close>: the callback got
  their hits, with the flow as it stood before the positions moved.
\<close>

definition new_bytes :: "reass_dir \<Rightarrow> reass_dir \<Rightarrow> bytes" where
  "new_bytes d d' = take (rd_scanned d' - rd_scanned d) (drop (rd_scanned d) (stream d'))"

definition reading_flow :: "reass_flow \<Rightarrow> nat \<Rightarrow> reass_dir \<Rightarrow> reass_dir \<Rightarrow> reass_flow" where
  "reading_flow rf dir d d' =
     put_dir rf dir (d'\<lparr>rd_ac_state := rd_ac_state d, rd_scanned := rd_scanned d\<rparr>)"

definition has_read ::
  "bool \<times> (bytes \<rightharpoonup> nat) \<Rightarrow> ac_automaton \<Rightarrow> 'c match_cb \<Rightarrow> bytes \<Rightarrow> reass_dir \<Rightarrow> reass_dir \<Rightarrow> 'c \<Rightarrow> 'c \<Rightarrow> bool"
where
  "has_read dict ac cb pre d d' ctx ctx' \<longleftrightarrow>
     (let R = feed_hits cb (ac_hits dict pre (rd_scanned d) (new_bytes d d')) ctx in
      ctx' = snd (snd R) \<and>
      (\<not> fst (snd R) \<longrightarrow> ac_reads ac dict (rd_ac_state d') (pre @ new_bytes d d')) \<and>
      (\<exists>q. ac_reads ac dict (rd_ac_state d') (pre @ q)))"

lemma has_read_nothing:
  assumes "ac_reads ac dict (rd_ac_state d) pre" "rd_ac_state d' = rd_ac_state d" "rd_scanned d' = rd_scanned d"
  shows "has_read dict ac cb pre d d' ctx ctx"
  using assms by (auto simp: has_read_def new_bytes_def ac_hits_def Let_def intro: exI [of _ "[]"])

text \<open>The feed at the end of an operation, on a direction that satisfies the invariant.\<close>

lemma stream_cong:
  "recv d' = recv d \<Longrightarrow> rd_next_off d' = rd_next_off d \<Longrightarrow> stream d' = stream d"
  by (simp add: stream_def)

lemma feed_new_ok:
  assumes ok: "dir_ok d2" and dir: "dir < length (rf_dir rf)"
    and ac: "\<forall>ac. rf_ac rf = Some ac \<longrightarrow> ac_reads ac dict (rd_ac_state d2) pre"
  shows "\<exists>d' ctx'. reass_feed_new (put_dir rf dir d2) dir cb ctx = Some (put_dir rf dir d', ctx') \<and>
    (\<exists>st k. d' = d2\<lparr>rd_ac_state := st, rd_scanned := k\<rparr> \<and> k \<le> rd_next_off d2) \<and>
    (rf_ac rf = None \<longrightarrow> d' = d2 \<and> ctx' = ctx) \<and>
    (\<forall>ac. rf_ac rf = Some ac \<longrightarrow> rd_scanned d' = max (rd_scanned d2) (feed_to d2) \<and>
       has_read dict ac (feed_trampoline cb (reading_flow rf dir d2 d') dir) pre d2 d' ctx ctx')"
proof (cases "rf_ac rf")
  case None
  have "d2 = d2\<lparr>rd_ac_state := rd_ac_state d2, rd_scanned := rd_scanned d2\<rparr>" by simp
  moreover have "rd_scanned d2 \<le> rd_next_off d2" using ok by (simp add: dir_ok_def)
  ultimately have "\<exists>st k. d2 = d2\<lparr>rd_ac_state := st, rd_scanned := k\<rparr> \<and> k \<le> rd_next_off d2" by blast
  then show ?thesis using None by (intro exI [of _ d2] exI [of _ ctx]) (simp add: reass_feed_new_no_ac)
next
  case (Some a)
  let ?rf = "put_dir rf dir d2"
  have d: "rf_dir ?rf ! dir = d2" using dir by simp
  define R where "R = feed_hits (feed_trampoline cb ?rf dir) (ac_hits dict pre (rd_scanned d2) (unread d2)) ctx"
  obtain st where st: "reass_feed_new ?rf dir cb ctx =
      Some (put_dir ?rf dir (d2\<lparr>rd_ac_state := st, rd_scanned := max (rd_scanned d2) (feed_to d2)\<rparr>), snd (snd R))"
      "\<not> fst (snd R) \<longrightarrow> ac_reads a dict st (pre @ unread d2)" "\<exists>q. ac_reads a dict st (pre @ q)"
    using reass_feed_new_spec [where rf = ?rf and dir = dir and ac = a and dict = dict and pre = pre and cb = cb
        and ctx = ctx] ok ac [rule_format, OF Some] Some d unfolding R_def by auto
  define d' where "d' = d2\<lparr>rd_ac_state := st, rd_scanned := max (rd_scanned d2) (feed_to d2)\<rparr>"
  have "stream d' = stream d2" by (rule stream_cong) (simp_all add: d'_def)
  then have nb: "new_bytes d2 d' = unread d2" by (simp add: new_bytes_def unread_def d'_def max_def)
  have "reading_flow rf dir d2 d' = ?rf" by (simp add: reading_flow_def d'_def)
  then have "has_read dict a (feed_trampoline cb (reading_flow rf dir d2 d') dir) pre d2 d' ctx (snd (snd R))"
    using st(2,3) nb by (simp add: has_read_def Let_def R_def d'_def)
  moreover have "put_dir ?rf dir d' = put_dir rf dir d'" by (simp add: put_dir_def)
  moreover have "max (rd_scanned d2) (feed_to d2) \<le> rd_next_off d2"
    using ok by (simp add: dir_ok_def feed_to_def)
  moreover have "rd_scanned d' = max (rd_scanned d2) (feed_to d2)" by (simp add: d'_def)
  ultimately show ?thesis
    using st(1) Some unfolding d'_def [symmetric] by (metis d'_def option.distinct(1) option.inject)
qed

text \<open>
  The whole segment on a flow that satisfies the invariant: what the direction holds afterwards,
  and what the matcher has read.
\<close>

definition seg_post ::
  "bool \<times> (bytes \<rightharpoonup> nat) \<Rightarrow> reass_flow \<Rightarrow> nat \<Rightarrow> u32 \<Rightarrow> bytes \<Rightarrow> 'c reass_match_cb option \<Rightarrow> bytes \<Rightarrow> 'c \<Rightarrow>
   int \<Rightarrow> reass_dir \<Rightarrow> 'c \<Rightarrow> bool" where
  "seg_post dict rf dir seq bs cb pre ctx rc d' ctx' \<longleftrightarrow>
     (let d = rf_dir rf ! dir in
      dir_ok d' \<and> recv d' = seg_bytes (rd_cap d) (seg_off seq d) bs ++ recv d \<and>
      rd_cap d' = rd_cap d \<and> rd_scan_limit d' = rd_scan_limit d \<and> rd_have_base d' \<and>
      rd_base_seq d' = rd_base_seq (rebased seq d) \<and>
      (rc = REASS_OK \<longrightarrow> rd_max_off d' - rd_next_off d' \<le> REASS_GAP_LIMIT) \<and>
      (rc \<noteq> REASS_OK \<longrightarrow> gap_beyond d (seg_off seq d) \<or> rd_max_off d' - rd_next_off d' > REASS_GAP_LIMIT) \<and>
      (rf_ac rf = None \<longrightarrow> ctx' = ctx) \<and>
      (\<forall>ac. rf_ac rf = Some ac \<longrightarrow> feed_to d' \<le> rd_scanned d' \<and>
         has_read dict ac (feed_trampoline cb (reading_flow rf dir d d') dir) pre d d' ctx ctx'))"

lemma seg_post_misses:
  assumes ok: "flow_ok dict rf" "\<not> rf_failed rf" and dir: "dir < 2"
    and rc: "rc \<noteq> REASS_OK \<Longrightarrow> gap_beyond (rf_dir rf ! dir) (seg_off seq (rf_dir rf ! dir))"
    and m: "seg_misses (rd_cap (rf_dir rf ! dir)) (seg_off seq (rf_dir rf ! dir)) bs"
    and pre: "\<And>ac. rf_ac rf = Some ac \<Longrightarrow> ac_reads ac dict (rd_ac_state (rf_dir rf ! dir)) pre"
  shows "seg_post dict rf dir seq bs cb pre ctx rc (rebased seq (rf_dir rf ! dir)) ctx"
proof -
  have "rf_dir rf ! dir \<in> set (rf_dir rf)" using ok dir by (simp add: flow_ok_def)
  then show ?thesis
    using ok pre seg_bytes_misses [OF m] rc
    by (auto simp: seg_post_def Let_def flow_ok_def intro!: has_read_nothing)
qed

lemma has_read_cong:
  assumes "rd_ac_state d2 = rd_ac_state d" "rd_scanned d2 = rd_scanned d"
  shows "reading_flow rf dir d2 d' = reading_flow rf dir d d'"
    and "has_read dict ac cb pre d2 d' ctx ctx' = has_read dict ac cb pre d d' ctx ctx'"
  using assms by (simp_all add: reading_flow_def has_read_def new_bytes_def)

lemma flow_okD:
  assumes "flow_ok dict rf" "dir < 2"
  shows "length (rf_dir rf) = 2" "dir_ok (rf_dir rf ! dir)"
    "\<not> rf_failed rf \<Longrightarrow> rd_max_off (rf_dir rf ! dir) - rd_next_off (rf_dir rf ! dir) \<le> REASS_GAP_LIMIT"
    "rf_ac rf = Some ac \<Longrightarrow> ac_compiled ac dict"
    "rf_ac rf = Some ac \<Longrightarrow> feed_to (rf_dir rf ! dir) \<le> rd_scanned (rf_dir rf ! dir)"
    "rf_ac rf = Some ac \<Longrightarrow> \<exists>pre. ac_reads ac dict (rd_ac_state (rf_dir rf ! dir)) pre"
proof -
  have "rf_dir rf ! dir \<in> set (rf_dir rf)" using assms by (simp add: flow_ok_def)
  then show "length (rf_dir rf) = 2" "dir_ok (rf_dir rf ! dir)"
    "\<not> rf_failed rf \<Longrightarrow> rd_max_off (rf_dir rf ! dir) - rd_next_off (rf_dir rf ! dir) \<le> REASS_GAP_LIMIT"
    "rf_ac rf = Some ac \<Longrightarrow> ac_compiled ac dict"
    "rf_ac rf = Some ac \<Longrightarrow> feed_to (rf_dir rf ! dir) \<le> rd_scanned (rf_dir rf ! dir)"
    "rf_ac rf = Some ac \<Longrightarrow> \<exists>pre. ac_reads ac dict (rd_ac_state (rf_dir rf ! dir)) pre"
    using assms(1) by (auto simp: flow_ok_def)
qed

lemma place_segment:
  assumes ok: "dir_ok d" and m: "\<not> seg_misses (rd_cap d) (seg_off seq d) bs" and ne: "bs \<noteq> []"
    and b: "rd_buf d = Some buf" "rd_filled d = Some filled" and w: "rd_cap d + length bs < 2 ^ 32"
  defines "d2 \<equiv> reass_place (rebased seq d) buf filled (nat (seg_off seq d)) (drop (nat (- seg_off seq d)) bs)"
  shows "dir_ok d2" "recv d2 = seg_bytes (rd_cap d) (seg_off seq d) bs ++ recv d"
proof -
  let ?off = "seg_off seq d"
  have c: "nat ?off < rd_cap (rebased seq d)"
    using m ok by (auto simp: seg_misses_def dir_ok_def dir_shape_def)
  have sh: "dir_shape (rebased seq d)" using dir_ok_rebased [OF ok] by (simp add: dir_ok_def)
  have p: "drop (nat (- ?off)) bs \<noteq> []" "nat ?off + length (drop (nat (- ?off)) bs) < 2 ^ 32"
    using m w c ne by (cases "?off < 0"; simp add: seg_misses_def; linarith)+
  show "dir_ok d2"
    unfolding d2_def using dir_ok_place [OF dir_ok_rebased [OF ok] _ _ _ c p] b by simp
  have "recv d2 = seg_bytes (rd_cap d) (int (nat ?off)) (drop (nat (- ?off)) bs) ++ recv d"
    unfolding d2_def using recv_place_merge [OF sh _ _ c] b w c by simp
  then show "recv d2 = seg_bytes (rd_cap d) ?off bs ++ recv d"
    using seg_bytes_clip [of ?off] by (cases "?off < 0") simp_all
qed

lemma reass_segment_step:
  assumes ok: "flow_ok dict rf" "\<not> rf_failed rf" and dir: "0 \<le> dir" "dir \<le> 1" and ne: "bs \<noteq> []"
    and w: "rd_cap (rf_dir rf ! nat dir) + length bs < 2 ^ 32"
    and pre: "\<And>ac. rf_ac rf = Some ac \<Longrightarrow> ac_reads ac dict (rd_ac_state (rf_dir rf ! nat dir)) pre"
  shows "\<exists>rc fed' d' ctx'. reass_segment fed rf dir seq (Some bs) cb ctx =
      Some (rc, fed', (put_dir rf (nat dir) d')\<lparr>rf_failed := rc \<noteq> REASS_OK\<rparr>, ctx') \<and>
    rc \<in> {REASS_OK, REASS_FAILCLOSED} \<and> seg_post dict rf (nat dir) seq bs cb pre ctx rc d' ctx'"
proof -
  let ?d = "rf_dir rf ! nat dir"
  have n: "nat dir < 2" using dir by simp
  note fk = flow_okD [OF ok(1) n]
  obtain buf filled where b: "rd_buf ?d = Some buf" "rd_filled ?d = Some filled" and c: "0 < rd_cap ?d"
    using fk(2) by (auto simp: dir_ok_def dir_shape_def)
  have codes: "REASS_FAILCLOSED \<noteq> REASS_OK" by (simp add: REASS_FAILCLOSED_def REASS_OK_def)
  show ?thesis
  proof (cases "seg_misses (rd_cap ?d) (seg_off seq ?d) bs")
    case True
    define rc where "rc = (if gap_beyond ?d (seg_off seq ?d) then REASS_FAILCLOSED else REASS_OK)"
    have "reass_segment fed rf dir seq (Some bs) cb ctx =
        Some (rc, fed, (put_dir rf (nat dir) (rebased seq ?d))\<lparr>rf_failed := rc \<noteq> REASS_OK\<rparr>, ctx)"
      using reass_segment_misses [OF dir ok(2) ne b c True, of fed cb ctx] codes by (simp add: rc_def Let_def)
    moreover have "rc \<in> {REASS_OK, REASS_FAILCLOSED}" by (simp add: rc_def)
    moreover have "seg_post dict rf (nat dir) seq bs cb pre ctx rc (rebased seq ?d) ctx"
      using ok n _ True pre by (rule seg_post_misses) (simp add: rc_def split: if_splits)
    ultimately show ?thesis by (intro exI conjI)
  next
    case False
    define d2 where "d2 = reass_place (rebased seq ?d) buf filled (nat (seg_off seq ?d))
        (drop (nat (- seg_off seq ?d)) bs)"
    note d2 = place_segment [OF fk(2) False ne b w, folded d2_def]
    have f2: "rd_ac_state d2 = rd_ac_state ?d" "rd_scanned d2 = rd_scanned ?d" "rd_cap d2 = rd_cap ?d"
        "rd_scan_limit d2 = rd_scan_limit ?d" "rd_have_base d2" "rd_base_seq d2 = rd_base_seq (rebased seq ?d)"
      by (simp_all add: d2_def)
    define gap where "gap \<longleftrightarrow> rd_next_off d2 < rd_cap d2 \<and> rd_max_off d2 - rd_next_off d2 > REASS_GAP_LIMIT"
    have len: "nat dir < length (rf_dir rf)" using fk(1) n by simp
    have pre2: "\<forall>ac. rf_ac rf = Some ac \<longrightarrow> ac_reads ac dict (rd_ac_state d2) pre"
      using pre f2(1) by simp
    obtain d' ctx' st k where fed: "reass_feed_new (put_dir rf (nat dir) d2) (nat dir) cb ctx =
          Some (put_dir rf (nat dir) d', ctx')"
        and d': "d' = d2\<lparr>rd_ac_state := st, rd_scanned := k\<rparr>" "k \<le> rd_next_off d2"
        and no: "rf_ac rf = None \<longrightarrow> d' = d2 \<and> ctx' = ctx"
        and yes: "\<forall>ac. rf_ac rf = Some ac \<longrightarrow> rd_scanned d' = max (rd_scanned d2) (feed_to d2) \<and>
          has_read dict ac (feed_trampoline cb (reading_flow rf (nat dir) d2 d') (nat dir)) pre d2 d' ctx ctx'"
      using feed_new_ok [OF d2(1) len pre2, of cb ctx] by (elim exE conjE) (rule that)
    have f': "recv d' = recv d2" "rd_next_off d' = rd_next_off d2" "rd_max_off d' = rd_max_off d2"
        "rd_cap d' = rd_cap ?d" "rd_scan_limit d' = rd_scan_limit ?d" "rd_have_base d'"
        "rd_base_seq d' = rd_base_seq (rebased seq ?d)" "feed_to d' = feed_to d2"
      using f2 by (simp_all add: d'(1) feed_to_def)
    have "gap \<longleftrightarrow> REASS_GAP_LIMIT < rd_max_off d2 - rd_next_off d2"
      using d2(1) by (auto simp: gap_def dir_ok_def)
    moreover have "dir_ok d'" using dir_ok_scanned [OF d2(1) d'(2)] d'(1) by simp
    moreover have "feed_to d' \<le> rd_scanned d'" if "rf_ac rf = Some ac" for ac
      using yes that f'(8) by auto
    ultimately have "seg_post dict rf (nat dir) seq bs cb pre ctx (if gap then REASS_FAILCLOSED else REASS_OK) d' ctx'"
      using no yes codes unfolding seg_post_def Let_def has_read_cong [OF f2(1,2)] f' d2(2) by (simp add: f'(6))
    moreover have "\<exists>fed'. reass_segment fed rf dir seq (Some bs) cb ctx =
        Some (if gap then REASS_FAILCLOSED else REASS_OK, fed', (put_dir rf (nat dir) d')
          \<lparr>rf_failed := (if gap then REASS_FAILCLOSED else REASS_OK) \<noteq> REASS_OK\<rparr>, ctx')"
      using fed codes ok(2)
      unfolding reass_segment_place [OF dir ok(2) ne b c False, of fed cb ctx] Let_def
        d2_def [symmetric] gap_def [symmetric] by simp
    moreover have "(if gap then REASS_FAILCLOSED else REASS_OK) \<in> {REASS_OK, REASS_FAILCLOSED}" by simp
    ultimately show ?thesis by (elim exE) (intro exI conjI)
  qed
qed

lemma flow_ok_put:
  assumes ok: "flow_ok dict rf" and dir: "dir < 2" and d': "dir_ok d'"
    and gap: "\<not> f \<Longrightarrow> \<not> rf_failed rf \<and> rd_max_off d' - rd_next_off d' \<le> REASS_GAP_LIMIT"
    and ac: "\<And>ac. rf_ac rf = Some ac \<Longrightarrow> feed_to d' \<le> rd_scanned d' \<and> (\<exists>pre. ac_reads ac dict (rd_ac_state d') pre)"
  shows "flow_ok dict ((put_dir rf dir d')\<lparr>rf_failed := f\<rparr>)"
proof -
  have "set ((rf_dir rf)[dir := d']) \<subseteq> insert d' (set (rf_dir rf))" by (rule set_update_subset_insert)
  then show ?thesis using ok d' gap ac by (simp add: flow_ok_def) blast
qed

lemma put_dir_failed_same: "\<not> rf_failed rf \<Longrightarrow> (put_dir rf dir d)\<lparr>rf_failed := False\<rparr> = put_dir rf dir d"
  by (cases rf) (simp add: put_dir_def)

lemma has_read_state: "has_read dict ac cb pre d d' ctx ctx' \<Longrightarrow> \<exists>q. ac_reads ac dict (rd_ac_state d') q"
  by (auto simp: has_read_def Let_def)

lemma map_cap_update: "rd_cap d' = rd_cap (ds ! i) \<Longrightarrow> map rd_cap (ds[i := d']) = map rd_cap ds"
  by (metis list_update_id map_update)

lemma reass_segment_flow_ok:
  assumes "flow_ok dict rf" and w: "rd_cap (rf_dir rf ! nat dir) + length bs < 2 ^ 32"
  shows "\<exists>rc fed' rf' ctx'. reass_segment fed rf dir seq (Some bs) cb ctx = Some (rc, fed', rf', ctx') \<and>
    flow_ok dict rf' \<and> rf_ac rf' = rf_ac rf \<and> map rd_cap (rf_dir rf') = map rd_cap (rf_dir rf)"
proof (cases "dir < 0 \<or> dir > 1 \<or> rf_failed rf \<or> bs = []")
  case True
  then show ?thesis
  proof (cases "dir < 0 \<or> dir > 1 \<or> rf_failed rf")
    case False
    then have "nat dir < 2" by linarith
    then have "dir_ok (rf_dir rf ! nat dir)" by (rule flow_okD(2) [OF assms(1)])
    then show ?thesis using False True assms(1)
      by (auto simp: reass_segment_def Let_def dir_ok_def dir_shape_def)
  qed (use assms(1) in \<open>auto simp: reass_segment_def\<close>)
next
  case False
  then have n: "nat dir < 2" "0 \<le> dir" "dir \<le> 1" "bs \<noteq> []" "\<not> rf_failed rf" by auto
  obtain pre where "\<And>ac. rf_ac rf = Some ac \<Longrightarrow> ac_reads ac dict (rd_ac_state (rf_dir rf ! nat dir)) pre"
    using flow_okD(6) [OF assms(1) n(1)] by (metis option.inject)
  then obtain rc fed' d' ctx' where r: "reass_segment fed rf dir seq (Some bs) cb ctx =
      Some (rc, fed', (put_dir rf (nat dir) d')\<lparr>rf_failed := rc \<noteq> REASS_OK\<rparr>, ctx')"
      "seg_post dict rf (nat dir) seq bs cb pre ctx rc d' ctx'"
    using reass_segment_step [OF assms(1) n(5,2,3,4) w, of pre fed seq cb ctx] by blast
  have "flow_ok dict ((put_dir rf (nat dir) d')\<lparr>rf_failed := rc \<noteq> REASS_OK\<rparr>)"
    using r(2) n by (intro flow_ok_put [OF assms(1) n(1)]) (auto simp: seg_post_def Let_def dest: has_read_state)
  moreover have "map rd_cap ((rf_dir rf)[nat dir := d']) = map rd_cap (rf_dir rf)"
    using r(2) by (intro map_cap_update) (simp add: seg_post_def Let_def)
  ultimately show ?thesis using r(1) by auto
qed

section \<open>Reading the window again\<close>

definition restarted :: "reass_dir \<Rightarrow> reass_dir" where
  "restarted d = d\<lparr>rd_ac_state := 0, rd_scanned := 0, rd_scan_limit := rd_cap d\<rparr>"

lemma restarted_simps [simp]:
  "recv (restarted d) = recv d" "rd_next_off (restarted d) = rd_next_off d" "rd_max_off (restarted d) = rd_max_off d"
  "rd_cap (restarted d) = rd_cap d" "rd_buf (restarted d) = rd_buf d" "rd_filled (restarted d) = rd_filled d"
  "rd_have_base (restarted d) = rd_have_base d" "rd_ac_state (restarted d) = 0" "rd_scanned (restarted d) = 0"
  "rd_scan_limit (restarted d) = rd_cap d" "stream (restarted d) = stream d"
  by (simp_all add: restarted_def stream_def)

lemma dir_ok_restarted [simp]: "dir_ok d \<Longrightarrow> dir_ok (restarted d)"
  by (simp add: dir_ok_def dir_shape_def)

lemma feed_to_restarted: "dir_ok d \<Longrightarrow> feed_to (restarted d) = rd_next_off d"
  by (auto simp: feed_to_def dir_ok_def)

lemma reass_rescan_feed_new:
  assumes "dir_ok (rf_dir rf ! dir)" "dir < length (rf_dir rf)" "rf_ac rf = ac"
  shows "reass_rescan ac rf dir cb ctx = reass_feed_new (put_dir rf dir (restarted (rf_dir rf ! dir))) dir cb ctx"
  using assms feed_to_restarted [OF assms(1)]
  by (auto simp: reass_rescan_def reass_feed_new_def Let_def restarted_def [symmetric] dir_ok_def dir_shape_def
      split: option.split)

text \<open>A direction after the window was read again from its start.\<close>

definition reread ::
  "bool \<times> (bytes \<rightharpoonup> nat) \<Rightarrow> reass_flow \<Rightarrow> nat \<Rightarrow> 'c reass_match_cb option \<Rightarrow> reass_dir \<Rightarrow> 'c \<Rightarrow> reass_dir \<Rightarrow> 'c \<Rightarrow> bool"
where
  "reread dict rf dir cb d ctx d' ctx' \<longleftrightarrow>
     (\<exists>st k. d' = (restarted d)\<lparr>rd_ac_state := st, rd_scanned := k\<rparr>) \<and> dir_ok d' \<and>
     (rf_ac rf = None \<longrightarrow> ctx' = ctx) \<and>
     (\<forall>ac. rf_ac rf = Some ac \<longrightarrow> rd_scanned d' = rd_next_off d \<and>
        has_read dict ac (feed_trampoline cb (reading_flow rf dir (restarted d) d') dir) [] (restarted d) d' ctx ctx')"

lemma reass_rescan_ok:
  assumes "dir_ok (rf_dir rf ! dir)" "dir < length (rf_dir rf)"
    and c: "\<And>ac. rf_ac rf = Some ac \<Longrightarrow> ac_compiled ac dict"
  shows "\<exists>d' ctx'. reass_rescan (rf_ac rf) rf dir cb ctx = Some (put_dir rf dir d', ctx') \<and>
    reread dict rf dir cb (rf_dir rf ! dir) ctx d' ctx'"
proof -
  let ?d = "rf_dir rf ! dir"
  have pre: "\<forall>ac. rf_ac rf = Some ac \<longrightarrow> ac_reads ac dict (rd_ac_state (restarted ?d)) []"
    using c ac_stream.reads_start by simp
  obtain d' ctx' where f: "reass_feed_new (put_dir rf dir (restarted ?d)) dir cb ctx = Some (put_dir rf dir d', ctx')"
      "\<exists>st k. d' = (restarted ?d)\<lparr>rd_ac_state := st, rd_scanned := k\<rparr> \<and> k \<le> rd_next_off (restarted ?d)"
      "rf_ac rf = None \<longrightarrow> d' = restarted ?d \<and> ctx' = ctx"
      "\<forall>ac. rf_ac rf = Some ac \<longrightarrow> rd_scanned d' = max (rd_scanned (restarted ?d)) (feed_to (restarted ?d)) \<and>
        has_read dict ac (feed_trampoline cb (reading_flow rf dir (restarted ?d) d') dir) [] (restarted ?d) d' ctx ctx'"
    using feed_new_ok [OF dir_ok_restarted [OF assms(1)] assms(2) pre, of cb ctx] by metis
  have "dir_ok d'" using f(2) dir_ok_scanned [OF dir_ok_restarted [OF assms(1)]] by auto
  then have "reread dict rf dir cb ?d ctx d' ctx'"
    using f(2,3,4) feed_to_restarted [OF assms(1)] unfolding reread_def by auto
  then show ?thesis using f(1) reass_rescan_feed_new [OF assms(1,2) refl, of cb ctx] by auto
qed

lemma reread_fields:
  assumes r: "reread dict rf dir cb d ctx d' ctx'"
  shows "dir_ok d'" "recv d' = recv d" "rd_next_off d' = rd_next_off d" "rd_cap d' = rd_cap d"
    "stream d' = stream d" "rd_base_seq d' = rd_base_seq d" "rd_have_base d' = rd_have_base d"
    "rd_max_off d' = rd_max_off d" "rd_buf d' = rd_buf d"
proof -
  obtain st k where d': "d' = (restarted d)\<lparr>rd_ac_state := st, rd_scanned := k\<rparr>"
    using r by (auto simp: reread_def)
  show "recv d' = recv d" "rd_next_off d' = rd_next_off d" "rd_cap d' = rd_cap d" "rd_max_off d' = rd_max_off d"
    "rd_base_seq d' = rd_base_seq d" "rd_have_base d' = rd_have_base d" "rd_buf d' = rd_buf d"
    by (simp_all add: d' restarted_def)
  then show "stream d' = stream d" by (simp add: stream_def)
  show "dir_ok d'" using r by (simp add: reread_def)
qed

lemma reread_scanned:
  assumes r: "reread dict rf dir cb d ctx d' ctx'" and ac: "rf_ac rf = Some ac"
  shows "feed_to d' \<le> rd_scanned d'" "\<exists>pre. ac_reads ac dict (rd_ac_state d') pre"
proof -
  have "rd_scanned d' = rd_next_off d'" using r ac reread_fields(3) [OF r] by (simp add: reread_def)
  then show "feed_to d' \<le> rd_scanned d'" by (simp add: feed_to_def)
  show "\<exists>pre. ac_reads ac dict (rd_ac_state d') pre" using r ac by (auto simp: reread_def dest: has_read_state)
qed

lemma length_2E:
  assumes "length xs = 2" obtains x y where "xs = [x, y]"
  using assms by (auto simp: length_Suc_conv numeral_2_eq_2)

lemma reass_flow_rebind_step:
  assumes ok: "flow_ok dict rf" and c: "\<And>a. ac = Some a \<Longrightarrow> ac_compiled a dict'"
  defines "rf1 \<equiv> rf\<lparr>rf_ac := ac\<rparr>"
  shows "\<exists>d0 d1 ctx1 ctx2. reass_flow_rebind rf ac cb ctx = Some (rf1\<lparr>rf_dir := [d0, d1]\<rparr>, ctx2) \<and>
    reread dict' rf1 0 cb (rf_dir rf ! 0) ctx d0 ctx1 \<and>
    reread dict' (put_dir rf1 0 d0) 1 cb (rf_dir rf ! 1) ctx1 d1 ctx2 \<and>
    flow_ok dict' (rf1\<lparr>rf_dir := [d0, d1]\<rparr>)"
proof -
  obtain x y where xy: "rf_dir rf = [x, y]" using ok by (auto simp: flow_ok_def elim: length_2E)
  have k: "dir_ok x" "dir_ok y" using flow_okD(2) [OF ok, of 0] flow_okD(2) [OF ok, of 1] xy by auto
  have g: "\<not> rf_failed rf \<Longrightarrow> rd_max_off x - rd_next_off x \<le> REASS_GAP_LIMIT"
    "\<not> rf_failed rf \<Longrightarrow> rd_max_off y - rd_next_off y \<le> REASS_GAP_LIMIT"
    using flow_okD(3) [OF ok, of 0] flow_okD(3) [OF ok, of 1] xy by auto
  obtain d0 ctx1 where d0: "reass_rescan ac rf1 0 cb ctx = Some (put_dir rf1 0 d0, ctx1)"
      "reread dict' rf1 0 cb x ctx d0 ctx1"
    using reass_rescan_ok [of rf1 0 dict' cb ctx] k c xy by (auto simp: rf1_def)
  obtain d1 ctx2 where d1: "reass_rescan ac (put_dir rf1 0 d0) 1 cb ctx1 = Some (put_dir (put_dir rf1 0 d0) 1 d1, ctx2)"
      "reread dict' (put_dir rf1 0 d0) 1 cb y ctx1 d1 ctx2"
    using reass_rescan_ok [of "put_dir rf1 0 d0" 1 dict' cb ctx1] k c xy by (auto simp: rf1_def)
  have put: "put_dir (put_dir rf1 0 d0) 1 d1 = rf1\<lparr>rf_dir := [d0, d1]\<rparr>"
    using xy by (simp add: put_dir_def rf1_def)
  have "flow_ok dict' (rf1\<lparr>rf_dir := [d0, d1]\<rparr>)"
    using reread_fields [OF d0(2)] reread_fields [OF d1(2)] reread_scanned [OF d0(2)] reread_scanned [OF d1(2)] xy g c
    by (auto simp: flow_ok_def rf1_def)
  then show ?thesis using d0 d1 xy put unfolding reass_flow_rebind_def rf1_def [symmetric] by auto
qed

section \<open>Dropping the head of the window\<close>

lemma reass_slide_fields [simp]:
  "rd_cap (reass_slide d buf filled n) = rd_cap d"
  "rd_ac_state (reass_slide d buf filled n) = rd_ac_state d"
  "rd_have_base (reass_slide d buf filled n) = rd_have_base d"
  "rd_base_seq (reass_slide d buf filled n) = rd_base_seq d + of_nat n"
  "rd_next_off (reass_slide d buf filled n) = rd_next_off d - n"
  "rd_max_off (reass_slide d buf filled n) = rd_max_off d - n"
  "rd_scanned (reass_slide d buf filled n) = rd_scanned d - n"
  "rd_scan_limit (reass_slide d buf filled n) = rd_scan_limit d - n"
  by (simp_all add: reass_slide_def Let_def)

lemma reass_slide_bits:
  assumes ok: "dir_ok d" and b: "rd_buf d = Some buf" "rd_filled d = Some filled"
    and n: "0 < n" "n \<le> rd_next_off d" and i: "i < rd_cap d"
  defines "keep \<equiv> rd_max_off d - n"
  shows "bit_get (fold (\<lambda>i b. bit_clear b i) [keep..<rd_max_off d] (fold (reass_slide1 n) [0..<keep] filled)) i
    \<longleftrightarrow> i < keep \<and> bit_get filled (i + n)"
proof -
  have sz: "rd_cap d \<le> bm_size filled" using ok b by (auto simp: dir_ok_def elim!: dir_shapeE)
  have mx: "n \<le> rd_max_off d" "rd_max_off d \<le> rd_cap d" using ok n by (auto simp: dir_ok_def)
  have "bit_get (fold (reass_slide1 n) [0..<keep] filled) i \<longleftrightarrow>
      (if i < keep then bit_get filled (i + n) else bit_get filled i)"
    unfolding reass_slide1_bm using bm.get_slide [of keep n filled i] sz mx i n by (simp add: keep_def)
  moreover have "\<not> bit_get filled i" if "rd_max_off d \<le> i"
    using ok that i b by (auto simp: dir_ok_def recv_shape split: if_splits)
  ultimately show ?thesis
    using bm.get_clear_range [of "[keep..<rd_max_off d]" "fold (reass_slide1 n) [0..<keep] filled" i] sz mx i
    by (auto simp: reass_slide1_bm not_less)
qed

lemma recv_slide:
  assumes ok: "dir_ok d" and b: "rd_buf d = Some buf" "rd_filled d = Some filled"
    and n: "0 < n" "n \<le> rd_next_off d"
  shows "recv (reass_slide d buf filled n) i = recv d (i + n)"
proof -
  let ?keep = "rd_max_off d - n"
  have mx: "n \<le> rd_max_off d" "rd_max_off d \<le> rd_cap d" using ok n by (auto simp: dir_ok_def)
  have len: "length buf = rd_cap d" using ok b by (auto simp: dir_ok_def elim!: dir_shapeE)
  have "rd_buf (reass_slide d buf filled n) = Some (take ?keep (drop n buf) @ drop ?keep buf)"
    and "rd_filled (reass_slide d buf filled n) =
      Some (fold (\<lambda>i b. bit_clear b i) [?keep..<rd_max_off d] (fold (reass_slide1 n) [0..<?keep] filled))"
    by (auto simp: reass_slide_def Let_def)
  then have "recv (reass_slide d buf filled n) i =
      (if i < ?keep \<and> bit_get filled (i + n) then Some ((take ?keep (drop n buf) @ drop ?keep buf) ! i) else None)"
    using reass_slide_bits [OF ok b n] mx by (auto simp: recv_shape)
  moreover have "recv d (i + n) = None" if "\<not> i < ?keep" using ok that mx by (simp add: dir_ok_def)
  moreover have "i + n < rd_cap d" if "i < ?keep" using that mx by simp
  ultimately show ?thesis
    using b mx len by (auto simp: recv_shape nth_append add.commute split: if_splits)
qed

lemma dir_ok_slide:
  assumes ok: "dir_ok d" and b: "rd_buf d = Some buf" "rd_filled d = Some filled"
    and n: "0 < n" "n \<le> rd_next_off d"
  shows "dir_ok (reass_slide d buf filled n)"
proof -
  have len: "length buf = rd_cap d" "length filled = (rd_cap d + 7) div 8" "0 < rd_cap d"
    using ok b by (auto simp: dir_ok_def elim!: dir_shapeE)
  have "rd_max_off d - n + n \<le> rd_cap d" using ok n by (auto simp: dir_ok_def)
  moreover have "length (fold (\<lambda>i b. bit_clear b i) xs (fold (reass_slide1 n) ys filled)) = length filled" for xs ys
    using bm.size_clear_range [of xs "fold (reass_slide1 n) ys filled"] bm.size_slide [of n ys filled]
    by (simp add: reass_slide1_bm bm_size_def)
  ultimately have "dir_shape (reass_slide d buf filled n)"
    using len by (auto simp: dir_shape_def reass_slide_def Let_def)
  then show ?thesis using ok n by (auto simp: dir_ok_def recv_slide [OF ok b n])
qed

text \<open>The direction after its first \<open>n\<close> bytes were dropped.\<close>

definition consumed :: "nat \<Rightarrow> reass_dir \<Rightarrow> reass_dir \<Rightarrow> bool" where
  "consumed n d d' \<longleftrightarrow> dir_ok d' \<and> (\<forall>i. recv d' i = recv d (i + n)) \<and> stream d' = drop n (stream d) \<and>
     rd_base_seq d' = rd_base_seq d + of_nat n \<and> rd_cap d' = rd_cap d \<and> rd_have_base d' = rd_have_base d \<and>
     rd_next_off d' = rd_next_off d - n \<and> rd_max_off d' = rd_max_off d - n"

lemma consumed_slide:
  assumes "dir_ok d" "rd_buf d = Some buf" "rd_filled d = Some filled" "0 < n" "n \<le> rd_next_off d"
  shows "consumed n d (reass_slide d buf filled n)"
proof -
  have "stream (reass_slide d buf filled n) = drop n (stream d)"
    by (rule nth_equalityI) (auto simp: stream_def recv_slide [OF assms] less_diff_conv add.commute)
  then show ?thesis
    using dir_ok_slide [OF assms] recv_slide [OF assms] by (simp add: consumed_def)
qed

lemma consumed_0: "dir_ok d \<Longrightarrow> consumed 0 d d"
  by (simp add: consumed_def)

lemma consumed_restarted:
  "consumed n d d1 \<Longrightarrow> reread dict rf dir cb d1 ctx d' ctx' \<Longrightarrow> consumed n d d'"
  using reread_fields [of dict rf dir cb d1 ctx d' ctx'] by (simp add: consumed_def)

lemma consume_slide_ok:
  assumes ok: "flow_ok dict rf" and n: "dir < 2" and m: "m \<le> rd_next_off (rf_dir rf ! dir)"
    and b: "rd_buf (rf_dir rf ! dir) = Some buf" "rd_filled (rf_dir rf ! dir) = Some filled"
  defines "d1 \<equiv> (if m > 0 then reass_slide (rf_dir rf ! dir) buf filled m else rf_dir rf ! dir)"
  shows "consumed m (rf_dir rf ! dir) d1" "flow_ok dict (put_dir rf dir d1)"
    "rd_ac_state d1 = rd_ac_state (rf_dir rf ! dir)"
proof -
  let ?d = "rf_dir rf ! dir"
  note fk = flow_okD [OF ok n]
  show c: "consumed m ?d d1"
    using consumed_slide [OF fk(2) b _ m] consumed_0 [OF fk(2)] by (auto simp: d1_def)
  show st: "rd_ac_state d1 = rd_ac_state ?d" by (simp add: d1_def)
  have "rd_scanned d1 = rd_scanned ?d - m" "rd_scan_limit d1 = rd_scan_limit ?d - m" by (simp_all add: d1_def)
  then have "feed_to d1 \<le> rd_scanned d1" if "feed_to ?d \<le> rd_scanned ?d"
    using that c by (auto simp: feed_to_def consumed_def split: if_splits)
  then have "flow_ok dict ((put_dir rf dir d1)\<lparr>rf_failed := rf_failed rf\<rparr>)"
    using fk(3-6) c m st by (intro flow_ok_put [OF ok n]) (auto simp: consumed_def)
  then show "flow_ok dict (put_dir rf dir d1)" by (simp add: put_dir_def)
qed

lemma reass_consume_step:
  fixes n0 :: nat
  assumes ok: "flow_ok dict rf" and dir: "0 \<le> dir" "dir \<le> 1"
  defines "d \<equiv> rf_dir rf ! nat dir"
  defines "m \<equiv> min n0 (rd_next_off d)"
  shows "\<exists>d1 d' ctx'. reass_consume rf dir n0 reset cb ctx = Some (put_dir rf (nat dir) d', ctx') \<and>
    consumed m d d1 \<and> consumed m d d' \<and> flow_ok dict (put_dir rf (nat dir) d') \<and>
    (\<not> reset \<longrightarrow> d' = d1 \<and> ctx' = ctx \<and> rd_ac_state d' = rd_ac_state d) \<and>
    (reset \<longrightarrow> reread dict (put_dir rf (nat dir) d1) (nat dir) cb d1 ctx d' ctx')"
proof -
  have n: "nat dir < 2" using dir by simp
  note fk = flow_okD [OF ok n]
  obtain buf filled where b: "rd_buf d = Some buf" "rd_filled d = Some filled"
    using fk(2) by (auto simp: d_def dir_ok_def dir_shape_def)
  have m: "m = (if n0 > rd_next_off d then rd_next_off d else n0)" "m \<le> rd_next_off d" by (auto simp: m_def)
  define d1 where "d1 = (if m > 0 then reass_slide d buf filled m else d)"
  note d1 = consume_slide_ok [OF ok n, folded d_def, OF m(2) b, folded d1_def]
  have call: "reass_consume rf dir n0 reset cb ctx =
      (let rf1 = put_dir rf (nat dir) d1 in
       if reset then reass_rescan (rf_ac rf1) rf1 (nat dir) cb ctx else Some (rf1, ctx))"
    using dir b unfolding reass_consume_def d_def [symmetric] m(1) [symmetric] Let_def d1_def
    by (simp add: d_def [symmetric])
  show ?thesis
  proof (cases reset)
    case False
    then show ?thesis using call d1 by auto
  next
    case True
    let ?rf = "put_dir rf (nat dir) d1"
    have at: "rf_dir ?rf ! nat dir = d1" "nat dir < length (rf_dir ?rf)" "length (rf_dir ?rf) = 2"
      using fk(1) n by simp_all
    obtain d' ctx' where r: "reass_rescan (rf_ac ?rf) ?rf (nat dir) cb ctx = Some (put_dir ?rf (nat dir) d', ctx')"
        "reread dict ?rf (nat dir) cb d1 ctx d' ctx'"
      using reass_rescan_ok [of ?rf "nat dir" dict cb ctx] flow_okD(2,4) [OF d1(2) n] at by auto
    have put: "put_dir ?rf (nat dir) d' = put_dir rf (nat dir) d'" by (simp add: put_dir_def)
    have "flow_ok dict ((put_dir ?rf (nat dir) d')\<lparr>rf_failed := rf_failed rf\<rparr>)"
      using reread_fields [OF r(2)] reread_scanned [OF r(2)] flow_okD(3) [OF d1(2) n] at
      by (intro flow_ok_put [OF d1(2) n]) auto
    then have "flow_ok dict (put_dir rf (nat dir) d')" by (simp add: put_dir_def)
    then show ?thesis
      using call True r put consumed_restarted [OF d1(1) r(2)] d1(1) by auto
  qed
qed

section \<open>The scan limit\<close>

lemma reass_set_scan_limit_step:
  assumes ok: "flow_ok dict rf" and dir: "0 \<le> dir" "dir \<le> 1"
    and pre: "\<forall>ac. rf_ac rf = Some ac \<longrightarrow> ac_reads ac dict (rd_ac_state (rf_dir rf ! nat dir)) pre"
  defines "d \<equiv> rf_dir rf ! nat dir"
  shows "\<exists>d' ctx'. reass_set_scan_limit rf dir limit cb ctx = Some (put_dir rf (nat dir) d', ctx') \<and>
    flow_ok dict (put_dir rf (nat dir) d') \<and> recv d' = recv d \<and> stream d' = stream d \<and>
    rd_scan_limit d' = min limit (rd_cap d) \<and> rd_cap d' = rd_cap d \<and>
    (\<forall>ac. rf_ac rf = Some ac \<longrightarrow> rd_scanned d' = max (rd_scanned d) (min (rd_next_off d) (min limit (rd_cap d))) \<and>
       has_read dict ac (feed_trampoline cb (reading_flow rf (nat dir) d d') (nat dir)) pre d d' ctx ctx')"
proof -
  have n: "nat dir < 2" using dir by simp
  note fk = flow_okD [OF ok n, folded d_def]
  define d2 where "d2 = d\<lparr>rd_scan_limit := min limit (rd_cap d)\<rparr>"
  have ok2: "dir_ok d2" using fk(2) by (simp add: d2_def dir_ok_def dir_shape_def)
  have len: "nat dir < length (rf_dir rf)" using fk(1) n by simp
  have pre2: "\<forall>ac. rf_ac rf = Some ac \<longrightarrow> ac_reads ac dict (rd_ac_state d2) pre"
    using pre by (simp add: d2_def d_def)
  have call: "reass_set_scan_limit rf dir limit cb ctx = reass_feed_new (put_dir rf (nat dir) d2) (nat dir) cb ctx"
    using dir by (auto simp: reass_set_scan_limit_def Let_def d2_def d_def min_def)
  obtain d' ctx' where f: "reass_feed_new (put_dir rf (nat dir) d2) (nat dir) cb ctx = Some (put_dir rf (nat dir) d', ctx')"
      "\<exists>st k. d' = d2\<lparr>rd_ac_state := st, rd_scanned := k\<rparr> \<and> k \<le> rd_next_off d2"
      "\<forall>ac. rf_ac rf = Some ac \<longrightarrow> rd_scanned d' = max (rd_scanned d2) (feed_to d2) \<and>
        has_read dict ac (feed_trampoline cb (reading_flow rf (nat dir) d2 d') (nat dir)) pre d2 d' ctx ctx'"
    using feed_new_ok [OF ok2 len pre2, of cb ctx] by metis
  obtain st k where d': "d' = d2\<lparr>rd_ac_state := st, rd_scanned := k\<rparr>" "k \<le> rd_next_off d2" using f(2) by blast
  have f': "recv d' = recv d" "rd_next_off d' = rd_next_off d" "rd_max_off d' = rd_max_off d"
      "rd_scan_limit d' = min limit (rd_cap d)" "feed_to d' = feed_to d2" "rd_cap d' = rd_cap d"
    by (simp_all add: d'(1) d2_def feed_to_def)
  have ft: "feed_to d2 = min (rd_next_off d) (min limit (rd_cap d))" by (auto simp: d2_def feed_to_def)
  have cg: "rd_ac_state d2 = rd_ac_state d" "rd_scanned d2 = rd_scanned d" by (simp_all add: d2_def)
  have okd': "dir_ok d'" using dir_ok_scanned [OF ok2 d'(2)] d'(1) by simp
  have "flow_ok dict ((put_dir rf (nat dir) d')\<lparr>rf_failed := rf_failed rf\<rparr>)"
    using okd' f(3) fk(3) f' by (intro flow_ok_put [OF ok n]) (auto dest: has_read_state)
  then have "flow_ok dict (put_dir rf (nat dir) d')" by (simp add: put_dir_def)
  moreover have "stream d' = stream d" using f' by (simp add: stream_def)
  ultimately show ?thesis
    using call f(1,3) f' ft cg unfolding has_read_cong [OF cg] by auto
qed

end
