(* ===== verification/Stream_Inspection.thy ===== *)
theory Stream_Inspection
  imports Reassembly_Correct
begin

text \<open>
  What the reassembly promises to the inspection of a flow: the flows the daemon can reach, the
  invariant that holds in all of them, and the detection theorem: however a stream is cut into
  segments, and in whatever order they arrive, either a segment is answered fail-closed or the
  matcher has delivered exactly the hits of the whole stream.
\<close>

section \<open>Reachable flows\<close>

text \<open>
  The flows of the daemon, with the dictionary of the automaton they are bound to and the context
  of the callback: a flow starts on a built automaton, then takes segments, is rebound to another
  built automaton, drops the head of a window, or changes a scan limit.
\<close>

inductive reass_reachable ::
  "'c reass_match_cb option \<Rightarrow> bool \<times> (bytes \<rightharpoonup> nat) \<Rightarrow> reass_flow \<Rightarrow> 'c \<Rightarrow> bool"
  for cb :: "'c reass_match_cb option"
where
  init: "ac_add_all (ac_init nc) pats = Some a1 \<Longrightarrow> ac_build a1 = Some ac \<Longrightarrow> cap < 2 ^ 31 \<Longrightarrow>
    reass_flow_init junk alloc (Some ac) cap = (0, rf) \<Longrightarrow>
    reass_reachable cb (nc, pattern_dict nc pats) rf ctx"
| segment: "reass_reachable cb dict rf ctx \<Longrightarrow> length bs < 2 ^ 31 \<Longrightarrow>
    reass_segment fed rf dir seq (Some bs) cb ctx = Some (rc, fed', rf', ctx') \<Longrightarrow>
    reass_reachable cb dict rf' ctx'"
| rebind: "reass_reachable cb dict rf ctx \<Longrightarrow>
    ac_add_all (ac_init nc) pats = Some a1 \<Longrightarrow> ac_build a1 = Some ac \<Longrightarrow>
    reass_flow_rebind rf (Some ac) cb ctx = Some (rf', ctx') \<Longrightarrow>
    reass_reachable cb (nc, pattern_dict nc pats) rf' ctx'"
| consume: "reass_reachable cb dict rf ctx \<Longrightarrow>
    reass_consume rf dir n reset cb ctx = Some (rf', ctx') \<Longrightarrow> reass_reachable cb dict rf' ctx'"
| limit: "reass_reachable cb dict rf ctx \<Longrightarrow>
    reass_set_scan_limit rf dir l cb ctx = Some (rf', ctx') \<Longrightarrow> reass_reachable cb dict rf' ctx'"

section \<open>The invariant of reachable flows\<close>

lemma bit_get_zeros [simp]: "i div 8 < n \<Longrightarrow> \<not> bit_get (replicate n 0) i"
  by (simp add: bit_get_bit)

lemma dir_ok_init: "0 < cap \<Longrightarrow> dir_ok (reass_dir_init junk cap)"
proof -
  assume c: "0 < cap"
  have "i div 8 < (cap + 7) div 8" if "i < cap" for i using that by linarith
  then have "recv (reass_dir_init junk cap) i = None" for i
    by (auto simp: recv_def reass_dir_init_def)
  then show ?thesis using c by (simp add: dir_ok_def dir_shape_def) (simp add: reass_dir_init_def reass_dir_zero_def)
qed

definition init_cap :: "nat \<Rightarrow> nat" where
  "init_cap cap_bytes = (if cap_bytes \<noteq> 0 then cap_bytes else REASS_MAX_BYTES)"

lemma init_cap_pos [simp]: "0 < init_cap c"
  by (simp add: init_cap_def REASS_MAX_BYTES_def)

lemma reass_flow_init_ok:
  assumes "reass_flow_init junk alloc ac cap = (0, rf)"
  shows "rf = \<lparr>rf_ac = ac, rf_dir = [reass_dir_init junk (init_cap cap), reass_dir_init junk (init_cap cap)],
    rf_failed = False\<rparr>"
  using assms by (auto simp: reass_flow_init_def init_cap_def Let_def split: if_splits)

lemma init_flow_ok:
  assumes "reass_flow_init junk alloc (Some ac) cap = (0, rf)" "ac_compiled ac dict"
  shows "flow_ok dict rf"
  using dir_ok_init [of "init_cap cap" junk] ac_stream.reads_start [OF assms(2)] assms(2)
  unfolding reass_flow_init_ok [OF assms(1)]
  by (auto simp: flow_ok_def reass_dir_init_def reass_dir_zero_def feed_to_def REASS_GAP_LIMIT_def)

definition caps_ok :: "reass_flow \<Rightarrow> bool" where
  "caps_ok rf \<longleftrightarrow> (\<forall>c \<in> set (map rd_cap (rf_dir rf)). c < 2 ^ 31)"

lemma caps_ok_put: "caps_ok rf \<Longrightarrow> rd_cap d' = rd_cap (rf_dir rf ! dir) \<Longrightarrow> caps_ok (put_dir rf dir d')"
  unfolding caps_ok_def put_dir_simps by (metis map_cap_update)

lemma reass_reachable_inv:
  "reass_reachable cb dict rf ctx \<Longrightarrow> flow_ok dict rf \<and> rf_ac rf \<noteq> None \<and> caps_ok rf"
proof (induction rule: reass_reachable.induct)
  case (init nc pats a1 ac cap junk alloc rf ctx)
  then have "ac_compiled ac (nc, pattern_dict nc pats)" using ac_compile_compiled by fastforce
  moreover have "init_cap cap < 2 ^ 31" using init by (simp add: init_cap_def REASS_MAX_BYTES_def)
  ultimately show ?case using init init_flow_ok reass_flow_init_ok [OF init(4)]
    by (auto simp: caps_ok_def reass_dir_init_def)
next
  case (segment dict rf ctx bs fed dir seq rc fed' rf' ctx')
  show ?case
  proof (cases "dir < 0 \<or> dir > 1")
    case True
    then show ?thesis using segment by (auto simp: reass_segment_def)
  next
    case False
    then have "nat dir < length (rf_dir rf)" using segment.IH by (auto simp: flow_ok_def)
    then have "rd_cap (rf_dir rf ! nat dir) < 2 ^ 31" using segment.IH by (simp add: caps_ok_def)
    then have "rd_cap (rf_dir rf ! nat dir) + length bs < 2 ^ 32" using segment.hyps(2) by simp
    then show ?thesis
      using reass_segment_flow_ok [of dict rf dir bs fed seq cb ctx] segment by (auto simp: caps_ok_def)
  qed
next
  case (rebind dict rf ctx nc pats a1 ac rf' ctx')
  then have c: "ac_compiled ac (nc, pattern_dict nc pats)" using ac_compile_compiled by fastforce
  obtain x y where xy: "rf_dir rf = [x, y]" using rebind.IH by (auto simp: flow_ok_def elim: length_2E)
  obtain d0 d1 where r: "rf' = rf\<lparr>rf_ac := Some ac, rf_dir := [d0, d1]\<rparr>"
      "flow_ok (nc, pattern_dict nc pats) rf'" "rd_cap d0 = rd_cap x" "rd_cap d1 = rd_cap y"
    using reass_flow_rebind_step [where dict = dict and rf = rf and ac = "Some ac" and cb = cb and ctx = ctx
        and dict' = "(nc, pattern_dict nc pats)"] rebind c xy
    by (auto dest: reread_fields(4))
  then show ?case using rebind.IH xy by (auto simp: caps_ok_def)
next
  case (consume dict rf ctx dir n reset rf' ctx')
  show ?case
  proof (cases "dir < 0 \<or> dir > 1")
    case False
    then obtain d' where "rf' = put_dir rf (nat dir) d'" "flow_ok dict rf'" "rd_cap d' = rd_cap (rf_dir rf ! nat dir)"
      using reass_consume_step [of dict rf dir n reset cb ctx] consume by (auto simp: consumed_def)
    then show ?thesis using consume.IH caps_ok_put by auto
  qed (use consume in \<open>auto simp: reass_consume_def\<close>)
next
  case (limit dict rf ctx dir l rf' ctx')
  show ?case
  proof (cases "dir < 0 \<or> dir > 1")
    case False
    then obtain pre where "\<forall>ac. rf_ac rf = Some ac \<longrightarrow> ac_reads ac dict (rd_ac_state (rf_dir rf ! nat dir)) pre"
      using flow_okD(6) [of dict rf "nat dir"] limit.IH by fastforce
    then obtain d' where "rf' = put_dir rf (nat dir) d'" "flow_ok dict rf'" "rd_cap d' = rd_cap (rf_dir rf ! nat dir)"
      using reass_set_scan_limit_step [of dict rf dir pre l cb ctx] limit False by auto
    then show ?thesis using limit.IH caps_ok_put by auto
  qed (use limit in \<open>auto simp: reass_set_scan_limit_def\<close>)
qed

section \<open>Running a list of segments\<close>

text \<open>
  One direction of a flow receives segments one after the other; the flag tells whether all of
  them were answered \<open>REASS_OK\<close>.
\<close>

fun reass_run ::
  "u64 \<Rightarrow> reass_flow \<Rightarrow> int \<Rightarrow> (u32 \<times> bytes) list \<Rightarrow> 'c reass_match_cb option \<Rightarrow> 'c \<Rightarrow>
   (bool \<times> u64 \<times> reass_flow \<times> 'c) option" where
  "reass_run fed rf dir [] cb ctx = Some (True, fed, rf, ctx)"
| "reass_run fed rf dir ((seq, bs) # segs) cb ctx =
     (case reass_segment fed rf dir seq (Some bs) cb ctx of
        None \<Rightarrow> None
      | Some (rc, fed', rf', ctx') \<Rightarrow>
          map_option (\<lambda>(ok, r). (rc = REASS_OK \<and> ok, r)) (reass_run fed' rf' dir segs cb ctx'))"

text \<open>A callback that records every hit with its direction and never stops the scan.\<close>

definition collect :: "(nat \<times> nat \<times> nat) list reass_match_cb" where
  "collect rf rule_id end_off dir acc = (False, acc @ [(dir, rule_id, end_off)])"

definition tag_hits :: "nat \<Rightarrow> (nat \<times> nat) list \<Rightarrow> (nat \<times> nat \<times> nat) list" where
  "tag_hits dir = map (\<lambda>(i, k). (dir, i, k))"

text \<open>The segment that carries \<open>l\<close> bytes of the stream \<open>S\<close> from offset \<open>off\<close> on.\<close>

definition cut_seg :: "bytes \<Rightarrow> u32 \<Rightarrow> nat \<times> nat \<Rightarrow> u32 \<times> bytes" where
  "cut_seg S isn p = (isn + of_nat (fst p), take (snd p) (drop (fst p) S))"

lemma feed_collect:
  "feed_hits (feed_trampoline (Some collect) rf dir) hs acc = (length hs, False, acc @ tag_hits dir hs)"
  by (induction hs arbitrary: acc) (auto simp: feed_trampoline_def collect_def tag_hits_def Let_def)

lemma has_read_collect:
  "has_read dict ac (feed_trampoline (Some collect) rf dir) pre d d' acc acc' \<longleftrightarrow>
     acc' = acc @ tag_hits dir (ac_hits dict pre (rd_scanned d) (new_bytes d d')) \<and>
     ac_reads ac dict (rd_ac_state d') (pre @ new_bytes d d')"
  by (auto simp: has_read_def feed_collect Let_def)

text \<open>
  The state of a run on the stream \<open>S\<close>: the direction holds bytes of \<open>S\<close> only, at least those at
  the offsets \<open>C\<close>, and the matcher has read and reported the contiguous part.
\<close>

definition run_inv ::
  "bytes \<Rightarrow> u32 \<Rightarrow> bool \<times> (bytes \<rightharpoonup> nat) \<Rightarrow> nat set \<Rightarrow> nat \<Rightarrow> reass_flow \<Rightarrow> nat \<Rightarrow>
   (nat \<times> nat \<times> nat) list \<Rightarrow> bool" where
  "run_inv S isn dict C cap rf dir acc \<longleftrightarrow>
     (let d = rf_dir rf ! dir in
      flow_ok dict rf \<and> \<not> rf_failed rf \<and> rd_cap d = cap \<and> rd_scan_limit d = cap \<and>
      (rd_have_base d \<longrightarrow> rd_base_seq d = isn) \<and>
      (\<forall>i v. recv d i = Some v \<longrightarrow> i < length S \<and> S ! i = v) \<and>
      (\<forall>i \<in> C. i < cap \<longrightarrow> recv d i \<noteq> None) \<and>
      (\<exists>ac. rf_ac rf = Some ac \<and> ac_reads ac dict (rd_ac_state d) (take (rd_scanned d) S)) \<and>
      acc = tag_hits dir (ac_hits dict [] 0 (take (rd_scanned d) S)))"

lemma stream_of:
  assumes "dir_ok d" "\<forall>i v. recv d i = Some v \<longrightarrow> i < length S \<and> S ! i = v"
  shows "rd_next_off d \<le> length S" "stream d = take (rd_next_off d) S"
proof -
  have r: "recv d i = Some (S ! i) \<and> i < length S" if "i < rd_next_off d" for i
    using assms that by (auto simp: dir_ok_def)
  then show le: "rd_next_off d \<le> length S" by (meson leI less_irrefl)
  show "stream d = take (rd_next_off d) S"
    using r le by (intro nth_equalityI) (auto simp: stream_def)
qed

lemma scanned_all:
  assumes "flow_ok dict rf" "dir < 2" "rf_ac rf = Some ac" "rd_scan_limit (rf_dir rf ! dir) = rd_cap (rf_dir rf ! dir)"
  shows "rd_scanned (rf_dir rf ! dir) = rd_next_off (rf_dir rf ! dir)"
  using flow_okD(2,5) [OF assms(1,2)] assms(3,4) by (fastforce simp: dir_ok_def feed_to_def split: if_splits)

lemma sint_of_nat_small: "n < 2 ^ 31 \<Longrightarrow> sint (of_nat n :: u32) = int n"
  by (simp add: signed_of_nat signed_take_bit_int_eq_self)

lemma seg_bytes_cut:
  assumes "off + l \<le> length S" "seg_bytes cap (int off) (take l (drop off S)) i = Some v"
  shows "i < length S \<and> S ! i = v"
  using assms by (auto simp: seg_bytes_def nat_diff_distrib' split: if_splits)

lemma take_slice: "m \<le> n \<Longrightarrow> take m xs @ take (n - m) (drop m (take n xs)) = take n xs"
  by (metis append_take_drop_id length_drop length_take min.absorb1 min.cobounded2 take_all_iff take_take diff_le_mono)

lemma run_inv_read:
  assumes inv: "run_inv S isn dict C cap rf dir acc" and dir: "dir < 2"
    and p: "seg_post dict rf dir seq bs (Some collect) (take (rd_scanned (rf_dir rf ! dir)) S) acc REASS_OK d' acc'"
    and S: "\<forall>i v. recv d' i = Some v \<longrightarrow> i < length S \<and> S ! i = v"
    and rf': "rf' = put_dir rf dir d'" and ok': "flow_ok dict rf'"
  shows "\<exists>ac. rf_ac rf' = Some ac \<and> ac_reads ac dict (rd_ac_state d') (take (rd_scanned d') S)"
    and "acc' = tag_hits dir (ac_hits dict [] 0 (take (rd_scanned d') S))"
proof -
  let ?d = "rf_dir rf ! dir"
  obtain ac where ac: "rf_ac rf = Some ac" using inv by (auto simp: run_inv_def Let_def)
  have fk: "length (rf_dir rf) = 2" "rd_scan_limit ?d = rd_cap ?d" "flow_ok dict rf"
    using inv by (auto simp: run_inv_def Let_def flow_ok_def)
  have at: "rf_dir rf' ! dir = d'" using rf' fk(1) dir by simp
  have d': "dir_ok d'" "rd_scan_limit d' = rd_cap d'" "recv d' = seg_bytes (rd_cap ?d) (seg_off seq ?d) bs ++ recv ?d"
    using p inv by (auto simp: seg_post_def run_inv_def Let_def)
  have sc: "rd_scanned ?d = rd_next_off ?d" "rd_scanned d' = rd_next_off d'"
    using scanned_all [OF fk(3) dir ac fk(2)] scanned_all [OF ok' dir] ac d'(2) at rf' by auto
  have "recv d' i \<noteq> None" if "i < rd_next_off ?d" for i
    using that flow_okD(2) [OF fk(3) dir] d'(3) by (auto simp: dir_ok_def map_add_def split: option.split)
  then have le: "rd_scanned ?d \<le> rd_scanned d'"
    using d'(1) sc by (metis dir_ok_def leI)
  note st = stream_of [OF d'(1) S]
  have nb: "new_bytes ?d d' = take (rd_scanned d' - rd_scanned ?d) (drop (rd_scanned ?d) (take (rd_scanned d') S))"
    using st(2) sc(2) by (simp add: new_bytes_def)
  have app: "take (rd_scanned ?d) S @ new_bytes ?d d' = take (rd_scanned d') S"
    unfolding nb using le by (rule take_slice)
  have hr: "has_read dict ac (feed_trampoline (Some collect) (reading_flow rf dir ?d d') dir)
      (take (rd_scanned ?d) S) ?d d' acc acc'"
    using p ac by (simp add: seg_post_def Let_def)
  show "\<exists>ac. rf_ac rf' = Some ac \<and> ac_reads ac dict (rd_ac_state d') (take (rd_scanned d') S)"
    using hr ac app rf' by (auto simp: has_read_collect)
  have "ac_hits dict [] 0 (take (rd_scanned d') S) = ac_hits dict [] 0 (take (rd_scanned ?d) S) @
      ac_hits dict (take (rd_scanned ?d) S) (rd_scanned ?d) (new_bytes ?d d')"
    using ac_stream.hits_append [of dict "[]" 0 "take (rd_scanned ?d) S" "new_bytes ?d d'"] app st(1) le sc by simp
  then show "acc' = tag_hits dir (ac_hits dict [] 0 (take (rd_scanned d') S))"
    using hr inv by (simp add: has_read_collect run_inv_def Let_def tag_hits_def)
qed

lemma run_inv_step:
  assumes inv: "run_inv S isn dict C cap rf (nat dir) acc" and dir: "0 \<le> dir" "dir \<le> 1"
    and sz: "off + l \<le> length S" "length S < 2 ^ 31" "cap < 2 ^ 31" and l: "0 < l"
    and base: "rd_have_base (rf_dir rf ! nat dir) \<or> off = 0"
  shows "\<exists>rc fed' rf' acc'.
    reass_segment fed rf dir (isn + of_nat off) (Some (take l (drop off S))) (Some collect) acc = Some (rc, fed', rf', acc') \<and>
    (rc = REASS_OK \<longrightarrow> run_inv S isn dict (C \<union> {off..<off + l}) cap rf' (nat dir) acc' \<and>
       rd_have_base (rf_dir rf' ! nat dir)) \<and> (rc \<noteq> REASS_OK \<longrightarrow> rf_failed rf') \<and>
    (length S \<le> REASS_GAP_LIMIT \<and> length S \<le> cap \<longrightarrow> rc = REASS_OK)"
proof -
  let ?d = "rf_dir rf ! nat dir" and ?seq = "isn + of_nat off :: u32" and ?bs = "take l (drop off S)"
  let ?pre = "take (rd_scanned ?d) S"
  have n: "nat dir < 2" using dir by simp
  have fk: "flow_ok dict rf" "\<not> rf_failed rf" "rd_cap ?d = cap" "length (rf_dir rf) = 2"
    using inv by (auto simp: run_inv_def Let_def flow_ok_def)
  have bs: "?bs \<noteq> []" "length ?bs = l" "rd_cap ?d + length ?bs < 2 ^ 32" using sz l fk(3) by auto
  have pre: "ac_reads ac dict (rd_ac_state ?d) ?pre" if "rf_ac rf = Some ac" for ac
    using inv that by (auto simp: run_inv_def Let_def)
  obtain rc fed' d' acc' where r: "reass_segment fed rf dir ?seq (Some ?bs) (Some collect) acc =
        Some (rc, fed', (put_dir rf (nat dir) d')\<lparr>rf_failed := rc \<noteq> REASS_OK\<rparr>, acc')"
      and p: "seg_post dict rf (nat dir) ?seq ?bs (Some collect) ?pre acc rc d' acc'"
    using reass_segment_step [OF fk(1,2) dir bs(1,3) pre, of fed ?seq "Some collect" acc] by blast
  have b: "rd_base_seq (rebased ?seq ?d) = isn"
    using base inv by (auto simp: rebased_def run_inv_def Let_def)
  have off: "seg_off ?seq ?d = int off"
    using sz b by (simp add: seg_off_def sint_of_nat_small)
  have rc': "recv d' = seg_bytes cap (int off) ?bs ++ recv ?d" "dir_ok d'" "rd_have_base d'" "rd_base_seq d' = isn"
      "rd_cap d' = cap" "rd_scan_limit d' = cap"
    using p off b fk(3) inv by (auto simp: seg_post_def run_inv_def Let_def)
  have S: "\<forall>i v. recv d' i = Some v \<longrightarrow> i < length S \<and> S ! i = v"
    using inv seg_bytes_cut [OF sz(1)] unfolding rc'(1)
    by (auto simp: run_inv_def Let_def map_add_Some_iff)
  have C: "\<forall>i \<in> C \<union> {off..<off + l}. i < cap \<longrightarrow> recv d' i \<noteq> None"
    using inv bs(2) unfolding rc'(1)
    by (auto simp: run_inv_def Let_def map_add_None seg_bytes_def)
  have "run_inv S isn dict (C \<union> {off..<off + l}) cap (put_dir rf (nat dir) d') (nat dir) acc'" if "rc = REASS_OK"
  proof -
    have ok': "flow_ok dict (put_dir rf (nat dir) d')"
      using reass_segment_flow_ok [OF fk(1) bs(3), of fed ?seq "Some collect" acc] r that
      by (auto simp: put_dir_failed_same [OF fk(2)])
    show ?thesis
      using run_inv_read [OF inv n p [unfolded that] S refl ok'] ok' fk n rc'(2-6) S C
      by (simp add: run_inv_def Let_def)
  qed
  moreover have "rc = REASS_OK" if "length S \<le> REASS_GAP_LIMIT" "length S \<le> cap"
  proof -
    have "rd_max_off d' \<le> length S"
      using rc'(2) S by (cases "rd_max_off d'") (fastforce simp: dir_ok_def)+
    then show ?thesis
      using p off that sz l fk(3) by (auto simp: seg_post_def Let_def gap_beyond_def)
  qed
  ultimately show ?thesis
    using r rc'(3) fk(4) n by (auto simp: put_dir_failed_same [OF fk(2)])
qed

lemma reass_run_failed:
  "rf_failed rf \<Longrightarrow> \<exists>ok. reass_run fed rf dir segs cb ctx = Some (ok, fed, rf, ctx)"
  by (induction segs) (auto simp: reass_segment_def)

lemma reass_run_correct:
  assumes "run_inv S isn dict C cap rf (nat dir) acc" and dir: "0 \<le> dir" "dir \<le> 1"
    and sz: "length S < 2 ^ 31" "cap < 2 ^ 31" and "\<forall>p \<in> set ps. 0 < snd p \<and> fst p + snd p \<le> length S"
    and "rd_have_base (rf_dir rf ! nat dir) \<or> ps = [] \<or> fst (hd ps) = 0"
  shows "\<exists>ok fed' rf' acc'. reass_run fed rf dir (map (cut_seg S isn) ps) (Some collect) acc = Some (ok, fed', rf', acc') \<and>
    (ok \<longrightarrow> run_inv S isn dict (C \<union> (\<Union>p \<in> set ps. {fst p..<fst p + snd p})) cap rf' (nat dir) acc') \<and>
    (length S \<le> REASS_GAP_LIMIT \<and> length S \<le> cap \<longrightarrow> ok)"
  using assms(1,6,7)
proof (induction ps arbitrary: C fed rf acc)
  case (Cons p ps)
  let ?C = "C \<union> {fst p..<fst p + snd p}"
  obtain rc fed1 rf1 acc1 where s: "reass_segment fed rf dir (isn + of_nat (fst p))
        (Some (take (snd p) (drop (fst p) S))) (Some collect) acc = Some (rc, fed1, rf1, acc1)"
      "rc = REASS_OK \<longrightarrow> run_inv S isn dict ?C cap rf1 (nat dir) acc1 \<and> rd_have_base (rf_dir rf1 ! nat dir)"
      "rc \<noteq> REASS_OK \<longrightarrow> rf_failed rf1" "length S \<le> REASS_GAP_LIMIT \<and> length S \<le> cap \<longrightarrow> rc = REASS_OK"
    using run_inv_step [OF Cons.prems(1) dir _ sz, of "fst p" "snd p" fed] Cons.prems(2,3) by auto
  show ?case
  proof (cases "rc = REASS_OK")
    case True
    then obtain ok fed' rf' acc' where t:
        "reass_run fed1 rf1 dir (map (cut_seg S isn) ps) (Some collect) acc1 = Some (ok, fed', rf', acc')"
        "ok \<longrightarrow> run_inv S isn dict (?C \<union> (\<Union>p \<in> set ps. {fst p..<fst p + snd p})) cap rf' (nat dir) acc'"
        "length S \<le> REASS_GAP_LIMIT \<and> length S \<le> cap \<longrightarrow> ok"
      using Cons.IH [of ?C rf1 acc1 fed1] Cons.prems(2) s(2) by auto
    then show ?thesis using s(1) True by (simp add: cut_seg_def [of S isn p] Un_assoc)
  next
    case False
    then obtain ok where "reass_run fed1 rf1 dir (map (cut_seg S isn) ps) (Some collect) acc1 = Some (ok, fed1, rf1, acc1)"
      using reass_run_failed [of rf1 fed1 dir _ "Some collect" acc1] s(3) by metis
    then show ?thesis using s(1,4) False by (intro exI [of _ False]) (simp add: cut_seg_def [of S isn p])
  qed
qed auto

lemma run_inv_complete:
  assumes inv: "run_inv S isn dict C cap rf dir acc" and dir: "dir < 2"
    and C: "{..<length S} \<subseteq> C" "length S \<le> cap"
  shows "stream (rf_dir rf ! dir) = S" "acc = tag_hits dir (ac_hits dict [] 0 S)"
proof -
  let ?d = "rf_dir rf ! dir"
  have fk: "flow_ok dict rf" "rd_scan_limit ?d = rd_cap ?d" "\<forall>i v. recv ?d i = Some v \<longrightarrow> i < length S \<and> S ! i = v"
    using inv by (auto simp: run_inv_def Let_def)
  note d = flow_okD(2) [OF fk(1) dir]
  obtain ac where ac: "rf_ac rf = Some ac" using inv by (auto simp: run_inv_def Let_def)
  have sc: "rd_scanned ?d = rd_next_off ?d" by (rule scanned_all [OF fk(1) dir ac fk(2)])
  have "recv ?d (rd_next_off ?d) = None" using d by (simp add: dir_ok_def)
  moreover have "recv ?d i \<noteq> None" if "i < length S" for i
    using inv C that by (auto simp: run_inv_def Let_def)
  ultimately have "length S \<le> rd_next_off ?d" by (meson leI)
  then have "rd_next_off ?d = length S" using stream_of(1) [OF d fk(3)] by simp
  then show "stream ?d = S" "acc = tag_hits dir (ac_hits dict [] 0 S)"
    using stream_of(2) [OF d fk(3)] inv sc by (auto simp: run_inv_def Let_def)
qed

lemma init_run_inv:
  assumes "reass_flow_init junk alloc (Some ac) cap = (0, rf)" "ac_compiled ac dict" "dir < 2"
  shows "run_inv S isn dict {} (init_cap cap) rf dir []" "\<not> rd_have_base (rf_dir rf ! dir)"
proof -
  have d: "rf_dir rf ! dir = reass_dir_init junk (init_cap cap)"
    using reass_flow_init_ok [OF assms(1)] assms(3) by (auto simp: less_2_cases_iff)
  have "dir_ok (rf_dir rf ! dir)" using dir_ok_init d by simp
  moreover have "rd_max_off (rf_dir rf ! dir) = 0" by (simp add: d reass_dir_init_def reass_dir_zero_def)
  ultimately have "recv (rf_dir rf ! dir) i = None" for i by (simp add: dir_ok_def)
  then show "run_inv S isn dict {} (init_cap cap) rf dir []"
    using init_flow_ok [OF assms(1,2)] reass_flow_init_ok [OF assms(1)] ac_stream.reads_start [OF assms(2)] d
    by (simp add: run_inv_def Let_def reass_dir_init_def reass_dir_zero_def tag_hits_def ac_hits_def)
  show "\<not> rd_have_base (rf_dir rf ! dir)" by (simp add: d reass_dir_init_def reass_dir_zero_def)
qed

section \<open>Properties\<close>

text \<open>
  C2. Evasion resistance: let a stream \<open>S\<close> that fits the window be cut into segments in any way
  (overlapping, duplicated, out of order), the first to arrive being one that starts the stream.
  Delivering them to a fresh flow always returns; if every segment is answered \<open>REASS_OK\<close>, the
  callback has received exactly the hits a naive matcher finds in the whole of \<open>S\<close>, each once, at
  their stream offsets; and a stream no longer than the gap limit is never answered fail-closed.
\<close>

theorem reass_detects_cut_stream:
  assumes "ac_add_all (ac_init nc) pats = Some a1" and "ac_build a1 = Some ac"
    and "reass_flow_init junk alloc (Some ac) REASS_MAX_BYTES = (0, rf)" and "dir \<in> {0, 1}"
    and "length S \<le> REASS_MAX_BYTES" and "\<forall>p \<in> set ps. 0 < snd p \<and> fst p + snd p \<le> length S"
    and "ps = [] \<or> fst (hd ps) = 0" and "\<forall>i < length S. \<exists>p \<in> set ps. fst p \<le> i \<and> i < fst p + snd p"
  shows "\<exists>ok fed' rf' acc. reass_run fed rf dir (map (cut_seg S isn) ps) (Some collect) [] = Some (ok, fed', rf', acc) \<and>
    (ok \<longrightarrow> acc = tag_hits (nat dir) (naive_hits (pattern_dict nc pats) [] 0 (map (ac_norm nc) S))) \<and>
    (length S \<le> REASS_GAP_LIMIT \<longrightarrow> ok)"
proof -
  let ?dict = "(nc, pattern_dict nc pats)" and ?C = "\<Union>p \<in> set ps. {fst p..<fst p + snd p}"
  have c: "ac_compiled ac ?dict" using ac_compile_compiled [OF assms(1)] assms(2) by auto
  have cap: "init_cap REASS_MAX_BYTES = REASS_MAX_BYTES" by (simp add: init_cap_def)
  have sz: "length S < 2 ^ 31" "REASS_MAX_BYTES < 2 ^ 31" using assms(5) by (simp_all add: REASS_MAX_BYTES_def)
  have dir: "0 \<le> dir" "dir \<le> 1" "nat dir < 2" using assms(4) by auto
  have C: "{..<length S} \<subseteq> {} \<union> ?C" using assms(8) by auto
  obtain ok fed' rf' acc where r:
      "reass_run fed rf dir (map (cut_seg S isn) ps) (Some collect) [] = Some (ok, fed', rf', acc)"
      "ok \<longrightarrow> run_inv S isn ?dict ({} \<union> ?C) REASS_MAX_BYTES rf' (nat dir) acc"
      "length S \<le> REASS_GAP_LIMIT \<and> length S \<le> REASS_MAX_BYTES \<longrightarrow> ok"
    using reass_run_correct [OF init_run_inv(1) [OF assms(3) c dir(3), unfolded cap] dir(1,2) sz assms(6),
        where isn = isn and fed = fed] assms(7) by blast
  then show ?thesis using run_inv_complete(2) [OF _ dir(3) C assms(5)] assms(5) by (auto simp: ac_hits_def)
qed

lemma build_one_pattern:
  "\<exists>a1 ac. ac_add_all (ac_init nc) [(x # xs, i)] = Some a1 \<and> ac_build a1 = Some ac"
proof -
  obtain a1 where a1: "ac_add_all (ac_init nc) [(x # xs, i)] = Some a1"
    using ac_add_all_Some [of "ac_init nc" "[(x # xs, i)]"] by (auto simp: ac_init_def ac_new_node_def)
  then show ?thesis using ac_compile_compiled [OF a1] by blast
qed

theorem reass_detects_cut_stream_witness:
  "\<exists>a1 ac rf fed' rf'. ac_add_all (ac_init True) [([97, 98], 7)] = Some a1 \<and> ac_build a1 = Some ac \<and>
    reass_flow_init (\<lambda>_. 0) (\<lambda>_. True) (Some ac) REASS_MAX_BYTES = (0, rf) \<and>
    reass_run 0 rf 1 (map (cut_seg [120, 97, 66] 4294967295) [(0, 1), (2, 1), (1, 2)]) (Some collect) [] =
      Some (True, fed', rf', [(1, 7, 2)])"
proof -
  obtain a1 ac where b: "ac_add_all (ac_init True) [([97, 98], 7)] = Some a1" "ac_build a1 = Some ac"
    using build_one_pattern by blast
  obtain rf where rf: "reass_flow_init (\<lambda>_. 0) (\<lambda>_. True) (Some ac) REASS_MAX_BYTES = (0, rf)"
    by (simp add: reass_flow_init_def Let_def)
  have hits: "naive_hits (pattern_dict True [([97, 98], 7)]) [] 0 (map (ac_norm True) [120, 97, 66]) = [(7, 2)]"
    by (simp add: pattern_dict_def ac_norm_def)
  have cov: "\<forall>i < length [120, 97, 66 :: u8]. \<exists>p \<in> set [(0, 1), (2, 1), (1, 2)]. fst p \<le> i \<and> i < fst p + snd p"
    by (auto simp: less_Suc_eq numeral_3_eq_3)
  have sz: "length [120, 97, 66 :: u8] \<le> REASS_MAX_BYTES" "length [120, 97, 66 :: u8] \<le> REASS_GAP_LIMIT"
    by (simp_all add: REASS_MAX_BYTES_def REASS_GAP_LIMIT_def)
  obtain ok fed' rf' acc where r: "reass_run 0 rf 1 (map (cut_seg [120, 97, 66] 4294967295) [(0, 1), (2, 1), (1, 2)])
        (Some collect) [] = Some (ok, fed', rf', acc)"
      "ok \<longrightarrow> acc = tag_hits (nat 1) (naive_hits (pattern_dict True [([97, 98], 7)]) [] 0 (map (ac_norm True) [120, 97, 66]))"
      "length [120, 97, 66 :: u8] \<le> REASS_GAP_LIMIT \<longrightarrow> ok"
    using reass_detects_cut_stream [OF b rf _ sz(1) _ _ cov, of 1 0 4294967295] by (auto simp del: map_map list.map)
  then have "ok" "acc = [(1, 7, 2)]" using sz(2) unfolding hits by (simp_all add: tag_hits_def)
  then show ?thesis using b rf r(1) by (metis (full_types))
qed



text \<open>
  C13. Every operation on a reachable flow returns: no scan loops, no unallocated buffer is
  read, whatever the segment, the automaton, the amount dropped or the limit.
\<close>

theorem reass_reachable_progress:
  assumes "reass_reachable cb dict rf ctx" and "length bs < 2 ^ 31"
    and "ac_add_all (ac_init nc) pats = Some a1" and "ac_build a1 = Some ac"
  shows "(\<exists>r. reass_segment fed rf dir seq (Some bs) cb ctx = Some r) \<and>
    (\<exists>r. reass_flow_rebind rf (Some ac) cb ctx = Some r) \<and>
    (\<exists>r. reass_consume rf dir n reset cb ctx = Some r) \<and>
    (\<exists>r. reass_set_scan_limit rf dir l cb ctx = Some r)"
proof -
  have inv: "flow_ok dict rf" "caps_ok rf" using reass_reachable_inv [OF assms(1)] by auto
  have "ac_compiled ac (nc, pattern_dict nc pats)" using ac_compile_compiled [OF assms(3)] assms(4) by auto
  then have rb: "\<exists>r. reass_flow_rebind rf (Some ac) cb ctx = Some r"
    using reass_flow_rebind_step [OF inv(1), of "Some ac" "(nc, pattern_dict nc pats)" cb ctx] by auto
  show ?thesis
  proof (cases "dir < 0 \<or> dir > 1")
    case True
    then show ?thesis using rb by (auto simp: reass_segment_def reass_consume_def reass_set_scan_limit_def)
  next
    case False
    then have n: "nat dir < 2" "0 \<le> dir" "dir \<le> 1" by auto
    then have "rd_cap (rf_dir rf ! nat dir) < 2 ^ 31" using inv flow_okD(1) [OF inv(1) n(1)] by (auto simp: caps_ok_def)
    then have w: "rd_cap (rf_dir rf ! nat dir) + length bs < 2 ^ 32" using assms(2) by simp
    obtain pre where "\<forall>ac. rf_ac rf = Some ac \<longrightarrow> ac_reads ac dict (rd_ac_state (rf_dir rf ! nat dir)) pre"
      using flow_okD(6) [OF inv(1) n(1)] by (metis option.inject)
    then show ?thesis
      using reass_segment_flow_ok [OF inv(1) w, of fed seq cb ctx] rb
        reass_consume_step [OF inv(1) n(2,3), of n reset cb ctx]
        reass_set_scan_limit_step [OF inv(1) n(2,3), of pre l cb ctx] by blast
  qed
qed

lemma built_flow:
  "\<exists>rf. reass_reachable (Some collect) (True, pattern_dict True [([97, 98], 7)]) rf [] \<and>
     reass_flow_init (\<lambda>_. 0) (\<lambda>_. True) (rf_ac rf) 0 = (0, rf)"
proof -
  obtain a1 ac where b: "ac_add_all (ac_init True) [([97, 98], 7)] = Some a1" "ac_build a1 = Some ac"
    using build_one_pattern by blast
  obtain rf where rf: "reass_flow_init (\<lambda>_. 0) (\<lambda>_. True) (Some ac) 0 = (0, rf)"
    by (simp add: reass_flow_init_def Let_def)
  have "rf_ac rf = Some ac" using reass_flow_init_ok [OF rf] by simp
  then show ?thesis using reass_reachable.init [OF b _ rf, of "Some collect" "[]"] rf by auto
qed

theorem reass_reachable_progress_witness:
  "\<exists>dict rf r. reass_reachable (Some collect) dict rf [] \<and>
     reass_segment 0 rf 0 5 (Some [97, 98]) (Some collect) [] = Some r"
proof -
  obtain a1 ac where b: "ac_add_all (ac_init True) [([97, 98], 7)] = Some a1" "ac_build a1 = Some ac"
    using build_one_pattern by blast
  obtain rf where "reass_reachable (Some collect) (True, pattern_dict True [([97, 98], 7)]) rf []"
    using built_flow by blast
  then show ?thesis using reass_reachable_progress [OF _ _ b, where bs = "[97, 98]" and dir = 0] by fastforce
qed

text \<open>
  C14. A segment is merged first-wins: on a reachable flow that has not failed, after
  \<open>reass_segment\<close> the direction holds at every offset the byte it held before, or else the byte the
  segment brings there (its sequence number taken relative to the base with the signed 32-bit
  difference, clipped to the window); the other direction is unchanged, and the flow is marked failed
  exactly if the answer is not \<open>REASS_OK\<close>.
\<close>

theorem reass_segment_first_wins:
  assumes "reass_reachable cb dict rf ctx" and "\<not> rf_failed rf" and "dir \<in> {0, 1}"
    and "bs \<noteq> []" and "length bs < 2 ^ 31"
    and "reass_segment fed rf dir seq (Some bs) cb ctx = Some (rc, fed', rf', ctx')"
  shows "recv (rf_dir rf' ! nat dir) =
      seg_bytes (rd_cap (rf_dir rf ! nat dir)) (sint (seq - rd_base_seq (rf_dir rf' ! nat dir))) bs ++
      recv (rf_dir rf ! nat dir) \<and>
    rf_dir rf' ! nat (1 - dir) = rf_dir rf ! nat (1 - dir) \<and>
    (rf_failed rf' \<longleftrightarrow> rc \<noteq> REASS_OK) \<and> rc \<in> {REASS_OK, REASS_FAILCLOSED}"
proof -
  have inv: "flow_ok dict rf" "caps_ok rf" using reass_reachable_inv [OF assms(1)] by auto
  have n: "nat dir < 2" "0 \<le> dir" "dir \<le> 1" "nat dir \<noteq> nat (1 - dir)" using assms(3) by auto
  note len = flow_okD(1) [OF inv(1) n(1)]
  have "rd_cap (rf_dir rf ! nat dir) < 2 ^ 31" using inv len n by (auto simp: caps_ok_def)
  then have w: "rd_cap (rf_dir rf ! nat dir) + length bs < 2 ^ 32" using assms(5) by simp
  obtain pre where "\<And>ac. rf_ac rf = Some ac \<Longrightarrow> ac_reads ac dict (rd_ac_state (rf_dir rf ! nat dir)) pre"
    using flow_okD(6) [OF inv(1) n(1)] by (metis option.inject)
  then obtain d' where "rf' = (put_dir rf (nat dir) d')\<lparr>rf_failed := rc \<noteq> REASS_OK\<rparr>"
      "rc \<in> {REASS_OK, REASS_FAILCLOSED}" "seg_post dict rf (nat dir) seq bs cb pre ctx rc d' ctx'"
    using reass_segment_step [OF inv(1) assms(2) n(2,3) assms(4) w, of pre fed seq cb ctx] assms(6) by auto
  then show ?thesis using len n by (auto simp: seg_post_def Let_def seg_off_def)
qed

theorem reass_segment_first_wins_witness:
  "\<exists>rf rc fed' rf' ctx'. reass_segment 0 rf 0 5 (Some [97, 98]) (Some collect) [] = Some (rc, fed', rf', ctx') \<and>
     recv (rf_dir rf' ! 0) =
       seg_bytes (rd_cap (rf_dir rf ! 0)) (sint (5 - rd_base_seq (rf_dir rf' ! 0))) [97, 98] ++ recv (rf_dir rf ! 0)"
proof -
  obtain rf where rf: "reass_reachable (Some collect) (True, pattern_dict True [([97, 98], 7)]) rf []"
      "reass_flow_init (\<lambda>_. 0) (\<lambda>_. True) (rf_ac rf) 0 = (0, rf)"
    using built_flow by blast
  have nf: "\<not> rf_failed rf" using reass_flow_init_ok [OF rf(2)] by (cases rf) auto
  obtain a1 ac where b: "ac_add_all (ac_init True) [([97, 98], 7)] = Some a1" "ac_build a1 = Some ac"
    using build_one_pattern by blast
  have "flow_ok (True, pattern_dict True [([97, 98], 7)]) rf" using reass_reachable_inv [OF rf(1)] by simp
  moreover have "rd_cap (rf_dir rf ! nat 0) + length [97, 98 :: u8] < 2 ^ 32"
    using reass_flow_init_ok [OF rf(2)]
    by (cases rf) (auto simp: reass_dir_init_def init_cap_def REASS_MAX_BYTES_def)
  ultimately obtain rc fed' rf' ctx' where
      "reass_segment 0 rf 0 5 (Some [97, 98]) (Some collect) [] = Some (rc, fed', rf', ctx')"
    using reass_segment_flow_ok [of _ rf 0 "[97, 98]" 0 5 "Some collect" "[]"] by blast
  then show ?thesis using reass_segment_first_wins [OF rf(1) nf, of 0 "[97, 98]" 0 5] by fastforce
qed

text \<open>
  Ruleset reload: rebinding a reachable flow to a freshly built automaton reports every
  occurrence of the new patterns in the bytes already reassembled, direction by direction, keeps the
  bytes and the failed flag, and leaves the flow ready for the new dictionary.
\<close>

theorem reass_rebind_rescans:
  assumes "reass_reachable (Some collect) dict rf acc"
    and "ac_add_all (ac_init nc) pats = Some a1" and "ac_build a1 = Some ac"
  shows "\<exists>rf'. reass_flow_rebind rf (Some ac) (Some collect) acc = Some (rf', acc @
       tag_hits 0 (naive_hits (pattern_dict nc pats) [] 0 (map (ac_norm nc) (stream (rf_dir rf ! 0)))) @
       tag_hits 1 (naive_hits (pattern_dict nc pats) [] 0 (map (ac_norm nc) (stream (rf_dir rf ! 1))))) \<and>
     flow_ok (nc, pattern_dict nc pats) rf' \<and> rf_ac rf' = Some ac \<and> rf_failed rf' = rf_failed rf \<and>
     map recv (rf_dir rf') = map recv (rf_dir rf)"
proof -
  let ?dict = "(nc, pattern_dict nc pats)"
  have inv: "flow_ok dict rf" using reass_reachable_inv [OF assms(1)] by auto
  have c: "ac_compiled ac ?dict" using ac_compile_compiled [OF assms(2)] assms(3) by auto
  obtain x y where xy: "rf_dir rf = [x, y]" using inv by (auto simp: flow_ok_def elim: length_2E)
  define rf1 where "rf1 = rf\<lparr>rf_ac := Some ac\<rparr>"
  obtain d0 d1 ctx1 ctx2 where r: "reass_flow_rebind rf (Some ac) (Some collect) acc = Some (rf1\<lparr>rf_dir := [d0, d1]\<rparr>, ctx2)"
      "reread ?dict rf1 0 (Some collect) x acc d0 ctx1" "reread ?dict (put_dir rf1 0 d0) 1 (Some collect) y ctx1 d1 ctx2"
      "flow_ok ?dict (rf1\<lparr>rf_dir := [d0, d1]\<rparr>)"
    using reass_flow_rebind_step [OF inv, of "Some ac" ?dict "Some collect" acc] c xy by (auto simp: rf1_def)
  have h: "ctx' = ctx @ tag_hits dir (ac_hits ?dict [] 0 (stream d))"
    if "reread ?dict rf dir (Some collect) d ctx d' ctx'" "rf_ac rf = Some ac" for rf dir d ctx d' ctx'
  proof -
    have "rd_scanned d' = rd_next_off d" using that by (simp add: reread_def)
    then have "new_bytes (restarted d) d' = stream d"
      using reread_fields(5) [OF that(1)] by (simp add: new_bytes_def)
    then show ?thesis using that by (auto simp: reread_def has_read_collect)
  qed
  have "ctx2 = acc @ tag_hits 0 (ac_hits ?dict [] 0 (stream x)) @ tag_hits 1 (ac_hits ?dict [] 0 (stream y))"
    using h [OF r(2)] h [OF r(3)] by (simp add: rf1_def)
  then show ?thesis
    using r reread_fields(2) [OF r(2)] reread_fields(2) [OF r(3)] xy by (simp add: ac_hits_def rf1_def)
qed

theorem reass_rebind_rescans_witness:
  "\<exists>rf ac rf' acc'. reass_flow_rebind rf (Some ac) (Some collect) [] = Some (rf', acc') \<and> rf_ac rf' = Some ac"
proof -
  obtain a1 ac where b: "ac_add_all (ac_init True) [([97, 98], 7)] = Some a1" "ac_build a1 = Some ac"
    using build_one_pattern by blast
  obtain rf where "reass_reachable (Some collect) (True, pattern_dict True [([97, 98], 7)]) rf []"
    using built_flow by blast
  then show ?thesis using reass_rebind_rescans [OF _ b] by blast
qed

text \<open>
  Dropping the inspected head of a window shifts it: \<open>n\<close> (at most the contiguous length)
  bytes disappear from the front, every other byte keeps its place in the stream (the base sequence
  number moves along), and without a reset the matcher state and the callback are untouched.
\<close>

theorem reass_consume_shifts:
  assumes "reass_reachable cb dict rf ctx" and "dir \<in> {0, 1}" and "m = min n (rd_next_off (rf_dir rf ! nat dir))"
  shows "\<exists>rf' ctx'. reass_consume rf dir n reset cb ctx = Some (rf', ctx') \<and>
    (\<forall>i. recv (rf_dir rf' ! nat dir) i = recv (rf_dir rf ! nat dir) (i + m)) \<and>
    stream (rf_dir rf' ! nat dir) = drop m (stream (rf_dir rf ! nat dir)) \<and>
    rd_base_seq (rf_dir rf' ! nat dir) = rd_base_seq (rf_dir rf ! nat dir) + of_nat m \<and>
    rf_dir rf' ! nat (1 - dir) = rf_dir rf ! nat (1 - dir) \<and>
    (\<not> reset \<longrightarrow> ctx' = ctx \<and> rd_ac_state (rf_dir rf' ! nat dir) = rd_ac_state (rf_dir rf ! nat dir))"
proof -
  have inv: "flow_ok dict rf" using reass_reachable_inv [OF assms(1)] by auto
  have n: "nat dir < 2" "0 \<le> dir" "dir \<le> 1" "nat dir \<noteq> nat (1 - dir)" using assms(2) by auto
  show ?thesis
    using reass_consume_step [OF inv n(2,3), of n reset cb ctx] flow_okD(1) [OF inv n(1)] n
    by (fastforce simp: consumed_def assms(3))
qed

theorem reass_consume_shifts_witness:
  "\<exists>rf rf' ctx'. reass_consume rf 0 5 False (Some collect) [] = Some (rf', ctx') \<and>
     stream (rf_dir rf' ! 0) = drop (min 5 (rd_next_off (rf_dir rf ! 0))) (stream (rf_dir rf ! 0))"
proof -
  obtain rf where "reass_reachable (Some collect) (True, pattern_dict True [([97, 98], 7)]) rf []"
    using built_flow by blast
  then show ?thesis using reass_consume_shifts [of "Some collect" _ rf "[]" 0 _ 5 False] by fastforce
qed

end
