(* ===== verification/Sig_Rule.thy ===== *)
theory Sig_Rule
  imports Aho_Corasick_Correct "HOL-Library.Option_ord"
begin

unbundle bit_operations_syntax

text \<open>
  Signature rules and their evaluation (\<open>src/src/userspace/ipsd/sig_rule.h\<close> and the matching half of
  \<open>sig_rule.c\<close>): the rule structure, \<open>byte_test\<close> and \<open>byte_jump\<close>, flowbits, the per-profile masks, the
  sid index, the build of the prefilter and the verification of a rule. The parser is in
  \<open>Sig_Parse\<close>.

  Conventions: an array with its element count is a list; the marker \<open>-1\<close> for "unset" stays an
  \<open>int\<close> where the code computes with it and is \<open>None\<close> where it is only tested. C \<open>int\<close> sums that can
  leave the 32-bit range are wrapped with \<open>signed_take_bit 31\<close> (64-bit ones with \<open>signed_take_bit
  63\<close>), as the compiled code does. The regular expression engine is a third-party library: a
  compiled expression is a value of the type variable \<open>'p\<close> and the call that runs it is the
  parameter \<open>pcre_match\<close>. A result \<open>None\<close> of the evaluation means that the code reads outside the
  payload.
\<close>

section \<open>Data\<close>

definition SIG_MAX_CONTENT :: nat where "SIG_MAX_CONTENT = 8"
definition SIG_CONTENT_MAX :: nat where "SIG_CONTENT_MAX = 1024"
definition SIG_MSG_MAX :: nat where "SIG_MSG_MAX = 128"
definition SIG_MAX_BYTEOP :: nat where "SIG_MAX_BYTEOP = 4"
definition SIG_MAX_FLOWBITS :: nat where "SIG_MAX_FLOWBITS = 1024"
definition SIG_FB_NAME_MAX :: nat where "SIG_FB_NAME_MAX = 64"
definition SIG_MAX_FB_RULE :: nat where "SIG_MAX_FB_RULE = 6"
definition SIG_FB_WORDS :: nat where "SIG_FB_WORDS = SIG_MAX_FLOWBITS div 64"
definition SIG_DPORT_MAX :: nat where "SIG_DPORT_MAX = 8"

datatype sig_action = SIG_ALERT | SIG_DROP
datatype sig_proto = SIG_PROTO_ANY | SIG_PROTO_TCP | SIG_PROTO_UDP | SIG_PROTO_ICMP
datatype sig_fidelity = SIG_FID_FULL | SIG_FID_ALERT
datatype sig_buf = SIG_BUF_RAW | SIG_BUF_HTTP_METHOD | SIG_BUF_HTTP_URI | SIG_BUF_HTTP_HEADER
  | SIG_BUF_HTTP_BODY | SIG_BUF_TLS_SNI
datatype sig_fb_op = SIG_FB_ISSET | SIG_FB_ISNOTSET | SIG_FB_SET | SIG_FB_UNSET | SIG_FB_TOGGLE
datatype sig_byteop_kind = SIG_BYTE_TEST | SIG_BYTE_JUMP

text \<open>\<open>DROP > ALERT\<close>: the code compares actions as numbers.\<close>

instantiation sig_action :: linorder
begin

definition less_sig_action :: "sig_action \<Rightarrow> sig_action \<Rightarrow> bool" where
  "less_sig_action a b \<longleftrightarrow> a = SIG_ALERT \<and> b = SIG_DROP"

definition less_eq_sig_action :: "sig_action \<Rightarrow> sig_action \<Rightarrow> bool" where
  "less_eq_sig_action a b \<longleftrightarrow> a = SIG_ALERT \<or> b = SIG_DROP"

instance
proof
  fix x y z :: sig_action
  show "x < y \<longleftrightarrow> x \<le> y \<and> \<not> y \<le> x" by (cases x; cases y) (simp_all add: less_sig_action_def less_eq_sig_action_def)
  show "x \<le> x" by (cases x) (simp_all add: less_eq_sig_action_def)
  show "x \<le> y \<Longrightarrow> y \<le> z \<Longrightarrow> x \<le> z" by (cases x; cases y; cases z) (simp_all add: less_eq_sig_action_def)
  show "x \<le> y \<Longrightarrow> y \<le> x \<Longrightarrow> x = y" by (cases x; cases y) (simp_all add: less_eq_sig_action_def)
  show "x \<le> y \<or> y \<le> x" by (cases x; cases y) (simp_all add: less_eq_sig_action_def)
qed

end

definition SIG_FLOW_ESTABLISHED :: u8 where "SIG_FLOW_ESTABLISHED = 0x01"
definition SIG_FLOW_TO_SERVER :: u8 where "SIG_FLOW_TO_SERVER = 0x02"
definition SIG_FLOW_TO_CLIENT :: u8 where "SIG_FLOW_TO_CLIENT = 0x04"

record sig_content =
  c_data :: bytes
  c_nocase :: bool
  c_offset :: int
  c_depth :: int
  c_distance :: int
  c_within :: int
  c_relative :: bool
  c_buffer :: sig_buf

record sig_flowbit =
  fb_op :: sig_fb_op
  fb_flag_id :: nat

type_synonym flowbit_state = "u64 list"

record sig_byteop =
  bo_kind :: sig_byteop_kind
  bo_nbytes :: u8
  bo_relative :: bool
  bo_little :: bool
  bo_negate :: bool
  bo_oper :: char
  bo_value :: int
  bo_offset :: int
  bo_multiplier :: int
  bo_post_offset :: int
  bo_after_content :: nat

record 'p sig_rule =
  r_sid :: u32
  r_rev :: u32
  r_action :: sig_action
  r_base_action :: sig_action
  r_proto :: sig_proto
  r_dport_list :: "u16 list"
  r_flags_set :: u8
  r_content :: "sig_content list"
  r_fast :: "nat option"
  r_dsize_min :: int
  r_dsize_max :: int
  r_byteop :: "sig_byteop list"
  r_flowbits :: "sig_flowbit list"
  r_pcre :: "'p option"
  r_pcre_relative :: bool
  r_pcre_buffer :: sig_buf
  r_fb_noalert :: bool
  r_flow_flags :: u8
  r_fidelity :: sig_fidelity
  r_has_unsup :: u8
  r_prof_mask :: u32
  r_prof_drop_mask :: u32
  r_msg :: string

record 'p sig_ruleset =
  rs_rules :: "'p sig_rule list"
  rs_ac :: ac_automaton
  rs_built :: bool
  rs_sid_index :: "nat option list"
  rs_fb_names :: "string list"
  rs_fb_ever_set :: "bool list"

text \<open>The protocol regions: \<open>None\<close> is the \<open>NULL\<close> pointer.\<close>

type_synonym match_buffers = "sig_buf \<Rightarrow> bytes option"

record flow_ctx =
  fc_proto :: sig_proto
  fc_dport :: u16
  fc_tcp_flags :: u8
  fc_established :: bool
  fc_to_server :: bool
  fc_prof_id :: nat
  fc_fb :: "flowbit_state option"
  fc_bufs :: "match_buffers option"

type_synonym 'p pcre_match = "'p \<Rightarrow> bytes \<Rightarrow> nat \<Rightarrow> bool"

section \<open>Effective action\<close>

text \<open>The bit of a profile; the code computes it for \<open>1 \<le> prof_id\<close> only.\<close>

definition prof_bit :: "nat \<Rightarrow> u32" where
  "prof_bit prof_id = push_bit (prof_id - 1) 1"

definition sig_eff_action :: "'p sig_rule \<Rightarrow> nat \<Rightarrow> sig_action" where
  "sig_eff_action r prof_id =
     (if prof_id < 1 \<or> prof_id > 31 then r_action r
      else if r_prof_mask r AND prof_bit prof_id = 0 then r_action r
      else if r_prof_drop_mask r AND prof_bit prof_id \<noteq> 0 then SIG_DROP else SIG_ALERT)"

text \<open>The fidelity cap both match callbacks apply on top.\<close>

definition capped_action :: "'p sig_rule \<Rightarrow> nat \<Rightarrow> sig_action" where
  "capped_action r prof_id =
     (if r_fidelity r = SIG_FID_ALERT then SIG_ALERT else sig_eff_action r prof_id)"

definition port_match :: "u16 list \<Rightarrow> u16 \<Rightarrow> bool" where
  "port_match list port \<longleftrightarrow> list = [] \<or> port \<in> set list"

section \<open>Binary fields\<close>

text \<open>The value of the field: its bytes in network order, or reversed.\<close>

definition field_bytes :: "bytes \<Rightarrow> int \<Rightarrow> nat \<Rightarrow> bool \<Rightarrow> bytes" where
  "field_bytes p pos nbytes little =
     (let f = take nbytes (drop (nat pos) p) in if little then rev f else f)"

definition fold_bytes :: "bytes \<Rightarrow> u64" where
  "fold_bytes bs = foldl (\<lambda>v b. push_bit 8 v OR ucast b) 0 bs"

text \<open>
  \<open>read_field\<close>: \<open>Some None\<close> is its return value 0. The bound is tested on the wrapped sum; if the
  test passes although the field is not inside the buffer, the code reads outside it (\<open>None\<close>).
\<close>

definition read_field :: "bytes \<Rightarrow> int \<Rightarrow> nat \<Rightarrow> bool \<Rightarrow> u64 option option" where
  "read_field p pos nbytes little =
     (if pos < 0 \<or> nbytes < 1 \<or> nbytes > 8 \<or> signed_take_bit 31 (pos + int nbytes) > int (length p)
      then Some None
      else if pos + int nbytes \<le> int (length p) then Some (Some (fold_bytes (field_bytes p pos nbytes little)))
      else None)"

definition byte_test_result :: "char \<Rightarrow> u64 \<Rightarrow> int \<Rightarrow> bool" where
  "byte_test_result oper v value =
     (if oper = CHR ''<'' then sint v < value
      else if oper = CHR ''>'' then sint v > value
      else if oper = CHR ''='' then sint v = value
      else if oper = CHR ''&'' then v AND of_int value \<noteq> 0
      else if oper = CHR ''|'' then v OR of_int value \<noteq> 0
      else False)"

text \<open>\<open>apply_byteop\<close>: the returned flag and the cursor.\<close>

definition apply_byteop :: "sig_byteop \<Rightarrow> bytes \<Rightarrow> int \<Rightarrow> (bool \<times> int) option" where
  "apply_byteop opn p cursor =
     (let pos = (if bo_relative opn then signed_take_bit 31 (cursor + bo_offset opn) else bo_offset opn) in
      case read_field p pos (unat (bo_nbytes opn)) (bo_little opn) of
        None \<Rightarrow> None
      | Some None \<Rightarrow> Some (False, cursor)
      | Some (Some v) \<Rightarrow>
          (case bo_kind opn of
             SIG_BYTE_TEST \<Rightarrow>
               (let r = byte_test_result (bo_oper opn) v (bo_value opn)
                in Some (if bo_negate opn then \<not> r else r, cursor))
           | SIG_BYTE_JUMP \<Rightarrow>
               (let nc = signed_take_bit 63 (pos + int (unat (bo_nbytes opn)) +
                           signed_take_bit 63 (sint v * bo_multiplier opn) + bo_post_offset opn);
                    nc1 = (if nc < 0 then 0 else nc);
                    nc2 = (if nc1 > int (length p) then int (length p) else nc1)
                in Some (True, nc2))))"

section \<open>Flowbits\<close>

definition fb_get :: "flowbit_state \<Rightarrow> nat \<Rightarrow> bool" where
  "fb_get s i \<longleftrightarrow> drop_bit (i AND 63) (s ! drop_bit 6 i) AND 1 \<noteq> 0"

definition fb_set :: "flowbit_state \<Rightarrow> nat \<Rightarrow> flowbit_state" where
  "fb_set s i = s[drop_bit 6 i := s ! drop_bit 6 i OR push_bit (i AND 63) 1]"

definition fb_clear :: "flowbit_state \<Rightarrow> nat \<Rightarrow> flowbit_state" where
  "fb_clear s i = s[drop_bit 6 i := s ! drop_bit 6 i AND NOT (push_bit (i AND 63) 1)]"

definition flowbit_apply1 :: "sig_flowbit \<Rightarrow> flowbit_state \<Rightarrow> flowbit_state" where
  "flowbit_apply1 b s =
     (case fb_op b of
        SIG_FB_SET \<Rightarrow> fb_set s (fb_flag_id b)
      | SIG_FB_UNSET \<Rightarrow> fb_clear s (fb_flag_id b)
      | SIG_FB_TOGGLE \<Rightarrow> if fb_get s (fb_flag_id b) then fb_clear s (fb_flag_id b) else fb_set s (fb_flag_id b)
      | _ \<Rightarrow> s)"

definition sig_flowbits_apply :: "'p sig_rule \<Rightarrow> flowbit_state option \<Rightarrow> flowbit_state option" where
  "sig_flowbits_apply r fb = map_option (fold flowbit_apply1 (r_flowbits r)) fb"

definition flowbits_hold :: "sig_flowbit list \<Rightarrow> flowbit_state option \<Rightarrow> bool" where
  "flowbits_hold fbs fb \<longleftrightarrow>
     (\<forall>b \<in> set fbs.
        (fb_op b = SIG_FB_ISSET \<longrightarrow> (case fb of None \<Rightarrow> False | Some s \<Rightarrow> fb_get s (fb_flag_id b))) \<and>
        (fb_op b = SIG_FB_ISNOTSET \<longrightarrow> (case fb of None \<Rightarrow> False | Some s \<Rightarrow> \<not> fb_get s (fb_flag_id b))))"

section \<open>Verification of a rule\<close>

text \<open>The needle occurs at \<open>s\<close>; the inner loop of \<open>mem_find\<close>, with its case folding.\<close>

definition occurs_at :: "bool \<Rightarrow> bytes \<Rightarrow> bytes \<Rightarrow> nat \<Rightarrow> bool" where
  "occurs_at nocase hay needle s \<longleftrightarrow>
     map (ac_norm nocase) (take (length needle) (drop s hay)) = map (ac_norm nocase) needle"

function mem_find_loop :: "bytes \<Rightarrow> bytes \<Rightarrow> bool \<Rightarrow> nat \<Rightarrow> nat \<Rightarrow> nat option" where
  "mem_find_loop hay needle nocase s to =
     (if s + length needle \<le> to then
        if occurs_at nocase hay needle s then Some s else mem_find_loop hay needle nocase (Suc s) to
      else None)"
  by pat_completeness auto
termination
  by (relation "measure (\<lambda>(hay, needle, nocase, s, to). Suc to - s)") auto

declare mem_find_loop.simps [simp del]

definition mem_find :: "bytes \<Rightarrow> bytes \<Rightarrow> bool \<Rightarrow> nat \<Rightarrow> nat \<Rightarrow> nat option" where
  "mem_find hay needle nocase from to =
     (if needle = [] then Some from else mem_find_loop hay needle nocase from to)"

text \<open>The clamped search window of a content in a buffer of \<open>blen\<close> bytes.\<close>

definition content_window :: "sig_content \<Rightarrow> int \<Rightarrow> int \<Rightarrow> int \<times> int" where
  "content_window c last_end blen =
     (let (lo, hi) =
        (if c_relative c then
           (let lo = last_end + c_distance c
            in (lo, if c_within c \<ge> 0 then lo + c_within c else blen))
         else
           (let base = (if c_offset c \<ge> 0 then c_offset c else 0)
            in (if base > last_end then base else last_end,
                if c_depth c \<ge> 0 then base + c_depth c else blen)))
      in (if lo < 0 then 0 else lo, if hi > blen then blen else hi))"

text \<open>The buffer a content matches on: \<open>None\<close> when the region is missing or empty.\<close>

definition content_buf :: "bytes \<Rightarrow> flow_ctx \<Rightarrow> sig_buf \<Rightarrow> bytes option" where
  "content_buf p fc b =
     (if b = SIG_BUF_RAW then Some p
      else case fc_bufs fc of
             None \<Rightarrow> None
           | Some m \<Rightarrow> (case m b of None \<Rightarrow> None | Some bs \<Rightarrow> if bs = [] then None else Some bs))"

text \<open>One content: the new cursor, or \<open>None\<close> for "no match".\<close>

definition verify_content :: "bytes \<Rightarrow> flow_ctx \<Rightarrow> sig_content \<Rightarrow> int \<Rightarrow> sig_buf \<Rightarrow> int option" where
  "verify_content p fc c last_end cur_buf =
     (case content_buf p fc (c_buffer c) of
        None \<Rightarrow> None
      | Some bp \<Rightarrow>
          (let le = (if c_buffer c \<noteq> cur_buf then 0 else last_end);
               (lo, hi) = content_window c le (int (length bp))
           in if lo > hi then None
              else map_option (\<lambda>s. int s + int (length (c_data c)))
                     (mem_find bp (c_data c) (c_nocase c) (nat lo) (nat hi))))"

text \<open>The byte operations that come before content \<open>i\<close>: flag, remaining operations, cursor.\<close>

fun byteops_before :: "nat \<Rightarrow> sig_byteop list \<Rightarrow> bytes \<Rightarrow> int \<Rightarrow> (bool \<times> sig_byteop list \<times> int) option" where
  "byteops_before i [] p cursor = Some (True, [], cursor)"
| "byteops_before i (b # bs) p cursor =
     (if bo_after_content b = i then
        (case apply_byteop b p cursor of
           None \<Rightarrow> None
         | Some (ok, cursor') \<Rightarrow> if ok then byteops_before i bs p cursor' else Some (False, bs, cursor'))
      else Some (True, b # bs, cursor))"

fun byteops_rest :: "sig_byteop list \<Rightarrow> bytes \<Rightarrow> int \<Rightarrow> (bool \<times> int) option" where
  "byteops_rest [] p cursor = Some (True, cursor)"
| "byteops_rest (b # bs) p cursor =
     (case apply_byteop b p cursor of
        None \<Rightarrow> None
      | Some (ok, cursor') \<Rightarrow> if ok then byteops_rest bs p cursor' else Some (False, cursor'))"

fun verify_contents ::
  "bytes \<Rightarrow> flow_ctx \<Rightarrow> nat \<Rightarrow> sig_content list \<Rightarrow> sig_byteop list \<Rightarrow> int \<Rightarrow> sig_buf \<Rightarrow> (bool \<times> int) option"
where
  "verify_contents p fc i [] bops last_end cur_buf = byteops_rest bops p last_end"
| "verify_contents p fc i (c # cs) bops last_end cur_buf =
     (case byteops_before i bops p last_end of
        None \<Rightarrow> None
      | Some (ok, bops', le) \<Rightarrow>
          if \<not> ok then Some (False, le)
          else (case verify_content p fc c le cur_buf of
                  None \<Rightarrow> Some (False, le)
                | Some le' \<Rightarrow> verify_contents p fc (Suc i) cs bops' le' (c_buffer c)))"

text \<open>The cheap conditions in front of the content loop.\<close>

definition header_holds :: "'p sig_rule \<Rightarrow> int \<Rightarrow> flow_ctx \<Rightarrow> bool" where
  "header_holds r len fc \<longleftrightarrow>
     \<not> (fc_prof_id fc \<noteq> 0 \<and> r_prof_mask r AND prof_bit (fc_prof_id fc) = 0) \<and>
     \<not> (r_proto r \<noteq> SIG_PROTO_ANY \<and> fc_proto fc \<noteq> r_proto r) \<and>
     port_match (r_dport_list r) (fc_dport fc) \<and>
     \<not> (r_flags_set r \<noteq> 0 \<and> fc_tcp_flags fc AND r_flags_set r \<noteq> r_flags_set r) \<and>
     \<not> (r_flow_flags r AND SIG_FLOW_ESTABLISHED \<noteq> 0 \<and> \<not> fc_established fc) \<and>
     \<not> (r_flow_flags r AND SIG_FLOW_TO_SERVER \<noteq> 0 \<and> \<not> fc_to_server fc) \<and>
     \<not> (r_flow_flags r AND SIG_FLOW_TO_CLIENT \<noteq> 0 \<and> fc_to_server fc) \<and>
     flowbits_hold (r_flowbits r) (fc_fb fc) \<and>
     \<not> (r_dsize_min r \<ge> 0 \<and> len < r_dsize_min r) \<and>
     \<not> (r_dsize_max r \<ge> 0 \<and> len > r_dsize_max r)"

text \<open>The final regular-expression step.\<close>

definition verify_pcre :: "'p pcre_match \<Rightarrow> 'p sig_rule \<Rightarrow> bytes \<Rightarrow> flow_ctx \<Rightarrow> int \<Rightarrow> bool" where
  "verify_pcre pcre_match r p fc last_end =
     (case r_pcre r of
        None \<Rightarrow> True
      | Some code \<Rightarrow>
          (case content_buf p fc (r_pcre_buffer r) of
             None \<Rightarrow> False
           | Some sp \<Rightarrow>
               pcre_match code sp
                 (if r_pcre_relative r \<and> r_pcre_buffer r = SIG_BUF_RAW \<and> 0 \<le> last_end \<and> last_end \<le> int (length sp)
                  then nat last_end else 0)))"

definition verify_rule :: "'p pcre_match \<Rightarrow> 'p sig_rule \<Rightarrow> bytes \<Rightarrow> flow_ctx \<Rightarrow> bool option" where
  "verify_rule pcre_match r p fc =
     (if \<not> header_holds r (int (length p)) fc then Some False
      else case verify_contents p fc 0 (r_content r) (r_byteop r) 0 SIG_BUF_RAW of
             None \<Rightarrow> None
           | Some (ok, last_end) \<Rightarrow> Some (ok \<and> verify_pcre pcre_match r p fc last_end))"

definition sig_verify ::
  "'p pcre_match \<Rightarrow> 'p sig_ruleset \<Rightarrow> int \<Rightarrow> bytes \<Rightarrow> flow_ctx \<Rightarrow> bool option" where
  "sig_verify pcre_match rs rule_idx buf fc =
     (if rule_idx < 0 \<or> rule_idx \<ge> int (length (rs_rules rs)) then Some False
      else verify_rule pcre_match (rs_rules rs ! nat rule_idx) buf fc)"

section \<open>Matching a payload\<close>

record match_ctx =
  m_best :: "nat option"
  m_best_action :: "sig_action option"

text \<open>
  The callback of the prefilter. The context is \<open>None\<close> once a verification has read outside the
  payload.
\<close>

definition on_fast_hit ::
  "'p pcre_match \<Rightarrow> 'p sig_ruleset \<Rightarrow> bytes \<Rightarrow> flow_ctx \<Rightarrow> match_ctx option match_cb" where
  "on_fast_hit pcre_match rs payload fc rule_idx end_pos m =
     (case m of None \<Rightarrow> (True, None) | Some mc \<Rightarrow>
      let r = rs_rules rs ! rule_idx in
      case verify_rule pcre_match r payload fc of
        None \<Rightarrow> (True, None)
      | Some False \<Rightarrow> (False, Some mc)
      | Some True \<Rightarrow>
          (let action = capped_action r (fc_prof_id fc);
               mc' = (if Some action > m_best_action mc
                      then mc\<lparr>m_best_action := Some action, m_best := Some rule_idx\<rparr> else mc)
           in (m_best_action mc' = Some SIG_DROP, Some mc')))"

definition sig_match ::
  "'p pcre_match \<Rightarrow> 'p sig_ruleset \<Rightarrow> bytes \<Rightarrow> flow_ctx \<Rightarrow> nat option option" where
  "sig_match pcre_match rs payload fc =
     (if \<not> rs_built rs then Some None
      else case ac_search (rs_ac rs) payload (on_fast_hit pcre_match rs payload fc)
                  (Some \<lparr>m_best = None, m_best_action = None\<rparr>) of
             None \<Rightarrow> None
           | Some (_, m) \<Rightarrow> map_option m_best m)"

end
