(* ===== verification/Sig_Build.thy ===== *)
theory Sig_Build
  imports Sig_Rule
begin

unbundle bit_operations_syntax

text \<open>
  Building a ruleset (\<open>sig_build\<close>, the sid index and \<open>ruleset_new\<close> of \<open>src/src/userspace/ipsd/sig_rule.c\<close>):
  clamping rules whose flowbit conditions cannot be trusted, compiling the prefilter from one fast
  pattern per rule, and the open-addressed hash from sid to rule index. The locale \<open>key_index\<close>
  states what the profile maps need of that hash; it is interpreted on the sid index.
\<close>

section \<open>Empty rulesets and rules\<close>

definition sig_ruleset_init :: "'p sig_ruleset" where
  "sig_ruleset_init =
     \<lparr>rs_rules = [], rs_ac = ac_free (ac_init False), rs_built = False, rs_sid_index = [],
      rs_fb_names = [], rs_fb_ever_set = []\<rparr>"

definition ruleset_new :: "'p sig_rule" where
  "ruleset_new =
     \<lparr>r_sid = 0, r_rev = 0, r_action = SIG_ALERT, r_base_action = SIG_ALERT, r_proto = SIG_PROTO_ANY,
      r_dport_list = [], r_flags_set = 0, r_content = [], r_fast = None, r_dsize_min = -1,
      r_dsize_max = -1, r_byteop = [], r_flowbits = [], r_pcre = None, r_pcre_relative = False,
      r_pcre_buffer = SIG_BUF_RAW, r_fb_noalert = False, r_flow_flags = 0, r_fidelity = SIG_FID_FULL,
      r_has_unsup = 0, r_prof_mask = 0, r_prof_drop_mask = 0, r_msg = []\<rparr>"

definition sig_ruleset_free :: "'p sig_ruleset \<Rightarrow> 'p sig_ruleset" where
  "sig_ruleset_free rs = sig_ruleset_init"

section \<open>The sid index\<close>

definition sid_hash :: "u32 \<Rightarrow> u32" where
  "sid_hash x0 =
     (let x1 = (x0 XOR drop_bit 16 x0) * 0x7feb352d;
          x2 = (x1 XOR drop_bit 15 x1) * 0x846ca68b
      in x2 XOR drop_bit 16 x2)"

text \<open>The capacity: the first power of two from 64 on that is at least twice the rule count.\<close>

function sid_cap :: "nat \<Rightarrow> nat \<Rightarrow> nat" where
  "sid_cap n cap = (if 0 < cap \<and> cap < n * 2 then sid_cap n (push_bit 1 cap) else cap)"
  by pat_completeness auto
termination
  by (relation "measure (\<lambda>(n, cap). n * 2 - cap)") auto

declare sid_cap.simps [simp del]

definition sid_slot :: "nat \<Rightarrow> u32 \<Rightarrow> nat" where
  "sid_slot cap sid = unat (sid_hash sid) AND (cap - 1)"

text \<open>The probe for an empty slot; \<open>None\<close> would be a loop that never ends.\<close>

partial_function (option) sid_probe :: "nat option list \<Rightarrow> nat \<Rightarrow> nat option" where
  "sid_probe idx h =
     (if idx ! h \<noteq> None then sid_probe idx (Suc h AND (length idx - 1)) else Some h)"

fun sid_insert_all :: "nat option list \<Rightarrow> nat \<Rightarrow> u32 list \<Rightarrow> nat option list option" where
  "sid_insert_all idx i [] = Some idx"
| "sid_insert_all idx i (sid # sids) =
     (case sid_probe idx (sid_slot (length idx) sid) of
        None \<Rightarrow> None
      | Some h \<Rightarrow> sid_insert_all (idx[h := Some i]) (Suc i) sids)"

definition sig_build_sid_index :: "u32 list \<Rightarrow> nat option list option" where
  "sig_build_sid_index sids = sid_insert_all (replicate (sid_cap (length sids) 64) None) 0 sids"

text \<open>The bounded probe of the lookup.\<close>

fun sid_find :: "u32 list \<Rightarrow> nat option list \<Rightarrow> u32 \<Rightarrow> nat \<Rightarrow> nat \<Rightarrow> nat option" where
  "sid_find sids idx sid h 0 = None"
| "sid_find sids idx sid h (Suc n) =
     (case idx ! h of
        None \<Rightarrow> None
      | Some i \<Rightarrow> if sids ! i = sid then Some i
                  else sid_find sids idx sid (Suc h AND (length idx - 1)) n)"

definition rs_by_sid :: "u32 list \<Rightarrow> nat option list \<Rightarrow> u32 \<Rightarrow> nat option" where
  "rs_by_sid sids idx sid =
     (if idx = [] then None else sid_find sids idx sid (sid_slot (length idx) sid) (length idx))"

section \<open>The build\<close>

definition fb_untrusted :: "'p sig_ruleset \<Rightarrow> sig_flowbit \<Rightarrow> bool" where
  "fb_untrusted rs b \<longleftrightarrow> fb_op b \<in> {SIG_FB_ISSET, SIG_FB_ISNOTSET} \<and>
     (fb_flag_id b \<ge> length (rs_fb_names rs) \<or> \<not> rs_fb_ever_set rs ! fb_flag_id b)"

definition clamp_rule :: "'p sig_ruleset \<Rightarrow> 'p sig_rule \<Rightarrow> 'p sig_rule" where
  "clamp_rule rs r =
     (if list_ex (fb_untrusted rs) (r_flowbits r) then r\<lparr>r_fidelity := SIG_FID_ALERT\<rparr> else r)"

text \<open>The fast patterns, added with the rule index as identifier.\<close>

fun add_fast :: "ac_automaton \<Rightarrow> nat \<Rightarrow> 'p sig_rule list \<Rightarrow> ac_automaton option" where
  "add_fast ac i [] = Some ac"
| "add_fast ac i (r # rs) =
     (case r_fast r of
        None \<Rightarrow> add_fast ac (Suc i) rs
      | Some f \<Rightarrow>
          (case ac_add_pattern ac (c_data (r_content r ! f)) (int i) of
             None \<Rightarrow> None
           | Some ac' \<Rightarrow> add_fast ac' (Suc i) rs))"

definition sig_build :: "'p sig_ruleset \<Rightarrow> 'p sig_ruleset option" where
  "sig_build rs =
     (let rules = map (clamp_rule rs) (rs_rules rs) in
      case add_fast (ac_init True) 0 rules of
        None \<Rightarrow> None
      | Some ac1 \<Rightarrow>
          (case ac_build ac1 of
             None \<Rightarrow> None
           | Some ac \<Rightarrow>
               map_option (\<lambda>idx. rs\<lparr>rs_rules := rules, rs_ac := ac, rs_sid_index := idx, rs_built := True\<rparr>)
                 (sig_build_sid_index (map r_sid rules))))"

section \<open>Profile selection maps\<close>

text \<open>The reset, and one line of the map of profile \<open>profid\<close>.\<close>

definition reset_rule :: "'p sig_rule \<Rightarrow> 'p sig_rule" where
  "reset_rule r = r\<lparr>r_prof_mask := 0, r_prof_drop_mask := 0, r_action := r_base_action r\<rparr>"

definition select_rule :: "nat \<Rightarrow> string \<Rightarrow> 'p sig_rule \<Rightarrow> 'p sig_rule" where
  "select_rule profid act r =
     r\<lparr>r_prof_mask := r_prof_mask r OR prof_bit profid,
       r_prof_drop_mask := (if act = ''block'' then r_prof_drop_mask r OR prof_bit profid
                            else r_prof_drop_mask r AND NOT (prof_bit profid))\<rparr>"

definition map_line :: "nat \<Rightarrow> 'p sig_ruleset \<Rightarrow> u32 \<times> string \<Rightarrow> 'p sig_ruleset" where
  "map_line profid rs l =
     (case rs_by_sid (map r_sid (rs_rules rs)) (rs_sid_index rs) (fst l) of
        None \<Rightarrow> rs
      | Some i \<Rightarrow> rs\<lparr>rs_rules := (rs_rules rs)[i := select_rule profid (snd l) (rs_rules rs ! i)]\<rparr>)"

section \<open>The interface of a key index\<close>

locale key_index =
  fixes build :: "'k list \<Rightarrow> 't option"
    and find :: "'k list \<Rightarrow> 't \<Rightarrow> 'k \<Rightarrow> nat option"
  assumes build_total: "\<exists>t. build ks = Some t"
    and find_hit: "build ks = Some t \<Longrightarrow> find ks t k = Some i \<Longrightarrow> i < length ks \<and> ks ! i = k \<and> (\<forall>j < i. ks ! j \<noteq> k)"
    and find_miss: "build ks = Some t \<Longrightarrow> find ks t k = None \<Longrightarrow> k \<notin> set ks"
begin

lemma find_iff: "build ks = Some t \<Longrightarrow> find ks t k \<noteq> None \<longleftrightarrow> k \<in> set ks"
  using find_hit find_miss by (metis nth_mem not_None_eq)

lemma find_distinct:
  assumes "build ks = Some t" "distinct ks" "i < length ks"
  shows "find ks t (ks ! i) = Some i"
proof -
  obtain j where "find ks t (ks ! i) = Some j" using assms find_miss [OF assms(1)] by fastforce
  then show ?thesis using find_hit [OF assms(1)] assms by (metis nth_eq_iff_index_eq)
qed

end

section \<open>Correctness of the sid index\<close>

text \<open>The \<open>u\<close>-th slot a probe from slot \<open>h\<close> looks at.\<close>

definition probe_slot :: "nat \<Rightarrow> nat \<Rightarrow> nat \<Rightarrow> nat" where
  "probe_slot cap h u = (h + u) mod cap"

lemma and_mask_nat: "cap = 2 ^ k \<Longrightarrow> (n :: nat) AND (cap - 1) = n mod cap"
  using take_bit_eq_mask [of k n] by (simp add: take_bit_eq_mod mask_eq_exp_minus_1)

lemma sid_cap_spec: "cap = 2 ^ k \<Longrightarrow> \<exists>j. sid_cap n cap = 2 ^ j \<and> n * 2 \<le> sid_cap n cap \<and> cap \<le> sid_cap n cap"
proof (induction n cap arbitrary: k rule: sid_cap.induct)
  case (1 n cap)
  show ?case
  proof (cases "cap < n * 2")
    case True
    have pos: "0 < cap" using 1(2) by simp
    have "push_bit 1 cap = 2 ^ Suc k" using 1(2) by (simp add: push_bit_eq_mult)
    then have "\<exists>j. sid_cap n (push_bit 1 cap) = 2 ^ j \<and> n * 2 \<le> sid_cap n (push_bit 1 cap) \<and>
        push_bit 1 cap \<le> sid_cap n (push_bit 1 cap)"
      using 1(1) True pos by blast
    moreover have "cap \<le> push_bit 1 cap" by (simp add: push_bit_eq_mult)
    ultimately show ?thesis using True pos by (subst (1 2 3) sid_cap.simps) auto
  next
    case False
    then show ?thesis using 1(2) by (subst (1 2 3) sid_cap.simps) auto
  qed
qed

text \<open>
  The table after the first \<open>m\<close> sids: entry \<open>i\<close> sits at the end of a probe path on which only
  smaller indices lie.
\<close>

definition sid_inv :: "u32 list \<Rightarrow> nat \<Rightarrow> nat option list \<Rightarrow> bool" where
  "sid_inv sids m idx \<longleftrightarrow>
     (\<exists>k. length idx = 2 ^ k) \<and> length (filter (\<lambda>x. x \<noteq> None) idx) = m \<and>
     (\<forall>h i. h < length idx \<and> idx ! h = Some i \<longrightarrow> i < m) \<and>
     (\<forall>i < m. \<exists>t < length idx.
        idx ! probe_slot (length idx) (sid_slot (length idx) (sids ! i)) t = Some i \<and>
        (\<forall>u < t. \<exists>j < i. idx ! probe_slot (length idx) (sid_slot (length idx) (sids ! i)) u = Some j))"

lemma probe_slot_0: "h < cap \<Longrightarrow> probe_slot cap h 0 = h"
  by (simp add: probe_slot_def)

lemma probe_slot_less: "0 < cap \<Longrightarrow> probe_slot cap h u < cap"
  by (simp add: probe_slot_def)

lemma probe_slot_Suc:
  "cap = 2 ^ k \<Longrightarrow> Suc (probe_slot cap h u) AND (cap - 1) = probe_slot cap h (Suc u)"
  unfolding probe_slot_def by (simp only: and_mask_nat mod_Suc_eq add_Suc_right)

lemma probe_slot_shift: "probe_slot cap (probe_slot cap h u) v = probe_slot cap h (u + v)"
  by (simp add: probe_slot_def mod_add_left_eq add.assoc)

lemma sid_slot_less: "cap = 2 ^ k \<Longrightarrow> sid_slot cap sid < cap"
  unfolding sid_slot_def by (simp only: and_mask_nat) simp

lemma probe_slot_surj:
  assumes "h < cap" "s < cap"
  shows "\<exists>u < cap. probe_slot cap h u = s"
proof (cases "h \<le> s")
  case True
  then show ?thesis using assms by (intro exI [of _ "s - h"]) (simp add: probe_slot_def)
next
  case False
  then show ?thesis using assms by (intro exI [of _ "cap - h + s"]) (simp add: probe_slot_def)
qed

text \<open>The probe for an empty slot ends at the first one on its path.\<close>

lemma sid_probe_path:
  assumes "length idx = 2 ^ k" "h < length idx" "idx ! probe_slot (length idx) h t = None"
    "\<forall>u < t. idx ! probe_slot (length idx) h u \<noteq> None"
  shows "sid_probe idx h = Some (probe_slot (length idx) h t)"
  using assms
proof (induction t arbitrary: h)
  case 0
  then show ?case by (subst sid_probe.simps) (simp add: probe_slot_0)
next
  case (Suc t)
  let ?h = "Suc h AND (length idx - 1)"
  have h': "?h = probe_slot (length idx) h 1"
    using probe_slot_Suc [OF Suc.prems(1), of h 0] Suc.prems(2) by (simp add: probe_slot_0)
  have "?h < length idx" unfolding h' using Suc.prems(2) by (intro probe_slot_less) linarith
  moreover have "probe_slot (length idx) ?h v = probe_slot (length idx) h (Suc v)" for v
    unfolding h' probe_slot_shift by simp
  ultimately have "sid_probe idx ?h = Some (probe_slot (length idx) h (Suc t))"
    using Suc.IH [of ?h] Suc.prems by auto
  moreover have "idx ! h \<noteq> None" using Suc.prems(2,4) probe_slot_0 [of h "length idx"] by force
  ultimately show ?case by (subst sid_probe.simps) simp
qed

lemma empty_slot_path:
  assumes "length (filter (\<lambda>x. x \<noteq> None) idx) < length idx" "h < length idx"
  shows "\<exists>t < length idx. idx ! probe_slot (length idx) h t = None \<and>
    (\<forall>u < t. idx ! probe_slot (length idx) h u \<noteq> None)"
proof -
  have "\<exists>s < length idx. idx ! s = None"
    using assms(1) by (metis (mono_tags, lifting) filter_id_conv in_set_conv_nth less_irrefl)
  then obtain t where t: "t < length idx" "idx ! probe_slot (length idx) h t = None"
    using probe_slot_surj [OF assms(2)] by metis
  define t0 where "t0 = (LEAST t. idx ! probe_slot (length idx) h t = None)"
  have "idx ! probe_slot (length idx) h t0 = None" unfolding t0_def using t(2) by (rule LeastI)
  moreover have "t0 \<le> t" unfolding t0_def using t(2) by (rule Least_le)
  moreover have "\<forall>u < t0. idx ! probe_slot (length idx) h u \<noteq> None"
    unfolding t0_def using not_less_Least by blast
  ultimately show ?thesis using t(1) by (intro exI [of _ t0]) auto
qed

lemma filter_update_None:
  assumes "h < length xs" "xs ! h = None"
  shows "length (filter (\<lambda>x. x \<noteq> None) (xs[h := Some i])) = Suc (length (filter (\<lambda>x. x \<noteq> None) xs))"
proof -
  have xs: "xs = take h xs @ None # drop (Suc h) xs" using id_take_nth_drop [OF assms(1)] assms(2) by simp
  have "length (filter (\<lambda>x. x \<noteq> None) xs) =
      length (filter (\<lambda>x. x \<noteq> None) (take h xs)) + length (filter (\<lambda>x. x \<noteq> None) (drop (Suc h) xs))"
    using arg_cong [OF xs, of "\<lambda>xs. length (filter (\<lambda>x. x \<noteq> None) xs)"] by simp
  then show ?thesis using assms(1) by (simp add: upd_conv_take_nth_drop)
qed

lemma sid_inv_insert:
  assumes inv: "sid_inv sids m idx" and m: "m < length idx"
    and t: "t < length idx" "idx ! probe_slot (length idx) (sid_slot (length idx) (sids ! m)) t = None"
      "\<forall>u < t. idx ! probe_slot (length idx) (sid_slot (length idx) (sids ! m)) u \<noteq> None"
  shows "sid_inv sids (Suc m) (idx[probe_slot (length idx) (sid_slot (length idx) (sids ! m)) t := Some m])"
proof -
  let ?cap = "length idx"
  let ?P = "\<lambda>i. probe_slot ?cap (sid_slot ?cap (sids ! i))"
  let ?h = "?P m t"
  obtain k where k: "?cap = 2 ^ k" using inv by (auto simp: sid_inv_def)
  have lt: "?P i u < ?cap" for i u using k by (intro probe_slot_less) simp
  have old: "\<forall>h i. h < ?cap \<and> idx ! h = Some i \<longrightarrow> i < m" using inv by (simp add: sid_inv_def)
  have path: "\<exists>t' < ?cap. idx[?h := Some m] ! ?P i t' = Some i \<and> (\<forall>u < t'. \<exists>j < i. idx[?h := Some m] ! ?P i u = Some j)"
    if "i < Suc m" for i
  proof (cases "i = m")
    case True
    have "\<exists>j < m. idx[?h := Some m] ! ?P m u = Some j" if "u < t" for u
    proof -
      have "idx ! ?P m u \<noteq> None" using t(3) that by blast
      moreover have "?P m u \<noteq> ?h" using t(2) calculation by metis
      ultimately show ?thesis using old lt by (metis nth_list_update_neq not_None_eq)
    qed
    then show ?thesis using True t(1) lt by (intro exI [of _ t]) auto
  next
    case False
    then have "i < m" using that by simp
    then obtain t' where t': "t' < ?cap" "idx ! ?P i t' = Some i" "\<forall>u < t'. \<exists>j < i. idx ! ?P i u = Some j"
      using inv by (auto simp: sid_inv_def)
    have "\<forall>u \<le> t'. ?P i u \<noteq> ?h" using t' t(2) by (metis le_neq_implies_less option.distinct(1))
    then have "\<forall>u \<le> t'. idx[?h := Some m] ! ?P i u = idx ! ?P i u" by (metis nth_list_update_neq)
    then show ?thesis using t' by (intro exI [of _ t']) simp
  qed
  have "\<forall>h' i. h' < ?cap \<and> idx[?h := Some m] ! h' = Some i \<longrightarrow> i < Suc m"
    using old lt [of m t] by (auto simp: nth_list_update less_Suc_eq split: if_splits)
  then show ?thesis
    using filter_update_None [OF lt t(2)] path inv k unfolding sid_inv_def by simp
qed

lemma sid_insert_all_ok:
  assumes "sid_inv sids m idx" "length sids < length idx" "m \<le> length sids"
  shows "\<exists>idx'. sid_insert_all idx m (drop m sids) = Some idx' \<and> sid_inv sids (length sids) idx' \<and>
    length idx' = length idx"
  using assms
proof (induction "length sids - m" arbitrary: m idx)
  case 0
  then show ?case by auto
next
  case (Suc x)
  then have m: "m < length sids" by simp
  obtain k where k: "length idx = 2 ^ k" using Suc.prems by (auto simp: sid_inv_def)
  let ?h = "sid_slot (length idx) (sids ! m)"
  have h: "?h < length idx" using k by (rule sid_slot_less)
  have f: "length (filter (\<lambda>x. x \<noteq> None) idx) < length idx" using Suc.prems m by (simp add: sid_inv_def)
  obtain t where t: "t < length idx" "idx ! probe_slot (length idx) ?h t = None"
      "\<forall>u < t. idx ! probe_slot (length idx) ?h u \<noteq> None"
    using empty_slot_path [OF f h] by blast
  let ?idx = "idx[probe_slot (length idx) ?h t := Some m]"
  have "sid_inv sids (Suc m) ?idx" using sid_inv_insert [OF Suc.prems(1) _ t] Suc.prems m by simp
  then have "\<exists>idx'. sid_insert_all ?idx (Suc m) (drop (Suc m) sids) = Some idx' \<and>
      sid_inv sids (length sids) idx' \<and> length idx' = length ?idx"
    using Suc.hyps(1) [of "Suc m" ?idx] Suc.hyps(2) Suc.prems m by simp
  then show ?case
    using sid_probe_path [OF k h t(2,3)] m by (simp add: Cons_nth_drop_Suc [symmetric])
qed

lemma sid_inv_start: "\<exists>k. cap = 2 ^ k \<Longrightarrow> sid_inv sids 0 (replicate cap None)"
  by (auto simp: sid_inv_def)

lemma sid_index_ok:
  "\<exists>idx. sig_build_sid_index sids = Some idx \<and> sid_inv sids (length sids) idx \<and> length sids < length idx"
proof -
  obtain j where j: "sid_cap (length sids) 64 = 2 ^ j" "length sids * 2 \<le> sid_cap (length sids) 64"
      "64 \<le> sid_cap (length sids) 64"
    using sid_cap_spec [of 64 6 "length sids"] by auto
  then have "length sids < sid_cap (length sids) 64" by linarith
  then show ?thesis
    using sid_insert_all_ok [of sids 0 "replicate (sid_cap (length sids) 64) None"] sid_inv_start j(1)
    by (auto simp: sig_build_sid_index_def)
qed

text \<open>Walking a path whose slots hold smaller indices with other sids.\<close>

lemma sid_find_path:
  assumes "length idx = 2 ^ k" "h < length idx" "t < n"
    "idx ! probe_slot (length idx) h t = Some i" "sids ! i = sid"
    "\<forall>u < t. \<exists>j. idx ! probe_slot (length idx) h u = Some j \<and> sids ! j \<noteq> sid"
  shows "sid_find sids idx sid h n = Some i"
  using assms
proof (induction t arbitrary: h n)
  case 0
  then obtain n' where "n = Suc n'" by (cases n) auto
  then show ?case using 0 by (simp add: probe_slot_0)
next
  case (Suc t)
  then obtain n' where n': "n = Suc n'" by (cases n) auto
  let ?h = "Suc h AND (length idx - 1)"
  have h': "?h = probe_slot (length idx) h 1"
    using probe_slot_Suc [OF Suc.prems(1), of h 0] Suc.prems(2) by (simp add: probe_slot_0)
  have "?h < length idx" unfolding h' using Suc.prems(2) by (intro probe_slot_less) linarith
  moreover have "probe_slot (length idx) ?h v = probe_slot (length idx) h (Suc v)" for v
    unfolding h' probe_slot_shift by simp
  ultimately have "sid_find sids idx sid ?h n' = Some i" using Suc.IH [of ?h n'] Suc.prems n' by auto
  moreover obtain j where "idx ! h = Some j" "sids ! j \<noteq> sid"
    using Suc.prems(2,6) probe_slot_0 [of h "length idx"] by force
  ultimately show ?case using n' by simp
qed

lemma sid_find_sound:
  assumes "sid_find sids idx sid h n = Some i" "length idx = 2 ^ k" "h < length idx"
  shows "sids ! i = sid \<and> (\<exists>h' < length idx. idx ! h' = Some i)"
  using assms
proof (induction n arbitrary: h)
  case (Suc n)
  have "Suc h AND (length idx - 1) < length idx" using Suc.prems(2) and_mask_nat [of "length idx" k] by simp
  then show ?case using Suc by (auto split: option.splits if_splits)
qed simp

lemma rs_by_sid_present:
  assumes inv: "sid_inv sids (length sids) idx" and i: "i < length sids" "\<forall>j < i. sids ! j \<noteq> sids ! i"
  shows "rs_by_sid sids idx (sids ! i) = Some i"
proof -
  obtain k where k: "length idx = 2 ^ k" using inv by (auto simp: sid_inv_def)
  let ?h = "sid_slot (length idx) (sids ! i)"
  obtain t where t: "t < length idx" "idx ! probe_slot (length idx) ?h t = Some i"
      "\<forall>u < t. \<exists>j < i. idx ! probe_slot (length idx) ?h u = Some j"
    using inv i by (auto simp: sid_inv_def)
  have "\<forall>u < t. \<exists>j. idx ! probe_slot (length idx) ?h u = Some j \<and> sids ! j \<noteq> sids ! i" using t(3) i(2) by blast
  then have "sid_find sids idx (sids ! i) ?h (length idx) = Some i"
    using sid_find_path [OF k sid_slot_less [OF k] t(1,2) refl] by blast
  moreover have "idx \<noteq> []" using t(1) by auto
  ultimately show ?thesis by (simp add: rs_by_sid_def)
qed

lemma first_index:
  assumes "k \<in> set ks"
  shows "\<exists>i < length ks. ks ! i = k \<and> (\<forall>j < i. ks ! j \<noteq> k)"
proof -
  define i where "i = (LEAST i. i < length ks \<and> ks ! i = k)"
  have ex: "\<exists>i. i < length ks \<and> ks ! i = k" using assms by (auto simp: in_set_conv_nth)
  have "i < length ks \<and> ks ! i = k" unfolding i_def using ex by (rule LeastI_ex)
  moreover have "\<forall>j < i. ks ! j \<noteq> k" unfolding i_def using calculation
    by (metis (mono_tags, lifting) i_def not_less_Least order_less_trans)
  ultimately show ?thesis by blast
qed

interpretation sids: key_index sig_build_sid_index rs_by_sid
proof
  fix ks :: "u32 list" and t k i
  show "\<exists>t. sig_build_sid_index ks = Some t" using sid_index_ok by blast
  assume "sig_build_sid_index ks = Some t"
  then have inv: "sid_inv ks (length ks) t" using sid_index_ok [of ks] by auto
  obtain e where e: "length t = 2 ^ e" using inv by (auto simp: sid_inv_def)
  show "i < length ks \<and> ks ! i = k \<and> (\<forall>j < i. ks ! j \<noteq> k)" if f: "rs_by_sid ks t k = Some i"
  proof -
    have "ks ! i = k" "i < length ks"
      using f inv sid_find_sound [OF _ e sid_slot_less [OF e], of ks k k "length t" i]
      by (auto simp: rs_by_sid_def sid_inv_def split: if_splits)
    then obtain i' where "i' < length ks" "ks ! i' = k" "\<forall>j < i'. ks ! j \<noteq> k" using first_index nth_mem by metis
    then have "rs_by_sid ks t k = Some i'" using rs_by_sid_present [OF inv, of i'] by simp
    then show ?thesis using f \<open>\<forall>j < i'. ks ! j \<noteq> k\<close> \<open>ks ! i' = k\<close> \<open>i' < length ks\<close> by simp
  qed
  show "k \<notin> set ks" if "rs_by_sid ks t k = None"
    using that first_index [of k ks] rs_by_sid_present [OF inv] by force
qed

end
