(* ===== verification/Sig_Match.thy ===== *)
theory Sig_Match
  imports Sig_Build Bitmap
begin

unbundle bit_operations_syntax

text \<open>
  Correctness of signature matching: the prefilter loses no rule, so \<open>sig_match\<close> agrees with a
  brute-force evaluation of every rule on the payload; the evaluation stays inside its buffers.
\<close>

section \<open>Specification\<close>

text \<open>Rule \<open>i\<close> matches the payload, and the brute-force verdict over all rules.\<close>

definition fires :: "'p pcre_match \<Rightarrow> 'p sig_ruleset \<Rightarrow> bytes \<Rightarrow> flow_ctx \<Rightarrow> nat \<Rightarrow> bool" where
  "fires pm rs p fc i \<longleftrightarrow> i < length (rs_rules rs) \<and> verify_rule pm (rs_rules rs ! i) p fc = Some True"

definition action_of :: "'p sig_ruleset \<Rightarrow> flow_ctx \<Rightarrow> nat \<Rightarrow> sig_action" where
  "action_of rs fc i = capped_action (rs_rules rs ! i) (fc_prof_id fc)"

text \<open>The fast pattern of a rule, and the patterns of a list of rules with their indices.\<close>

definition fast_bytes :: "'p sig_rule \<Rightarrow> bytes option" where
  "fast_bytes r = map_option (\<lambda>f. c_data (r_content r ! f)) (r_fast r)"

fun fast_pats :: "nat \<Rightarrow> 'p sig_rule list \<Rightarrow> (bytes \<times> nat) list" where
  "fast_pats i [] = []"
| "fast_pats i (r # rs) =
     (case fast_bytes r of None \<Rightarrow> fast_pats (Suc i) rs | Some b \<Rightarrow> (b, i) # fast_pats (Suc i) rs)"

text \<open>
  Well-formed rules, as the parser commits them: at least one content, the fast pattern is one of
  them and not empty.
\<close>

definition rule_wf :: "'p sig_rule \<Rightarrow> bool" where
  "rule_wf r \<longleftrightarrow> (\<exists>f < length (r_content r). r_fast r = Some f \<and> c_data (r_content r ! f) \<noteq> [])"

text \<open>No two rules share a fast pattern up to the case of letters.\<close>

definition fast_distinct :: "'p sig_rule list \<Rightarrow> bool" where
  "fast_distinct rules \<longleftrightarrow> distinct (map (map_option (map (ac_norm True)) \<circ> fast_bytes) rules)"

text \<open>The regions the contents may match on lie in the payload, up to the case of letters.\<close>

definition bufs_within :: "bytes \<Rightarrow> flow_ctx \<Rightarrow> bool" where
  "bufs_within p fc \<longleftrightarrow>
     (\<forall>b bs. content_buf p fc b = Some bs \<longrightarrow> sublist (map (ac_norm True) bs) (map (ac_norm True) p))"

text \<open>
  Offsets of byte operations for which the bounds test cannot wrap, on buffers of less than
  \<open>2 ^ 29\<close> bytes.
\<close>

definition rule_safe :: "'p sig_rule \<Rightarrow> bool" where
  "rule_safe r \<longleftrightarrow> (\<forall>b \<in> set (r_byteop r). - (2 ^ 31) \<le> bo_offset b \<and> bo_offset b \<le> 2 ^ 30)"

definition sizes_ok :: "bytes \<Rightarrow> flow_ctx \<Rightarrow> bool" where
  "sizes_ok p fc \<longleftrightarrow> (\<forall>b bs. content_buf p fc b = Some bs \<longrightarrow> length bs < 2 ^ 29)"

section \<open>The substring search\<close>

lemma mem_find_loop_spec:
  "(case mem_find_loop hay needle nocase s to of
      None \<Rightarrow> \<forall>s' \<ge> s. s' + length needle \<le> to \<longrightarrow> \<not> occurs_at nocase hay needle s'
    | Some s' \<Rightarrow> s \<le> s' \<and> s' + length needle \<le> to \<and> occurs_at nocase hay needle s' \<and>
        (\<forall>s'' \<ge> s. s'' < s' \<longrightarrow> \<not> occurs_at nocase hay needle s''))"
proof (induction hay needle nocase s to rule: mem_find_loop.induct)
  case (1 hay needle nocase s to)
  show ?case
  proof (cases "s + length needle \<le> to \<and> \<not> occurs_at nocase hay needle s")
    case True
    then have e: "mem_find_loop hay needle nocase s to = mem_find_loop hay needle nocase (Suc s) to"
      by (subst mem_find_loop.simps) simp
    show ?thesis
      using 1 True unfolding e by (auto split: option.splits) (metis Suc_leI le_neq_implies_less)+
  next
    case False
    then show ?thesis by (subst mem_find_loop.simps) auto
  qed
qed

lemma mem_find_Some:
  assumes "mem_find hay needle nocase s to = Some s'" "s \<le> to"
  shows "s \<le> s' \<and> s' + length needle \<le> to \<and> occurs_at nocase hay needle s'"
proof (cases "needle = []")
  case True
  then show ?thesis using assms by (auto simp: mem_find_def occurs_at_def)
next
  case False
  then show ?thesis using assms mem_find_loop_spec [where hay = hay and needle = needle and nocase = nocase and s = s and to = to] by (simp add: mem_find_def)
qed

lemma ac_norm_False [simp]: "ac_norm False = id"
  by (rule ext) (simp add: ac_norm_def)

lemma ac_norm_idem: "ac_norm nc (ac_norm nc c) = ac_norm nc c"
proof (cases "nc \<and> 65 \<le> c \<and> c \<le> 90")
  case True
  then have "unat c \<le> 90" "65 \<le> unat c" by (auto simp: word_le_nat_alt)
  then have "unat (c + 32) = unat c + 32" by (subst unat_add_lem [THEN iffD1]) auto
  then have "\<not> c + 32 \<le> 90" using \<open>65 \<le> unat c\<close> by (simp add: word_le_nat_alt)
  then show ?thesis using True by (simp add: ac_norm_def)
qed (auto simp: ac_norm_def)

lemma occurs_at_folded:
  assumes "occurs_at nocase hay needle s"
  shows "map (ac_norm True) (take (length needle) (drop s hay)) = map (ac_norm True) needle"
  using assms by (cases nocase) (auto simp: occurs_at_def)

lemma occurs_at_sublist:
  assumes "occurs_at nocase hay needle s"
  shows "sublist (map (ac_norm True) needle) (map (ac_norm True) hay)"
proof -
  have "sublist (take (length needle) (drop s hay)) hay"
    by (meson prefix_imp_sublist sublist_order.order.trans sublist_drop take_is_prefix)
  then have "sublist (map (ac_norm True) (take (length needle) (drop s hay))) (map (ac_norm True) hay)"
    by (rule map_mono_sublist)
  then show ?thesis using occurs_at_folded [OF assms] by simp
qed

section \<open>Evaluation stays in bounds\<close>

lemma read_field_safe:
  assumes "- (2 ^ 31) \<le> pos" "pos \<le> 2 ^ 30 + 2 ^ 29"
  shows "read_field p pos nbytes little \<noteq> None"
proof (cases "pos < 0 \<or> nbytes < 1 \<or> nbytes > 8")
  case False
  then have "signed_take_bit 31 (pos + int nbytes) = pos + int nbytes"
    using assms by (intro signed_take_bit_int_eq_self) auto
  then show ?thesis by (simp add: read_field_def)
qed (auto simp: read_field_def)

lemma apply_byteop_safe:
  assumes "- (2 ^ 31) \<le> bo_offset b" "bo_offset b \<le> 2 ^ 30" "0 \<le> cursor" "cursor < 2 ^ 29"
  shows "\<exists>ok cursor'. apply_byteop b p cursor = Some (ok, cursor') \<and>
    0 \<le> cursor' \<and> (cursor' = cursor \<or> cursor' \<le> int (length p))"
proof -
  define pos where "pos = (if bo_relative b then signed_take_bit 31 (cursor + bo_offset b) else bo_offset b)"
  have "signed_take_bit 31 (cursor + bo_offset b) = cursor + bo_offset b"
    using assms by (intro signed_take_bit_int_eq_self) auto
  then have "- (2 ^ 31) \<le> pos" "pos \<le> 2 ^ 30 + 2 ^ 29" using assms by (auto simp: pos_def)
  then have "read_field p pos (unat (bo_nbytes b)) (bo_little b) \<noteq> None" by (rule read_field_safe)
  then show ?thesis
    using assms(3) unfolding apply_byteop_def pos_def [symmetric] Let_def
    by (auto split: option.split sig_byteop_kind.split)
qed

lemma byteops_before_safe:
  assumes "\<forall>b \<in> set bs. - (2 ^ 31) \<le> bo_offset b \<and> bo_offset b \<le> 2 ^ 30" "0 \<le> cursor" "cursor < 2 ^ 29"
    "length p < 2 ^ 29"
  shows "\<exists>ok bs' cursor'. byteops_before i bs p cursor = Some (ok, bs', cursor') \<and> set bs' \<subseteq> set bs \<and>
    0 \<le> cursor' \<and> cursor' < 2 ^ 29"
  using assms
proof (induction bs arbitrary: cursor)
  case (Cons b bs)
  obtain ok c' where a: "apply_byteop b p cursor = Some (ok, c')" "0 \<le> c'" "c' = cursor \<or> c' \<le> int (length p)"
    using apply_byteop_safe [of b cursor p] Cons.prems by auto
  then have "c' < 2 ^ 29" using Cons.prems by auto
  then show ?case using Cons.IH [of c'] Cons.prems a by (cases ok) fastforce+
qed auto

lemma byteops_rest_safe:
  assumes "\<forall>b \<in> set bs. - (2 ^ 31) \<le> bo_offset b \<and> bo_offset b \<le> 2 ^ 30" "0 \<le> cursor" "cursor < 2 ^ 29"
    "length p < 2 ^ 29"
  shows "byteops_rest bs p cursor \<noteq> None"
  using assms
proof (induction bs arbitrary: cursor)
  case (Cons b bs)
  obtain ok c' where a: "apply_byteop b p cursor = Some (ok, c')" "0 \<le> c'" "c' = cursor \<or> c' \<le> int (length p)"
    using apply_byteop_safe [of b cursor p] Cons.prems by auto
  then have "c' < 2 ^ 29" using Cons.prems by auto
  then show ?case using Cons.IH [of c'] Cons.prems a by (cases ok) auto
qed simp

lemma content_window_bounds:
  assumes "content_window c le blen = (lo, hi)"
  shows "0 \<le> lo \<and> hi \<le> blen"
  using assms by (auto simp: content_window_def Let_def split: if_splits)

text \<open>A content that verifies occurs in its buffer; the cursor ends behind it.\<close>

lemma verify_content_Some:
  assumes "verify_content p fc c le cb = Some le'"
  shows "\<exists>bp s. content_buf p fc (c_buffer c) = Some bp \<and> s + length (c_data c) \<le> length bp \<and>
    occurs_at (c_nocase c) bp (c_data c) s \<and> le' = int (s + length (c_data c))"
proof -
  obtain bp where bp: "content_buf p fc (c_buffer c) = Some bp"
    using assms by (auto simp: verify_content_def split: option.splits)
  define le0 where "le0 = (if c_buffer c \<noteq> cb then 0 else le)"
  obtain lo hi where w: "content_window c le0 (int (length bp)) = (lo, hi)" by force
  obtain s where s: "\<not> lo > hi" "mem_find bp (c_data c) (c_nocase c) (nat lo) (nat hi) = Some s"
      "le' = int s + int (length (c_data c))"
    using assms w bp by (auto simp: verify_content_def le0_def Let_def split: if_splits)
  have "0 \<le> lo" "hi \<le> int (length bp)" using content_window_bounds [OF w] by auto
  then have "nat lo \<le> nat hi" "nat hi \<le> length bp" using s(1) by auto
  then show ?thesis using mem_find_Some [OF s(2)] s(3) bp by (intro exI [of _ bp] exI [of _ s]) auto
qed

lemma sizes_ok_raw: "sizes_ok p fc \<Longrightarrow> length p < 2 ^ 29"
  unfolding sizes_ok_def by (metis content_buf_def)

lemma verify_contents_safe:
  assumes "\<forall>b \<in> set bops. - (2 ^ 31) \<le> bo_offset b \<and> bo_offset b \<le> 2 ^ 30" "0 \<le> le" "le < 2 ^ 29" "sizes_ok p fc"
  shows "verify_contents p fc i cs bops le cb \<noteq> None"
  using assms
proof (induction cs arbitrary: i bops le cb)
  case Nil
  have "length p < 2 ^ 29" using Nil.prems(4) by (rule sizes_ok_raw)
  then show ?case using byteops_rest_safe Nil.prems by simp
next
  case (Cons c cs)
  have "length p < 2 ^ 29" using Cons.prems(4) by (rule sizes_ok_raw)
  then obtain ok bops' le1 where b: "byteops_before i bops p le = Some (ok, bops', le1)" "set bops' \<subseteq> set bops"
    using byteops_before_safe Cons.prems by meson
  have "0 \<le> le' \<and> le' < 2 ^ 29" if "verify_content p fc c le1 cb = Some le'" for le'
    using verify_content_Some [OF that] Cons.prems(4) by (force simp: sizes_ok_def)
  moreover have "\<forall>b \<in> set bops'. - (2 ^ 31) \<le> bo_offset b \<and> bo_offset b \<le> 2 ^ 30" using b(2) Cons.prems(1) by blast
  ultimately show ?case using b(1) Cons.IH [of bops' _ "Suc i" "c_buffer c"] Cons.prems(4) by (auto split: option.split)
qed

lemma verify_rule_safe:
  assumes "rule_safe r" "sizes_ok p fc"
  shows "verify_rule pm r p fc \<noteq> None"
proof -
  have "verify_contents p fc 0 (r_content r) (r_byteop r) 0 SIG_BUF_RAW \<noteq> None"
    using verify_contents_safe assms by (auto simp: rule_safe_def)
  then show ?thesis by (auto simp: verify_rule_def)
qed

section \<open>The prefilter is complete\<close>

lemma verify_contents_all:
  assumes "verify_contents p fc i cs bops le cb = Some (True, e)" "c \<in> set cs"
  shows "\<exists>bp s. content_buf p fc (c_buffer c) = Some bp \<and> occurs_at (c_nocase c) bp (c_data c) s"
  using assms
proof (induction cs arbitrary: i bops le cb)
  case (Cons c' cs)
  obtain bops' le1 where b: "byteops_before i bops p le = Some (True, bops', le1)"
    using Cons.prems(1) by (auto split: option.splits if_splits)
  obtain le' where v: "verify_content p fc c' le1 cb = Some le'"
      "verify_contents p fc (Suc i) cs bops' le' (c_buffer c') = Some (True, e)"
    using Cons.prems(1) b by (auto split: option.splits)
  show ?case
  proof (cases "c = c'")
    case True
    then show ?thesis using verify_content_Some [OF v(1)] by blast
  next
    case False
    then show ?thesis using Cons.IH [OF v(2)] Cons.prems(2) by simp
  qed
qed simp

lemma verify_rule_fast_occurs:
  assumes "verify_rule pm r p fc = Some True" "rule_wf r" "bufs_within p fc" "fast_bytes r = Some b"
  shows "sublist (map (ac_norm True) b) (map (ac_norm True) p)"
proof -
  obtain f where f: "f < length (r_content r)" "r_fast r = Some f" using assms(2) by (auto simp: rule_wf_def)
  let ?c = "r_content r ! f"
  have b: "b = c_data ?c" using assms(4) f(2) by (simp add: fast_bytes_def)
  obtain e where "verify_contents p fc 0 (r_content r) (r_byteop r) 0 SIG_BUF_RAW = Some (True, e)"
    using assms(1) by (auto simp: verify_rule_def split: if_splits option.splits)
  then obtain bp s where "content_buf p fc (c_buffer ?c) = Some bp" "occurs_at (c_nocase ?c) bp (c_data ?c) s"
    using verify_contents_all f(1) by (meson nth_mem)
  then show ?thesis
    using occurs_at_sublist assms(3) unfolding b bufs_within_def by (meson sublist_order.order.trans)
qed

lemma add_fast_ac: "add_fast ac i rules = ac_add_all ac (fast_pats i rules)"
  by (induction rules arbitrary: ac i) (auto simp: fast_bytes_def split: option.split)

lemma fast_pats_set:
  "(b, j) \<in> set (fast_pats i rules) \<longleftrightarrow> i \<le> j \<and> j < i + length rules \<and> fast_bytes (rules ! (j - i)) = Some b"
proof (induction rules arbitrary: i)
  case (Cons r rules)
  have "(b, j) \<in> set (fast_pats i (r # rules)) \<longleftrightarrow> (j = i \<and> fast_bytes r = Some b) \<or>
      (Suc i \<le> j \<and> j < Suc i + length rules \<and> fast_bytes (rules ! (j - Suc i)) = Some b)"
    using Cons.IH [of "Suc i"] by (auto split: option.split)
  moreover have "j - i = Suc (j - Suc i)" if "i < j" using that by linarith
  ultimately show ?case by (cases "i < j") auto
qed simp

lemma fast_pats_distinct:
  assumes "distinct (map (map_option (map (ac_norm True)) \<circ> fast_bytes) rules)"
  shows "distinct (map (map (ac_norm True) \<circ> fst) (fast_pats i rules))"
  using assms
proof (induction rules arbitrary: i)
  case (Cons r rules)
  have ih: "distinct (map (map (ac_norm True) \<circ> fst) (fast_pats (Suc i) rules))" using Cons by (simp add: comp_def)
  have "map (ac_norm True) b' \<noteq> map (ac_norm True) b"
    if "fast_bytes r = Some b" "(b', j) \<in> set (fast_pats (Suc i) rules)" for b b' j
  proof -
    have "rules ! (j - Suc i) \<in> set rules" "fast_bytes (rules ! (j - Suc i)) = Some b'"
      using that(2) by (auto simp: fast_pats_set)
    then show ?thesis using Cons.prems that(1) by force
  qed
  then have "map (ac_norm True) b \<notin> (\<lambda>x. map (ac_norm True) (fst x)) ` set (fast_pats (Suc i) rules)"
    if "fast_bytes r = Some b" for b using that by fastforce
  then show ?case using ih by (cases "fast_bytes r") (simp_all add: comp_def)
qed simp

lemma pattern_dict_distinct:
  assumes "distinct (map (map (ac_norm nc) \<circ> fst) pats)" "(b, i) \<in> set pats"
  shows "pattern_dict nc pats (map (ac_norm nc) b) = Some i"
proof -
  have "map fst (rev (map (\<lambda>(p, i). (map (ac_norm nc) p, i)) pats)) = rev (map (map (ac_norm nc) \<circ> fst) pats)"
    by (simp add: rev_map case_prod_beta comp_def)
  then have "distinct (map fst (rev (map (\<lambda>(p, i). (map (ac_norm nc) p, i)) pats)))" using assms(1) by simp
  moreover have "(map (ac_norm nc) b, i) \<in> set (rev (map (\<lambda>(p, i). (map (ac_norm nc) p, i)) pats))"
    using assms(2) by force
  ultimately show ?thesis unfolding pattern_dict_def by (rule map_of_is_SomeI)
qed

section \<open>The callback keeps the best rule\<close>

definition mctx_ok :: "'p sig_ruleset \<Rightarrow> flow_ctx \<Rightarrow> match_ctx \<Rightarrow> bool" where
  "mctx_ok rs fc m \<longleftrightarrow> m_best_action m = map_option (action_of rs fc) (m_best m)"

lemma on_fast_hit_simps:
  "verify_rule pm (rs_rules rs ! i) p fc = Some False \<Longrightarrow> on_fast_hit pm rs p fc i k (Some m) = (False, Some m)"
  "verify_rule pm (rs_rules rs ! i) p fc = Some True \<Longrightarrow> on_fast_hit pm rs p fc i k (Some m) =
     (let m' = (if Some (action_of rs fc i) > m_best_action m
                then m\<lparr>m_best_action := Some (action_of rs fc i), m_best := Some i\<rparr> else m)
      in (m_best_action m' = Some SIG_DROP, Some m'))"
  by (simp_all add: on_fast_hit_def action_of_def Let_def)

lemma SIG_DROP_top [simp]: "a \<le> SIG_DROP"
  by (cases a) (simp_all add: less_eq_sig_action_def)

lemma Some_DROP_top [simp]: "a \<le> Some SIG_DROP"
  by (cases a) simp_all

lemma feed_on_fast_hit:
  assumes "\<forall>(i, k) \<in> set hs. verify_rule pm (rs_rules rs ! i) p fc \<noteq> None" "mctx_ok rs fc m"
  shows "\<exists>n stop m'. feed_hits (on_fast_hit pm rs p fc) hs (Some m) = (n, stop, Some m') \<and> mctx_ok rs fc m' \<and>
    m_best_action m \<le> m_best_action m' \<and>
    (m_best m' = m_best m \<or> (\<exists>i \<in> fst ` set hs. m_best m' = Some i \<and> verify_rule pm (rs_rules rs ! i) p fc = Some True)) \<and>
    (\<forall>i \<in> fst ` set hs. verify_rule pm (rs_rules rs ! i) p fc = Some True \<longrightarrow>
       Some (action_of rs fc i) \<le> m_best_action m')"
  using assms
proof (induction hs arbitrary: m)
  case (Cons h hs)
  obtain i k where h: "h = (i, k)" by force
  show ?case
  proof (cases "verify_rule pm (rs_rules rs ! i) p fc")
    case None
    then show ?thesis using Cons.prems h by auto
  next
    case (Some v)
    define m1 where "m1 = (if v \<and> Some (action_of rs fc i) > m_best_action m
        then m\<lparr>m_best_action := Some (action_of rs fc i), m_best := Some i\<rparr> else m)"
    have call: "on_fast_hit pm rs p fc i k (Some m) = (v \<and> m_best_action m1 = Some SIG_DROP, Some m1)"
      using Some by (cases v) (simp_all add: on_fast_hit_simps m1_def Let_def)
    have m1: "mctx_ok rs fc m1" "m_best_action m \<le> m_best_action m1" "m_best m1 = m_best m \<or> m_best m1 = Some i \<and> v"
        "v \<longrightarrow> Some (action_of rs fc i) \<le> m_best_action m1"
      using Cons.prems(2) by (auto simp: m1_def mctx_ok_def)
    show ?thesis
    proof (cases "v \<and> m_best_action m1 = Some SIG_DROP")
      case True
      then have "feed_hits (on_fast_hit pm rs p fc) (h # hs) (Some m) = (1, True, Some m1)"
        using call h by simp
      then show ?thesis using m1 True h Some by auto
    next
      case False
      then obtain n stop m' where r: "feed_hits (on_fast_hit pm rs p fc) hs (Some m1) = (n, stop, Some m')"
          "mctx_ok rs fc m'" "m_best_action m1 \<le> m_best_action m'"
          "m_best m' = m_best m1 \<or> (\<exists>i \<in> fst ` set hs. m_best m' = Some i \<and> verify_rule pm (rs_rules rs ! i) p fc = Some True)"
          "\<forall>i \<in> fst ` set hs. verify_rule pm (rs_rules rs ! i) p fc = Some True \<longrightarrow> Some (action_of rs fc i) \<le> m_best_action m'"
        using Cons.IH [OF _ m1(1)] Cons.prems(1) by auto
      have "feed_hits (on_fast_hit pm rs p fc) (h # hs) (Some m) = (Suc n, stop, Some m')"
        using call False h r(1) by (simp add: Let_def)
      moreover have "v \<longrightarrow> Some (action_of rs fc i) \<le> m_best_action m'" using m1(4) r(3) order_trans by blast
      moreover have "m_best_action m \<le> m_best_action m'" using m1(2) r(3) by (rule order_trans)
      ultimately show ?thesis using r(2,4,5) m1(3) h Some by auto
    qed
  qed
qed auto

section \<open>The built ruleset\<close>

definition rules_wf :: "'p sig_ruleset \<Rightarrow> bool" where
  "rules_wf rs \<longleftrightarrow> (\<forall>r \<in> set (rs_rules rs). rule_wf r)"

lemma verify_rule_fidelity: "verify_rule pm (r\<lparr>r_fidelity := x\<rparr>) p fc = verify_rule pm r p fc"
proof -
  have "header_holds (r\<lparr>r_fidelity := x\<rparr>) n fc = header_holds r n fc" for n by (simp add: header_holds_def)
  moreover have "verify_pcre pm (r\<lparr>r_fidelity := x\<rparr>) p fc e = verify_pcre pm r p fc e" for e
    unfolding verify_pcre_def by (auto split: option.split)
  ultimately show ?thesis by (simp add: verify_rule_def split: option.split prod.split)
qed

lemma clamp_rule_fields [simp]:
  "fast_bytes (clamp_rule rs r) = fast_bytes r" "rule_wf (clamp_rule rs r) = rule_wf r"
  "rule_safe (clamp_rule rs r) = rule_safe r" "verify_rule pm (clamp_rule rs r) p fc = verify_rule pm r p fc"
  "r_sid (clamp_rule rs r) = r_sid r"
  by (simp_all add: clamp_rule_def fast_bytes_def rule_wf_def rule_safe_def verify_rule_fidelity)

lemma fast_pats_clamp: "fast_pats i (map (clamp_rule rs) rules) = fast_pats i rules"
  by (induction rules arbitrary: i) (simp_all split: option.split)

lemma sig_build_ok:
  assumes "rules_wf rs"
  shows "\<exists>rs'. sig_build rs = Some rs' \<and> rs_built rs' \<and> rs_rules rs' = map (clamp_rule rs) (rs_rules rs) \<and>
    ac_compiled (rs_ac rs') (True, pattern_dict True (fast_pats 0 (rs_rules rs))) \<and>
    sig_build_sid_index (map r_sid (rs_rules rs')) = Some (rs_sid_index rs')"
proof -
  have "p \<noteq> []" if "(p, i) \<in> set (fast_pats 0 (rs_rules rs))" for p i
  proof -
    have "i < length (rs_rules rs)" "fast_bytes (rs_rules rs ! i) = Some p" using that by (simp_all add: fast_pats_set)
    moreover have "rule_wf (rs_rules rs ! i)" using calculation(1) assms by (simp add: rules_wf_def)
    ultimately show ?thesis by (auto simp: rule_wf_def fast_bytes_def)
  qed
  then obtain ac1 where ac1: "ac_add_all (ac_init True) (fast_pats 0 (rs_rules rs)) = Some ac1"
    using ac_add_all_Some [of "ac_init True" "fast_pats 0 (rs_rules rs)"]
    by (auto simp: ac_init_def ac_new_node_def)
  obtain ac where ac: "ac_build ac1 = Some ac" "ac_compiled ac (True, pattern_dict True (fast_pats 0 (rs_rules rs)))"
    using ac_compile_compiled [OF ac1] by blast
  obtain idx where idx: "sig_build_sid_index (map r_sid (map (clamp_rule rs) (rs_rules rs))) = Some idx"
    using sids.build_total by blast
  show ?thesis using ac1 ac idx by (simp add: sig_build_def Let_def add_fast_ac fast_pats_clamp)
qed

lemma ac_search_ctx:
  assumes "ac_compiled ac d"
  shows "ac_search ac p cb ctx = Some (int (fst (feed_hits cb (ac_hits d [] 0 p) ctx)),
    snd (snd (feed_hits cb (ac_hits d [] 0 p) ctx)))"
  using ac_search_feed [OF assms] by (simp add: Let_def)

lemma sublist_hit:
  assumes "sublist q w" "q \<noteq> []"
  shows "\<exists>k < length w. suffix q (take (Suc k) w)"
proof -
  obtain a b where w: "w = a @ q @ b" using assms(1) by (auto simp: sublist_def)
  have "take (length a + length q) w = a @ q" by (simp add: w)
  then show ?thesis
    using assms(2) w by (intro exI [of _ "length a + length q - 1"]) (cases q; simp add: suffix_def)
qed

lemma hit_index:
  assumes "(i, k) \<in> set (ac_hits (True, pattern_dict True (fast_pats 0 rules)) [] 0 p)"
  shows "i < length rules"
proof -
  obtain q where "pattern_dict True (fast_pats 0 rules) q = Some i"
    using assms by (auto simp: ac_hits_def naive_hits_iff)
  then show ?thesis unfolding pattern_dict_def by (auto dest!: map_of_SomeD simp: fast_pats_set)
qed

lemma rule_hit:
  assumes "i < length rules" "fast_bytes (rules ! i) = Some b" "fast_distinct rules" "b \<noteq> []"
    "sublist (map (ac_norm True) b) (map (ac_norm True) p)"
  shows "\<exists>k. (i, k) \<in> set (ac_hits (True, pattern_dict True (fast_pats 0 rules)) [] 0 p)"
proof -
  have "(b, i) \<in> set (fast_pats 0 rules)" using assms(1,2) by (simp add: fast_pats_set)
  then have "pattern_dict True (fast_pats 0 rules) (map (ac_norm True) b) = Some i"
    using pattern_dict_distinct fast_pats_distinct assms(3) unfolding fast_distinct_def by blast
  then show ?thesis using sublist_hit [OF assms(5)] assms(4) by (auto simp: ac_hits_def naive_hits_iff)
qed

section \<open>Properties\<close>

lemma sig_match_spec:
  assumes "rules_wf rs0" and "fast_distinct (rs_rules rs0)" and "\<forall>r \<in> set (rs_rules rs0). rule_safe r"
    and "bufs_within p fc" and "sizes_ok p fc"
  shows "\<exists>rs b. sig_build rs0 = Some rs \<and> sig_match pm rs p fc = Some b \<and>
    (case b of
       None \<Rightarrow> \<forall>i. \<not> fires pm rs p fc i
     | Some i \<Rightarrow> fires pm rs p fc i \<and> (\<forall>j. fires pm rs p fc j \<longrightarrow> action_of rs fc j \<le> action_of rs fc i))"
proof -
  obtain rs where rs: "sig_build rs0 = Some rs" "rs_built rs" "rs_rules rs = map (clamp_rule rs0) (rs_rules rs0)"
      "ac_compiled (rs_ac rs) (True, pattern_dict True (fast_pats 0 (rs_rules rs0)))"
    using sig_build_ok [OF assms(1)] by blast
  let ?hs = "ac_hits (True, pattern_dict True (fast_pats 0 (rs_rules rs0))) [] 0 p"
  have len: "length (rs_rules rs) = length (rs_rules rs0)" using rs(3) by simp
  have safe: "verify_rule pm (rs_rules rs ! i) p fc \<noteq> None" if "i < length (rs_rules rs)" for i
    using that rs(3) assms(3) verify_rule_safe [OF _ assms(5), of "rs_rules rs0 ! i" pm] by simp
  let ?m0 = "\<lparr>m_best = None, m_best_action = None\<rparr>"
  have hits: "\<forall>(i, k) \<in> set ?hs. verify_rule pm (rs_rules rs ! i) p fc \<noteq> None" using safe hit_index len by fastforce
  have m0: "mctx_ok rs fc ?m0" by (simp add: mctx_ok_def)
  obtain n stop m where m: "feed_hits (on_fast_hit pm rs p fc) ?hs (Some ?m0) = (n, stop, Some m)"
      "mctx_ok rs fc m" "m_best_action ?m0 \<le> m_best_action m"
      "m_best m = m_best ?m0 \<or> (\<exists>i \<in> fst ` set ?hs. m_best m = Some i \<and> verify_rule pm (rs_rules rs ! i) p fc = Some True)"
      "\<forall>i \<in> fst ` set ?hs. verify_rule pm (rs_rules rs ! i) p fc = Some True \<longrightarrow> Some (action_of rs fc i) \<le> m_best_action m"
    using feed_on_fast_hit [OF hits m0] by (elim exE conjE) (rule that)
  have call: "sig_match pm rs p fc = Some (m_best m)"
    using m(1) rs(2) by (simp add: sig_match_def ac_search_ctx [OF rs(4)])
  have hit: "i \<in> fst ` set ?hs" if "fires pm rs p fc i" for i
  proof -
    have i: "i < length (rs_rules rs0)" using that len by (simp add: fires_def)
    then have wf: "rule_wf (rs_rules rs0 ! i)" using assms(1) by (simp add: rules_wf_def)
    then obtain b where b: "fast_bytes (rs_rules rs0 ! i) = Some b" "b \<noteq> []" by (auto simp: rule_wf_def fast_bytes_def)
    have "verify_rule pm (rs_rules rs0 ! i) p fc = Some True" using that rs(3) i by (simp add: fires_def)
    then have "sublist (map (ac_norm True) b) (map (ac_norm True) p)"
      using verify_rule_fast_occurs wf assms(4) b(1) by blast
    then obtain k where "(i, k) \<in> set ?hs" using rule_hit [OF i b(1) assms(2) b(2)] by blast
    then show ?thesis by force
  qed
  have best: "Some (action_of rs fc j) \<le> m_best_action m" if "fires pm rs p fc j" for j
    using m(5) hit [OF that] that unfolding fires_def by blast
  show ?thesis
  proof (cases "m_best m")
    case None
    then have "m_best_action m = None" using m(2) by (simp add: mctx_ok_def)
    then show ?thesis using rs(1) call best None by fastforce
  next
    case (Some i)
    then have "fires pm rs p fc i" using m(4) hit_index len by (fastforce simp: fires_def)
    moreover have "m_best_action m = Some (action_of rs fc i)" using m(2) Some by (simp add: mctx_ok_def)
    ultimately show ?thesis using rs(1) call best Some by auto
  qed
qed

text \<open>
  C3. Matching is complete and picks the most severe rule: on a ruleset built from well-formed
  rules with pairwise different fast patterns, \<open>sig_match\<close> returns \<open>None\<close> exactly if no rule of the set
  matches the payload, and otherwise a rule that matches and whose effective (per-profile,
  fidelity-capped) action no other matching rule exceeds: the prefilter loses nothing against
  evaluating every rule.
\<close>

theorem sig_match_complete:
  assumes "rules_wf rs0" and "fast_distinct (rs_rules rs0)" and "\<forall>r \<in> set (rs_rules rs0). rule_safe r"
    and "bufs_within p fc" and "sizes_ok p fc"
  shows "\<exists>rs b. sig_build rs0 = Some rs \<and> sig_match pm rs p fc = Some b \<and>
    (case b of
       None \<Rightarrow> \<forall>i. \<not> fires pm rs p fc i
     | Some i \<Rightarrow> fires pm rs p fc i \<and> (\<forall>j. fires pm rs p fc j \<longrightarrow> action_of rs fc j \<le> action_of rs fc i))"
  using assms by (rule sig_match_spec)

text \<open>A rule with one plain content, and a flow without profile, flags or regions.\<close>

definition plain_content :: "bytes \<Rightarrow> sig_content" where
  "plain_content bs = \<lparr>c_data = bs, c_nocase = False, c_offset = -1, c_depth = -1, c_distance = -1, c_within = -1,
     c_relative = False, c_buffer = SIG_BUF_RAW\<rparr>"

definition plain_rule :: "u32 \<Rightarrow> sig_action \<Rightarrow> bytes \<Rightarrow> unit sig_rule" where
  "plain_rule sid act bs = ruleset_new\<lparr>r_sid := sid, r_action := act, r_base_action := act,
     r_content := [plain_content bs], r_fast := Some 0\<rparr>"

definition plain_fc :: flow_ctx where
  "plain_fc = \<lparr>fc_proto = SIG_PROTO_TCP, fc_dport = 80, fc_tcp_flags = 0, fc_established = True, fc_to_server = True,
     fc_prof_id = 0, fc_fb = None, fc_bufs = None\<rparr>"

definition plain_rs :: "unit sig_rule list \<Rightarrow> unit sig_ruleset" where
  "plain_rs rules = sig_ruleset_init\<lparr>rs_rules := rules\<rparr>"

lemma plain_bufs: "bufs_within p plain_fc" "length p < 2 ^ 29 \<Longrightarrow> sizes_ok p plain_fc"
  by (auto simp: bufs_within_def sizes_ok_def content_buf_def plain_fc_def split: if_splits)

lemma plain_rule_wf: "bs \<noteq> [] \<Longrightarrow> rule_wf (plain_rule sid act bs)" "rule_safe (plain_rule sid act bs)"
  "fast_bytes (plain_rule sid act bs) = Some bs"
  by (auto simp: plain_rule_def rule_wf_def rule_safe_def ruleset_new_def plain_content_def fast_bytes_def)

theorem sig_match_complete_witness:
  "\<exists>rs b. sig_build (plain_rs [plain_rule 1 SIG_ALERT [97, 98], plain_rule 2 SIG_DROP [99]]) = Some rs \<and>
    sig_match (\<lambda>_ _ _. False) rs [97, 98, 99] plain_fc = Some b \<and>
    (\<forall>i. b = Some i \<longrightarrow> fires (\<lambda>_ _ _. False) rs [97, 98, 99] plain_fc i)"
proof -
  let ?rs = "plain_rs [plain_rule 1 SIG_ALERT [97, 98], plain_rule 2 SIG_DROP [99]]"
  have w: "rules_wf ?rs" "fast_distinct (rs_rules ?rs)" "\<forall>r \<in> set (rs_rules ?rs). rule_safe r"
    by (simp_all add: rules_wf_def plain_rs_def sig_ruleset_init_def plain_rule_wf fast_distinct_def)
  have z: "sizes_ok [97, 98, 99] plain_fc" by (rule plain_bufs) simp
  show ?thesis using sig_match_complete [OF w plain_bufs(1) z, of "\<lambda>_ _ _. False"] by (auto split: option.splits)
qed

text \<open>
  A build merges rules with the same fast pattern: when two rules of a set have the same fast
  pattern up to case, only the later one is ever evaluated. A packet that matches the first rule (a
  DROP rule) only is reported as clean.
\<close>

theorem sig_match_duplicate_lost:
  "\<exists>rs. sig_build (plain_rs [plain_rule 1 SIG_DROP [97, 98], (plain_rule 2 SIG_ALERT [65, 66])]) = Some rs \<and>
     fires (\<lambda>_ _ _. False) rs [97, 98] plain_fc 0 \<and>
     sig_match (\<lambda>_ _ _. False) rs [97, 98] plain_fc = Some None"
proof -
  let ?r = "[plain_rule 1 SIG_DROP [97, 98], plain_rule 2 SIG_ALERT [65, 66]]"
  have w: "rules_wf (plain_rs ?r)" by (simp add: rules_wf_def plain_rs_def sig_ruleset_init_def plain_rule_wf)
  obtain rs where rs: "sig_build (plain_rs ?r) = Some rs" "rs_built rs" "rs_rules rs = map (clamp_rule (plain_rs ?r)) ?r"
      "ac_compiled (rs_ac rs) (True, pattern_dict True (fast_pats 0 ?r))"
    using sig_build_ok [OF w] by (auto simp: plain_rs_def)
  have hits: "ac_hits (True, pattern_dict True (fast_pats 0 ?r)) [] 0 [97, 98] = [(1, 1)]"
    by (simp add: ac_hits_def pattern_dict_def plain_rule_wf ac_norm_def)
  have v: "verify_rule (\<lambda>_ _ _. False) (plain_rule sid act bs) [97, 98] plain_fc = Some (bs = [97, 98])"
    if "length bs = 2" for sid act bs
    using that by (auto simp: verify_rule_def plain_rule_def header_holds_def plain_fc_def ruleset_new_def port_match_def
        flowbits_hold_def verify_pcre_def verify_content_def content_buf_def plain_content_def content_window_def
        mem_find_def mem_find_loop.simps occurs_at_def split: option.split)
  have f: "fires (\<lambda>_ _ _. False) rs [97, 98] plain_fc 0" using rs(3) v by (simp add: fires_def)
  have "verify_rule (\<lambda>_ _ _. False) (rs_rules rs ! 1) [97, 98] plain_fc = Some False" using rs(3) v by simp
  then have "sig_match (\<lambda>_ _ _. False) rs [97, 98] plain_fc = Some None"
    using rs(2) unfolding sig_match_def ac_search_ctx [OF rs(4)] hits by (simp add: on_fast_hit_simps)
  then show ?thesis using rs(1) f by blast
qed

text \<open>
  The bounds test of a binary field wraps: with the largest 32-bit offset a \<open>byte_test\<close>
  operation passes the test on every payload and reads outside it.
\<close>

theorem byteop_offset_wraps:
  assumes "bo_offset b = 2147483647" and "\<not> bo_relative b" and "bo_nbytes b = 1" and "length p < 2 ^ 31"
  shows "apply_byteop b p cursor = None"
proof -
  have "signed_take_bit 31 (2147483647 + int (unat (1 :: u8))) = - 2147483648" by (simp add: signed_take_bit_def mask_eq_exp_minus_1)
  then show ?thesis using assms by (simp add: apply_byteop_def read_field_def)
qed

theorem byteop_offset_wraps_witness:
  "apply_byteop \<lparr>bo_kind = SIG_BYTE_TEST, bo_nbytes = 1, bo_relative = False, bo_little = False, bo_negate = False,
     bo_oper = CHR ''='', bo_value = 0, bo_offset = 2147483647, bo_multiplier = 1, bo_post_offset = 0,
     bo_after_content = 1\<rparr> [1, 2, 3] 0 = None"
  by (rule byteop_offset_wraps) simp_all

section \<open>Flowbits\<close>

text \<open>The flag words are a bitmap in the sense of the reassembly's interface, with 64-bit words.\<close>

lemma drop_bit_6_nat: "drop_bit 6 (i :: nat) = i div 64"
  by (simp add: drop_bit_eq_div)

lemma and_63_nat: "(i :: nat) AND 63 = i mod 64"
  using take_bit_eq_mask [of 6 i] by (simp add: take_bit_eq_mod mask_eq_exp_minus_1)

lemma fb_get_bit: "fb_get s i \<longleftrightarrow> bit (s ! (i div 64)) (i mod 64)"
  by (simp add: fb_get_def drop_bit_6_nat and_63_nat and_one_eq bit_iff_odd_drop_bit odd_iff_mod_2_eq_one)

lemma bit_exp_mod_64: "bit (2 ^ (i mod 64) :: u64) (j mod 64) \<longleftrightarrow> j mod 64 = i mod 64"
  by (simp add: bit_exp_iff)

lemma div_mod_64_eq: "(i :: nat) div 64 = j div 64 \<Longrightarrow> i mod 64 = j mod 64 \<Longrightarrow> i = j"
  by (metis div_mult_mod_eq)

definition fb_size :: "flowbit_state \<Rightarrow> nat" where
  "fb_size s = 64 * length s"

interpretation fb: bitmap fb_size fb_get fb_set fb_clear
proof
  fix s i j assume "i < fb_size s" "j < fb_size s"
  then have "i div 64 < length s" "j div 64 < length s" by (auto simp: fb_size_def)
  then show "fb_get (fb_set s i) j \<longleftrightarrow> j = i \<or> fb_get s j"
    and "fb_get (fb_clear s i) j \<longleftrightarrow> j \<noteq> i \<and> fb_get s j"
    using div_mod_64_eq [of j i]
    by (auto simp: fb_get_bit fb_set_def fb_clear_def drop_bit_6_nat and_63_nat nth_list_update bit_or_iff
        bit_and_iff bit_not_iff bit_exp_mod_64)
qed (simp_all add: fb_size_def fb_set_def fb_clear_def)

text \<open>The abstract state: the set of flags that are on, and one operation on it.\<close>

definition fb_flags :: "flowbit_state \<Rightarrow> nat set" where
  "fb_flags s = {i. i < fb_size s \<and> fb_get s i}"

definition flag_op :: "sig_flowbit \<Rightarrow> nat set \<Rightarrow> nat set" where
  "flag_op b F =
     (case fb_op b of
        SIG_FB_SET \<Rightarrow> insert (fb_flag_id b) F
      | SIG_FB_UNSET \<Rightarrow> F - {fb_flag_id b}
      | SIG_FB_TOGGLE \<Rightarrow> if fb_flag_id b \<in> F then F - {fb_flag_id b} else insert (fb_flag_id b) F
      | _ \<Rightarrow> F)"

lemma fb_flags_set: "i < fb_size s \<Longrightarrow> fb_flags (fb_set s i) = insert i (fb_flags s)"
  by (auto simp: fb_flags_def fb.get_set)

lemma fb_flags_clear: "i < fb_size s \<Longrightarrow> fb_flags (fb_clear s i) = fb_flags s - {i}"
  by (auto simp: fb_flags_def fb.get_clear)

lemma flowbit_apply1_size [simp]: "fb_size (flowbit_apply1 b s) = fb_size s"
  by (simp add: flowbit_apply1_def split: sig_fb_op.split)

lemma flowbit_apply1_flags:
  assumes "fb_flag_id b < fb_size s"
  shows "fb_flags (flowbit_apply1 b s) = flag_op b (fb_flags s)"
proof -
  have "fb_get s (fb_flag_id b) \<longleftrightarrow> fb_flag_id b \<in> fb_flags s" using assms by (simp add: fb_flags_def)
  then show ?thesis
    using assms by (simp add: flowbit_apply1_def flag_op_def fb_flags_set fb_flags_clear split: sig_fb_op.split)
qed

text \<open>
  The side effects of a rule refine set operations on the flags of the flow: applying the
  flowbit list of a rule to the 1024-bit state gives the flags obtained by inserting, removing and
  toggling them one after the other; no other flag changes, and the conditions \<open>isset\<close> and \<open>isnotset\<close>
  of any rule are membership tests on that set.
\<close>

theorem sig_flowbits_apply_refines:
  assumes "\<forall>b \<in> set (r_flowbits r) \<union> set bs. fb_flag_id b < SIG_MAX_FLOWBITS" and "length s = SIG_FB_WORDS"
  shows "\<exists>s'. sig_flowbits_apply r (Some s) = Some s' \<and> length s' = SIG_FB_WORDS \<and>
    fb_flags s' = fold flag_op (r_flowbits r) (fb_flags s) \<and>
    (flowbits_hold bs (Some s') \<longleftrightarrow>
       (\<forall>b \<in> set bs. (fb_op b = SIG_FB_ISSET \<longrightarrow> fb_flag_id b \<in> fb_flags s') \<and>
          (fb_op b = SIG_FB_ISNOTSET \<longrightarrow> fb_flag_id b \<notin> fb_flags s')))"
proof -
  have size: "fb_size s = SIG_MAX_FLOWBITS" using assms(2) by (simp add: fb_size_def SIG_FB_WORDS_def SIG_MAX_FLOWBITS_def)
  have fold: "fb_size (fold flowbit_apply1 fbs t) = fb_size t \<and>
      fb_flags (fold flowbit_apply1 fbs t) = fold flag_op fbs (fb_flags t)"
    if "\<forall>b \<in> set fbs. fb_flag_id b < fb_size t" for fbs t
    using that by (induction fbs arbitrary: t) (auto simp: flowbit_apply1_flags)
  define s' where "s' = fold flowbit_apply1 (r_flowbits r) s"
  have s': "fb_size s' = SIG_MAX_FLOWBITS" "fb_flags s' = fold flag_op (r_flowbits r) (fb_flags s)"
    using fold [of "r_flowbits r" s] assms(1) size by (auto simp: s'_def)
  have "fb_get s' (fb_flag_id b) \<longleftrightarrow> fb_flag_id b \<in> fb_flags s'" if "b \<in> set bs" for b
    using that assms(1) s'(1) by (simp add: fb_flags_def)
  then have "flowbits_hold bs (Some s') \<longleftrightarrow>
      (\<forall>b \<in> set bs. (fb_op b = SIG_FB_ISSET \<longrightarrow> fb_flag_id b \<in> fb_flags s') \<and>
          (fb_op b = SIG_FB_ISNOTSET \<longrightarrow> fb_flag_id b \<notin> fb_flags s'))"
    by (auto simp: flowbits_hold_def)
  moreover have "length s' = SIG_FB_WORDS" using s'(1) by (simp add: fb_size_def SIG_FB_WORDS_def SIG_MAX_FLOWBITS_def)
  ultimately show ?thesis using s'(2) by (simp add: sig_flowbits_apply_def s'_def)
qed

theorem sig_flowbits_apply_refines_witness:
  "\<exists>s'. sig_flowbits_apply (plain_rule 1 SIG_ALERT [97]\<lparr>r_flowbits := [\<lparr>fb_op = SIG_FB_SET, fb_flag_id = 70\<rparr>]\<rparr>)
       (Some (replicate 16 0)) = Some s' \<and> 70 \<in> fb_flags s'"
proof -
  let ?r = "plain_rule 1 SIG_ALERT [97]\<lparr>r_flowbits := [\<lparr>fb_op = SIG_FB_SET, fb_flag_id = 70\<rparr>]\<rparr>"
  have "\<forall>b \<in> set (r_flowbits ?r) \<union> set []. fb_flag_id b < SIG_MAX_FLOWBITS" by (simp add: SIG_MAX_FLOWBITS_def)
  then show ?thesis
    using sig_flowbits_apply_refines [of ?r "[]" "replicate 16 0"]
    by (auto simp: SIG_FB_WORDS_def SIG_MAX_FLOWBITS_def flag_op_def)
qed

end
