(* ===== verification/Byte_Order.thy ===== *)
theory Byte_Order
  imports Prelude
begin

unbundle bit_operations_syntax

text \<open>
  Bytes at an offset of a buffer, and machine words as bytes. Network order is big-endian; the
  daemon's own layout (netlink headers, structures copied with \<open>memcpy\<close>) is little-endian, as on the two
  supported targets, x86-64 and aarch64.
\<close>

section \<open>Bytes at an offset\<close>

text \<open>\<open>at_off p off bs\<close>: the bytes \<open>bs\<close> stand at offset \<open>off\<close> of \<open>p\<close>.\<close>

definition at_off :: "bytes \<Rightarrow> nat \<Rightarrow> bytes \<Rightarrow> bool" where
  "at_off p off bs \<longleftrightarrow> (\<exists>r. drop off p = bs @ r) \<and> off \<le> length p"

lemma at_append: "at_off p off (a @ b) \<longleftrightarrow> at_off p off a \<and> at_off p (off + length a) b"
proof
  assume "at_off p off (a @ b)"
  then obtain r where r: "drop off p = a @ b @ r" "off \<le> length p" by (auto simp: at_off_def)
  then have "drop (off + length a) p = b @ r" by (metis add.commute append_eq_conv_conj drop_drop)
  moreover have "off + length a \<le> length p" using r(2) arg_cong [OF r(1), of length] by simp
  ultimately show "at_off p off a \<and> at_off p (off + length a) b" using r by (auto simp: at_off_def)
next
  assume "at_off p off a \<and> at_off p (off + length a) b"
  then obtain r s where r: "drop off p = a @ r" "drop (off + length a) p = b @ s" "off \<le> length p" by (auto simp: at_off_def)
  then have "r = b @ s" by (metis add.commute append_eq_conv_conj drop_drop)
  then show "at_off p off (a @ b)" using r by (auto simp: at_off_def)
qed

lemma at_length: "at_off p off bs \<Longrightarrow> off + length bs \<le> length p"
  by (auto simp: at_off_def) (metis diff_add_inverse le_add1 length_append length_drop le_diff_conv2 add.commute)

lemma at_take: "at_off p off bs \<Longrightarrow> take (length bs) (drop off p) = bs"
  by (auto simp: at_off_def)

lemma at_nth: "at_off p off bs \<Longrightarrow> i < length bs \<Longrightarrow> p ! (off + i) = bs ! i"
  using at_take [of p off bs] at_length [of p off bs] by (metis nth_drop nth_take add_leD1)


lemma at_nil [simp]: "at_off p off [] \<longleftrightarrow> off \<le> length p"
  by (simp add: at_off_def)

text \<open>Storing bytes in a buffer (\<open>memcpy\<close> into it); the caller has checked that they fit.\<close>

definition put_at :: "bytes \<Rightarrow> nat \<Rightarrow> bytes \<Rightarrow> bytes" where
  "put_at buf off bs = take off buf @ bs @ drop (off + length bs) buf"

lemma length_put_at [simp]: "off + length bs \<le> length buf \<Longrightarrow> length (put_at buf off bs) = length buf"
  by (simp add: put_at_def)

lemma at_put_at: "off + length bs \<le> length buf \<Longrightarrow> at_off (put_at buf off bs) off bs"
  by (simp add: at_off_def put_at_def)

lemma at_take_eq: "at_off p off bs \<longleftrightarrow> off + length bs \<le> length p \<and> take (length bs) (drop off p) = bs"
proof
  assume "off + length bs \<le> length p \<and> take (length bs) (drop off p) = bs"
  then show "at_off p off bs" unfolding at_off_def by (metis add_leD1 append_take_drop_id)
qed (simp add: at_length at_take)

lemma at_put_at_other:
  assumes "at_off buf i xs" "off + length bs \<le> length buf" "i + length xs \<le> off \<or> off + length bs \<le> i"
  shows "at_off (put_at buf off bs) i xs"
proof -
  have len: "i + length xs \<le> length buf" using at_length [OF assms(1)] .
  have "take (length xs) (drop i (put_at buf off bs)) = take (length xs) (drop i buf)"
  proof (rule nth_equalityI)
    fix k assume "k < length (take (length xs) (drop i (put_at buf off bs)))"
    then have "k < length xs" by simp
    then show "take (length xs) (drop i (put_at buf off bs)) ! k = take (length xs) (drop i buf) ! k"
      using assms(2,3) len by (auto simp: put_at_def nth_append)
  qed (use assms(2) in simp)
  then show ?thesis using assms(1,2) len by (simp add: at_take_eq)
qed

section \<open>Words as bytes\<close>

text \<open>The low \<open>n\<close> bytes of a word in network order, and the word a list of bytes stands for.\<close>

fun be_bytes :: "nat \<Rightarrow> 'a::len word \<Rightarrow> bytes" where
  "be_bytes 0 w = []"
| "be_bytes (Suc n) w = be_bytes n (drop_bit 8 w) @ [ucast w]"

definition of_be :: "bytes \<Rightarrow> 'a::len word" where
  "of_be bs = foldl (\<lambda>v b. push_bit 8 v OR ucast b) 0 bs"

definition le_bytes :: "nat \<Rightarrow> 'a::len word \<Rightarrow> bytes" where
  "le_bytes n w = rev (be_bytes n w)"

definition of_le :: "bytes \<Rightarrow> 'a::len word" where
  "of_le bs = of_be (rev bs)"

lemma length_be_bytes [simp]: "length (be_bytes n w) = n"
  by (induction n arbitrary: w) auto

lemma length_le_bytes [simp]: "length (le_bytes n w) = n"
  by (simp add: le_bytes_def)

lemma of_be_Nil [simp]: "of_be [] = 0"
  by (simp add: of_be_def)

lemma of_be_snoc [simp]: "of_be (bs @ [b]) = push_bit 8 (of_be bs) OR ucast b"
  by (simp add: of_be_def)

lemma of_be_be_bytes_take: "of_be (be_bytes n (w :: 'a::len word)) = (take_bit (8 * n) w :: 'a word)"
proof (induction n arbitrary: w)
  case (Suc n)
  have "push_bit 8 (take_bit (8 * n) (drop_bit 8 w)) OR ucast (ucast w :: u8) = (take_bit (8 * Suc n) w :: 'a word)"
    by (rule bit_word_eqI) (auto simp: bit_or_iff bit_push_bit_iff bit_take_bit_iff bit_drop_bit_eq bit_unsigned_iff
      dest: bit_imp_le_length)
  then show ?case using Suc by simp
qed simp

lemma of_be_be_bytes:
  "of_be (be_bytes 1 (a :: u8)) = a" "of_be (be_bytes 2 (b :: u16)) = b" "of_be (be_bytes 4 (c :: u32)) = c"
  "of_be (be_bytes 8 (d :: u64)) = d"
  unfolding of_be_be_bytes_take by (rule bit_word_eqI; simp add: bit_take_bit_iff)+

lemma of_le_le_bytes:
  "of_le (le_bytes 2 (b :: u16)) = b" "of_le (le_bytes 4 (c :: u32)) = c" "of_le (le_bytes 8 (d :: u64)) = d"
  by (simp_all add: of_le_def le_bytes_def of_be_be_bytes)

text \<open>Reading \<open>n\<close> bytes at an offset; \<open>None\<close> if they are not all inside the buffer.\<close>

definition rd_bytes :: "bytes \<Rightarrow> nat \<Rightarrow> nat \<Rightarrow> bytes option" where
  "rd_bytes p off n = (if off + n \<le> length p then Some (take n (drop off p)) else None)"

lemma rd_bytes_at: "at_off p off bs \<Longrightarrow> n = length bs \<Longrightarrow> rd_bytes p off n = Some bs"
  by (simp add: rd_bytes_def at_take_eq)

end
