(* ===== verification/Tls_ClientHello.thy ===== *)
theory Tls_ClientHello
  imports Byte_Order "HOL-Library.Monad_Syntax"
begin

unbundle bit_operations_syntax

text \<open>
  The ClientHello parser (\<open>src/src/userspace/ipsd/tls_clienthello.c\<close>), used by the proxy to read the
  server name and by the signature engine for its \<open>tls.sni\<close> buffer. A read outside the buffer is
  the result \<open>None\<close>, so that "never reads out of bounds" is a theorem. Offsets are \<open>nat\<close>: every length
  added to an offset is below \<open>2 ^ 24\<close> and a buffer is far below the range of \<open>size_t\<close>.
\<close>

section \<open>Data\<close>

definition TLS_CT_HANDSHAKE :: u8 where "TLS_CT_HANDSHAKE = 22"
definition TLS_HS_CLIENTHELLO :: u8 where "TLS_HS_CLIENTHELLO = 1"
definition TLS_EXT_SERVER_NAME :: u16 where "TLS_EXT_SERVER_NAME = 0"
definition TLS_SNI_HOST_NAME :: u8 where "TLS_SNI_HOST_NAME = 0"
definition TLS_SNI_MAX :: nat where "TLS_SNI_MAX = 256"

datatype tls_ch_result = TLS_CH_OK | TLS_CH_NEED_MORE | TLS_CH_NOT_CH | TLS_CH_MALFORMED

text \<open>\<open>ch_sni\<close> holds the bytes copied into the array; C code reads them up to the first NUL.\<close>

record tls_clienthello =
  ch_sni :: bytes
  ch_has_sni :: bool
  ch_legacy_version :: u16
  ch_record_len :: u16

definition ch_zero :: tls_clienthello where
  "ch_zero = \<lparr>ch_sni = [], ch_has_sni = False, ch_legacy_version = 0, ch_record_len = 0\<rparr>"

definition c_str :: "bytes \<Rightarrow> bytes" where
  "c_str bs = takeWhile (\<lambda>b. b \<noteq> 0) bs"

section \<open>The cursor\<close>

definition have_bytes :: "nat \<Rightarrow> nat \<Rightarrow> nat \<Rightarrow> bool" where
  "have_bytes off lim n \<longleftrightarrow> off + n \<le> lim"

definition rd8 :: "bytes \<Rightarrow> nat \<Rightarrow> (u8 \<times> nat) option" where
  "rd8 p off = (if off < length p then Some (p ! off, off + 1) else None)"

definition rd16 :: "bytes \<Rightarrow> nat \<Rightarrow> (u16 \<times> nat) option" where
  "rd16 p off =
     (if off + 1 < length p then Some (push_bit 8 (ucast (p ! off)) OR ucast (p ! (off + 1)), off + 2) else None)"

definition rd24 :: "bytes \<Rightarrow> nat \<Rightarrow> (u32 \<times> nat) option" where
  "rd24 p off =
     (if off + 2 < length p
      then Some (push_bit 16 (ucast (p ! off)) OR push_bit 8 (ucast (p ! (off + 1))) OR ucast (p ! (off + 2)), off + 3)
      else None)"

lemma rd_advance:
  "rd8 p off = Some (b, o8) \<Longrightarrow> o8 = off + 1" "rd16 p off = Some (v, o16) \<Longrightarrow> o16 = off + 2"
  "rd24 p off = Some (w, o24) \<Longrightarrow> o24 = off + 3"
  by (auto simp: rd8_def rd16_def rd24_def split: if_splits)

section \<open>Extensions\<close>

text \<open>The entries of a server name list: the first host name ends the search.\<close>

function parse_names :: "bytes \<Rightarrow> nat \<Rightarrow> nat \<Rightarrow> tls_clienthello \<Rightarrow> (tls_ch_result \<times> tls_clienthello) option" where
  "parse_names p off list_end out =
     (if off < list_end then
        if off + 3 > list_end then Some (TLS_CH_MALFORMED, out)
        else
          rd8 p off \<bind> (\<lambda>(ntype, off1).
          rd16 p off1 \<bind> (\<lambda>(nlen, off2).
          if off2 + unat nlen > list_end then Some (TLS_CH_MALFORMED, out)
          else if ntype = TLS_SNI_HOST_NAME then
            if nlen = 0 \<or> unat nlen \<ge> TLS_SNI_MAX then Some (TLS_CH_MALFORMED, out)
            else if off2 + unat nlen > length p then None
            else Some (TLS_CH_OK, out\<lparr>ch_sni := take (unat nlen) (drop off2 p), ch_has_sni := True\<rparr>)
          else parse_names p (off2 + unat nlen) list_end out))
      else Some (TLS_CH_OK, out))"
  by pat_completeness auto
termination
  by (relation "measure (\<lambda>(p, off, list_end, out). list_end - off)") (auto dest!: rd_advance)

declare parse_names.simps [simp del]

function parse_extensions :: "bytes \<Rightarrow> nat \<Rightarrow> nat \<Rightarrow> tls_clienthello \<Rightarrow> (tls_ch_result \<times> tls_clienthello) option" where
  "parse_extensions p off ext_end out =
     (if off < ext_end then
        if off + 4 > ext_end then Some (TLS_CH_MALFORMED, out)
        else
          rd16 p off \<bind> (\<lambda>(etype, off1).
          rd16 p off1 \<bind> (\<lambda>(elen, off2).
          if off2 + unat elen > ext_end then Some (TLS_CH_MALFORMED, out)
          else if etype \<noteq> TLS_EXT_SERVER_NAME then parse_extensions p (off2 + unat elen) ext_end out
          else
            let sn_end = off2 + unat elen in
            if off2 + 2 > sn_end then Some (TLS_CH_MALFORMED, out)
            else
              rd16 p off2 \<bind> (\<lambda>(list_len, off3).
              if off3 + unat list_len > sn_end then Some (TLS_CH_MALFORMED, out)
              else parse_names p off3 (off3 + unat list_len) out)))
      else Some (TLS_CH_OK, out))"
  by pat_completeness auto
termination
  by (relation "measure (\<lambda>(p, off, ext_end, out). ext_end - off)") (auto dest!: rd_advance)

declare parse_extensions.simps [simp del]

section \<open>The ClientHello\<close>

text \<open>The part behind the handshake header, up to the extensions; \<open>lim\<close> is the end of the handshake frame.\<close>

definition parse_hello_body ::
  "bytes \<Rightarrow> nat \<Rightarrow> nat \<Rightarrow> tls_clienthello \<Rightarrow> (tls_ch_result \<times> tls_clienthello) option" where
  "parse_hello_body p off lim out0 =
     (if \<not> have_bytes off lim (2 + 32) then Some (TLS_CH_MALFORMED, out0)
      else do {
        (ver, off1) \<leftarrow> rd16 p off;
        let out = out0\<lparr>ch_legacy_version := ver\<rparr>;
        let off2 = off1 + 32;
        if \<not> have_bytes off2 lim 1 then Some (TLS_CH_MALFORMED, out)
        else do {
          (sid_len, off3) \<leftarrow> rd8 p off2;
          if \<not> have_bytes off3 lim (unat sid_len) then Some (TLS_CH_MALFORMED, out)
          else
            let off4 = off3 + unat sid_len in
            if \<not> have_bytes off4 lim 2 then Some (TLS_CH_MALFORMED, out)
            else do {
              (cs_len, off5) \<leftarrow> rd16 p off4;
              if cs_len AND 1 \<noteq> 0 \<or> \<not> have_bytes off5 lim (unat cs_len) then Some (TLS_CH_MALFORMED, out)
              else
                let off6 = off5 + unat cs_len in
                if \<not> have_bytes off6 lim 1 then Some (TLS_CH_MALFORMED, out)
                else do {
                  (comp_len, off7) \<leftarrow> rd8 p off6;
                  if \<not> have_bytes off7 lim (unat comp_len) then Some (TLS_CH_MALFORMED, out)
                  else
                    let off8 = off7 + unat comp_len in
                    if off8 = lim then Some (TLS_CH_OK, out)
                    else if \<not> have_bytes off8 lim 2 then Some (TLS_CH_MALFORMED, out)
                    else do {
                      (ext_len, off9) \<leftarrow> rd16 p off8;
                      if off9 + unat ext_len > lim then Some (TLS_CH_MALFORMED, out)
                      else parse_extensions p off9 (off9 + unat ext_len) out
                    }
                }
            }
        }
      })"

text \<open>\<open>None\<close> for the buffer is the \<open>NULL\<close> pointer; the outer \<open>None\<close> is a read out of bounds.\<close>

definition tls_parse_clienthello :: "bytes option \<Rightarrow> (tls_ch_result \<times> tls_clienthello) option" where
  "tls_parse_clienthello buf =
     (case buf of
        None \<Rightarrow> Some (TLS_CH_NEED_MORE, ch_zero)
      | Some p \<Rightarrow>
          if \<not> have_bytes 0 (length p) 5 then Some (TLS_CH_NEED_MORE, ch_zero)
          else do {
            (ctype, off1) \<leftarrow> rd8 p 0;
            (rver, off2) \<leftarrow> rd16 p off1;
            (rlen, off3) \<leftarrow> rd16 p off2;
            if ctype \<noteq> TLS_CT_HANDSHAKE then Some (TLS_CH_NOT_CH, ch_zero)
            else if rlen = 0 then Some (TLS_CH_MALFORMED, ch_zero)
            else
              let out = ch_zero\<lparr>ch_record_len := rlen\<rparr> in
              if \<not> have_bytes off3 (length p) (unat rlen) then Some (TLS_CH_NEED_MORE, out)
              else
                let rec_end = off3 + unat rlen in
                if \<not> have_bytes off3 rec_end 4 then Some (TLS_CH_MALFORMED, out)
                else do {
                  (htype, off4) \<leftarrow> rd8 p off3;
                  (hlen, off5) \<leftarrow> rd24 p off4;
                  if htype \<noteq> TLS_HS_CLIENTHELLO then Some (TLS_CH_NOT_CH, out)
                  else if off5 + unat hlen > rec_end then Some (TLS_CH_MALFORMED, out)
                  else parse_hello_body p off5 (off5 + unat hlen) out
                }
          })"

fun tls_ch_result_str :: "tls_ch_result \<Rightarrow> string" where
  "tls_ch_result_str TLS_CH_OK = ''OK''"
| "tls_ch_result_str TLS_CH_NEED_MORE = ''NEED_MORE''"
| "tls_ch_result_str TLS_CH_NOT_CH = ''NOT_CLIENTHELLO''"
| "tls_ch_result_str TLS_CH_MALFORMED = ''MALFORMED''"

section \<open>Safety\<close>

lemma rd_total:
  "off < length p \<Longrightarrow> rd8 p off = Some (p ! off, off + 1)"
  "off + 1 < length p \<Longrightarrow> \<exists>v. rd16 p off = Some (v, off + 2)"
  "off + 2 < length p \<Longrightarrow> \<exists>v. rd24 p off = Some (v, off + 3)"
  by (simp_all add: rd8_def rd16_def rd24_def)

text \<open>What a result may hold: the server name is non-empty, shorter than the array, and a slice of the buffer.\<close>

definition sni_ok :: "bytes \<Rightarrow> tls_clienthello \<Rightarrow> bool" where
  "sni_ok p out \<longleftrightarrow> length (ch_sni out) < TLS_SNI_MAX \<and> (ch_has_sni out \<longleftrightarrow> ch_sni out \<noteq> []) \<and> sublist (ch_sni out) p"

definition parse_safe :: "bytes \<Rightarrow> (tls_ch_result \<times> tls_clienthello) option \<Rightarrow> bool" where
  "parse_safe p res \<longleftrightarrow> (\<exists>rc out. res = Some (rc, out) \<and> sni_ok p out)"

lemma parse_safe_Some [simp]: "parse_safe p (Some (rc, out)) \<longleftrightarrow> sni_ok p out"
  by (simp add: parse_safe_def)

lemma sublist_take_drop: "sublist (take n (drop k p)) p"
  by (metis append_take_drop_id sublist_appendI)

lemma sni_ok_set: "0 < n \<Longrightarrow> n < TLS_SNI_MAX \<Longrightarrow> k + n \<le> length p \<Longrightarrow>
  sni_ok p (out\<lparr>ch_sni := take n (drop k p), ch_has_sni := True\<rparr>)"
  by (auto simp: sni_ok_def sublist_take_drop)

lemma parse_names_safe:
  "sni_ok p out \<Longrightarrow> list_end \<le> length p \<Longrightarrow> parse_safe p (parse_names p off list_end out)"
proof (induction p off list_end out rule: parse_names.induct)
  case (1 p off list_end out)
  show ?case
  proof (cases "off < list_end \<and> off + 3 \<le> list_end")
    case True
    then obtain v where r: "rd8 p off = Some (p ! off, off + 1)" "rd16 p (off + 1) = Some (v, off + 1 + 2)"
      using rd_total(1) [of off p] rd_total(2) [of "off + 1" p] 1(3) by fastforce
    have nz: "v \<noteq> 0 \<longleftrightarrow> 0 < unat v" by (simp add: word_neq_0_conv unat_gt_0)
    show ?thesis
      using 1(1) [OF _ _ r(1) refl r(2) refl] 1(2,3) True
      by (subst parse_names.simps) (auto simp: r(1) r(2) [simplified] nz intro!: sni_ok_set)
  qed (use 1(2) in \<open>subst parse_names.simps, auto\<close>)
qed

lemma parse_extensions_safe:
  "sni_ok p out \<Longrightarrow> ext_end \<le> length p \<Longrightarrow> parse_safe p (parse_extensions p off ext_end out)"
proof (induction p off ext_end out rule: parse_extensions.induct)
  case (1 p off ext_end out)
  show ?case
  proof (cases "off < ext_end \<and> off + 4 \<le> ext_end")
    case True
    then obtain t v where r: "rd16 p off = Some (t, off + 2)" "rd16 p (off + 2) = Some (v, off + 2 + 2)"
      using rd_total(2) [of off p] rd_total(2) [of "off + 2" p] 1(3) by fastforce
    have names: "parse_safe p (rd16 p (off + 2 + 2) \<bind> (\<lambda>(list_len, off3).
        if off3 + unat list_len > off + 2 + 2 + unat v then Some (TLS_CH_MALFORMED, out)
        else parse_names p off3 (off3 + unat list_len) out))"
      if fit: "off + 2 + 2 + 2 \<le> off + 2 + 2 + unat v" "off + 2 + 2 + unat v \<le> ext_end"
    proof -
      obtain l where "rd16 p (off + 2 + 2) = Some (l, off + 2 + 2 + 2)"
        using rd_total(2) [of "off + 2 + 2" p] fit 1(3) by fastforce
      then show ?thesis using 1(2,3) fit by (auto intro: parse_names_safe)
    qed
    show ?thesis
      using 1(1) [OF _ _ r(1) refl r(2) refl] 1(2,3) True names
      by (subst parse_extensions.simps) (auto simp: r(1) r(2) [simplified] Let_def)
  qed (use 1(2) in \<open>subst parse_extensions.simps, auto\<close>)
qed

lemma parse_hello_body_safe:
  assumes "sni_ok p out" "lim \<le> length p"
  shows "parse_safe p (parse_hello_body p off lim out)"
proof -
  have ok: "sni_ok p (out\<lparr>ch_legacy_version := v\<rparr>)" for v using assms(1) by (simp add: sni_ok_def)
  have r16: False if "rd16 p k = None" "have_bytes k lim 2 \<or> have_bytes k lim 34" for k
    using that rd_total(2) [of k p] assms(2) by (auto simp: have_bytes_def)
  have r8: "rd8 p k = Some (p ! k, k + 1)" if "have_bytes k lim 1" for k
    using that assms(2) by (intro rd_total(1)) (auto simp: have_bytes_def)
  show ?thesis
    using assms ok parse_extensions_safe
    unfolding parse_hello_body_def
    by (auto simp: Let_def r8 split: bind_splits dest: r16)
qed

lemma sni_ok_zero: "sni_ok p ch_zero" "sni_ok p (ch_zero\<lparr>ch_record_len := l\<rparr>)"
  by (simp_all add: sni_ok_def ch_zero_def TLS_SNI_MAX_def)

lemma tls_parse_parse_safe: "parse_safe p (tls_parse_clienthello (Some p))"
proof -
  have h: "rd8 p 0 = Some (p ! 0, 1)" "\<exists>v. rd16 p 1 = Some (v, 3)" "\<exists>v. rd16 p 3 = Some (v, 5)" if "have_bytes 0 (length p) 5"
    using that by (auto simp: have_bytes_def rd8_def rd16_def)
  have hs: "rd8 p 5 = Some (p ! 5, 6)" "\<exists>v. rd24 p 6 = Some (v, 9)" if "have_bytes 5 (length p) n" "have_bytes 5 (5 + n) 4" for n
    using that rd_total(1) [of 5 p] rd_total(3) [of 6 p] by (simp_all add: have_bytes_def)
  show ?thesis
  proof (cases "have_bytes 0 (length p) 5")
    case True
    then obtain rver rlen where r: "rd8 p 0 = Some (p ! 0, 1)" "rd16 p 1 = Some (rver, 3)" "rd16 p 3 = Some (rlen, 5)"
      using h by blast
    show ?thesis
    proof (cases "have_bytes 5 (length p) (unat rlen) \<and> have_bytes 5 (5 + unat rlen) 4")
      case fits: True
      then obtain hlen where "rd8 p 5 = Some (p ! 5, 6)" "rd24 p 6 = Some (hlen, 9)" using hs by blast
      then show ?thesis
        using True fits r by (auto simp: tls_parse_clienthello_def Let_def sni_ok_zero have_bytes_def intro!: parse_hello_body_safe)
    qed (use True r in \<open>auto simp: tls_parse_clienthello_def Let_def sni_ok_zero\<close>)
  qed (simp add: tls_parse_clienthello_def sni_ok_zero)
qed

text \<open>
  C36. The ClientHello parser is total and never reads outside the buffer, whatever bytes it is given:
  it returns one of its four results, and a server name it reports is non-empty, fits the 256-byte
  array with its terminator, and is a contiguous part of the buffer.
\<close>

theorem tls_parse_safe:
  "\<exists>rc out. tls_parse_clienthello (Some p) = Some (rc, out) \<and> length (ch_sni out) < TLS_SNI_MAX \<and>
     (ch_has_sni out \<longleftrightarrow> ch_sni out \<noteq> []) \<and> sublist (ch_sni out) p"
  using tls_parse_parse_safe [of p] by (auto simp: parse_safe_def sni_ok_def)

section \<open>More bytes never change a result\<close>

lemma rd_prefix:
  "off < length p \<Longrightarrow> rd8 (p @ q) off = rd8 p off" "off + 1 < length p \<Longrightarrow> rd16 (p @ q) off = rd16 p off"
  "off + 2 < length p \<Longrightarrow> rd24 (p @ q) off = rd24 p off"
  by (simp_all add: rd8_def rd16_def rd24_def nth_append)

lemma parse_names_prefix:
  "list_end \<le> length p \<Longrightarrow> parse_names (p @ q) off list_end out = parse_names p off list_end out"
proof (induction p off list_end out rule: parse_names.induct)
  case (1 p off list_end out)
  show ?case
  proof (cases "off < list_end \<and> off + 3 \<le> list_end")
    case True
    then obtain v where r: "rd8 p off = Some (p ! off, off + 1)" "rd16 p (off + 1) = Some (v, off + 1 + 2)"
      using rd_total(1) [of off p] rd_total(2) [of "off + 1" p] 1(2) by fastforce
    have q: "rd8 (p @ q) off = rd8 p off" "rd16 (p @ q) (off + 1) = rd16 p (off + 1)"
      using True 1(2) by (intro rd_prefix; simp)+
    show ?thesis
      using 1(1) [OF _ _ r(1) refl r(2) refl] 1(2) True
      by (subst (1 2) parse_names.simps) (auto simp: q [simplified] r(1) r(2) [simplified])
  qed (subst (1 2) parse_names.simps, auto)
qed

lemma parse_extensions_prefix:
  "ext_end \<le> length p \<Longrightarrow> parse_extensions (p @ q) off ext_end out = parse_extensions p off ext_end out"
proof (induction p off ext_end out rule: parse_extensions.induct)
  case (1 p off ext_end out)
  show ?case
  proof (cases "off < ext_end \<and> off + 4 \<le> ext_end")
    case True
    then obtain t v where r: "rd16 p off = Some (t, off + 2)" "rd16 p (off + 2) = Some (v, off + 2 + 2)"
      using rd_total(2) [of off p] rd_total(2) [of "off + 2" p] 1(2) by fastforce
    have q: "rd16 (p @ q) off = rd16 p off" "rd16 (p @ q) (off + 2) = rd16 p (off + 2)"
      using True 1(2) by (intro rd_prefix; simp)+
    have l: "rd16 (p @ q) (off + 2 + 2) = rd16 p (off + 2 + 2)" if "2 \<le> unat v" "off + 2 + 2 + unat v \<le> ext_end"
      using that 1(2) by (intro rd_prefix) simp
    have n: "parse_names (p @ q) o3 (o3 + k) out = parse_names p o3 (o3 + k) out" if "o3 + k \<le> ext_end" for o3 k
      using that 1(2) by (intro parse_names_prefix) simp
    show ?thesis
      using 1(1) [OF _ _ r(1) refl r(2) refl] 1(2) True l n
      by (subst (1 2) parse_extensions.simps)
        (auto simp: q [simplified] r(1) r(2) [simplified] Let_def split: bind_splits dest!: rd_advance)
  qed (subst (1 2) parse_extensions.simps, auto)
qed

lemma parse_hello_body_prefix:
  assumes "lim \<le> length p"
  shows "parse_hello_body (p @ q) off lim out = parse_hello_body p off lim out"
proof -
  have r16: "rd16 (p @ q) k = rd16 p k" if "have_bytes k lim 2 \<or> have_bytes k lim 34" for k
    using that assms by (intro rd_prefix) (auto simp: have_bytes_def)
  have r8: "rd8 (p @ q) k = rd8 p k" if "have_bytes k lim 1" for k
    using that assms by (intro rd_prefix) (auto simp: have_bytes_def)
  have e: "parse_extensions (p @ q) k (k + n) o' = parse_extensions p k (k + n) o'" if "k + n \<le> lim" for k n o'
    using that assms by (intro parse_extensions_prefix) simp
  show ?thesis
    unfolding parse_hello_body_def Let_def
    by (auto simp: r16 r8 [simplified] e not_less split: bind_splits)
qed

text \<open>
  Peeking is stable: once the parser has answered anything but "need more", the answer for the
  bytes read so far is the answer for every longer buffer that starts with them.
\<close>

theorem tls_parse_stable:
  assumes "tls_parse_clienthello (Some p) = Some (rc, out)" "rc \<noteq> TLS_CH_NEED_MORE"
  shows "tls_parse_clienthello (Some (p @ q)) = Some (rc, out)"
proof -
  have h5: "have_bytes 0 (length p) 5" using assms by (auto simp: tls_parse_clienthello_def split: if_splits)
  then have h: "rd8 (p @ q) 0 = rd8 p 0" "rd16 (p @ q) 1 = rd16 p 1" "rd16 (p @ q) 3 = rd16 p 3"
    by (auto simp: have_bytes_def intro!: rd_prefix)
  obtain rver rlen where r: "rd8 p 0 = Some (p ! 0, 1)" "rd16 p 1 = Some (rver, 3)" "rd16 p 3 = Some (rlen, 5)"
    using h5 by (cases p) (auto simp: have_bytes_def rd8_def rd16_def)
  show ?thesis
  proof (cases "p ! 0 = TLS_CT_HANDSHAKE \<and> rlen \<noteq> 0")
    case True
    then have fit: "have_bytes 5 (length p) (unat rlen)"
      using assms h5 r by (auto simp: tls_parse_clienthello_def Let_def split: if_splits)
    have hs: "rd8 (p @ q) 5 = rd8 p 5" "rd24 (p @ q) 6 = rd24 p 6" if "have_bytes 5 (5 + unat rlen) 4"
      using that fit by (auto simp: have_bytes_def intro!: rd_prefix)
    have b: "parse_hello_body (p @ q) 9 (9 + n) o' = parse_hello_body p 9 (9 + n) o'" if "9 + n \<le> 5 + unat rlen" for n o'
      using that fit by (intro parse_hello_body_prefix) (simp add: have_bytes_def)
    have e9: "off = 9" if "rd24 p 6 = Some (v, off)" for v off using rd_advance(3) [OF that] by simp
    have e6: "off = 6" if "rd8 p 5 = Some (v, off)" for v off using rd_advance(1) [OF that] by simp
    show ?thesis
      using assms h5 fit True unfolding tls_parse_clienthello_def Let_def
      by (auto simp: h [simplified] r [simplified] hs b have_bytes_def not_less split: if_splits bind_splits dest!: e6 e9)
  qed (use assms h5 r h in \<open>auto simp: tls_parse_clienthello_def have_bytes_def split: if_splits\<close>)
qed

section \<open>A reference encoder\<close>

definition enc16 :: "nat \<Rightarrow> bytes" where
  "enc16 n = [of_nat (n div 256), of_nat n]"

definition enc24 :: "nat \<Rightarrow> bytes" where
  "enc24 n = [of_nat (n div 65536), of_nat (n div 256), of_nat n]"

definition enc_ext :: "nat \<times> bytes \<Rightarrow> bytes" where
  "enc_ext e = enc16 (fst e) @ enc16 (length (snd e)) @ snd e"

definition sni_list :: "bytes \<Rightarrow> bytes" where
  "sni_list name = enc16 (3 + length name) @ [0] @ enc16 (length name) @ name"

definition enc_body :: "nat \<Rightarrow> bytes \<Rightarrow> bytes \<Rightarrow> bytes \<Rightarrow> bytes \<Rightarrow> (nat \<times> bytes) list \<Rightarrow> bytes" where
  "enc_body ver random sid cs cmpr exts =
     enc16 ver @ random @ [of_nat (length sid)] @ sid @ enc16 (length cs) @ cs @ [of_nat (length cmpr)] @ cmpr @
     enc16 (length (concat (map enc_ext exts))) @ concat (map enc_ext exts)"

definition enc_hello :: "nat \<Rightarrow> bytes \<Rightarrow> bytes" where
  "enc_hello rver body = [22] @ enc16 rver @ enc16 (4 + length body) @ [1] @ enc24 (length body) @ body"

lemma enc_length [simp]:
  "length (enc16 n) = 2" "length (enc24 n) = 3" "length (enc_ext e) = 4 + length (snd e)"
  "length (sni_list name) = 5 + length name"
  by (simp_all add: enc16_def enc24_def enc_ext_def sni_list_def)

lemma rd8_at: "at_off p off [b] \<Longrightarrow> rd8 p off = Some (b, off + 1)"
  using at_length [of p off "[b]"] at_nth [of p off "[b]" 0] by (simp add: rd8_def)

lemma or_shift8:
  "push_bit 8 (ucast (of_nat (n div 256) :: u8)) OR ucast (of_nat n :: u8) = (of_nat n :: u16)"
proof -
  have d: "n div 256 = drop_bit 8 n" by (simp add: drop_bit_eq_div)
  show ?thesis unfolding d
    by (rule bit_word_eqI)
      (auto simp: bit_or_iff bit_push_bit_iff bit_unsigned_iff bit_of_nat_iff bit_drop_bit_eq)
qed

lemma or_shift16:
  "push_bit 16 (ucast (of_nat (n div 65536) :: u8)) OR push_bit 8 (ucast (of_nat (n div 256) :: u8)) OR
   ucast (of_nat n :: u8) = (of_nat (n mod 16777216) :: u32)"
proof -
  have d: "n div 256 = drop_bit 8 n" "n div 65536 = drop_bit 16 n" "n mod 16777216 = take_bit 24 n"
    by (simp_all add: drop_bit_eq_div take_bit_eq_mod)
  show ?thesis unfolding d
  proof (rule bit_word_eqI)
    fix k assume "k < LENGTH(32)"
    consider "k < 8" | "8 \<le> k" "k < 16" | "16 \<le> k" by linarith
    then show "bit (push_bit 16 (ucast (of_nat (drop_bit 16 n) :: u8)) OR push_bit 8 (ucast (of_nat (drop_bit 8 n) :: u8)) OR
        ucast (of_nat n :: u8) :: u32) k \<longleftrightarrow> bit (of_nat (take_bit 24 n) :: u32) k"
      by cases
        (auto simp: bit_or_iff bit_push_bit_iff bit_unsigned_iff bit_of_nat_iff bit_drop_bit_eq bit_take_bit_iff)
  qed
qed

lemma rd16_at: "at_off p off (enc16 n) \<Longrightarrow> rd16 p off = Some (of_nat n, off + 2)"
  using at_length [of p off "enc16 n"] at_nth [of p off "enc16 n" 0] at_nth [of p off "enc16 n" 1]
  by (simp add: rd16_def enc16_def or_shift8)

lemma rd24_at: "at_off p off (enc24 n) \<Longrightarrow> n < 16777216 \<Longrightarrow> rd24 p off = Some (of_nat n, off + 3)"
  using at_length [of p off "enc24 n"] at_nth [of p off "enc24 n" 0] at_nth [of p off "enc24 n" 1]
    at_nth [of p off "enc24 n" 2] or_shift16 [of n]
  by (simp add: rd24_def enc24_def)

section \<open>Round trip\<close>

definition small :: "nat \<Rightarrow> bool" where
  "small n \<longleftrightarrow> n < 65536"

lemma unat16: "small n \<Longrightarrow> unat (of_nat n :: u16) = n"
  by (simp add: small_def unat_of_nat)

lemma of_nat16_0: "small n \<Longrightarrow> (of_nat n :: u16) = 0 \<longleftrightarrow> n = 0"
  using unat16 [of n] by (metis of_nat_0 unat_eq_zero)

lemma parse_names_host:
  assumes "at_off p off ([0] @ enc16 (length name) @ name)" "name \<noteq> []" "length name < TLS_SNI_MAX"
  shows "parse_names p off (off + 3 + length name) out = Some (TLS_CH_OK, out\<lparr>ch_sni := name, ch_has_sni := True\<rparr>)"
proof -
  have a: "at_off p off [0]" "at_off p (off + 1) (enc16 (length name))" "at_off p (off + 3) name"
    using assms(1) unfolding at_append by (simp_all add: numeral_3_eq_3)
  have s: "small (length name)" using assms(3) by (simp add: small_def TLS_SNI_MAX_def)
  show ?thesis
    using rd8_at [OF a(1)] rd16_at [OF a(2)] unat16 [OF s] of_nat16_0 [OF s] assms(2,3) at_length [OF a(3)] at_take [OF a(3)]
    by (subst parse_names.simps) (simp add: TLS_SNI_HOST_NAME_def numeral_3_eq_3)
qed

lemma parse_extensions_skip:
  assumes "at_off p off (enc_ext (t, d))" "small t" "small (length d)" "t \<noteq> 0" "off + 4 + length d \<le> ext_end"
  shows "parse_extensions p off ext_end out = parse_extensions p (off + 4 + length d) ext_end out"
proof -
  have a: "at_off p off (enc16 t)" "at_off p (off + 2) (enc16 (length d))"
    using assms(1) unfolding enc_ext_def at_append by simp_all
  show ?thesis
    using rd16_at [OF a(1)] rd16_at [OF a(2)] unat16 [OF assms(3)] of_nat16_0 [OF assms(2)] assms(4,5)
    by (subst parse_extensions.simps) (simp add: TLS_EXT_SERVER_NAME_def add.commute add.left_commute numeral_eq_Suc)
qed

lemma parse_extensions_sni:
  assumes "at_off p off (enc_ext (0, sni_list name))" "name \<noteq> []" "length name < TLS_SNI_MAX"
    "off + 9 + length name \<le> ext_end"
  shows "parse_extensions p off ext_end out = Some (TLS_CH_OK, out\<lparr>ch_sni := name, ch_has_sni := True\<rparr>)"
proof -
  have a: "at_off p off (enc16 0)" "at_off p (off + 2) (enc16 (5 + length name))" "at_off p (off + 4) (enc16 (3 + length name))"
    "at_off p (off + 6) ([0] @ enc16 (length name) @ name)"
    using assms(1) unfolding enc_ext_def fst_conv snd_conv sni_list_def at_append by (simp_all add: numeral_eq_Suc)
  have s: "small (5 + length name)" "small (3 + length name)" using assms(3) by (simp_all add: small_def TLS_SNI_MAX_def)
  show ?thesis
    using rd16_at [OF a(1)] rd16_at [OF a(2)] rd16_at [OF a(3)] unat16 [OF s(1)] unat16 [OF s(2)] assms(4)
      parse_names_host [OF a(4) assms(2,3), of out]
    by (subst parse_extensions.simps) (simp add: TLS_EXT_SERVER_NAME_def Let_def add.commute add.left_commute numeral_eq_Suc)
qed

text \<open>Extensions the parser walks over before the server name.\<close>

definition other_ext :: "nat \<times> bytes \<Rightarrow> bool" where
  "other_ext e \<longleftrightarrow> small (fst e) \<and> fst e \<noteq> 0 \<and> small (length (snd e))"

lemma parse_extensions_find:
  assumes "list_all other_ext pre" "name \<noteq> []" "length name < TLS_SNI_MAX"
    "at_off p off (concat (map enc_ext (pre @ (0, sni_list name) # post)))"
  shows "parse_extensions p off (off + length (concat (map enc_ext (pre @ (0, sni_list name) # post)))) out =
    Some (TLS_CH_OK, out\<lparr>ch_sni := name, ch_has_sni := True\<rparr>)"
  using assms(1,4)
proof (induction pre arbitrary: off)
  case Nil
  have "at_off p off (enc_ext (0, sni_list name))" using Nil(2) by (simp add: at_append)
  then show ?case using parse_extensions_sni [OF _ assms(2,3)] by simp
next
  case (Cons e pre)
  obtain t d where e: "e = (t, d)" by (cases e)
  let ?l = "concat (map enc_ext (pre @ (0, sni_list name) # post))"
  have a: "at_off p off (enc_ext (t, d))" "at_off p (off + (4 + length d)) ?l" using Cons(3) by (simp_all add: at_append e)
  have ok: "small t" "t \<noteq> 0" "small (length d)" using Cons(2) by (simp_all add: e other_ext_def)
  have "parse_extensions p off (off + (4 + length d) + length ?l) out =
      parse_extensions p (off + (4 + length d)) (off + (4 + length d) + length ?l) out"
    using parse_extensions_skip [OF a(1) ok(1,3,2), of "off + (4 + length d) + length ?l" out] by (simp add: add.assoc)
  then show ?case using Cons.IH [OF _ a(2)] Cons(2) by (simp add: e add.assoc)
qed

text \<open>The field sizes of a ClientHello that a server would accept.\<close>

definition hello_fields :: "nat \<Rightarrow> bytes \<Rightarrow> bytes \<Rightarrow> bytes \<Rightarrow> bytes \<Rightarrow> (nat \<times> bytes) list \<Rightarrow> bool" where
  "hello_fields ver random sid cs cmpr exts \<longleftrightarrow> small ver \<and> length random = 32 \<and> length sid < 256 \<and> small (length cs) \<and>
     even (length cs) \<and> length cmpr < 256 \<and> small (4 + length (enc_body ver random sid cs cmpr exts))"

lemma unat8: "n < 256 \<Longrightarrow> unat (of_nat n :: u8) = n"
  by (simp add: unat_of_nat)

lemma even16: "even n \<Longrightarrow> (of_nat n :: u16) AND 1 = 0"
  using of_nat_and_eq [of n 1, where 'a = u16] by (simp add: and_one_eq even_iff_mod_2_eq_zero)

lemma parse_hello_body_enc:
  assumes f: "hello_fields ver random sid cs cmpr exts" and a: "at_off p off (enc_body ver random sid cs cmpr exts)"
  defines "e \<equiv> off + 40 + length sid + length cs + length cmpr" and "E \<equiv> concat (map enc_ext exts)"
  shows "parse_hello_body p off (off + length (enc_body ver random sid cs cmpr exts)) out =
    parse_extensions p e (e + length E) (out\<lparr>ch_legacy_version := of_nat ver\<rparr>)"
proof -
  have s: "small ver" "length random = 32" "length sid < 256" "small (length cs)" "even (length cs)" "length cmpr < 256"
    "small (length E)"
    using f unfolding hello_fields_def enc_body_def E_def by (auto simp: small_def)
  have len: "length (enc_body ver random sid cs cmpr exts) = 40 + length sid + length cs + length cmpr + length E"
    using s(2) by (simp add: enc_body_def E_def)
  have at: "at_off p off (enc16 ver)" "at_off p (off + 34) [of_nat (length sid)]" "at_off p (off + 35 + length sid) (enc16 (length cs))"
    "at_off p (off + 37 + length sid + length cs) [of_nat (length cmpr)]"
    "at_off p (off + 38 + length sid + length cs + length cmpr) (enc16 (length E))"
    using a s(2) unfolding enc_body_def E_def at_append by (simp_all add: ac_simps)
  have r: "rd16 p off = Some (of_nat ver, off + 2)" "rd8 p (off + 34) = Some (of_nat (length sid), off + 35)"
    "rd16 p (off + 35 + length sid) = Some (of_nat (length cs), off + 37 + length sid)"
    "rd8 p (off + 37 + length sid + length cs) = Some (of_nat (length cmpr), off + 38 + length sid + length cs)"
    "rd16 p (off + 38 + length sid + length cs + length cmpr) = Some (of_nat (length E), off + 40 + length sid + length cs + length cmpr)"
    using rd16_at [OF at(1)] rd8_at [OF at(2)] rd16_at [OF at(3)] rd8_at [OF at(4)] rd16_at [OF at(5)]
    by (simp_all add: ac_simps)
  have u: "unat (of_nat (length sid) :: u8) = length sid" "unat (of_nat (length cs) :: u16) = length cs"
    "unat (of_nat (length cmpr) :: u8) = length cmpr" "unat (of_nat (length E) :: u16) = length E"
    "(of_nat (length cs) :: u16) AND 1 = 0"
    using s unat8 unat16 even16 by auto
  have k: "rd8 p k = Some (of_nat (length sid), k + 1)" if "k = off + 34" for k using r(2) that by simp
  have k3: "rd16 p k = Some (of_nat (length cs), k + 2)" if "k = off + 35 + length sid" for k using r(3) that by simp
  have k4: "rd8 p k = Some (of_nat (length cmpr), k + 1)" if "k = off + 37 + length sid + length cs" for k
    using r(4) that by simp
  have k5: "rd16 p k = Some (of_nat (length E), k + 2)" if "k = off + 38 + length sid + length cs + length cmpr" for k
    using r(5) that by simp
  show ?thesis
    unfolding parse_hello_body_def len e_def
    by (simp add: have_bytes_def Let_def r(1) k k3 k4 k5 u) (simp add: ac_simps)
qed

lemma tls_parse_enc:
  assumes "list_all other_ext pre" "name \<noteq> []" "length name < TLS_SNI_MAX" "small rver"
    and "hello_fields ver random sid cs cmpr (pre @ (0, sni_list name) # post)"
  defines "body \<equiv> enc_body ver random sid cs cmpr (pre @ (0, sni_list name) # post)"
  shows "tls_parse_clienthello (Some (enc_hello rver body @ rest)) =
    Some (TLS_CH_OK, \<lparr>ch_sni = name, ch_has_sni = True, ch_legacy_version = of_nat ver,
      ch_record_len = of_nat (4 + length body)\<rparr>)"
proof -
  let ?exts = "pre @ (0, sni_list name) # post"
  define p where "p = enc_hello rver body @ rest"
  define e where "e = 9 + 40 + length sid + length cs + length cmpr"
  have sm: "small (4 + length body)" using assms(5) by (simp add: hello_fields_def body_def)
  then have l24: "length body < 16777216" by (simp add: small_def)
  have "at_off p 0 (enc_hello rver body)" by (auto simp: at_off_def p_def)
  then have at: "at_off p 0 [22]" "at_off p 1 (enc16 rver)" "at_off p 3 (enc16 (4 + length body))" "at_off p 5 [1]"
    "at_off p 6 (enc24 (length body))" "at_off p 9 body"
    unfolding enc_hello_def at_append by (simp_all add: numeral_eq_Suc)
  have r: "rd8 p 0 = Some (22, 1)" "rd16 p 1 = Some (of_nat rver, 3)" "rd16 p 3 = Some (of_nat (4 + length body), 5)"
    "rd8 p 5 = Some (1, 6)" "rd24 p 6 = Some (of_nat (length body), 9)"
    using rd8_at [OF at(1)] rd16_at [OF at(2)] rd16_at [OF at(3)] rd8_at [OF at(4)] rd24_at [OF at(5) l24]
    by (simp_all add: numeral_eq_Suc)
  have u: "unat (of_nat (4 + length body) :: u16) = 4 + length body" "unat (of_nat (length body) :: u32) = length body"
    "(of_nat (4 + length body) :: u16) \<noteq> 0"
    using unat16 [OF sm] of_nat16_0 [OF sm] l24 by (simp_all add: unat_of_nat)
  have ate: "at_off p e (concat (map enc_ext ?exts))"
    using at(6) assms(5) unfolding body_def enc_body_def at_append e_def by (simp add: hello_fields_def ac_simps)
  have "parse_hello_body p 9 (9 + length body) out =
      Some (TLS_CH_OK, out\<lparr>ch_legacy_version := of_nat ver, ch_sni := name, ch_has_sni := True\<rparr>)" for out
    using parse_hello_body_enc [OF assms(5) at(6) [unfolded body_def]] parse_extensions_find [OF assms(1-3) ate]
    unfolding body_def e_def by simp
  moreover have "9 + length body \<le> length p" using at_length [OF at(6)] by simp
  ultimately show ?thesis
    unfolding p_def [symmetric]
    by (simp add: tls_parse_clienthello_def r(1,2) [simplified] r(3-5) u have_bytes_def Let_def ch_zero_def TLS_CT_HANDSHAKE_def TLS_HS_CLIENTHELLO_def
        del: of_nat_add of_nat_Suc)
qed

text \<open>
  C37. Round trip with a reference encoder of RFC 8446 and RFC 6066: for every ClientHello whose fields
  fit their length prefixes, with a server name extension at any position, the parser returns the
  host name, the version and the record length, whatever follows the record.
\<close>

theorem tls_parse_roundtrip:
  assumes "list_all other_ext pre" "name \<noteq> []" "length name < TLS_SNI_MAX" "small rver"
    and "hello_fields ver random sid cs cmpr (pre @ (0, sni_list name) # post)"
  defines "body \<equiv> enc_body ver random sid cs cmpr (pre @ (0, sni_list name) # post)"
  shows "tls_parse_clienthello (Some (enc_hello rver body @ rest)) =
    Some (TLS_CH_OK, \<lparr>ch_sni = name, ch_has_sni = True, ch_legacy_version = of_nat ver,
      ch_record_len = of_nat (4 + length body)\<rparr>)"
  unfolding body_def using tls_parse_enc [OF assms(1-5)] .

text \<open>A hello for the host \<open>ab\<close> with one other extension in front.\<close>

definition demo_body :: bytes where
  "demo_body = enc_body 771 (replicate 32 7) [] [0, 1] [0] [(11, [1, 0]), (0, sni_list [97, 98])]"

lemma demo_fields: "hello_fields 771 (replicate 32 7) [] [0, 1] [0] ([(11, [1, 0])] @ (0, sni_list [97, 98]) # [])"
  by (simp add: hello_fields_def small_def enc_body_def)

theorem tls_parse_roundtrip_witness:
  "tls_parse_clienthello (Some (enc_hello 769 demo_body @ [23])) =
     Some (TLS_CH_OK, \<lparr>ch_sni = [97, 98], ch_has_sni = True, ch_legacy_version = 771, ch_record_len = 64\<rparr>)"
proof -
  have "length demo_body = 60" by (simp add: demo_body_def enc_body_def)
  moreover have "list_all other_ext [(11, [1, 0])]" by (simp add: other_ext_def small_def)
  ultimately show ?thesis
    using tls_parse_roundtrip [OF _ _ _ _ demo_fields, of 769 "[23]"]
    by (simp add: demo_body_def TLS_SNI_MAX_def small_def)
qed

theorem tls_parse_stable_witness:
  "tls_parse_clienthello (Some ([21, 3, 3, 0, 2] @ [1, 40])) = Some (TLS_CH_NOT_CH, ch_zero)"
proof -
  have "tls_parse_clienthello (Some [21, 3, 3, 0, 2]) = Some (TLS_CH_NOT_CH, ch_zero)"
    by (simp add: tls_parse_clienthello_def have_bytes_def rd8_def rd16_def TLS_CT_HANDSHAKE_def)
  from tls_parse_stable [OF this, of "[1, 40]"] show ?thesis by simp
qed

end
