(* ===== verification/Proto_Buf.thy ===== *)
theory Proto_Buf
  imports Sig_Match Tls_ClientHello
begin

text \<open>
  Protocol regions of a reassembled stream (\<open>src/src/userspace/ipsd/proto_buf.c\<close>): the request line,
  headers and body of an HTTP request, or the server name of a ClientHello. A region is the list of
  its bytes, \<open>None\<close> a \<open>NULL\<close> pointer; the outer option of \<open>bufs_extract\<close> is \<open>None\<close> if the TLS parser
  read outside the buffer.
\<close>

section \<open>Extraction\<close>

definition bufs_init_raw :: "bytes \<Rightarrow> match_buffers" where
  "bufs_init_raw raw = (\<lambda>_. None)(SIG_BUF_RAW := Some raw)"

definition is_http_method :: "bytes \<Rightarrow> bool" where
  "is_http_method s \<longleftrightarrow> \<not> (length s < 3 \<or> length s > 12) \<and> list_all (\<lambda>b. \<not> (b < 65 \<or> b > 90)) s"

text \<open>\<open>s[i..j)\<close> as a region.\<close>

definition region :: "bytes \<Rightarrow> nat \<Rightarrow> nat \<Rightarrow> bytes" where
  "region s i j = take (j - i) (drop i s)"

text \<open>The two header terminators, and where the body starts behind one.\<close>

definition lflf :: "bytes \<Rightarrow> nat \<Rightarrow> bool" where
  "lflf s i \<longleftrightarrow> s ! i = 10 \<and> s ! (i + 1) = 10"

definition crlfcrlf :: "bytes \<Rightarrow> nat \<Rightarrow> bool" where
  "crlfcrlf s i \<longleftrightarrow> i + 3 < length s \<and> s ! i = 13 \<and> s ! (i + 1) = 10 \<and> s ! (i + 2) = 13 \<and> s ! (i + 3) = 10"

definition header_end :: "bytes \<Rightarrow> nat \<Rightarrow> (nat \<times> nat) option" where
  "header_end s hstart =
     (case find (\<lambda>i. lflf s i \<or> crlfcrlf s i) [hstart..<length s - 1] of
        None \<Rightarrow> None
      | Some i \<Rightarrow> Some (i, if lflf s i then i + 2 else i + 4))"

definition http_headers :: "match_buffers \<Rightarrow> bytes \<Rightarrow> nat \<Rightarrow> match_buffers" where
  "http_headers mb s hstart =
     (case header_end s hstart of
        None \<Rightarrow> if length s > hstart then mb(SIG_BUF_HTTP_HEADER := Some (drop hstart s)) else mb
      | Some (hend, bstart) \<Rightarrow>
          (let mb1 = (if hend > hstart then mb(SIG_BUF_HTTP_HEADER := Some (region s hstart hend)) else mb)
           in if length s > bstart then mb1(SIG_BUF_HTTP_BODY := Some (drop bstart s)) else mb1))"

definition http_extract :: "match_buffers \<Rightarrow> bytes \<Rightarrow> match_buffers" where
  "http_extract mb s =
     (case find (\<lambda>i. s ! i = 32) [0..<min (length s) 16] of
        None \<Rightarrow> mb
      | Some sp1 \<Rightarrow>
          if sp1 = 0 \<or> \<not> is_http_method (take sp1 s) then mb
          else
            let mb1 = mb(SIG_BUF_HTTP_METHOD := Some (take sp1 s)); us = sp1 + 1 in
            case find (\<lambda>i. s ! i = 32 \<or> s ! i = 13 \<or> s ! i = 10) [us..<length s] of
              None \<Rightarrow> mb1
            | Some sp2 \<Rightarrow>
                let mb2 = (if sp2 > us then mb1(SIG_BUF_HTTP_URI := Some (region s us sp2)) else mb1) in
                case find (\<lambda>i. s ! i = 10) [sp2..<length s] of
                  None \<Rightarrow> mb2
                | Some eol \<Rightarrow> http_headers mb2 s (eol + 1))"

definition bufs_extract :: "match_buffers \<Rightarrow> bytes \<Rightarrow> match_buffers option" where
  "bufs_extract mb s =
     (if s = [] then Some mb
      else if s ! 0 = 0x16 then
        (case tls_parse_clienthello (Some s) of
           None \<Rightarrow> None
         | Some (rc, ch) \<Rightarrow>
             if rc = TLS_CH_OK \<and> ch_has_sni ch
             then Some (mb(SIG_BUF_TLS_SNI := Some (take 255 (c_str (ch_sni ch)))))
             else Some mb)
      else Some (http_extract mb s))"

section \<open>Every region is a part of the stream\<close>

definition parts_of :: "bytes \<Rightarrow> match_buffers \<Rightarrow> bool" where
  "parts_of s mb \<longleftrightarrow> (\<forall>b bs. mb b = Some bs \<longrightarrow> sublist bs s)"

lemma parts_of_upd [simp]: "parts_of s mb \<Longrightarrow> sublist bs s \<Longrightarrow> parts_of s (mb(b := Some bs))"
  by (auto simp: parts_of_def)

lemma region_sublist [simp]: "sublist (region s i j) s"
  by (simp add: region_def sublist_take_drop)

lemma sublist_slices [simp]: "sublist (take n s) s" "sublist (drop n s) s"
  using sublist_take_drop [of n 0 s] sublist_take_drop [of "length s" n s] by simp_all

lemma http_headers_parts: "parts_of s mb \<Longrightarrow> parts_of s (http_headers mb s h)"
  by (auto simp: http_headers_def Let_def split: option.split)

lemma http_extract_parts: "parts_of s mb \<Longrightarrow> parts_of s (http_extract mb s)"
  by (auto simp: http_extract_def Let_def http_headers_parts split: option.split)

lemma bufs_init_parts: "parts_of s (bufs_init_raw s)"
  by (auto simp: parts_of_def bufs_init_raw_def)

lemma c_str_sublist: "sublist (c_str bs) bs"
  by (metis c_str_def prefix_imp_sublist takeWhile_is_prefix)

lemma bufs_extract_parts:
  assumes "parts_of s mb"
  shows "\<exists>mb'. bufs_extract mb s = Some mb' \<and> parts_of s mb'"
proof -
  obtain rc ch where t: "tls_parse_clienthello (Some s) = Some (rc, ch)" "sublist (ch_sni ch) s"
    using tls_parse_parse_safe [of s] by (auto simp: parse_safe_def sni_ok_def)
  have "sublist (take 255 (c_str (ch_sni ch))) s"
    using t(2) c_str_sublist sublist_slices(1) by (meson sublist_order.order.trans)
  then show ?thesis using assms t(1) by (auto simp: bufs_extract_def http_extract_parts)
qed

section \<open>A well-formed request\<close>

definition http_request :: "bytes \<Rightarrow> bytes \<Rightarrow> bytes \<Rightarrow> bytes \<Rightarrow> bytes \<Rightarrow> bytes" where
  "http_request meth uri version headers body =
     meth @ [32] @ uri @ [32] @ version @ [13, 10] @ headers @ [13, 10, 13, 10] @ body"

lemma find_first:
  assumes "i \<le> j" "j < n" "P j" "\<And>k. i \<le> k \<Longrightarrow> k < j \<Longrightarrow> \<not> P k"
  shows "find P [i..<n] = Some j"
proof -
  have "[i..<n] = [i..<j] @ j # [Suc j..<n]" using assms(1,2) by (metis upt_add_eq_append upt_conv_Cons less_imp_add_positive le_add_diff_inverse less_imp_le)
  moreover have "find P [i..<j] = None" using assms(4) by (auto simp: find_None_iff)
  moreover have "find P (xs @ ys) = (case find P xs of None \<Rightarrow> find P ys | r \<Rightarrow> r)" for xs ys
    by (induction xs) auto
  ultimately show ?thesis using assms(3) by simp
qed

lemma find_part:
  assumes "length A = i" "\<forall>b \<in> set X. \<not> P b" "P c" "i + length X < n"
  shows "find (\<lambda>j. P ((A @ X @ c # B) ! j)) [i..<n] = Some (i + length X)"
proof (rule find_first)
  fix k assume "i \<le> k" "k < i + length X"
  then show "\<not> P ((A @ X @ c # B) ! k)" using assms(1,2) by (simp add: nth_append)
qed (use assms in \<open>simp_all add: nth_append\<close>)

lemma terminator_shift:
  "lflf (A @ T) (length A + j) \<longleftrightarrow> lflf T j" "crlfcrlf (A @ T) (length A + j) \<longleftrightarrow> crlfcrlf T j"
  by (simp_all add: lflf_def crlfcrlf_def nth_append add.assoc)

lemma header_end_part:
  assumes "\<forall>j < length h. \<not> lflf (h @ [13, 10, 13, 10] @ b) j \<and> \<not> crlfcrlf (h @ [13, 10, 13, 10] @ b) j"
  shows "header_end (A @ h @ [13, 10, 13, 10] @ b) (length A) = Some (length A + length h, length A + length h + 4)"
proof -
  let ?T = "h @ [13, 10, 13, 10] @ b"
  have t: "\<not> lflf ?T (length h)" "crlfcrlf ?T (length h)" by (simp_all add: lflf_def crlfcrlf_def nth_append)
  have "find (\<lambda>i. lflf (A @ ?T) i \<or> crlfcrlf (A @ ?T) i) [length A..<length (A @ ?T) - 1] = Some (length A + length h)"
  proof (rule find_first)
    fix k assume k: "length A \<le> k" "k < length A + length h"
    then obtain j where "k = length A + j" "j < length h" by (metis add_less_cancel_left le_Suc_ex)
    then show "\<not> (lflf (A @ ?T) k \<or> crlfcrlf (A @ ?T) k)" using assms terminator_shift by simp
  qed (use t terminator_shift [of A ?T "length h"] in simp_all)
  then show ?thesis using t(1) terminator_shift(1) [of A ?T "length h"] by (simp add: header_end_def)
qed

text \<open>
  A request \<open>METHOD SP URI SP VERSION CRLF headers CRLF CRLF body\<close> is split into exactly its parts:
  for a method of 3 to 12 capital letters, a URI without blanks and line ends, a version without
  line feed and a non-empty header block that does not itself contain a header terminator.
\<close>

theorem http_request_regions:
  assumes "is_http_method meth" "uri \<noteq> []" "\<forall>b \<in> set uri. b \<notin> {32, 13, 10}" "10 \<notin> set version" "headers \<noteq> []" "body \<noteq> []"
    and "\<forall>i < length headers. \<not> lflf (headers @ [13, 10, 13, 10] @ body) i \<and> \<not> crlfcrlf (headers @ [13, 10, 13, 10] @ body) i"
  defines "s \<equiv> http_request meth uri version headers body"
  shows "bufs_extract (bufs_init_raw s) s = Some (\<lambda>b. case b of
      SIG_BUF_RAW \<Rightarrow> Some s | SIG_BUF_HTTP_METHOD \<Rightarrow> Some meth | SIG_BUF_HTTP_URI \<Rightarrow> Some uri
    | SIG_BUF_HTTP_HEADER \<Rightarrow> Some headers | SIG_BUF_HTTP_BODY \<Rightarrow> Some body | SIG_BUF_TLS_SNI \<Rightarrow> None)"
proof -
  let ?m = "length meth" and ?u = "length uri" and ?v = "length version" and ?h = "length headers"
  let ?A = "meth @ [32] @ uri @ [32] @ version @ [13, 10]"
  have m: "3 \<le> ?m" "?m \<le> 12" "\<forall>b \<in> set meth. \<not> (b < 65 \<or> b > 90)"
    using assms(1) by (auto simp: is_http_method_def list_all_iff)
  have n32: "\<forall>b \<in> set meth. b \<noteq> 32" using m(3) by auto
  have s1: "s = [] @ meth @ 32 # (uri @ [32] @ version @ [13, 10] @ headers @ [13, 10, 13, 10] @ body)"
    and s2: "s = (meth @ [32]) @ uri @ 32 # (version @ [13, 10] @ headers @ [13, 10, 13, 10] @ body)"
    and s3: "s = (meth @ [32] @ uri) @ (32 # version @ [13]) @ 10 # (headers @ [13, 10, 13, 10] @ body)"
    and s4: "s = ?A @ headers @ [13, 10, 13, 10] @ body"
    by (simp_all add: s_def http_request_def)
  have sp1: "find (\<lambda>i. s ! i = 32) [0..<min (length s) 16] = Some ?m"
    using find_part [of "[]" 0 meth "\<lambda>b. b = 32" 32 "min (length s) 16"
        "uri @ [32] @ version @ [13, 10] @ headers @ [13, 10, 13, 10] @ body", folded s1] n32 m
    by (simp add: s_def http_request_def)
  have sp2: "find (\<lambda>i. s ! i = 32 \<or> s ! i = 13 \<or> s ! i = 10) [?m + 1..<length s] = Some (?m + 1 + ?u)"
    by (rule find_part [of "meth @ [32]" "?m + 1" uri "\<lambda>b. b = 32 \<or> b = 13 \<or> b = 10" 32 "length s"
        "version @ [13, 10] @ headers @ [13, 10, 13, 10] @ body", folded s2])
      (use assms(3) in \<open>simp_all add: s_def http_request_def\<close>)
  have "find (\<lambda>i. s ! i = 10) [?m + 1 + ?u..<length s] = Some (?m + 1 + ?u + length (32 # version @ [13]))"
    by (rule find_part [of "meth @ [32] @ uri" "?m + 1 + ?u" "32 # version @ [13]" "\<lambda>b. b = 10" 10 "length s"
        "headers @ [13, 10, 13, 10] @ body", folded s3])
      (use assms(4) in \<open>auto simp: s_def http_request_def\<close>)
  then have eol: "find (\<lambda>i. s ! i = 10) [?m + 1 + ?u..<length s] = Some (?m + 1 + ?u + (?v + 2))"
    by (simp del: upt_Suc upt.simps)
  define a where "a = length ?A"
  have hs: "?m + 1 + ?u + (?v + 2) + 1 = a" by (simp add: a_def)
  have he: "header_end s a = Some (a + ?h, a + ?h + 4)"
    unfolding a_def s4 by (rule header_end_part [OF assms(7)])
  have mid: "region (A @ X @ B) (length A) (length A + length X) = X" "drop (length A + length X + 4) (A @ X @ [13, 10, 13, 10] @ B) = B"
    for A X B by (simp_all add: region_def)
  have r: "region s a (a + ?h) = headers" "drop (a + ?h + 4) s = body" unfolding s4 a_def by (rule mid)+
  have r': "region s (?m + 1) (?m + 1 + ?u) = uri" "take ?m s = meth" "a + ?h + 4 < length s"
    using assms(6) by (simp_all add: s_def http_request_def region_def a_def)
  have h: "http_headers mb s a = mb(SIG_BUF_HTTP_HEADER := Some headers, SIG_BUF_HTTP_BODY := Some body)" for mb
    using assms(5) r r'(3) by (simp add: http_headers_def he Let_def)
  have first: "s ! 0 \<noteq> 0x16" "s \<noteq> []"
  proof -
    have "s ! 0 = meth ! 0" "meth ! 0 \<in> set meth" using m(1) by (cases meth; simp add: s_def http_request_def)+
    then show "s ! 0 \<noteq> 0x16" using m(3) by auto
    show "s \<noteq> []" by (simp add: s1)
  qed
  have "?m \<noteq> 0" "?m + 1 < ?m + 1 + ?u" using m(1) assms(2) by auto
  then show ?thesis
    using first sp1 sp2 eol h [folded hs] r'(1,2) assms(1) unfolding bufs_extract_def http_extract_def Let_def
    by (auto simp: bufs_init_raw_def fun_eq_iff split: sig_buf.split)
qed

definition demo_request :: bytes where
  "demo_request = http_request [71, 69, 84] [47] [72] [65] [66]"

theorem http_request_regions_witness:
  "\<exists>mb. bufs_extract (bufs_init_raw demo_request) demo_request = Some mb \<and> mb SIG_BUF_HTTP_URI = Some [47] \<and>
     mb SIG_BUF_HTTP_BODY = Some [66]"
  using http_request_regions [of "[71, 69, 84]" "[47]" "[72]" "[65]" "[66]"]
  by (simp add: demo_request_def is_http_method_def lflf_def crlfcrlf_def)

definition headerless :: bytes where
  "headerless = [71, 69, 84] @ [32] @ [47] @ [32] @ [72] @ [13, 10] @ [13, 10] @ [97, 98, 99]"

text \<open>
  A request without headers (the blank line follows the request line at once) loses its body
  region: the body is presented as the header region, and \<open>http_client_body\<close> contents never match.
\<close>

theorem headerless_body_misplaced:
  "\<exists>mb. bufs_extract (bufs_init_raw headerless) headerless = Some mb \<and> mb SIG_BUF_HTTP_BODY = None \<and>
     mb SIG_BUF_HTTP_HEADER = Some ([13, 10] @ [97, 98, 99])"
  by (simp add: headerless_def bufs_extract_def http_extract_def http_headers_def header_end_def lflf_def crlfcrlf_def
      bufs_init_raw_def is_http_method_def region_def upt_rec)

end
