(* ===== verification/Netlink.thy ===== *)
theory Netlink
  imports Byte_Order "HOL-Library.Monad_Syntax"
begin

unbundle bit_operations_syntax

text \<open>
  Netlink attributes: the helpers that \<open>src/src/userspace/ipsd/nfq.c\<close> and \<open>ctdump.c\<close> both carry
  (\<open>nla_put_raw\<close>, \<open>nla_nest_start\<close>, \<open>nla_nest_end\<close>, \<open>nla_find\<close>/\<open>sg_nla_find\<close>) and the walk over the
  messages of a datagram (the kernel header's \<open>NLMSG_OK\<close>/\<open>NLMSG_NEXT\<close>).

  A received datagram is the list of its bytes and a pointer into it an offset; a read that is not
  inside the datagram is the result \<open>None\<close>. The reference encoding of an attribute is \<open>nla\<close>.
\<close>

section \<open>Attributes\<close>

definition NLA_HDRLEN :: nat where "NLA_HDRLEN = 4"
definition SG_NLA_F_NESTED :: u16 where "SG_NLA_F_NESTED = 0x8000"
definition SG_NLA_TYPE_MASK :: u16 where "SG_NLA_TYPE_MASK = 0x3fff"

definition NLA_ALIGN :: "nat \<Rightarrow> nat" where
  "NLA_ALIGN n = (n + 3) div 4 * 4"

text \<open>One attribute with its padding.\<close>

definition nla :: "u16 \<Rightarrow> bytes \<Rightarrow> bytes" where
  "nla ty d = le_bytes 2 (of_nat (NLA_HDRLEN + length d) :: u16) @ le_bytes 2 ty @ d @
     replicate (NLA_ALIGN (NLA_HDRLEN + length d) - (NLA_HDRLEN + length d)) 0"

definition nla_put_raw :: "bytes \<Rightarrow> nat \<Rightarrow> nat \<Rightarrow> u16 \<Rightarrow> bytes \<Rightarrow> (bytes \<times> nat) option" where
  "nla_put_raw buf off cap ty d =
     (let align = NLA_ALIGN (NLA_HDRLEN + length d)
      in if off + align > cap then None else Some (put_at buf off (nla ty d), off + align))"

definition nla_put_u32 :: "bytes \<Rightarrow> nat \<Rightarrow> nat \<Rightarrow> u16 \<Rightarrow> bytes \<Rightarrow> (bytes \<times> nat) option" where
  "nla_put_u32 buf off cap ty v =
     (let align = NLA_ALIGN (NLA_HDRLEN + 4)
      in if off + align > cap then None
         else Some (put_at buf off (le_bytes 2 (of_nat (NLA_HDRLEN + 4) :: u16) @ le_bytes 2 ty @ take 4 v), off + align))"

text \<open>\<open>nla_nest_start\<close> returns the offset of the header besides the new end.\<close>

definition nla_nest_start :: "bytes \<Rightarrow> nat \<Rightarrow> nat \<Rightarrow> u16 \<Rightarrow> (nat \<times> bytes \<times> nat) option" where
  "nla_nest_start buf off cap ty =
     (if off + NLA_HDRLEN > cap then None
      else Some (off, put_at buf off (le_bytes 2 (of_nat NLA_HDRLEN :: u16) @ le_bytes 2 (ty OR SG_NLA_F_NESTED)), off + NLA_HDRLEN))"

definition nla_nest_end :: "bytes \<Rightarrow> nat \<Rightarrow> nat \<Rightarrow> bytes" where
  "nla_nest_end buf start cur = put_at buf start (le_bytes 2 (of_nat (cur - start) :: u16))"

text \<open>The search: offset and length of the payload of the first attribute of the type.\<close>

function nla_find :: "bytes \<Rightarrow> nat \<Rightarrow> int \<Rightarrow> u16 \<Rightarrow> (nat \<times> nat) option option" where
  "nla_find p a len want =
     (if len \<ge> int NLA_HDRLEN then
        rd_bytes p a 2 \<bind> (\<lambda>lb.
        let al = unat (of_le lb :: u16) in
        if al < NLA_HDRLEN \<or> int al > len then Some None
        else
          rd_bytes p (a + 2) 2 \<bind> (\<lambda>tb.
          if of_le tb AND SG_NLA_TYPE_MASK = want then Some (Some (a + NLA_HDRLEN, al - NLA_HDRLEN))
          else nla_find p (a + NLA_ALIGN al) (len - int (NLA_ALIGN al)) want))
      else Some None)"
  by pat_completeness auto
termination
  by (relation "measure (\<lambda>(p, a, len, want). nat len)") (auto simp: NLA_HDRLEN_def NLA_ALIGN_def)

declare nla_find.simps [simp del]

section \<open>Messages\<close>

definition NLMSG_HDRLEN :: nat where "NLMSG_HDRLEN = 16"
definition NFGEN_LEN :: nat where "NFGEN_LEN = 4"
definition NLMSG_ERROR :: u16 where "NLMSG_ERROR = 2"
definition NLMSG_DONE :: u16 where "NLMSG_DONE = 3"
definition NLM_F_REQUEST :: u16 where "NLM_F_REQUEST = 1"
definition NLM_F_DUMP :: u16 where "NLM_F_DUMP = 0x300"

text \<open>The two headers every request starts with.\<close>

definition nl_header :: "nat \<Rightarrow> u16 \<Rightarrow> u16 \<Rightarrow> u32 \<Rightarrow> u8 \<Rightarrow> u16 \<Rightarrow> bytes" where
  "nl_header len ty flags seq family res_id =
     le_bytes 4 (of_nat len :: u32) @ le_bytes 2 ty @ le_bytes 2 flags @ le_bytes 4 seq @ le_bytes 4 (0 :: u32) @
     [family, 0] @ be_bytes 2 res_id"

text \<open>
  The walk over a datagram: \<open>f\<close> is the loop body on one message (offset and \<open>nlmsg_len\<close>); it continues
  (\<open>Inl\<close>) with a new state or returns (\<open>Inr\<close>).
\<close>

function nlmsg_walk :: "(nat \<Rightarrow> nat \<Rightarrow> 's \<Rightarrow> ('s + 'r) option) \<Rightarrow> bytes \<Rightarrow> nat \<Rightarrow> int \<Rightarrow> 's \<Rightarrow> ('s + 'r) option" where
  "nlmsg_walk f p nh rem s =
     (if rem \<ge> int NLMSG_HDRLEN then
        rd_bytes p nh 4 \<bind> (\<lambda>lb.
        let ml = unat (of_le lb :: u32) in
        if ml < NLMSG_HDRLEN \<or> int ml > rem then Some (Inl s)
        else
          (case f nh ml s of
             None \<Rightarrow> None
           | Some (Inr r) \<Rightarrow> Some (Inr r)
           | Some (Inl s') \<Rightarrow> nlmsg_walk f p (nh + NLA_ALIGN ml) (rem - int (NLA_ALIGN ml)) s'))
      else Some (Inl s))"
  by pat_completeness auto
termination
  by (relation "measure (\<lambda>(f, p, nh, rem, s). nat rem)") (auto simp: NLMSG_HDRLEN_def NLA_ALIGN_def)

declare nlmsg_walk.simps [simp del]

definition nlmsg_type :: "bytes \<Rightarrow> nat \<Rightarrow> u16 option" where
  "nlmsg_type p nh = map_option of_le (rd_bytes p (nh + 4) 2)"

text \<open>The attributes behind the two headers: offset and length.\<close>

definition attrs_of :: "nat \<Rightarrow> nat \<Rightarrow> nat \<times> int" where
  "attrs_of nh ml = (nh + NLMSG_HDRLEN + NFGEN_LEN, int ml - int NLMSG_HDRLEN - int NFGEN_LEN)"

section \<open>Facts on attributes\<close>

lemmas nl_consts = NLA_HDRLEN_def NLMSG_HDRLEN_def NFGEN_LEN_def

lemma NLA_ALIGN_ge [simp]: "n \<le> NLA_ALIGN n"
  by (simp add: NLA_ALIGN_def)

lemma NLA_ALIGN_le: "NLA_ALIGN n \<le> n + 3"
  by (simp add: NLA_ALIGN_def)

lemma length_nla [simp]: "length (nla ty d) = NLA_ALIGN (NLA_HDRLEN + length d)"
  using NLA_ALIGN_ge [of "4 + length d"] by (simp add: nla_def nl_consts del: NLA_ALIGN_ge)

text \<open>A search inside the datagram never leaves it, and neither does what it finds.\<close>

lemma nla_find_safe:
  assumes "int a + len \<le> int (length p)"
  shows "\<exists>r. nla_find p a len want = Some r \<and>
    (\<forall>off n. r = Some (off, n) \<longrightarrow> a + 4 \<le> off \<and> int (off + n) \<le> int a + len)"
  using assms
proof (induction p a len want rule: nla_find.induct)
  case (1 p a len want)
  show ?case
  proof (cases "len \<ge> 4")
    case True
    then obtain lb tb where r: "rd_bytes p a 2 = Some lb" "rd_bytes p (a + 2) 2 = Some tb"
      using 1(2) by (simp add: rd_bytes_def)
    let ?al = "unat (of_le lb :: u16)"
    show ?thesis
    proof (cases "?al < 4 \<or> int ?al > len \<or> of_le tb AND SG_NLA_TYPE_MASK = want")
      case False
      then have "\<exists>r. nla_find p (a + NLA_ALIGN ?al) (len - int (NLA_ALIGN ?al)) want = Some r \<and>
        (\<forall>off n. r = Some (off, n) \<longrightarrow> a + NLA_ALIGN ?al + 4 \<le> off \<and> int (off + n) \<le> int (a + NLA_ALIGN ?al) + (len - int (NLA_ALIGN ?al)))"
        using 1(1) [OF _ r(1) refl _ r(2)] 1(2) True by (simp add: nl_consts)
      then show ?thesis using True False r by (subst nla_find.simps) (auto simp: nl_consts Let_def)
    qed (use True r in \<open>subst nla_find.simps, auto simp: nl_consts Let_def\<close>)
  qed (subst nla_find.simps, simp add: nl_consts)
qed

text \<open>One step of the search over an encoded attribute.\<close>

lemma nla_header:
  assumes "at_off p a (nla ty d)" "length d \<le> 65531"
  shows "rd_bytes p a 2 = Some (le_bytes 2 (of_nat (4 + length d) :: u16))" "rd_bytes p (a + 2) 2 = Some (le_bytes 2 ty)"
    "unat (of_le (le_bytes 2 (of_nat (4 + length d) :: u16)) :: u16) = 4 + length d" "at_off p (a + 4) d"
proof -
  have "at_off p a (le_bytes 2 (of_nat (4 + length d) :: u16))" "at_off p (a + 2) (le_bytes 2 ty)" "at_off p (a + 4) d"
    using assms(1) unfolding nla_def at_append nl_consts by (simp_all add: numeral_eq_Suc)
  then show "rd_bytes p a 2 = Some (le_bytes 2 (of_nat (4 + length d) :: u16))" "rd_bytes p (a + 2) 2 = Some (le_bytes 2 ty)"
      "at_off p (a + 4) d"
    by (simp_all add: rd_bytes_at)
  have "unat (of_nat (4 + length d) :: u16) = 4 + length d" using assms(2) by (intro of_nat_inverse) simp_all
  then show "unat (of_le (le_bytes 2 (of_nat (4 + length d) :: u16)) :: u16) = 4 + length d" unfolding of_le_le_bytes .
qed

lemma nla_find_head:
  assumes "at_off p a (nla ty d)" "length d \<le> 65531" "int (4 + length d) \<le> len"
  shows "nla_find p a len want =
    (if ty AND SG_NLA_TYPE_MASK = want then Some (Some (a + 4, length d))
     else nla_find p (a + length (nla ty d)) (len - int (length (nla ty d))) want)"
proof -
  note h = nla_header [OF assms(1,2)]
  have u: "uint (of_le (le_bytes 2 (of_nat (4 + length d) :: u16)) :: u16) = int (4 + length d)"
    by (metis h(3) uint_nat)
  show ?thesis
    by (subst nla_find.simps) (use assms(3) h(1,2,3) u in \<open>simp add: NLA_HDRLEN_def Let_def of_le_le_bytes(1) [of ty] del: of_nat_add\<close>)
qed

text \<open>The search over a list of encoded attributes finds the first one of the type.\<close>

definition attr_list :: "(u16 \<times> bytes) list \<Rightarrow> bytes" where
  "attr_list as = concat (map (\<lambda>(ty, d). nla ty d) as)"

definition attr_named :: "u16 \<Rightarrow> (u16 \<times> bytes) list \<Rightarrow> bytes option" where
  "attr_named want as = map_option snd (find (\<lambda>(ty, d). ty AND SG_NLA_TYPE_MASK = want) as)"

lemma attr_list_simps [simp]: "attr_list [] = []" "attr_list ((ty, d) # as) = nla ty d @ attr_list as"
  by (simp_all add: attr_list_def)

lemma nla_find_attrs:
  assumes "at_off p a (attr_list as)" "\<forall>(ty, d) \<in> set as. length d \<le> 65531"
  shows "case attr_named want as of
      None \<Rightarrow> nla_find p a (int (length (attr_list as))) want = Some None
    | Some d \<Rightarrow> \<exists>off. nla_find p a (int (length (attr_list as))) want = Some (Some (off, length d)) \<and> at_off p off d"
  using assms
proof (induction as arbitrary: a)
  case Nil
  show ?case by (subst nla_find.simps) (simp add: attr_named_def nl_consts)
next
  case (Cons x as)
  obtain ty d where x: "x = (ty, d)" by fastforce
  have a: "at_off p a (nla ty d)" "at_off p (a + length (nla ty d)) (attr_list as)" using Cons(2) by (simp_all add: x at_append)
  have l: "length d \<le> 65531" "int (4 + length d) \<le> int (length (attr_list (x # as)))"
    using Cons(3) NLA_ALIGN_ge [of "4 + length d"] by (simp_all add: x nl_consts del: NLA_ALIGN_ge)
  show ?case
    using Cons(1) [OF a(2)] Cons(3) nla_find_head [OF a(1) l, of want] nla_header(4) [OF a(1) l(1)]
    by (auto simp: x attr_named_def split: option.splits)
qed

section \<open>Facts on building\<close>

text \<open>
  A buffer under construction is what has been written followed by zeros; the builders append to the
  first part and keep the size.
\<close>

definition building :: "nat \<Rightarrow> bytes \<Rightarrow> bytes \<Rightarrow> bool" where
  "building cap buf w \<longleftrightarrow> length w \<le> cap \<and> buf = w @ replicate (cap - length w) 0"

lemma building_zero: "building cap (replicate cap 0) []"
  by (simp add: building_def)

lemma building_put:
  assumes "building cap buf w" "length w + length bs \<le> cap"
  shows "building cap (put_at buf (length w) bs) (w @ bs)"
  using assms by (simp add: building_def put_at_def)

lemma building_patch:
  assumes "building cap buf (u @ v @ w)" "length bs = length v"
  shows "building cap (put_at buf (length u) bs) (u @ bs @ w)"
  using assms by (simp add: building_def put_at_def)

lemma nla_put_raw_building:
  assumes "building cap buf w" "length w + NLA_ALIGN (4 + length d) \<le> cap"
  shows "\<exists>buf'. nla_put_raw buf (length w) cap ty d = Some (buf', length (w @ nla ty d)) \<and> building cap buf' (w @ nla ty d)"
  using assms building_put [OF assms(1), of "nla ty d"] by (simp add: nla_put_raw_def nl_consts)

text \<open>A nested attribute whose body is already padded.\<close>

lemma nla_aligned: "length d mod 4 = 0 \<Longrightarrow> nla ty d = le_bytes 2 (of_nat (4 + length d) :: u16) @ le_bytes 2 ty @ d"
proof -
  assume "length d mod 4 = 0"
  then have "NLA_ALIGN (4 + length d) = 4 + length d" by (auto simp: NLA_ALIGN_def elim!: dvdE dest!: mod_0_imp_dvd)
  then show ?thesis by (simp add: nla_def nl_consts)
qed

lemma length_nla_mod [simp]: "length (nla ty d) mod 4 = 0"
  by (simp add: NLA_ALIGN_def)

lemma nest_start_building:
  assumes "building cap buf w" "length w + 4 \<le> cap"
  shows "\<exists>buf'. nla_nest_start buf (length w) cap ty = Some (length w, buf', length w + 4) \<and>
    building cap buf' (w @ le_bytes 2 (4 :: u16) @ le_bytes 2 (ty OR SG_NLA_F_NESTED))"
  using assms building_put [OF assms(1), of "le_bytes 2 (4 :: u16) @ le_bytes 2 (ty OR SG_NLA_F_NESTED)"]
  by (simp add: nla_nest_start_def nl_consts)

lemma nest_end_building:
  assumes "building cap buf (w @ le_bytes 2 (4 :: u16) @ le_bytes 2 t @ d)" "length d mod 4 = 0"
  shows "building cap (nla_nest_end buf (length w) (length w + 4 + length d)) (w @ nla t d)"
  using building_patch [of cap buf w "le_bytes 2 (4 :: u16)" "le_bytes 2 t @ d" "le_bytes 2 (of_nat (4 + length d) :: u16)"] assms
  by (simp add: nla_nest_end_def nla_aligned)

lemmas nested_types = SG_NLA_F_NESTED_def SG_NLA_TYPE_MASK_def

end
