(* ===== verification/Sig_Parse.thy ===== *)
theory Sig_Parse
  imports Sig_Build C_String
begin

unbundle bit_operations_syntax

text \<open>
  The rule parser (the first half of \<open>src/src/userspace/ipsd/sig_rule.c\<close>): content decoding, header fields,
  the option loop with its fixed-size buffers, the classification of a line and the loading of a file.
  Strings are character lists; the buffer sizes of the C code are kept as truncations. The
  compiler of regular expressions is the parameter \<open>pcre_compile\<close> (it gets the expression and the flags
  caseless, dotall, multiline); a build without the library is the compiler that always fails.
\<close>

section \<open>Contents\<close>

definition hexval :: "char \<Rightarrow> int" where
  "hexval c =
     (if 48 \<le> code c \<and> code c \<le> 57 then int (code c) - 48
      else if 97 \<le> code c \<and> code c \<le> 102 then int (code c) - 97 + 10
      else if 65 \<le> code c \<and> code c \<le> 70 then int (code c) - 65 + 10
      else -1)"

definition put_byte :: "nat \<Rightarrow> bytes \<Rightarrow> u8 \<Rightarrow> bytes" where
  "put_byte cap out b = (if length out < cap then out @ [b] else out)"

fun decode_content :: "nat \<Rightarrow> bool \<Rightarrow> string \<Rightarrow> bytes \<Rightarrow> bytes option" where
  "decode_content cap hex [] out = (if hex then None else Some out)"
| "decode_content cap hex (c # s) out =
     (if c = CHR ''|'' then decode_content cap (\<not> hex) s out
      else if hex then
        (if is_blank c then decode_content cap hex s out
         else case s of
                [] \<Rightarrow> None
              | d # s' \<Rightarrow>
                  if hexval c < 0 \<or> hexval d < 0 then None
                  else decode_content cap hex s' (put_byte cap out (of_int (hexval c * 16 + hexval d))))
      else if c = CHR 0x5C \<and> s \<noteq> [] then decode_content cap hex (tl s) (put_byte cap out (char_byte (hd s)))
      else decode_content cap hex s (put_byte cap out (char_byte c)))"

section \<open>Header fields\<close>

definition parse_proto :: "string \<Rightarrow> sig_proto" where
  "parse_proto s =
     (if strcaseeq s ''tcp'' then SIG_PROTO_TCP
      else if strcaseeq s ''udp'' then SIG_PROTO_UDP
      else if strcaseeq s ''icmp'' then SIG_PROTO_ICMP
      else SIG_PROTO_ANY)"

definition parse_action :: "string \<Rightarrow> sig_action" where
  "parse_action s =
     (if strcaseeq s ''drop'' \<or> strcaseeq s ''reject'' \<or> strcaseeq s ''sdrop'' then SIG_DROP else SIG_ALERT)"

definition PORT_VARS :: "(string \<times> u16 list) list" where
  "PORT_VARS =
     [(''$HTTP_PORTS'', [80, 8080, 8000, 8008]), (''$HTTPS_PORTS'', [443, 8443]), (''$HTTP_SERVERS'', []),
      (''$SQL_SERVERS'', []), (''$DNS_SERVERS'', [53]), (''$SMTP_SERVERS'', [25, 587, 465]), (''$SSH_PORTS'', [22]),
      (''$FTP_PORTS'', [21, 2121]), (''$ORACLE_PORTS'', [1521]), (''$SHELLCODE_PORTS'', []),
      (''$FILE_DATA_PORTS'', [80, 110, 143])]"

definition port_of :: "string \<Rightarrow> u16 list" where
  "port_of tok = (let v = strtol_value 10 tok in if v > 0 \<and> v < 65536 then [of_int v] else [])"

text \<open>The loop over a bracketed port list: tokens of at most seven characters.\<close>

function port_items :: "string \<Rightarrow> u16 list \<Rightarrow> u16 list" where
  "port_items s0 list =
     (if s0 = [] \<or> hd s0 = CHR '']'' \<or> length list \<ge> SIG_DPORT_MAX then list
      else
        let s = dropWhile (\<lambda>c. c = CHR '' '' \<or> c = CHR '','') s0 in
        if s = [] \<or> hd s = CHR '']'' then list
        else if hd s = CHR ''!'' then port_items (dropWhile (\<lambda>c. c \<noteq> CHR '','' \<and> c \<noteq> CHR '']'') s) list
        else
          let tok = take 7 (takeWhile (\<lambda>c. c \<noteq> CHR '','' \<and> c \<noteq> CHR '']'') s) in
          port_items (drop (length tok) s) (if CHR '':'' \<in> set tok then list else list @ port_of tok))"
  by pat_completeness auto
termination
proof (relation "measure (\<lambda>(s, l). length s)")
  show "wf (measure (\<lambda>(s :: string, l :: u16 list). length s))" by simp
next
  fix s0 :: string and list :: "u16 list" and s
  assume "\<not> (s0 = [] \<or> hd s0 = CHR '']'' \<or> SIG_DPORT_MAX \<le> length list)"
    and s: "s = dropWhile (\<lambda>c. c = CHR '' '' \<or> c = CHR '','') s0"
    and ne: "\<not> (s = [] \<or> hd s = CHR '']'')" and neg: "hd s = CHR ''!''"
  have "length (dropWhile (\<lambda>c. c \<noteq> CHR '','' \<and> c \<noteq> CHR '']'') s) < length s"
    using ne neg by (cases s) (auto simp: le_imp_less_Suc length_dropWhile_le)
  also have "\<dots> \<le> length s0" unfolding s by (rule length_dropWhile_le)
  finally show "((dropWhile (\<lambda>c. c \<noteq> CHR '','' \<and> c \<noteq> CHR '']'') s, list), (s0, list)) \<in> measure (\<lambda>(s, l). length s)"
    by simp
next
  fix s0 :: string and list :: "u16 list" and s tok
  assume "\<not> (s0 = [] \<or> hd s0 = CHR '']'' \<or> SIG_DPORT_MAX \<le> length list)"
    and s: "s = dropWhile (\<lambda>c. c = CHR '' '' \<or> c = CHR '','') s0"
    and ne: "\<not> (s = [] \<or> hd s = CHR '']'')" "hd s \<noteq> CHR ''!''"
    and tok: "tok = take 7 (takeWhile (\<lambda>c. c \<noteq> CHR '','' \<and> c \<noteq> CHR '']'') s)"
  have "hd s \<noteq> CHR '',''" using ne(1) hd_dropWhile [of "\<lambda>c. c = CHR '' '' \<or> c = CHR '',''" s0] unfolding s by auto
  then have "tok \<noteq> []" using ne(1) tok by (cases s) auto
  then have "length (drop (length tok) s) < length s" using ne(1) by (cases s) auto
  also have "\<dots> \<le> length s0" unfolding s by (rule length_dropWhile_le)
  finally show "((drop (length tok) s, if CHR '':'' \<in> set tok then list else list @ port_of tok), (s0, list))
      \<in> measure (\<lambda>(s, l). length s)" by simp
qed

declare port_items.simps [simp del]

definition parse_port_to_list :: "string \<Rightarrow> u16 list" where
  "parse_port_to_list s =
     (if s = [] \<or> hd s = CHR ''!'' \<or> strcaseeq s ''any'' then []
      else if hd s = CHR ''$'' then (case map_of PORT_VARS s of None \<Rightarrow> [] | Some l \<Rightarrow> l)
      else if hd s = CHR ''['' then port_items (tl s) []
      else if CHR '':'' \<in> set s then []
      else if list_all is_digit s then port_of s
      else [])"

definition flag_bit :: "char \<Rightarrow> u8" where
  "flag_bit c =
     (if c = CHR ''F'' \<or> c = CHR ''f'' then 0x01
      else if c = CHR ''S'' \<or> c = CHR ''s'' then 0x02
      else if c = CHR ''R'' \<or> c = CHR ''r'' then 0x04
      else if c = CHR ''P'' \<or> c = CHR ''p'' then 0x08
      else if c = CHR ''A'' \<or> c = CHR ''a'' then 0x10
      else if c = CHR ''U'' \<or> c = CHR ''u'' then 0x20
      else 0)"

definition parse_flags :: "string \<Rightarrow> u8" where
  "parse_flags s = foldl (\<lambda>f c. f OR flag_bit c) 0 s"

section \<open>Option values\<close>

definition SIG_U_PCRE :: u8 where "SIG_U_PCRE = 1"
definition SIG_U_BYTEOP :: u8 where "SIG_U_BYTEOP = 2"
definition SIG_U_DSIZE :: u8 where "SIG_U_DSIZE = 8"
definition SIG_U_HTTPBUF :: u8 where "SIG_U_HTTPBUF = 32"

definition unsup_bit :: "string \<Rightarrow> u8" where
  "unsup_bit key =
     (if key = ''byte_extract'' \<or> key = ''byte_math'' then SIG_U_BYTEOP
      else if key = ''isdataat'' \<or> key = ''urilen'' then SIG_U_DSIZE
      else if take 5 key = ''http_'' then SIG_U_HTTPBUF
      else 0)"

definition parse_uint_field :: "string \<Rightarrow> int \<Rightarrow> int" where
  "parse_uint_field s mx =
     (case strtol 10 s of None \<Rightarrow> -1 | Some (v, _) \<Rightarrow> if v < 0 \<or> v > mx then -1 else v)"

definition parse_int_field :: "string \<Rightarrow> int \<Rightarrow> int \<Rightarrow> int" where
  "parse_int_field s lo hi =
     (case strtol 10 s of
        None \<Rightarrow> 0
      | Some (v, _) \<Rightarrow> let v1 = (if v < lo then lo else v) in if v1 > hi then hi else v1)"

definition parse_dsize :: "string \<Rightarrow> int \<times> int" where
  "parse_dsize s0 =
     (let s = dropWhile is_blank s0 in
      if s \<noteq> [] \<and> hd s = CHR ''>'' then
        (let v = parse_uint_field (tl s) 65535 in (if v \<ge> 0 \<and> v < 65535 then v + 1 else -1, -1))
      else if s \<noteq> [] \<and> hd s = CHR ''<'' then
        (let v = parse_uint_field (tl s) 65535 in (-1, if v > 0 then v - 1 else -1))
      else
        case strstr s ''<>'' of
          Some rng \<Rightarrow>
            (let a = parse_uint_field s 65535; b = parse_uint_field (drop 2 rng) 65535
             in (if a \<ge> 0 then a else -1, if b \<ge> 0 then b else -1))
        | None \<Rightarrow> (let v = parse_uint_field s 65535 in if v \<ge> 0 then (v, v) else (-1, -1)))"

text \<open>Comma-separated tokens of at most 63 characters, blanks trimmed on both sides.\<close>

definition csv_trim :: "string \<Rightarrow> string" where
  "csv_trim t = rev (dropWhile is_blank (rev t))"

fun split_csv :: "nat \<Rightarrow> string \<Rightarrow> string list" where
  "split_csv 0 s = []"
| "split_csv (Suc n) s0 =
     (if s0 = [] then []
      else
        let s = dropWhile is_blank s0;
            t = take 63 (takeWhile (\<lambda>c. c \<noteq> CHR '','') s);
            r = drop (length t) s
        in csv_trim t # split_csv n (if r \<noteq> [] \<and> hd r = CHR '','' then tl r else r))"

definition byteop_zero :: sig_byteop where
  "byteop_zero =
     \<lparr>bo_kind = SIG_BYTE_TEST, bo_nbytes = 0, bo_relative = False, bo_little = False, bo_negate = False,
      bo_oper = CHR 0x00, bo_value = 0, bo_offset = 0, bo_multiplier = 0, bo_post_offset = 0, bo_after_content = 0\<rparr>"

fun byte_test_opts :: "string list \<Rightarrow> sig_byteop \<Rightarrow> sig_byteop option" where
  "byte_test_opts [] b = Some b"
| "byte_test_opts (t # ts) b =
     (if t = ''relative'' then byte_test_opts ts (b\<lparr>bo_relative := True\<rparr>)
      else if t = ''little'' then byte_test_opts ts (b\<lparr>bo_little := True\<rparr>)
      else if t = ''big'' \<or> t = [] then byte_test_opts ts b
      else None)"

definition parse_byte_test :: "string \<Rightarrow> nat \<Rightarrow> sig_byteop option" where
  "parse_byte_test val after =
     (let tok = split_csv 12 val in
      if length tok < 4 then None
      else
        let n = (of_int (atoi (tok ! 0)) :: u8) in
        if n < 1 \<or> n > 8 then None
        else
          let neg = (tok ! 1 \<noteq> [] \<and> hd (tok ! 1) = CHR ''!'');
              oper = (if neg then tl (tok ! 1) else tok ! 1)
          in if oper = [] \<or> hd oper \<notin> set ''<>=&|'' then None
             else byte_test_opts (drop 4 tok)
                    (byteop_zero\<lparr>bo_kind := SIG_BYTE_TEST, bo_after_content := after, bo_multiplier := 1,
                       bo_nbytes := n, bo_negate := neg, bo_oper := hd oper,
                       bo_value := cast_i32 (strtol_value 0 (tok ! 2)),
                       bo_offset := cast_i32 (strtol_value 0 (tok ! 3))\<rparr>))"

text \<open>The number behind the first space of a token, if there is a space.\<close>

definition after_space :: "string \<Rightarrow> int option" where
  "after_space t = map_option (\<lambda>i. atoi (drop (Suc i) t)) (strchr t (CHR '' ''))"

fun byte_jump_opts :: "string list \<Rightarrow> sig_byteop \<Rightarrow> sig_byteop option" where
  "byte_jump_opts [] b = Some b"
| "byte_jump_opts (t # ts) b =
     (if t = ''relative'' then byte_jump_opts ts (b\<lparr>bo_relative := True\<rparr>)
      else if t = ''little'' then byte_jump_opts ts (b\<lparr>bo_little := True\<rparr>)
      else if t = ''big'' \<or> t = [] then byte_jump_opts ts b
      else if take 10 t = ''multiplier'' then
        byte_jump_opts ts (case after_space t of None \<Rightarrow> b | Some v \<Rightarrow> b\<lparr>bo_multiplier := v\<rparr>)
      else if take 11 t = ''post_offset'' then
        byte_jump_opts ts (case after_space t of None \<Rightarrow> b | Some v \<Rightarrow> b\<lparr>bo_post_offset := v\<rparr>)
      else None)"

definition parse_byte_jump :: "string \<Rightarrow> nat \<Rightarrow> sig_byteop option" where
  "parse_byte_jump val after =
     (let tok = split_csv 12 val in
      if length tok < 2 then None
      else
        let n = (of_int (atoi (tok ! 0)) :: u8) in
        if n < 1 \<or> n > 8 then None
        else byte_jump_opts (drop 2 tok)
               (byteop_zero\<lparr>bo_kind := SIG_BYTE_JUMP, bo_after_content := after, bo_multiplier := 1,
                  bo_nbytes := n, bo_offset := cast_i32 (strtol_value 0 (tok ! 1))\<rparr>))"

section \<open>Flowbits and regular expressions\<close>

text \<open>The flag table of the ruleset: names and "ever set" marks.\<close>

definition flowbit_intern :: "'p sig_ruleset \<Rightarrow> string \<Rightarrow> 'p sig_ruleset \<times> nat option" where
  "flowbit_intern rs name =
     (if name \<in> set (rs_fb_names rs)
      then (rs, Some (length (takeWhile (\<lambda>n. n \<noteq> name) (rs_fb_names rs))))
      else if length (rs_fb_names rs) \<ge> SIG_MAX_FLOWBITS then (rs, None)
      else (rs\<lparr>rs_fb_names := rs_fb_names rs @ [take (SIG_FB_NAME_MAX - 1) name],
               rs_fb_ever_set := rs_fb_ever_set rs @ [False]\<rparr>, Some (length (rs_fb_names rs))))"

definition fb_op_of :: "string \<Rightarrow> sig_fb_op option" where
  "fb_op_of t =
     (if t = ''isset'' then Some SIG_FB_ISSET
      else if t = ''isnotset'' then Some SIG_FB_ISNOTSET
      else if t = ''set'' then Some SIG_FB_SET
      else if t = ''unset'' then Some SIG_FB_UNSET
      else if t = ''toggle'' then Some SIG_FB_TOGGLE
      else None)"

definition parse_flowbits ::
  "'p sig_ruleset \<Rightarrow> 'p sig_rule \<Rightarrow> string \<Rightarrow> 'p sig_ruleset \<times> 'p sig_rule" where
  "parse_flowbits rs r val =
     (let tok = split_csv 3 val in
      if tok = [] then (rs, r)
      else if tok ! 0 = ''noalert'' then (rs, r\<lparr>r_fb_noalert := True\<rparr>)
      else if length tok < 2 then (rs, r)
      else case fb_op_of (tok ! 0) of
             None \<Rightarrow> (rs, r)
           | Some op' \<Rightarrow>
               (case flowbit_intern rs (tok ! 1) of
                  (rs', None) \<Rightarrow> (rs', r)
                | (rs', Some i) \<Rightarrow>
                    if length (r_flowbits r) \<ge> SIG_MAX_FB_RULE then (rs', r)
                    else (rs', r\<lparr>r_flowbits := r_flowbits r @ [\<lparr>fb_op = op', fb_flag_id = i\<rparr>]\<rparr>)))"

definition cap_alert :: "u8 \<Rightarrow> 'p sig_rule \<Rightarrow> 'p sig_rule" where
  "cap_alert b r = r\<lparr>r_has_unsup := r_has_unsup r OR b, r_fidelity := SIG_FID_ALERT\<rparr>"

text \<open>The flag letters behind the closing slash.\<close>

record pcre_opts =
  po_caseless :: bool
  po_dotall :: bool
  po_multiline :: bool
  po_relative :: bool
  po_buffer :: sig_buf

definition pcre_flag :: "char \<Rightarrow> pcre_opts \<Rightarrow> pcre_opts" where
  "pcre_flag f o' =
     (if f = CHR ''i'' then o'\<lparr>po_caseless := True\<rparr>
      else if f = CHR ''s'' then o'\<lparr>po_dotall := True\<rparr>
      else if f = CHR ''m'' then o'\<lparr>po_multiline := True\<rparr>
      else if f = CHR ''R'' then o'\<lparr>po_relative := True\<rparr>
      else if f = CHR ''U'' \<or> f = CHR ''I'' then o'\<lparr>po_buffer := SIG_BUF_HTTP_URI\<rparr>
      else if f = CHR ''H'' then o'\<lparr>po_buffer := SIG_BUF_HTTP_HEADER\<rparr>
      else if f = CHR ''P'' then o'\<lparr>po_buffer := SIG_BUF_HTTP_BODY\<rparr>
      else o')"

definition pcre_flags :: "string \<Rightarrow> pcre_opts" where
  "pcre_flags fs =
     fold pcre_flag (takeWhile (\<lambda>c. c \<noteq> CHR 0x22) fs)
       \<lparr>po_caseless = False, po_dotall = False, po_multiline = False, po_relative = False, po_buffer = SIG_BUF_RAW\<rparr>"

type_synonym 'p pcre_compile = "string \<Rightarrow> bool \<times> bool \<times> bool \<Rightarrow> 'p option"

definition parse_pcre :: "'p pcre_compile \<Rightarrow> 'p sig_rule \<Rightarrow> string \<Rightarrow> 'p sig_rule" where
  "parse_pcre pcre_compile r val =
     (let s0 = dropWhile is_blank val;
          s1 = (if s0 \<noteq> [] \<and> hd s0 = CHR 0x22 then tl s0 else s0)
      in if s1 = [] \<or> hd s1 \<noteq> CHR ''/'' then cap_alert SIG_U_PCRE r
         else
           let s = tl s1 in
           case strrchr s (CHR ''/'') of
             None \<Rightarrow> cap_alert SIG_U_PCRE r
           | Some plen \<Rightarrow>
               if plen = 0 \<or> plen \<ge> 2048 then cap_alert SIG_U_PCRE r
               else
                 let o' = pcre_flags (drop (Suc plen) s) in
                 case pcre_compile (take plen s) (po_caseless o', po_dotall o', po_multiline o') of
                   None \<Rightarrow> cap_alert SIG_U_PCRE r
                 | Some code' \<Rightarrow>
                     r\<lparr>r_pcre := Some code', r_pcre_relative := po_relative o', r_pcre_buffer := po_buffer o'\<rparr>)"

section \<open>The option loop\<close>

text \<open>A keyword of at most 23 characters, blanks dropped.\<close>

fun read_key :: "string \<Rightarrow> string \<Rightarrow> string \<times> string" where
  "read_key [] key = (key, [])"
| "read_key (c # p) key =
     (if c = CHR '':'' \<or> c = CHR '';'' \<or> length key \<ge> 23 then (key, c # p)
      else if is_blank c then read_key p key
      else read_key p (key @ [c]))"

definition VAL_MAX :: nat where "VAL_MAX = SIG_CONTENT_MAX + 64 - 1"

definition put_char :: "string \<Rightarrow> char \<Rightarrow> string" where
  "put_char val c = (if length val < VAL_MAX then val @ [c] else val)"

fun read_quoted :: "string \<Rightarrow> string \<Rightarrow> string \<times> string" where
  "read_quoted [] val = (val, [])"
| "read_quoted (c # p) val =
     (if c = CHR 0x22 then (val, p)
      else if c = CHR 0x5C \<and> p \<noteq> [] then read_quoted (tl p) (put_char (put_char val c) (hd p))
      else read_quoted p (put_char val c))"

definition read_value :: "string \<Rightarrow> string \<times> string" where
  "read_value p =
     (if p = [] \<or> hd p \<noteq> CHR '':'' then ([], p)
      else
        let q = dropWhile is_blank (tl p) in
        if q \<noteq> [] \<and> hd q = CHR 0x22 then read_quoted (tl q) []
        else (take VAL_MAX (takeWhile (\<lambda>c. c \<noteq> CHR '';'') q), dropWhile (\<lambda>c. c \<noteq> CHR '';'') q))"

text \<open>Changing the most recent content, and one flag of the \<open>flow\<close> keyword.\<close>

definition on_cur :: "nat option \<Rightarrow> (sig_content \<Rightarrow> sig_content) \<Rightarrow> 'p sig_rule \<Rightarrow> 'p sig_rule" where
  "on_cur cur f r =
     (case cur of None \<Rightarrow> r | Some i \<Rightarrow> r\<lparr>r_content := (r_content r)[i := f (r_content r ! i)]\<rparr>)"

definition flow_flag :: "string \<Rightarrow> u8" where
  "flow_flag t =
     (if t = ''established'' then SIG_FLOW_ESTABLISHED
      else if t = ''to_server'' \<or> t = ''from_client'' then SIG_FLOW_TO_SERVER
      else if t = ''to_client'' \<or> t = ''from_server'' then SIG_FLOW_TO_CLIENT
      else 0)"

definition add_content :: "string \<Rightarrow> nat option \<Rightarrow> 'p sig_rule \<Rightarrow> nat option \<times> 'p sig_rule" where
  "add_content val cur r =
     (if length (r_content r) < SIG_MAX_CONTENT then
        (case decode_content SIG_CONTENT_MAX False val [] of
           None \<Rightarrow> (cur, r)
         | Some bs \<Rightarrow>
             if bs = [] then (cur, r)
             else (Some (length (r_content r)),
                   r\<lparr>r_content := r_content r @
                       [\<lparr>c_data = bs, c_nocase = False, c_offset = -1, c_depth = -1, c_distance = -1,
                         c_within = -1, c_relative = False, c_buffer = SIG_BUF_RAW\<rparr>]\<rparr>))
      else (cur, r))"

definition add_byteop :: "sig_byteop option \<Rightarrow> 'p sig_rule \<Rightarrow> 'p sig_rule" where
  "add_byteop b r =
     (case (if length (r_byteop r) < SIG_MAX_BYTEOP then b else None) of
        Some opn \<Rightarrow> r\<lparr>r_byteop := r_byteop r @ [opn]\<rparr>
      | None \<Rightarrow> cap_alert SIG_U_BYTEOP r)"

text \<open>The dispatch on a keyword that only changes the rule and its current content.\<close>

definition rule_option :: "'p pcre_compile \<Rightarrow> string \<Rightarrow> string \<Rightarrow> nat option \<Rightarrow> 'p sig_rule \<Rightarrow> 'p sig_rule" where
  "rule_option pcre_compile key val cur r =
     (if key = ''nocase'' then on_cur cur (\<lambda>c. c\<lparr>c_nocase := True\<rparr>) r
      else if key = ''offset'' then on_cur cur (\<lambda>c. c\<lparr>c_offset := parse_uint_field val 65535\<rparr>) r
      else if key = ''depth'' then on_cur cur (\<lambda>c. c\<lparr>c_depth := parse_uint_field val 65535\<rparr>) r
      else if key = ''sgprof'' then r\<lparr>r_prof_mask := r_prof_mask r OR strtoul_u32 0 val\<rparr>
      else if key = ''http_uri'' \<or> key = ''http_raw_uri'' then on_cur cur (\<lambda>c. c\<lparr>c_buffer := SIG_BUF_HTTP_URI\<rparr>) r
      else if key = ''http_header'' \<or> key = ''http_raw_header'' then on_cur cur (\<lambda>c. c\<lparr>c_buffer := SIG_BUF_HTTP_HEADER\<rparr>) r
      else if key = ''http_method'' then on_cur cur (\<lambda>c. c\<lparr>c_buffer := SIG_BUF_HTTP_METHOD\<rparr>) r
      else if key = ''http_client_body'' then on_cur cur (\<lambda>c. c\<lparr>c_buffer := SIG_BUF_HTTP_BODY\<rparr>) r
      else if key = ''tls_sni'' \<or> key = ''tls.sni'' then on_cur cur (\<lambda>c. c\<lparr>c_buffer := SIG_BUF_TLS_SNI\<rparr>) r
      else if key = ''distance'' then
        on_cur cur (\<lambda>c. c\<lparr>c_distance := parse_int_field val (-65535) 65535, c_relative := True\<rparr>) r
      else if key = ''within'' then
        on_cur cur (\<lambda>c. (let v = parse_uint_field val 65535
                          in (if v \<ge> 0 then c\<lparr>c_within := v\<rparr> else c)\<lparr>c_relative := True\<rparr>)) r
      else if key = ''dsize'' then r\<lparr>r_dsize_min := fst (parse_dsize val), r_dsize_max := snd (parse_dsize val)\<rparr>
      else if key = ''pcre'' then parse_pcre pcre_compile r val
      else if key = ''flow'' then
        r\<lparr>r_flow_flags := foldl (\<lambda>f t. f OR flow_flag t) (r_flow_flags r) (split_csv 8 val)\<rparr>
      else if key = ''byte_test'' then add_byteop (parse_byte_test val (length (r_content r))) r
      else if key = ''byte_jump'' then add_byteop (parse_byte_jump val (length (r_content r))) r
      else if key = ''flags'' then r\<lparr>r_flags_set := parse_flags val\<rparr>
      else if key = ''sid'' then r\<lparr>r_sid := strtoul_u32 10 val\<rparr>
      else if key = ''rev'' then r\<lparr>r_rev := strtoul_u32 10 val\<rparr>
      else if key = ''msg'' then r\<lparr>r_msg := take (SIG_MSG_MAX - 1) val\<rparr>
      else if unsup_bit key \<noteq> 0 then cap_alert (unsup_bit key) r
      else r)"

definition dispatch_option ::
  "'p pcre_compile \<Rightarrow> string \<Rightarrow> string \<Rightarrow> 'p sig_ruleset \<times> 'p sig_rule \<times> nat option \<Rightarrow>
   'p sig_ruleset \<times> 'p sig_rule \<times> nat option" where
  "dispatch_option pcre_compile key val st =
     (case st of (rs, r, cur) \<Rightarrow>
        if key = ''content'' then (let (cur', r') = add_content val cur r in (rs, r', cur'))
        else if key = ''flowbits'' then (let (rs', r') = parse_flowbits rs r val in (rs', r', cur))
        else (rs, rule_option pcre_compile key val cur r, cur))"

lemma read_key_length: "length (snd (read_key p key)) \<le> length p"
  by (induction p key rule: read_key.induct) auto

lemma read_key_progress:
  assumes "p \<noteq> []" "hd p \<noteq> CHR '':''" "hd p \<noteq> CHR '';''"
  shows "length (snd (read_key p [])) < length p"
  using assms read_key_length by (cases p) (auto simp: le_imp_less_Suc)

lemma read_quoted_length: "length (snd (read_quoted p val)) \<le> length p"
proof (induction p val rule: read_quoted.induct)
  case (2 c p val)
  have "length (snd (read_quoted p v)) \<le> length p \<Longrightarrow> length (snd (read_quoted p v)) \<le> Suc (length p)" for v by simp
  moreover have "length (tl p) \<le> Suc (length p)" by simp
  ultimately show ?case using 2 by (auto intro: order_trans)
qed simp

lemma read_value_length:
  "length (snd (read_value p)) \<le> length p"
  "p \<noteq> [] \<Longrightarrow> hd p = CHR '':'' \<Longrightarrow> length (snd (read_value p)) < length p"
proof -
  define q where "q = dropWhile is_blank (tl p)"
  have q: "length q \<le> length p - 1" unfolding q_def using length_dropWhile_le [of is_blank "tl p"] by simp
  have "length (snd (read_quoted (tl q) [])) \<le> length q" using read_quoted_length [of "tl q" "[]"] by simp
  moreover have "length (dropWhile (\<lambda>c. c \<noteq> CHR '';'') q) \<le> length q" by (rule length_dropWhile_le)
  ultimately have v: "length (snd (read_value p)) \<le> length q" if "p \<noteq> []" "hd p = CHR '':''"
    using that by (simp add: read_value_def Let_def q_def)
  then show "p \<noteq> [] \<Longrightarrow> hd p = CHR '':'' \<Longrightarrow> length (snd (read_value p)) < length p"
    using q by (cases p) fastforce+
  then show "length (snd (read_value p)) \<le> length p"
    by (cases "p \<noteq> [] \<and> hd p = CHR '':''") (auto simp: read_value_def)
qed

function parse_options ::
  "'p pcre_compile \<Rightarrow> string \<Rightarrow> 'p sig_ruleset \<times> 'p sig_rule \<times> nat option \<Rightarrow>
   'p sig_ruleset \<times> 'p sig_rule \<times> nat option" where
  "parse_options pcre_compile p st =
     (let q = dropWhile (\<lambda>c. is_blank c \<or> c = CHR '';'') p in
      if q = [] then st
      else
        let kp = read_key q []; vp = read_value (snd kp)
        in parse_options pcre_compile (snd vp) (dispatch_option pcre_compile (fst kp) (fst vp) st))"
  by pat_completeness auto
termination
proof (relation "measure (\<lambda>(pc, p, st). length p)")
  show "wf (measure (\<lambda>(pc :: 'p pcre_compile, p :: string, st :: 'p sig_ruleset \<times> 'p sig_rule \<times> nat option). length p))"
    by simp
next
  fix pc :: "'p pcre_compile" and p :: string and st :: "'p sig_ruleset \<times> 'p sig_rule \<times> nat option" and q kp vp
  assume q: "q = dropWhile (\<lambda>c. is_blank c \<or> c = CHR '';'') p" "q \<noteq> []"
    and kp: "kp = read_key q []" and vp: "vp = read_value (snd kp)"
  have semi: "hd q \<noteq> CHR '';''" using q hd_dropWhile [of "\<lambda>c. is_blank c \<or> c = CHR '';''" p] by auto
  have "length (snd vp) < length q"
  proof (cases "hd q = CHR '':''")
    case True
    then have "snd kp = q" using q(2) kp by (cases q) auto
    then show ?thesis using read_value_length(2) [of q] q(2) True vp by simp
  next
    case False
    then show ?thesis
      using read_key_progress [OF q(2) False semi] read_value_length(1) [of "snd kp"] kp vp by simp
  qed
  also have "\<dots> \<le> length p" unfolding q(1) by (rule length_dropWhile_le)
  finally show "((pc, snd vp, dispatch_option pc (fst kp) (fst vp) st), pc, p, st) \<in> measure (\<lambda>(pc, p, st). length p)"
    by simp
qed

declare parse_options.simps [simp del]

section \<open>One line\<close>

datatype sig_line = SIG_LINE_FULL | SIG_LINE_BLANK | SIG_LINE_ERROR | SIG_LINE_ALERT | SIG_LINE_SKIP_UNSUP
  | SIG_LINE_SKIP_REP | SIG_LINE_SKIP_NOCONTENT | SIG_LINE_SKIP_NOSID

text \<open>The longest content, the first one of equals.\<close>

definition pick_fast :: "sig_content list \<Rightarrow> nat" where
  "pick_fast cs =
     foldl (\<lambda>f i. if length (c_data (cs ! i)) > length (c_data (cs ! f)) then i else f) 0 [1..<length cs]"

definition trust_flag :: "bool list \<Rightarrow> sig_flowbit \<Rightarrow> bool list" where
  "trust_flag es b = (if fb_op b \<in> {SIG_FB_SET, SIG_FB_TOGGLE} then es[fb_flag_id b := True] else es)"

text \<open>What happens to a rule once its options are parsed.\<close>

definition commit_rule :: "'p sig_ruleset \<Rightarrow> 'p sig_rule \<Rightarrow> sig_line \<times> 'p sig_ruleset" where
  "commit_rule rs r =
     (if r_content r = [] then
        (if r_proto r = SIG_PROTO_ANY \<and> r_dport_list r = [] \<and> r_flags_set r = 0
         then SIG_LINE_SKIP_REP else SIG_LINE_SKIP_NOCONTENT, rs)
      else if r_sid r = 0 then (SIG_LINE_SKIP_NOSID, rs)
      else if r_has_unsup r \<noteq> 0 \<and> length (r_content r) = 1 \<and> length (c_data (r_content r ! 0)) \<le> 2
      then (SIG_LINE_SKIP_UNSUP, rs)
      else
        let r' = r\<lparr>r_fast := Some (pick_fast (r_content r)), r_base_action := r_action r\<rparr>
        in (if r_fidelity r = SIG_FID_ALERT then SIG_LINE_ALERT else SIG_LINE_FULL,
            rs\<lparr>rs_fb_ever_set := foldl trust_flag (rs_fb_ever_set rs) (r_flowbits r),
               rs_rules := rs_rules rs @ [r']\<rparr>))"

definition sig_parse_line :: "'p pcre_compile \<Rightarrow> 'p sig_ruleset \<Rightarrow> string \<Rightarrow> sig_line \<times> 'p sig_ruleset" where
  "sig_parse_line pcre_compile rs line =
     (let q = dropWhile is_blank line in
      if q = [] \<or> hd q = CHR ''#'' \<or> hd q = CHR 0x0A then (SIG_LINE_BLANK, rs)
      else
        let buf = take 16383 q in
        case (strchr buf (CHR ''(''), strrchr buf (CHR '')'')) of
          (Some lp, Some rp) \<Rightarrow>
            if rp < lp then (SIG_LINE_ERROR, rs)
            else
              let ws = scan_words [15, 15, 63, 39, 7, 63, 39] (take lp buf) in
              if length ws \<noteq> 7 then (SIG_LINE_ERROR, rs)
              else
                let r = ruleset_new\<lparr>r_action := parse_action (ws ! 0), r_proto := parse_proto (ws ! 1),
                          r_dport_list := parse_port_to_list (ws ! 6)\<rparr>;
                    (rs', r', _) = parse_options pcre_compile (drop (Suc lp) (take rp buf)) (rs, r, None)
                in commit_rule rs' r'
        | _ \<Rightarrow> (SIG_LINE_ERROR, rs))"

section \<open>A file\<close>

record sig_load_stats =
  st_loaded :: nat
  st_skipped :: nat
  st_errors :: nat
  st_loaded_full :: nat
  st_loaded_alert :: nat
  st_skipped_unsupported :: nat
  st_skipped_reputation :: nat
  st_skipped_no_content :: nat
  st_skipped_no_sid :: nat

definition stats_zero :: sig_load_stats where
  "stats_zero = \<lparr>st_loaded = 0, st_skipped = 0, st_errors = 0, st_loaded_full = 0, st_loaded_alert = 0,
     st_skipped_unsupported = 0, st_skipped_reputation = 0, st_skipped_no_content = 0, st_skipped_no_sid = 0\<rparr>"

fun tally_line :: "sig_line \<Rightarrow> sig_load_stats \<times> nat \<Rightarrow> sig_load_stats \<times> nat" where
  "tally_line SIG_LINE_FULL (s, added) = (s\<lparr>st_loaded := Suc (st_loaded s), st_loaded_full := Suc (st_loaded_full s)\<rparr>, Suc added)"
| "tally_line SIG_LINE_ALERT (s, added) = (s\<lparr>st_loaded := Suc (st_loaded s), st_loaded_alert := Suc (st_loaded_alert s)\<rparr>, Suc added)"
| "tally_line SIG_LINE_BLANK (s, added) = (s\<lparr>st_skipped := Suc (st_skipped s)\<rparr>, added)"
| "tally_line SIG_LINE_SKIP_UNSUP (s, added) =
     (s\<lparr>st_skipped := Suc (st_skipped s), st_skipped_unsupported := Suc (st_skipped_unsupported s)\<rparr>, added)"
| "tally_line SIG_LINE_SKIP_REP (s, added) =
     (s\<lparr>st_skipped := Suc (st_skipped s), st_skipped_reputation := Suc (st_skipped_reputation s)\<rparr>, added)"
| "tally_line SIG_LINE_SKIP_NOCONTENT (s, added) =
     (s\<lparr>st_skipped := Suc (st_skipped s), st_skipped_no_content := Suc (st_skipped_no_content s)\<rparr>, added)"
| "tally_line SIG_LINE_SKIP_NOSID (s, added) =
     (s\<lparr>st_skipped := Suc (st_skipped s), st_skipped_no_sid := Suc (st_skipped_no_sid s)\<rparr>, added)"
| "tally_line SIG_LINE_ERROR (s, added) = (s\<lparr>st_errors := Suc (st_errors s)\<rparr>, added)"

text \<open>One logical line, then the loop over \<open>fgets\<close> chunks with the accumulated text.\<close>

definition load_line ::
  "'p pcre_compile \<Rightarrow> string \<Rightarrow> 'p sig_ruleset \<times> sig_load_stats \<times> nat \<Rightarrow> 'p sig_ruleset \<times> sig_load_stats \<times> nat" where
  "load_line pcre_compile acc st =
     (let (rc, rs') = sig_parse_line pcre_compile (fst st) acc in (rs', tally_line rc (snd st)))"

definition strip_eol :: "string \<Rightarrow> string" where
  "strip_eol ln = rev (dropWhile (\<lambda>c. c = CHR 0x0A \<or> c = CHR 0x0D) (rev ln))"

function load_loop ::
  "'p pcre_compile \<Rightarrow> string \<Rightarrow> string \<Rightarrow> 'p sig_ruleset \<times> sig_load_stats \<times> nat \<Rightarrow>
   'p sig_ruleset \<times> sig_load_stats \<times> nat" where
  "load_loop pcre_compile file acc st =
     (if file = [] then (if acc \<noteq> [] then load_line pcre_compile acc st else st)
      else
        let ln = fst (fgets 8191 file);
            had_nl = (ln \<noteq> [] \<and> last ln = CHR 0x0A);
            l0 = strip_eol ln;
            backslash = (l0 \<noteq> [] \<and> last l0 = CHR 0x5C);
            l = (if backslash then butlast l0 else l0);
            acc' = (if length acc + length l < 16384 then acc @ l else acc)
        in if \<not> had_nl \<or> backslash then load_loop pcre_compile (snd (fgets 8191 file)) acc' st
           else load_loop pcre_compile (snd (fgets 8191 file)) [] (load_line pcre_compile acc' st))"
  by pat_completeness auto
termination
  by (relation "measure (\<lambda>(pc, file, acc, st). length file)") (auto simp: fgets_progress)

declare load_loop.simps [simp del]

text \<open>\<open>sig_load_file\<close>; \<open>None\<close> is a file that cannot be opened.\<close>

definition sig_load_file ::
  "'p pcre_compile \<Rightarrow> 'p sig_ruleset \<Rightarrow> string option \<Rightarrow> ('p sig_ruleset \<times> sig_load_stats \<times> nat) option" where
  "sig_load_file pcre_compile rs file =
     map_option (\<lambda>f. load_loop pcre_compile f [] (rs, stats_zero, 0)) file"

end
