(* ===== verification/Ips_Engine.thy ===== *)
theory Ips_Engine
  imports Complex_Main Proto_Buf Sig_Parse
begin

unbundle bit_operations_syntax

text \<open>
  Fusion of the detection sources into a verdict (\<open>src/src/userspace/ipsd/fusion.c\<close>), the evaluation
  pipeline (\<open>engine.c\<close>) and the flow-statistics rules (\<open>flow_rule.c\<close>). A score is a \<open>real\<close> (the model only
  compares it; NaN does not occur), a verdict is ordered by severity as the C enumeration is.
\<close>

section \<open>Fusion\<close>

datatype ips_verdict = IPS_PASS | IPS_ALERT | IPS_DROP
datatype ips_mode = IPS_MODE_DETECT | IPS_MODE_PREVENT
datatype ips_reason = IPS_R_NONE | IPS_R_SIGNATURE | IPS_R_ML_BLOCK | IPS_R_ML_ALERT | IPS_R_FLOW_ANOMALY

fun severity :: "ips_verdict \<Rightarrow> nat" where
  "severity IPS_PASS = 0"
| "severity IPS_ALERT = 1"
| "severity IPS_DROP = 2"

instantiation ips_verdict :: linorder
begin

definition less_eq_ips_verdict :: "ips_verdict \<Rightarrow> ips_verdict \<Rightarrow> bool" where
  "less_eq_ips_verdict a b \<longleftrightarrow> severity a \<le> severity b"

definition less_ips_verdict :: "ips_verdict \<Rightarrow> ips_verdict \<Rightarrow> bool" where
  "less_ips_verdict a b \<longleftrightarrow> severity a < severity b"

instance
proof
  fix x y z :: ips_verdict
  show "x < y \<longleftrightarrow> x \<le> y \<and> \<not> y \<le> x" by (auto simp: less_ips_verdict_def less_eq_ips_verdict_def)
  show "x \<le> x" by (simp add: less_eq_ips_verdict_def)
  show "x \<le> y \<Longrightarrow> y \<le> z \<Longrightarrow> x \<le> z" by (simp add: less_eq_ips_verdict_def)
  show "x \<le> y \<Longrightarrow> y \<le> x \<Longrightarrow> x = y" by (cases x; cases y) (simp_all add: less_eq_ips_verdict_def)
  show "x \<le> y \<or> y \<le> x" by (auto simp: less_eq_ips_verdict_def)
qed

end

record ips_config =
  cfg_mode :: ips_mode
  cfg_thr_block :: real
  cfg_thr_alert :: real

record ips_decision =
  d_verdict :: ips_verdict
  d_reason :: ips_reason
  d_sig_rule :: "nat option"
  d_score :: real
  d_ml_evaluated :: bool
  d_matched_sid :: u32
  d_matched_msg :: string

definition ips_config_default :: ips_config where
  "ips_config_default = \<lparr>cfg_mode = IPS_MODE_PREVENT, cfg_thr_block = 0.95, cfg_thr_alert = 0.7\<rparr>"

definition sig_severity :: "nat option \<Rightarrow> sig_action \<Rightarrow> ips_verdict" where
  "sig_severity sig_idx sig_action =
     (if sig_idx = None then IPS_PASS else if sig_action = SIG_DROP then IPS_DROP else IPS_ALERT)"

definition ml_severity :: "ips_config \<Rightarrow> real \<Rightarrow> ips_verdict" where
  "ml_severity cfg score =
     (if score \<ge> cfg_thr_block cfg then IPS_DROP else if score \<ge> cfg_thr_alert cfg then IPS_ALERT else IPS_PASS)"

definition ips_fuse :: "ips_config \<Rightarrow> nat option \<Rightarrow> sig_action \<Rightarrow> real \<Rightarrow> ips_decision" where
  "ips_fuse cfg sig_idx sig_action score =
     (let sig_v = sig_severity sig_idx sig_action;
          ml_v = ml_severity cfg score;
          final = (if sig_v > ml_v then sig_v else ml_v);
          reason = (if final = IPS_PASS then IPS_R_NONE
                    else if sig_v \<ge> ml_v \<and> sig_idx \<noteq> None then IPS_R_SIGNATURE
                    else if final = IPS_DROP then IPS_R_ML_BLOCK else IPS_R_ML_ALERT);
          final' = (if cfg_mode cfg = IPS_MODE_DETECT \<and> final = IPS_DROP then IPS_ALERT else final)
      in \<lparr>d_verdict = final', d_reason = reason, d_sig_rule = sig_idx, d_score = score, d_ml_evaluated = False,
          d_matched_sid = 0, d_matched_msg = []\<rparr>)"

fun ips_verdict_str :: "ips_verdict \<Rightarrow> string" where
  "ips_verdict_str IPS_PASS = ''PASS''"
| "ips_verdict_str IPS_ALERT = ''ALERT''"
| "ips_verdict_str IPS_DROP = ''DROP''"

fun ips_reason_str :: "ips_reason \<Rightarrow> string" where
  "ips_reason_str IPS_R_NONE = ''none''"
| "ips_reason_str IPS_R_SIGNATURE = ''signature''"
| "ips_reason_str IPS_R_ML_BLOCK = ''ml-block''"
| "ips_reason_str IPS_R_ML_ALERT = ''ml-alert''"
| "ips_reason_str IPS_R_FLOW_ANOMALY = ''flow-anomaly''"

section \<open>The pipeline\<close>

text \<open>\<open>render_content\<close> with an output buffer of \<open>outsz\<close> bytes.\<close>

definition render_byte :: "u8 \<Rightarrow> string" where
  "render_byte b =
     (if b \<ge> 0x20 \<and> b < 0x7f \<and> b \<noteq> 0x22 \<and> b \<noteq> 0x5C \<and> b \<noteq> 0x7C then [char_of (unat b)]
      else ''|'' @ hex2 b @ ''|'')"

fun render_loop :: "bytes \<Rightarrow> nat \<Rightarrow> string \<Rightarrow> string" where
  "render_loop [] outsz out = out"
| "render_loop (b # bs) outsz out =
     (if length out + 5 < outsz then render_loop bs outsz (out @ render_byte b) else out)"

definition render_content :: "bytes \<Rightarrow> nat \<Rightarrow> string" where
  "render_content bs outsz = (if outsz = 0 then [] else render_loop bs outsz [])"

definition matched_text :: "nat \<Rightarrow> 'p sig_rule \<Rightarrow> string" where
  "matched_text sig_idx r =
     take 127 (if r_msg r \<noteq> [] then r_msg r
               else ''no-msg rule#'' @ dec_digits sig_idx @ '' content='' @ [CHR 0x22] @
                      render_content (c_data (r_content r ! the (r_fast r))) 72 @ [CHR 0x22])"

text \<open>
  \<open>ips_evaluate_full\<close>: \<open>l2\<close> is the result computed on the stream (\<open>l2_ready = 1\<close>: index and capped action),
  or \<open>None\<close> to match the payload here. The outer option is a read outside the payload.
\<close>

definition ips_evaluate_full ::
  "'p pcre_match \<Rightarrow> ips_config \<Rightarrow> 'p sig_ruleset \<Rightarrow> bytes \<Rightarrow> flow_ctx \<Rightarrow> (nat option \<times> sig_action) option \<Rightarrow>
   ips_decision option" where
  "ips_evaluate_full pcre_match cfg rs payload fc l2 =
     map_option (\<lambda>(sig_idx, action).
       case sig_idx of
         Some i \<Rightarrow>
           (ips_fuse cfg (Some i) action (-1))\<lparr>d_score := -1, d_ml_evaluated := False,
              d_matched_sid := r_sid (rs_rules rs ! i), d_matched_msg := matched_text i (rs_rules rs ! i)\<rparr>
       | None \<Rightarrow> (ips_fuse cfg None SIG_ALERT (-1))\<lparr>d_ml_evaluated := False\<rparr>)
     (case l2 of
        Some r \<Rightarrow> Some r
      | None \<Rightarrow>
          map_option (\<lambda>m. (m, case m of None \<Rightarrow> SIG_ALERT | Some i \<Rightarrow> capped_action (rs_rules rs ! i) (fc_prof_id fc)))
            (sig_match pcre_match rs payload fc))"

definition ips_evaluate ::
  "'p pcre_match \<Rightarrow> ips_config \<Rightarrow> 'p sig_ruleset \<Rightarrow> bytes \<Rightarrow> flow_ctx \<Rightarrow> ips_decision option" where
  "ips_evaluate pcre_match cfg rs payload fc = ips_evaluate_full pcre_match cfg rs payload fc None"

section \<open>Flow statistics\<close>

record flow_stats =
  fs_syn_count :: u32
  fs_ack_count :: u32
  fs_psh_count :: u32
  fs_urg_count :: u32
  fs_pkts_fwd :: u32
  fs_pkts_bwd :: u32
  fs_tcp_flags_fwd :: u16
  fs_tcp_flags_bwd :: u16

record flow_rule_match =
  fm_sid :: u32
  fm_msg :: string
  fm_action :: sig_action

definition BIN_SID_BASE :: u32 where "BIN_SID_BASE = 1000000"
definition SYN_FLOOD_MIN_SYN :: u32 where "SYN_FLOOD_MIN_SYN = 10"
definition SYN_FLOOD_RATIO :: u32 where "SYN_FLOOD_RATIO = 10"
definition PORT_SCAN_MAX_PKTS :: u32 where "PORT_SCAN_MAX_PKTS = 3"
definition URG_FLOOD_MIN :: u32 where "URG_FLOOD_MIN = 20"
definition ACK_FLOOD_MIN_ACK :: u32 where "ACK_FLOOD_MIN_ACK = 50"

definition KNOWN_BAD_PORTS :: "u16 list" where
  "KNOWN_BAD_PORTS = [4444, 31337, 1337, 6667, 6666, 9001, 9050, 1080]"

definition is_known_bad_port :: "u16 \<Rightarrow> bool" where
  "is_known_bad_port dport \<longleftrightarrow> dport \<in> set KNOWN_BAD_PORTS"

definition flag_map :: "(u8 \<times> char) list" where
  "flag_map = [(0x01, CHR ''F''), (0x02, CHR ''S''), (0x04, CHR ''R''), (0x08, CHR ''P''), (0x10, CHR ''A''), (0x20, CHR ''U'')]"

definition flow_rule_flags_str :: "u8 \<Rightarrow> nat \<Rightarrow> string" where
  "flow_rule_flags_str flags n =
     foldl (\<lambda>buf (b, ch). if flags AND b \<noteq> 0 \<and> length buf + 1 < n then buf @ [ch] else buf) [] flag_map"

abbreviation dec32 :: "u32 \<Rightarrow> string" where
  "dec32 w \<equiv> dec_digits (unat w)"

definition bin_match :: "u32 \<Rightarrow> sig_action \<Rightarrow> string \<Rightarrow> flow_rule_match" where
  "bin_match n a msg = \<lparr>fm_sid = BIN_SID_BASE + n, fm_msg = take (SIG_MSG_MAX - 1) msg, fm_action = a\<rparr>"

definition syn_flood :: "flow_ctx \<Rightarrow> flow_stats \<Rightarrow> bool" where
  "syn_flood fc fs \<longleftrightarrow> fc_proto fc = SIG_PROTO_TCP \<and> fs_syn_count fs \<ge> SYN_FLOOD_MIN_SYN \<and>
     fs_syn_count fs > SYN_FLOOD_RATIO * fs_ack_count fs"

definition port_scan :: "flow_ctx \<Rightarrow> flow_stats \<Rightarrow> bool" where
  "port_scan fc fs \<longleftrightarrow>
     (let pkts_total = fs_pkts_fwd fs + fs_pkts_bwd fs
      in fc_proto fc = SIG_PROTO_TCP \<and> pkts_total > 0 \<and> pkts_total \<le> PORT_SCAN_MAX_PKTS \<and> fs_syn_count fs \<ge> 1 \<and>
         fs_ack_count fs = 0)"

definition urg_flood :: "flow_ctx \<Rightarrow> flow_stats \<Rightarrow> bool" where
  "urg_flood fc fs \<longleftrightarrow> fc_proto fc = SIG_PROTO_TCP \<and> fs_urg_count fs \<ge> URG_FLOOD_MIN"

definition bad_port :: "flow_ctx \<Rightarrow> bool" where
  "bad_port fc \<longleftrightarrow> (fc_proto fc = SIG_PROTO_TCP \<or> fc_proto fc = SIG_PROTO_UDP) \<and> is_known_bad_port (fc_dport fc)"

definition ack_flood :: "flow_ctx \<Rightarrow> flow_stats \<Rightarrow> bool" where
  "ack_flood fc fs \<longleftrightarrow> fc_proto fc = SIG_PROTO_TCP \<and> fs_ack_count fs \<ge> ACK_FLOOD_MIN_ACK \<and> fs_syn_count fs = 0"

text \<open>The options are the \<open>NULL\<close> pointers the function rejects.\<close>

definition flow_rule_match_builtin :: "flow_ctx option \<Rightarrow> flow_stats option \<Rightarrow> flow_rule_match option" where
  "flow_rule_match_builtin fco fso =
     (case (fco, fso) of
        (Some fc, Some fs) \<Rightarrow>
          if syn_flood fc fs then
            Some (bin_match 1 SIG_DROP
              (''SYN flood: syn='' @ dec32 (fs_syn_count fs) @ '' ack='' @ dec32 (fs_ack_count fs) @ '' (ratio '' @
               dec32 (if fs_ack_count fs \<noteq> 0 then fs_syn_count fs div fs_ack_count fs else fs_syn_count fs) @ '':1 > '' @
               dec32 SYN_FLOOD_RATIO @ '':1)''))
          else if port_scan fc fs then
            Some (bin_match 2 SIG_DROP
              (''Port scan: '' @ dec32 (fs_pkts_fwd fs + fs_pkts_bwd fs) @ '' pkts, syn='' @ dec32 (fs_syn_count fs) @
               '' ack=0 (incomplete handshake)''))
          else if urg_flood fc fs then
            Some (bin_match 3 SIG_DROP
              (''URG flood: urg_count='' @ dec32 (fs_urg_count fs) @ '' >= '' @ dec32 URG_FLOOD_MIN))
          else if bad_port fc then
            Some (bin_match 4 SIG_ALERT
              (''Known-bad port: dport='' @ dec_digits (unat (fc_dport fc)) @ '' (malware/backdoor/C2)''))
          else if ack_flood fc fs then
            Some (bin_match 5 SIG_ALERT (''ACK flood (reflection): ack='' @ dec32 (fs_ack_count fs) @ '' syn=0''))
          else None
      | _ \<Rightarrow> None)"

section \<open>Properties of the fusion\<close>

lemmas verdict_order = less_ips_verdict_def less_eq_ips_verdict_def max_def

definition mode_cap :: "ips_mode \<Rightarrow> ips_verdict \<Rightarrow> ips_verdict" where
  "mode_cap m v = (if m = IPS_MODE_DETECT then min v IPS_ALERT else v)"

lemma ips_fuse_verdict: "d_verdict (ips_fuse cfg i a s) = mode_cap (cfg_mode cfg) (max (sig_severity i a) (ml_severity cfg s))"
  by (cases "sig_severity i a"; cases "ml_severity cfg s")
    (auto simp: ips_fuse_def Let_def mode_cap_def min_def verdict_order)

lemma sig_severity_mono: "a \<le> b \<Longrightarrow> sig_severity (Some i) a \<le> sig_severity (Some j) b"
  by (auto simp: sig_severity_def less_eq_sig_action_def less_eq_ips_verdict_def)

text \<open>
  Decision fusion: the verdict is the more severe of what the signature and the score propose,
  capped at alert in detect mode, so nothing is ever dropped there; it only grows with the score and
  with the action of the signature; and a verdict other than pass always carries a reason, the
  signature whenever the signature is at least as severe as the score.
\<close>

theorem ips_fuse_spec:
  "d_verdict (ips_fuse cfg i a s) = mode_cap (cfg_mode cfg) (max (sig_severity i a) (ml_severity cfg s)) \<and>
   (cfg_mode cfg = IPS_MODE_DETECT \<longrightarrow> d_verdict (ips_fuse cfg i a s) \<noteq> IPS_DROP) \<and>
   (s \<le> s' \<and> a \<le> a' \<longrightarrow> d_verdict (ips_fuse cfg i a s) \<le> d_verdict (ips_fuse cfg i a' s')) \<and>
   (d_reason (ips_fuse cfg i a s) = IPS_R_NONE \<longleftrightarrow> d_verdict (ips_fuse cfg i a s) = IPS_PASS) \<and>
   (d_reason (ips_fuse cfg i a s) = IPS_R_SIGNATURE \<longleftrightarrow> i \<noteq> None \<and> sig_severity i a \<ge> ml_severity cfg s)"
proof -
  have m: "ml_severity cfg s \<le> ml_severity cfg s'" if "s \<le> s'"
    using that by (auto simp: ml_severity_def less_eq_ips_verdict_def)
  have g: "sig_severity i a \<le> sig_severity i a'" if "a \<le> a'"
    using that sig_severity_mono by (cases i) (auto simp: sig_severity_def)
  have mono: "mode_cap md v \<le> mode_cap md w" if "v \<le> w" for md v w
    using that by (auto simp: mode_cap_def min.coboundedI1)
  have mx: "max (sig_severity i a) (ml_severity cfg s) \<le> max (sig_severity i a') (ml_severity cfg s')" if "s \<le> s'" "a \<le> a'"
    using m g that by (intro max.mono)
  have det: "d_verdict (ips_fuse cfg i a s) \<noteq> IPS_DROP" if "cfg_mode cfg = IPS_MODE_DETECT"
    using that unfolding ips_fuse_verdict mode_cap_def
    by (cases "max (sig_severity i a) (ml_severity cfg s)") (auto simp: min_def less_eq_ips_verdict_def)
  have none: "d_reason (ips_fuse cfg i a s) = IPS_R_NONE \<longleftrightarrow> d_verdict (ips_fuse cfg i a s) = IPS_PASS"
    by (cases "sig_severity i a"; cases "ml_severity cfg s") (auto simp: ips_fuse_def Let_def verdict_order)
  have sg: "d_reason (ips_fuse cfg i a s) = IPS_R_SIGNATURE \<longleftrightarrow> i \<noteq> None \<and> sig_severity i a \<ge> ml_severity cfg s"
    by (cases i; cases a; cases "ml_severity cfg s") (auto simp: ips_fuse_def Let_def verdict_order sig_severity_def)
  show ?thesis using ips_fuse_verdict mono [OF mx] det none sg by (auto simp: ips_fuse_verdict)
qed

theorem ips_fuse_spec_witness:
  "d_verdict (ips_fuse ips_config_default None SIG_ALERT 0.5) \<le> d_verdict (ips_fuse ips_config_default None SIG_DROP 0.8)"
proof -
  have "(0.5 :: real) \<le> 0.8 \<and> SIG_ALERT \<le> SIG_DROP" by (simp add: less_eq_sig_action_def)
  then show ?thesis using ips_fuse_spec by blast
qed

section \<open>Properties of the pipeline\<close>

text \<open>The verdict the rules of a set demand for a payload.\<close>

definition demanded :: "'p pcre_match \<Rightarrow> 'p sig_ruleset \<Rightarrow> bytes \<Rightarrow> flow_ctx \<Rightarrow> ips_verdict" where
  "demanded pm rs p fc =
     (if \<exists>i. fires pm rs p fc i \<and> action_of rs fc i = SIG_DROP then IPS_DROP
      else if \<exists>i. fires pm rs p fc i then IPS_ALERT else IPS_PASS)"

lemma action_top: "SIG_DROP \<le> b \<Longrightarrow> b = SIG_DROP"
  by (cases b) (auto simp: less_eq_sig_action_def)

lemma evaluate_verdict:
  assumes "cfg_thr_block cfg > -1" "cfg_thr_alert cfg > -1" and "sig_match pm rs p fc = Some b"
    and "case b of None \<Rightarrow> \<forall>i. \<not> fires pm rs p fc i
       | Some i \<Rightarrow> fires pm rs p fc i \<and> (\<forall>j. fires pm rs p fc j \<longrightarrow> action_of rs fc j \<le> action_of rs fc i)"
  shows "\<exists>d. ips_evaluate pm cfg rs p fc = Some d \<and> d_verdict d = mode_cap (cfg_mode cfg) (demanded pm rs p fc)"
proof -
  have ml: "ml_severity cfg (-1) = IPS_PASS" using assms(1,2) by (simp add: ml_severity_def)
  have mx: "max v IPS_PASS = v" for v by (cases v) (simp_all add: verdict_order)
  show ?thesis
  proof (cases b)
    case None
    then show ?thesis
      using assms(3,4) by (auto simp: ips_evaluate_def ips_evaluate_full_def ips_fuse_verdict sig_severity_def ml mx demanded_def)
  next
    case (Some i)
    then have f: "fires pm rs p fc i" "\<And>j. fires pm rs p fc j \<Longrightarrow> action_of rs fc j \<le> action_of rs fc i"
      using assms(4) by auto
    have top: "action_of rs fc i = SIG_DROP" if "fires pm rs p fc j" "action_of rs fc j = SIG_DROP" for j
      using f(2) [OF that(1)] that(2) by (simp add: action_top)
    have d: "demanded pm rs p fc = sig_severity (Some i) (action_of rs fc i)"
      using f(1) top by (auto simp: demanded_def sig_severity_def)
    show ?thesis
      using assms(3) by (simp add: ips_evaluate_def ips_evaluate_full_def Some ips_fuse_verdict ml mx d action_of_def)
  qed
qed


lemma plain_pair_wf:
  assumes "a \<noteq> []" "b \<noteq> []" "map (ac_norm True) a \<noteq> map (ac_norm True) b"
  shows "rules_wf (plain_rs [plain_rule 1 x a, plain_rule 2 y b])"
    "fast_distinct (rs_rules (plain_rs [plain_rule 1 x a, plain_rule 2 y b]))"
    "\<forall>r \<in> set (rs_rules (plain_rs [plain_rule 1 x a, plain_rule 2 y b])). rule_safe r"
  using assms by (auto simp: rules_wf_def plain_rs_def sig_ruleset_init_def plain_rule_wf fast_distinct_def less_2_cases_iff)


section \<open>Rendering a content\<close>

lemma hexval_digit: "d < 16 \<Longrightarrow> hexval (hex_digit d) = int d"
proof -
  assume "d < 16"
  then have "d \<in> set [0..<16]" by simp
  then show ?thesis by (auto simp: hexval_def hex_digit_def code_def upt_rec numeral_eq_Suc)
qed

lemma unat8_less: "unat (b :: u8) < 256"
  using unsigned_less [of b, where 'a = nat] by simp

lemma char_of_unat: "code (char_of (unat b)) = unat (b :: u8)" "char_byte (char_of (unat b)) = b"
  using unat8_less [of b] by (simp_all add: code_def char_byte_def)

lemma decode_plain:
  assumes "length out < cap" "b \<noteq> 0x5C" "b \<noteq> 0x7C"
  shows "decode_content cap False (char_of (unat b) # s) out = decode_content cap False s (out @ [b])"
proof -
  have "char_byte (char_of (unat b)) \<noteq> char_byte (CHR ''|'')" "char_byte (char_of (unat b)) \<noteq> char_byte (CHR 0x5C)"
    using assms(2,3) unfolding char_of_unat by (simp_all add: char_byte_def code_def)
  then have "char_of (unat b) \<noteq> CHR ''|''" "char_of (unat b) \<noteq> CHR 0x5C" by auto
  then show ?thesis using assms(1) by (simp add: put_byte_def char_of_unat)
qed

lemma hex_digit_plain: "d < 16 \<Longrightarrow> hex_digit d \<noteq> CHR ''|'' \<and> \<not> is_blank (hex_digit d)"
proof -
  assume "d < 16"
  then have "d \<in> set [0..<16]" by simp
  then show ?thesis by (auto simp: is_blank_def hex_digit_def code_def upt_rec numeral_eq_Suc)
qed

lemma decode_hex:
  assumes "length out < cap"
  shows "decode_content cap False (''|'' @ hex2 b @ ''|'' @ s) out = decode_content cap False s (out @ [b])"
proof -
  have r: "unat b div 16 < 16" "unat b mod 16 < 16" using unat8_less [of b] by auto
  have "int (unat b div 16) * 16 + int (unat b mod 16) = int (unat b)" by (metis div_mult_mod_eq of_nat_add of_nat_mult of_nat_numeral)
  then have "of_int (int (unat b div 16) * 16 + int (unat b mod 16)) = b" by simp
  then show ?thesis
    using assms hexval_digit [OF r(1)] hexval_digit [OF r(2)] hex_digit_plain [OF r(1)] hex_digit_plain [OF r(2)]
    by (simp add: hex2_def put_byte_def)
qed

lemma decode_render_byte:
  "length out < cap \<Longrightarrow> decode_content cap False (render_byte b @ s) out = decode_content cap False s (out @ [b])"
  using decode_plain [of out cap b s] decode_hex [of out cap b s] by (auto simp: render_byte_def)

lemma render_byte_length: "length (render_byte b) \<le> 4"
  by (simp add: render_byte_def hex2_def)

lemma render_loop_concat:
  "length out + 4 * length bs + 1 < outsz \<Longrightarrow> render_loop bs outsz out = out @ concat (map render_byte bs)"
proof (induction bs arbitrary: out)
  case (Cons b bs)
  then show ?case using render_byte_length [of b] by simp
qed simp

lemma decode_render: "length out + length bs \<le> cap \<Longrightarrow> decode_content cap False (concat (map render_byte bs)) out = Some (out @ bs)"
  by (induction bs arbitrary: out) (simp_all add: decode_render_byte)

text \<open>
  The description of a content in an alert is faithful: whenever the content fits the buffer, parsing
  the rendered text as a rule content gives back exactly its bytes.
\<close>

theorem render_content_roundtrip:
  assumes "4 * length bs + 1 < outsz" "length bs \<le> SIG_CONTENT_MAX"
  shows "decode_content SIG_CONTENT_MAX False (render_content bs outsz) [] = Some bs"
  using assms render_loop_concat [of "[]" bs outsz] decode_render [of "[]" bs SIG_CONTENT_MAX]
  by (simp add: render_content_def)

theorem render_content_roundtrip_witness:
  "decode_content SIG_CONTENT_MAX False (render_content [65, 0, 124, 34, 92] 72) [] = Some [65, 0, 124, 34, 92]"
  by (rule render_content_roundtrip) (simp_all add: SIG_CONTENT_MAX_def)

section \<open>Properties of the flow rules\<close>

text \<open>
  The flow rules answer by priority: drop exactly if one of the three drop conditions holds, alert
  exactly if none of them but a known-bad port or an ACK flood does, nothing otherwise; the sid is in
  the range of the built-in rules and the message fits its buffer.
\<close>

theorem flow_rule_builtin_spec:
  "map_option fm_action (flow_rule_match_builtin (Some fc) (Some fs)) =
     (if syn_flood fc fs \<or> port_scan fc fs \<or> urg_flood fc fs then Some SIG_DROP
      else if bad_port fc \<or> ack_flood fc fs then Some SIG_ALERT else None) \<and>
   (\<forall>m. flow_rule_match_builtin (Some fc) (Some fs) = Some m \<longrightarrow>
      BIN_SID_BASE < fm_sid m \<and> fm_sid m \<le> BIN_SID_BASE + 5 \<and> length (fm_msg m) < SIG_MSG_MAX)"
  by (auto simp: flow_rule_match_builtin_def bin_match_def BIN_SID_BASE_def SIG_MSG_MAX_def word_less_nat_alt word_le_nat_alt
      split: if_splits)

definition urg_stats :: flow_stats where
  "urg_stats = \<lparr>fs_syn_count = 0, fs_ack_count = 60, fs_psh_count = 0, fs_urg_count = 20, fs_pkts_fwd = 9,
    fs_pkts_bwd = 0, fs_tcp_flags_fwd = 0, fs_tcp_flags_bwd = 0\<rparr>"

theorem flow_rule_builtin_spec_witness:
  "map_option fm_action (flow_rule_match_builtin (Some plain_fc) (Some urg_stats)) = Some SIG_DROP"
  using flow_rule_builtin_spec [of plain_fc urg_stats] by (simp add: urg_flood_def plain_fc_def urg_stats_def URG_FLOOD_MIN_def)

text \<open>
  The SYN-flood ratio is computed in 32 bits: with 429496730 acknowledgements the product wraps to 4,
  and a flow with ten SYN packets and a vast majority of acknowledgements is reported as a SYN flood.
\<close>

theorem syn_flood_ratio_wraps:
  "\<exists>fc fs. syn_flood fc fs \<and> fs_syn_count fs = 10 \<and> unat (fs_ack_count fs) = 429496730"
proof -
  let ?fs = "\<lparr>fs_syn_count = 10, fs_ack_count = 429496730, fs_psh_count = 0, fs_urg_count = 0, fs_pkts_fwd = 0,
    fs_pkts_bwd = 0, fs_tcp_flags_fwd = 0, fs_tcp_flags_bwd = 0\<rparr>"
  have "syn_flood plain_fc ?fs" by (simp add: syn_flood_def plain_fc_def SYN_FLOOD_MIN_SYN_def SYN_FLOOD_RATIO_def)
  then show ?thesis by (intro exI [of _ plain_fc] exI [of _ ?fs]) simp
qed

end
