(* ===== verification/Ctdump.thy ===== *)
theory Ctdump
  imports Netlink Ips_Engine
begin

unbundle bit_operations_syntax

text \<open>
  Connection tracking and the feature vector (\<open>src/src/userspace/ipsd/ctdump.c\<close>, \<open>feature.c\<close>,
  \<open>ml_eval.c\<close>): the lookup request, the reader of the reply, the walk over a dump, and the seventeen numbers
  the model is asked about. The socket is the caller's: a reader takes the bytes of a datagram, and a read
  outside it is the result \<open>None\<close>. The kernel's accumulator block is copied byte by byte into a structure,
  which is read in its 64-bit little-endian layout. A C \<open>double\<close> is a real number. The model itself
  (\<open>model/predict.c\<close>, generated) is the parameter \<open>ips_score\<close>.
\<close>

section \<open>Data\<close>

definition SG_NFNL_SUBSYS_CTNETLINK :: u16 where "SG_NFNL_SUBSYS_CTNETLINK = 1"
definition SG_IPCTNL_MSG_CT_GET :: u16 where "SG_IPCTNL_MSG_CT_GET = 1"
definition SG_CTA_TUPLE_ORIG :: u16 where "SG_CTA_TUPLE_ORIG = 1"
definition SG_CTA_TUPLE_IP :: u16 where "SG_CTA_TUPLE_IP = 1"
definition SG_CTA_IP_V4_SRC :: u16 where "SG_CTA_IP_V4_SRC = 1"
definition SG_CTA_IP_V4_DST :: u16 where "SG_CTA_IP_V4_DST = 2"
definition SG_CTA_TUPLE_PROTO :: u16 where "SG_CTA_TUPLE_PROTO = 2"
definition SG_CTA_PROTO_NUM :: u16 where "SG_CTA_PROTO_NUM = 1"
definition SG_CTA_PROTO_SRC_PORT :: u16 where "SG_CTA_PROTO_SRC_PORT = 2"
definition SG_CTA_PROTO_DST_PORT :: u16 where "SG_CTA_PROTO_DST_PORT = 3"
definition SG_CTA_COUNTERS_ORIG :: u16 where "SG_CTA_COUNTERS_ORIG = 9"
definition SG_CTA_COUNTERS_REPLY :: u16 where "SG_CTA_COUNTERS_REPLY = 10"
definition SG_CTA_COUNTERS_PKTS :: u16 where "SG_CTA_COUNTERS_PKTS = 1"
definition SG_CTA_ML :: u16 where "SG_CTA_ML = 27"
definition CT_MARK_ATTR :: u16 where "CT_MARK_ATTR = 8"

record sg_nf_conn_ml =
  ml_first_ns :: u64
  ml_last_ns :: u64
  ml_iat_sum_us :: u64
  ml_iat_count :: u32
  ml_tcp_flags :: "u16 \<times> u16"
  ml_flow_iat_sq_sum :: u64
  ml_fwd_iat_sum :: u64
  ml_fwd_iat_sq_sum :: u64
  ml_pktlen_sum :: u64
  ml_pktlen_sq_sum :: u64
  ml_bytes_fwd :: u64
  ml_bytes_bwd :: u64
  ml_flow_iat_min :: u32
  ml_fwd_iat_count :: u32
  ml_syn_count :: u32
  ml_ack_count :: u32
  ml_psh_count :: u32
  ml_urg_count :: u32
  ml_pktlen_count :: u32
  ml_bwd_pktlen_sq_sum :: u64
  ml_init_win_fwd :: u32

text \<open>The structure of 160 bytes that \<open>memcpy\<close> fills; a shorter block leaves the rest zero.\<close>

definition ml_of_bytes :: "bytes \<Rightarrow> sg_nf_conn_ml" where
  "ml_of_bytes bs =
     (let b = take 160 bs @ replicate (160 - length bs) 0; f = (\<lambda>off n. take n (drop off b)) in
      \<lparr>ml_first_ns = of_le (f 0 8), ml_last_ns = of_le (f 8 8), ml_iat_sum_us = of_le (f 16 8), ml_iat_count = of_le (f 24 4),
       ml_tcp_flags = (of_le (f 28 2), of_le (f 30 2)), ml_flow_iat_sq_sum = of_le (f 48 8),
       ml_fwd_iat_sum = of_le (f 64 8), ml_fwd_iat_sq_sum = of_le (f 72 8), ml_pktlen_sum = of_le (f 80 8),
       ml_pktlen_sq_sum = of_le (f 88 8), ml_bytes_fwd = of_le (f 96 8), ml_bytes_bwd = of_le (f 104 8),
       ml_flow_iat_min = of_le (f 112 4), ml_fwd_iat_count = of_le (f 116 4), ml_syn_count = of_le (f 120 4),
       ml_ack_count = of_le (f 124 4), ml_psh_count = of_le (f 128 4), ml_urg_count = of_le (f 132 4),
       ml_pktlen_count = of_le (f 136 4), ml_bwd_pktlen_sq_sum = of_le (f 144 8), ml_init_win_fwd = of_le (f 152 4)\<rparr>)"

record ctdump_result =
  ct_ml :: sg_nf_conn_ml
  ct_ml_valid :: bool
  ct_pkts_orig :: u64
  ct_pkts_reply :: u64
  ct_acct_valid :: bool
  ct_mark :: u32
  ct_mark_valid :: bool

definition ct_zero :: ctdump_result where
  "ct_zero = \<lparr>ct_ml = ml_of_bytes [], ct_ml_valid = False, ct_pkts_orig = 0, ct_pkts_reply = 0, ct_acct_valid = False,
     ct_mark = 0, ct_mark_valid = False\<rparr>"

record ctdump_flow =
  cf_src_ip :: u32
  cf_dst_ip :: u32
  cf_sport :: u16
  cf_dport :: u16
  cf_proto :: u8
  cf_res :: ctdump_result

definition cf_zero :: ctdump_flow where
  "cf_zero = \<lparr>cf_src_ip = 0, cf_dst_ip = 0, cf_sport = 0, cf_dport = 0, cf_proto = 0, cf_res = ct_zero\<rparr>"

section \<open>Reading a reply\<close>

text \<open>The packet counter inside a counters nest.\<close>

definition counter_pkts :: "bytes \<Rightarrow> nat \<Rightarrow> int \<Rightarrow> u16 \<Rightarrow> u64 option option" where
  "counter_pkts p a alen nest = do {
     co \<leftarrow> nla_find p a alen nest;
     (case co of
        None \<Rightarrow> Some None
      | Some (off, n) \<Rightarrow> do {
          pv \<leftarrow> nla_find p off (int n) SG_CTA_COUNTERS_PKTS;
          (case pv of
             Some (o2, l) \<Rightarrow> if l = 8 then map_option (\<lambda>v. Some (of_be v)) (rd_bytes p o2 8) else Some None
           | None \<Rightarrow> Some None)
        })
   }"

definition read_ml :: "bytes \<Rightarrow> nat \<Rightarrow> int \<Rightarrow> ctdump_result \<Rightarrow> ctdump_result option" where
  "read_ml p a alen out = do {
     ml \<leftarrow> nla_find p a alen SG_CTA_ML;
     (case ml of
        Some (off, n) \<Rightarrow>
          if n > 0 then do {
            bs \<leftarrow> rd_bytes p off (if n < 160 then n else 160);
            Some (out\<lparr>ct_ml := ml_of_bytes bs, ct_ml_valid := True\<rparr>)
          } else Some out
      | None \<Rightarrow> Some out)
   }"

definition read_mark :: "bytes \<Rightarrow> nat \<Rightarrow> int \<Rightarrow> ctdump_result \<Rightarrow> ctdump_result option" where
  "read_mark p a alen out = do {
     mk \<leftarrow> nla_find p a alen CT_MARK_ATTR;
     (case mk of
        Some (off, n) \<Rightarrow>
          if n = 4 then do {
            v \<leftarrow> rd_bytes p off 4;
            Some (out\<lparr>ct_mark := of_be v, ct_mark_valid := True\<rparr>)
          } else Some out
      | None \<Rightarrow> Some out)
   }"

text \<open>\<open>Some None\<close> is the return value -1, with \<open>out\<close> untouched.\<close>

definition ctdump_parse_response :: "bytes \<Rightarrow> nat \<Rightarrow> int \<Rightarrow> ctdump_result option option" where
  "ctdump_parse_response p a alen =
     (if alen \<le> 0 then Some None
      else do {
        r1 \<leftarrow> read_ml p a alen ct_zero;
        co \<leftarrow> counter_pkts p a alen SG_CTA_COUNTERS_ORIG;
        let r2 = (case co of Some v \<Rightarrow> r1\<lparr>ct_pkts_orig := v, ct_acct_valid := True\<rparr> | None \<Rightarrow> r1);
        cr \<leftarrow> counter_pkts p a alen SG_CTA_COUNTERS_REPLY;
        let r3 = (case cr of Some v \<Rightarrow> r2\<lparr>ct_pkts_reply := v\<rparr> | None \<Rightarrow> r2);
        r4 \<leftarrow> read_mark p a alen r3;
        Some (Some r4)
      })"

section \<open>The lookup\<close>

text \<open>The body of the protocol nest.\<close>

definition put_proto :: "bytes \<Rightarrow> nat \<Rightarrow> nat \<Rightarrow> u16 \<Rightarrow> u16 \<Rightarrow> u8 \<Rightarrow> (bytes \<times> nat) option" where
  "put_proto buf off cap sport dport proto = do {
     (buf, off) \<leftarrow> nla_put_raw buf off cap SG_CTA_PROTO_NUM [proto];
     if proto = 6 \<or> proto = 17 then do {
       (buf, off) \<leftarrow> nla_put_raw buf off cap SG_CTA_PROTO_SRC_PORT (be_bytes 2 sport);
       nla_put_raw buf off cap SG_CTA_PROTO_DST_PORT (be_bytes 2 dport)
     } else Some (buf, off)
   }"

definition build_ct_get :: "nat \<Rightarrow> u32 \<Rightarrow> u32 \<Rightarrow> u16 \<Rightarrow> u16 \<Rightarrow> u8 \<Rightarrow> bytes option" where
  "build_ct_get cap src_ip dst_ip sport dport proto =
     (let off = NLMSG_HDRLEN + NFGEN_LEN in
      if off > cap then None
      else do {
        (tuple, buf, off) \<leftarrow> nla_nest_start (replicate cap 0) off cap SG_CTA_TUPLE_ORIG;
        (ip_nest, buf, off) \<leftarrow> nla_nest_start buf off cap SG_CTA_TUPLE_IP;
        (buf, off) \<leftarrow> nla_put_raw buf off cap SG_CTA_IP_V4_SRC (be_bytes 4 src_ip);
        (buf, off) \<leftarrow> nla_put_raw buf off cap SG_CTA_IP_V4_DST (be_bytes 4 dst_ip);
        let buf = nla_nest_end buf ip_nest off;
        (pr_nest, buf, off) \<leftarrow> nla_nest_start buf off cap SG_CTA_TUPLE_PROTO;
        (buf, off) \<leftarrow> put_proto buf off cap sport dport proto;
        let buf = nla_nest_end buf pr_nest off;
        let buf = nla_nest_end buf tuple off;
        Some (take off (put_at buf 0
          (nl_header (NLA_ALIGN off) (push_bit 8 SG_NFNL_SUBSYS_CTNETLINK OR SG_IPCTNL_MSG_CT_GET) NLM_F_REQUEST 1 2 0)))
      })"

text \<open>The walk over the reply; \<open>Inr None\<close> is the return value -1 and \<open>Inl ()\<close> the end of the loop.\<close>

definition query_msg :: "bytes \<Rightarrow> nat \<Rightarrow> nat \<Rightarrow> unit \<Rightarrow> (unit + ctdump_result option) option" where
  "query_msg p nh ml _ = do {
     ty \<leftarrow> nlmsg_type p nh;
     if ty = NLMSG_ERROR then Some (Inr None)
     else if ty = NLMSG_DONE then Some (Inr None)
     else
       let (a, alen) = attrs_of nh ml in
       if alen > 0 then map_option Inr (ctdump_parse_response p a alen) else Some (Inl ())
   }"

text \<open>\<open>ctdump_query\<close> on the datagram the kernel answered with (\<open>None\<close>: no answer).\<close>

definition ctdump_query :: "bytes option \<Rightarrow> ctdump_result option option" where
  "ctdump_query reply =
     (case reply of
        None \<Rightarrow> Some None
      | Some p \<Rightarrow>
          if p = [] then Some None
          else map_option (case_sum (\<lambda>_. None) (\<lambda>r. r)) (nlmsg_walk (query_msg p) p 0 (int (length p)) ()))"

section \<open>The dump\<close>

definition copy_field :: "bytes \<Rightarrow> (nat \<times> nat) option \<Rightarrow> nat \<Rightarrow> (bytes \<Rightarrow> ctdump_flow \<Rightarrow> ctdump_flow) \<Rightarrow> ctdump_flow \<Rightarrow> ctdump_flow option" where
  "copy_field p found n upd f =
     (case found of None \<Rightarrow> Some f | Some (off, _) \<Rightarrow> map_option (\<lambda>v. upd v f) (rd_bytes p off n))"

definition parse_tuple :: "bytes \<Rightarrow> nat \<Rightarrow> int \<Rightarrow> ctdump_flow \<Rightarrow> (int \<times> ctdump_flow) option" where
  "parse_tuple p a alen f = do {
     tp \<leftarrow> nla_find p a alen SG_CTA_TUPLE_ORIG;
     (case tp of
        None \<Rightarrow> Some (-1, f)
      | Some (t, tlen) \<Rightarrow> do {
          ip \<leftarrow> nla_find p t (int tlen) SG_CTA_TUPLE_IP;
          f \<leftarrow> (case ip of
                  None \<Rightarrow> Some f
                | Some (i, il) \<Rightarrow> do {
                    s \<leftarrow> nla_find p i (int il) SG_CTA_IP_V4_SRC;
                    d \<leftarrow> nla_find p i (int il) SG_CTA_IP_V4_DST;
                    f \<leftarrow> copy_field p s 4 (\<lambda>v f. f\<lparr>cf_src_ip := of_be v\<rparr>) f;
                    copy_field p d 4 (\<lambda>v f. f\<lparr>cf_dst_ip := of_be v\<rparr>) f
                  });
          pr \<leftarrow> nla_find p t (int tlen) SG_CTA_TUPLE_PROTO;
          f \<leftarrow> (case pr of
                  None \<Rightarrow> Some f
                | Some (r, pl) \<Rightarrow> do {
                    pn \<leftarrow> nla_find p r (int pl) SG_CTA_PROTO_NUM;
                    sp \<leftarrow> nla_find p r (int pl) SG_CTA_PROTO_SRC_PORT;
                    dp \<leftarrow> nla_find p r (int pl) SG_CTA_PROTO_DST_PORT;
                    f \<leftarrow> copy_field p pn 1 (\<lambda>v f. f\<lparr>cf_proto := of_be v\<rparr>) f;
                    f \<leftarrow> copy_field p sp 2 (\<lambda>v f. f\<lparr>cf_sport := of_be v\<rparr>) f;
                    copy_field p dp 2 (\<lambda>v f. f\<lparr>cf_dport := of_be v\<rparr>) f
                  });
          Some (0, f)
        })
   }"

text \<open>
  The loop of \<open>ctdump_dump_all\<close> on one datagram: the callback sees each flow and may stop; the state is
  the number of flows visited with the callback's own, and \<open>Inr\<close> sets \<open>done\<close>.
\<close>

definition dump_msg :: "(ctdump_flow \<Rightarrow> 'c \<Rightarrow> bool \<times> 'c) \<Rightarrow> bytes \<Rightarrow> nat \<Rightarrow> nat \<Rightarrow> nat \<times> 'c \<Rightarrow> (nat \<times> 'c + nat \<times> 'c) option" where
  "dump_msg cb p nh ml s = do {
     ty \<leftarrow> nlmsg_type p nh;
     if ty = NLMSG_DONE \<or> ty = NLMSG_ERROR then Some (Inr s)
     else
       let (a, al) = attrs_of nh ml in
       if al \<le> 0 then Some (Inl s)
       else do {
         (rc, f) \<leftarrow> parse_tuple p a al cf_zero;
         r \<leftarrow> ctdump_parse_response p a al;
         let f' = (case r of Some res \<Rightarrow> f\<lparr>cf_res := res\<rparr> | None \<Rightarrow> f);
         let (stop, c) = cb f' (snd s);
         Some (if stop then Inr (Suc (fst s), c) else Inl (Suc (fst s), c))
       }
   }"

fun dump_datagrams :: "(ctdump_flow \<Rightarrow> 'c \<Rightarrow> bool \<times> 'c) \<Rightarrow> bytes list \<Rightarrow> nat \<times> 'c \<Rightarrow> (nat \<times> 'c) option" where
  "dump_datagrams cb [] s = Some s"
| "dump_datagrams cb (p # ps) s =
     (if p = [] then Some s
      else
        case nlmsg_walk (dump_msg cb p) p 0 (int (length p)) s of
          None \<Rightarrow> None
        | Some (Inl s') \<Rightarrow> dump_datagrams cb ps s'
        | Some (Inr s') \<Rightarrow> Some s')"

section \<open>Statistics and features\<close>

definition ctdump_to_flow_stats :: "ctdump_result \<Rightarrow> flow_stats" where
  "ctdump_to_flow_stats r =
     (if \<not> ct_ml_valid r
      then \<lparr>fs_syn_count = 0, fs_ack_count = 0, fs_psh_count = 0, fs_urg_count = 0, fs_pkts_fwd = 0, fs_pkts_bwd = 0,
            fs_tcp_flags_fwd = 0, fs_tcp_flags_bwd = 0\<rparr>
      else
        let ml = ct_ml r;
            clamp = (\<lambda>v :: u64. if v \<le> 0xFFFFFFFF then ucast v else (0xFFFFFFFF :: u32));
            est = (\<lambda>v :: u64. if v \<noteq> 0 then ucast ((v + 511) div 512) else (0 :: u32))
        in \<lparr>fs_syn_count = ml_syn_count ml, fs_ack_count = ml_ack_count ml, fs_psh_count = ml_psh_count ml,
            fs_urg_count = ml_urg_count ml,
            fs_pkts_fwd = (if ct_acct_valid r then clamp (ct_pkts_orig r) else est (ml_bytes_fwd ml)),
            fs_pkts_bwd = (if ct_acct_valid r then clamp (ct_pkts_reply r) else est (ml_bytes_bwd ml)),
            fs_tcp_flags_fwd = fst (ml_tcp_flags ml), fs_tcp_flags_bwd = snd (ml_tcp_flags ml)\<rparr>)"

definition sample_var :: "real \<Rightarrow> real \<Rightarrow> nat \<Rightarrow> real" where
  "sample_var sm sqsum n =
     (if n < 2 then 0
      else let v = (sqsum - sm * sm / real n) / real (n - 1) in if v > 0 then v else 0)"

abbreviation r64 :: "u64 \<Rightarrow> real" where "r64 w \<equiv> real (unat w)"
abbreviation r32 :: "u32 \<Rightarrow> real" where "r32 w \<equiv> real (unat w)"

definition FEAT_COUNT :: nat where "FEAT_COUNT = 17"

text \<open>The vector in the order of the \<open>FEAT_*\<close> indices.\<close>

definition feature_extract :: "sg_nf_conn_ml \<Rightarrow> u32 \<Rightarrow> u32 \<Rightarrow> int \<Rightarrow> real list" where
  "feature_extract ml pkts_fwd pkts_bwd init_win_fwd =
     (let iat_sum = r64 (ml_iat_sum_us ml);
          pvar = sample_var (r64 (ml_pktlen_sum ml)) (r64 (ml_pktlen_sq_sum ml)) (unat (ml_pktlen_count ml))
      in [sqrt (sample_var iat_sum (r64 (ml_flow_iat_sq_sum ml)) (unat (ml_iat_count ml))),
          (if ml_flow_iat_min ml = 0xFFFFFFFF then 0 else r32 (ml_flow_iat_min ml)),
          (if ml_iat_count ml \<noteq> 0 then iat_sum / r32 (ml_iat_count ml) else 0),
          sqrt (sample_var (r64 (ml_fwd_iat_sum ml)) (r64 (ml_fwd_iat_sq_sum ml)) (unat (ml_fwd_iat_count ml))),
          pvar,
          sqrt pvar,
          (if pkts_fwd \<noteq> 0 then r64 (ml_bytes_fwd ml) / r32 pkts_fwd else 0),
          (if pkts_bwd \<noteq> 0 then r64 (ml_bytes_bwd ml) / r32 pkts_bwd else 0),
          r32 (ml_syn_count ml),
          r32 (ml_ack_count ml),
          r32 (ml_psh_count ml),
          r32 (ml_urg_count ml),
          (if pkts_fwd \<noteq> 0 then r32 (pkts_bwd div pkts_fwd) else 0),
          (if init_win_fwd < 0 then -1 else of_int init_win_fwd),
          r64 (ml_bytes_fwd ml),
          (if ml_last_ns ml > ml_first_ns ml then r64 (ml_last_ns ml - ml_first_ns ml) / 1000 else 0),
          sqrt (sample_var (r64 (ml_bytes_bwd ml)) (r64 (ml_bwd_pktlen_sq_sum ml)) (unat pkts_bwd))])"

definition ctdump_to_features :: "ctdump_result \<Rightarrow> u32 \<Rightarrow> u32 \<Rightarrow> int \<Rightarrow> real list" where
  "ctdump_to_features r pkts_fwd pkts_bwd init_win_fwd = feature_extract (ct_ml r) pkts_fwd pkts_bwd init_win_fwd"

section \<open>Scoring\<close>

definition ML_CKP_PKTS :: u32 where "ML_CKP_PKTS = 24"
definition ML_CKP_AGE_NS :: u64 where "ML_CKP_AGE_NS = 12000000000"

definition ips_ml_eval :: "(real list \<Rightarrow> real) \<Rightarrow> ctdump_result \<Rightarrow> u32 \<Rightarrow> u32 \<Rightarrow> int \<Rightarrow> ips_config \<Rightarrow> ips_decision" where
  "ips_ml_eval ips_score ctr pkts_fwd pkts_bwd init_win cfg =
     (if \<not> ct_ml_valid ctr \<or> ml_first_ns (ct_ml ctr) = 0
      then \<lparr>d_verdict = IPS_PASS, d_reason = IPS_R_NONE, d_sig_rule = None, d_score = -1, d_ml_evaluated = False,
            d_matched_sid = 0, d_matched_msg = []\<rparr>
      else
        let sc = ips_score (ctdump_to_features ctr pkts_fwd pkts_bwd init_win)
        in (ips_fuse cfg None SIG_ALERT sc)\<lparr>d_ml_evaluated := True, d_score := sc\<rparr>)"

end
