(* ===== verification/Nfq.thy ===== *)
theory Nfq
  imports Netlink Sig_Rule
begin

unbundle bit_operations_syntax

text \<open>
  The packet queue (\<open>src/src/userspace/ipsd/nfq.c\<close>, \<open>nfq.h\<close>): configuration messages, the parser of an
  IPv4 packet, the reading of a queue notification and the verdict message. Sending and receiving are the
  caller's: a builder returns the bytes handed to \<open>sendto\<close> (\<open>None\<close> for its error return), and the reader
  takes the bytes \<open>recv\<close> delivered. A read outside the data is the result \<open>None\<close>.
\<close>

section \<open>Data\<close>

definition SG_CMK_IPS_BLOCK :: u32 where "SG_CMK_IPS_BLOCK = 2"
definition SG_CMK_IPS_INSPECTED :: u32 where "SG_CMK_IPS_INSPECTED = 4"
definition SG_CMK_IPS_MASK :: u32 where "SG_CMK_IPS_MASK = 6"
definition SG_CMK_IPS_PROFID_SHIFT :: nat where "SG_CMK_IPS_PROFID_SHIFT = 3"
definition SG_CMK_IPS_PROFID_MASK :: u32 where "SG_CMK_IPS_PROFID_MASK = 0xF8"
definition NFQ_RAW_MAX :: nat where "NFQ_RAW_MAX = 65536"
definition SG_CTA_MARK :: u16 where "SG_CTA_MARK = 8"
definition SG_CTA_MARK_MASK :: u16 where "SG_CTA_MARK_MASK = 21"

definition SIG_TCP_FIN :: u8 where "SIG_TCP_FIN = 0x01"
definition SIG_TCP_SYN :: u8 where "SIG_TCP_SYN = 0x02"
definition SIG_TCP_RST :: u8 where "SIG_TCP_RST = 0x04"
definition SIG_TCP_PSH :: u8 where "SIG_TCP_PSH = 0x08"
definition SIG_TCP_ACK :: u8 where "SIG_TCP_ACK = 0x10"
definition SIG_TCP_URG :: u8 where "SIG_TCP_URG = 0x20"

text \<open>Numbers of the kernel's queue interface.\<close>

definition NFNL_SUBSYS_QUEUE :: u16 where "NFNL_SUBSYS_QUEUE = 3"
definition NFQNL_MSG_PACKET :: u16 where "NFQNL_MSG_PACKET = 0"
definition NFQNL_MSG_VERDICT :: u16 where "NFQNL_MSG_VERDICT = 1"
definition NFQNL_MSG_CONFIG :: u16 where "NFQNL_MSG_CONFIG = 2"
definition NFQA_PACKET_HDR :: u16 where "NFQA_PACKET_HDR = 1"
definition NFQA_VERDICT_HDR :: u16 where "NFQA_VERDICT_HDR = 2"
definition NFQA_MARK :: u16 where "NFQA_MARK = 3"
definition NFQA_TIMESTAMP :: u16 where "NFQA_TIMESTAMP = 4"
definition NFQA_PAYLOAD :: u16 where "NFQA_PAYLOAD = 10"
definition NFQA_CT :: u16 where "NFQA_CT = 11"
definition NFQA_CFG_CMD :: u16 where "NFQA_CFG_CMD = 1"
definition NFQA_CFG_PARAMS :: u16 where "NFQA_CFG_PARAMS = 2"
definition NFQA_CFG_MASK :: u16 where "NFQA_CFG_MASK = 4"
definition NFQA_CFG_FLAGS :: u16 where "NFQA_CFG_FLAGS = 5"
definition NFQA_CFG_F_CONNTRACK :: u32 where "NFQA_CFG_F_CONNTRACK = 2"
definition NF_DROP :: u32 where "NF_DROP = 0"
definition NF_ACCEPT :: u32 where "NF_ACCEPT = 1"

text \<open>The packet; \<open>pk_payload\<close> is \<open>None\<close> for the \<open>NULL\<close> pointer and carries \<open>plen\<close> as its length.\<close>

record nfq_pkt =
  pk_id :: u32
  pk_proto :: u8
  pk_src_ip :: u32
  pk_dst_ip :: u32
  pk_sport :: u16
  pk_dport :: u16
  pk_tcp_flags :: u8
  pk_tcp_seq :: u32
  pk_init_win :: int
  pk_ips_prof_id :: u8
  pk_cap_sec :: int
  pk_payload :: "bytes option"
  pk_raw_buf :: bytes

definition nfq_pkt_to_flow_ctx :: "nfq_pkt \<Rightarrow> flow_ctx" where
  "nfq_pkt_to_flow_ctx p =
     \<lparr>fc_proto = (if pk_proto p = 6 then SIG_PROTO_TCP else if pk_proto p = 17 then SIG_PROTO_UDP
                  else if pk_proto p = 1 then SIG_PROTO_ICMP else SIG_PROTO_ANY),
      fc_dport = pk_dport p, fc_tcp_flags = pk_tcp_flags p, fc_established = False, fc_to_server = True,
      fc_prof_id = unat (pk_ips_prof_id p), fc_fb = None, fc_bufs = None\<rparr>"

section \<open>Configuration messages\<close>

text \<open>Writing the two headers when the attributes are in place; the caller sends the first \<open>off\<close> bytes.\<close>

definition finish_msg :: "bytes \<Rightarrow> nat \<Rightarrow> u16 \<Rightarrow> u32 \<Rightarrow> u16 \<Rightarrow> bytes" where
  "finish_msg buf off msg seq res_id =
     take off (put_at buf 0 (nl_header (NLA_ALIGN off) (push_bit 8 NFNL_SUBSYS_QUEUE OR msg) NLM_F_REQUEST seq 0 res_id))"

definition msg_start :: nat where
  "msg_start = NLMSG_HDRLEN + NFGEN_LEN"

definition build_pf_bind :: "nat \<Rightarrow> u16 \<Rightarrow> bool \<Rightarrow> bytes option" where
  "build_pf_bind cap pf bnd =
     (if msg_start > cap then None
      else do {
        (buf, off) \<leftarrow> nla_put_raw (replicate cap 0) msg_start cap NFQA_CFG_CMD ([if bnd then 3 else 4, 0] @ be_bytes 2 pf);
        Some (finish_msg buf off NFQNL_MSG_CONFIG 0 0)
      })"

definition build_queue_config :: "nat \<Rightarrow> u16 \<Rightarrow> bytes option" where
  "build_queue_config cap qnum =
     (if msg_start > cap then None
      else do {
        (buf, off) \<leftarrow> nla_put_raw (replicate cap 0) msg_start cap NFQA_CFG_CMD [1, 0, 0, 0];
        (buf, off) \<leftarrow> nla_put_raw buf off cap NFQA_CFG_PARAMS (be_bytes 4 (0xffff :: u32) @ [2]);
        Some (finish_msg buf off NFQNL_MSG_CONFIG 1 qnum)
      })"

definition build_queue_flags :: "nat \<Rightarrow> u16 \<Rightarrow> bytes option" where
  "build_queue_flags cap qnum =
     (if msg_start > cap then None
      else do {
        (buf, off) \<leftarrow> nla_put_u32 (replicate cap 0) msg_start cap NFQA_CFG_FLAGS (be_bytes 4 NFQA_CFG_F_CONNTRACK);
        (buf, off) \<leftarrow> nla_put_u32 buf off cap NFQA_CFG_MASK (be_bytes 4 NFQA_CFG_F_CONNTRACK);
        Some (finish_msg buf off NFQNL_MSG_CONFIG 1 qnum)
      })"

section \<open>The packet parser\<close>

text \<open>The flag bits of byte 13 of a TCP header, in the order of the code.\<close>

definition tcp_flag_bits :: "u8 \<Rightarrow> u8" where
  "tcp_flag_bits b =
     (let f0 = (if bit b 0 then SIG_TCP_FIN else 0);
          f1 = (if bit b 1 then f0 OR SIG_TCP_SYN else f0);
          f2 = (if bit b 2 then f1 OR SIG_TCP_RST else f1);
          f3 = (if bit b 3 then f2 OR SIG_TCP_PSH else f2);
          f4 = (if bit b 4 then f3 OR SIG_TCP_ACK else f3)
      in if bit b 5 then f4 OR SIG_TCP_URG else f4)"

text \<open>The transport header: the packet with its fields and the length of the header.\<close>

definition parse_l4 :: "bytes \<Rightarrow> nat \<Rightarrow> u8 \<Rightarrow> nfq_pkt \<Rightarrow> (nfq_pkt \<times> nat) option" where
  "parse_l4 d ihl proto pkt =
     (if proto = 6 \<and> length d \<ge> ihl + 20 then do {
        sp \<leftarrow> rd_bytes d ihl 2;
        dp \<leftarrow> rd_bytes d (ihl + 2) 2;
        sq \<leftarrow> rd_bytes d (ihl + 4) 4;
        off \<leftarrow> rd_bytes d (ihl + 12) 1;
        fl \<leftarrow> rd_bytes d (ihl + 13) 1;
        win \<leftarrow> rd_bytes d (ihl + 14) 2;
        Some (pkt\<lparr>pk_sport := of_be sp, pk_dport := of_be dp, pk_tcp_seq := of_be sq, pk_tcp_flags := tcp_flag_bits (of_be fl),
                  pk_init_win := (if bit (of_be fl :: u8) 1 \<and> \<not> bit (of_be fl :: u8) 4 then uint (of_be win :: u16)
                                  else pk_init_win pkt)\<rparr>,
              unat (drop_bit 4 (of_be off :: u8)) * 4)
      }
      else if proto = 17 \<and> length d \<ge> ihl + 8 then do {
        sp \<leftarrow> rd_bytes d ihl 2;
        dp \<leftarrow> rd_bytes d (ihl + 2) 2;
        Some (pkt\<lparr>pk_sport := of_be sp, pk_dport := of_be dp\<rparr>, 8)
      }
      else if proto = 1 \<and> length d \<ge> ihl + 8 then Some (pkt, 8)
      else Some (pkt, 0))"

text \<open>\<open>Inl pkt\<close> is the return value -1, with the packet as it was left.\<close>

definition nfq_parse_packet :: "bytes \<Rightarrow> nfq_pkt \<Rightarrow> (nfq_pkt + nfq_pkt) option" where
  "nfq_parse_packet d pkt =
     (if length d < 20 then Some (Inl pkt)
      else do {
        vb \<leftarrow> rd_bytes d 0 1;
        let b = (of_be vb :: u8);
        if drop_bit 4 b \<noteq> 4 \<or> take_bit 4 b < 5 then Some (Inl pkt)
        else
          let ihl = unat (take_bit 4 b) * 4 in
          if length d < ihl then Some (Inl pkt)
          else do {
            pr \<leftarrow> rd_bytes d 9 1;
            sa \<leftarrow> rd_bytes d 12 4;
            da \<leftarrow> rd_bytes d 16 4;
            (pkt1, l4hdr) \<leftarrow> parse_l4 d ihl (of_be pr)
              (pkt\<lparr>pk_proto := of_be pr, pk_src_ip := of_be sa, pk_dst_ip := of_be da, pk_sport := 0, pk_dport := 0,
                   pk_tcp_flags := 0, pk_init_win := -1, pk_tcp_seq := 0\<rparr>);
            let poff = ihl + l4hdr;
            Some (Inr (pkt1\<lparr>pk_payload := (if poff < length d then Some (drop poff d) else None)\<rparr>))
          }
      })"

section \<open>Receiving\<close>

text \<open>The profile id and the time stamp, read from a parsed packet's attributes.\<close>

definition recv_mark :: "bytes \<Rightarrow> nat \<Rightarrow> int \<Rightarrow> nfq_pkt \<Rightarrow> nfq_pkt option" where
  "recv_mark p a alen pkt = do {
     mk \<leftarrow> nla_find p a alen NFQA_MARK;
     (case mk of
        Some (off, l) \<Rightarrow>
          if l \<ge> 4 then do {
            v \<leftarrow> rd_bytes p off 4;
            Some (pkt\<lparr>pk_ips_prof_id := ucast (of_be v AND 0xFF :: u32)\<rparr>)
          } else Some (pkt\<lparr>pk_ips_prof_id := 0\<rparr>)
      | None \<Rightarrow> Some (pkt\<lparr>pk_ips_prof_id := 0\<rparr>))
   }"

definition recv_time :: "bytes \<Rightarrow> nat \<Rightarrow> int \<Rightarrow> nfq_pkt \<Rightarrow> nfq_pkt option" where
  "recv_time p a alen pkt = do {
     ts \<leftarrow> nla_find p a alen NFQA_TIMESTAMP;
     (case ts of
        Some (off, l) \<Rightarrow>
          if l \<ge> 16 then do {
            v \<leftarrow> rd_bytes p off 8;
            Some (pkt\<lparr>pk_cap_sec := (if sint (of_be v :: u64) \<ge> 1577836800 then sint (of_be v :: u64) else 0)\<rparr>)
          } else Some (pkt\<lparr>pk_cap_sec := 0\<rparr>)
      | None \<Rightarrow> Some (pkt\<lparr>pk_cap_sec := 0\<rparr>))
   }"

text \<open>The loop body on one message: \<open>Inl\<close> continues with the next one, \<open>Inr\<close> returns a packet.\<close>

definition recv_msg :: "bytes \<Rightarrow> nat \<Rightarrow> nat \<Rightarrow> nfq_pkt \<Rightarrow> (nfq_pkt + nfq_pkt) option" where
  "recv_msg p nh ml pkt = do {
     ty \<leftarrow> nlmsg_type p nh;
     if ty = NLMSG_ERROR \<or> ty = NLMSG_DONE then Some (Inl pkt)
     else if ty AND 0xff \<noteq> NFQNL_MSG_PACKET then Some (Inl pkt)
     else
       let (a, alen) = attrs_of nh ml in
       if alen \<le> 0 then Some (Inl pkt)
       else do {
         ph \<leftarrow> nla_find p a alen NFQA_PACKET_HDR;
         (case ph of
            None \<Rightarrow> Some (Inl pkt)
          | Some (ho, hl) \<Rightarrow> do {
              idb \<leftarrow> rd_bytes p ho 4;
              let pkt1 = pkt\<lparr>pk_id := of_be idb\<rparr>;
              pay \<leftarrow> nla_find p a alen NFQA_PAYLOAD;
              (case pay of
                 None \<Rightarrow> Some (Inl pkt1)
               | Some (po, pl) \<Rightarrow>
                   if pl = 0 then Some (Inl pkt1)
                   else do {
                     let copy = (if pl < NFQ_RAW_MAX then pl else NFQ_RAW_MAX - 1);
                     raw \<leftarrow> rd_bytes p po copy;
                     r \<leftarrow> nfq_parse_packet raw (pkt1\<lparr>pk_raw_buf := raw\<rparr>);
                     (case r of
                        Inl pkt2 \<Rightarrow> Some (Inl pkt2)
                      | Inr pkt2 \<Rightarrow> do {
                          pkt3 \<leftarrow> recv_mark p a alen pkt2;
                          pkt4 \<leftarrow> recv_time p a alen pkt3;
                          Some (Inr pkt4)
                        })
                   })
            })
       }
   }"

definition nfq_recv :: "bytes \<Rightarrow> nfq_pkt \<Rightarrow> (nfq_pkt + nfq_pkt) option" where
  "nfq_recv p pkt = nlmsg_walk (recv_msg p) p 0 (int (length p)) pkt"

section \<open>The verdict\<close>

definition nfq_verdict :: "u16 \<Rightarrow> u32 \<Rightarrow> bool \<Rightarrow> u32 \<Rightarrow> u32 \<Rightarrow> bytes option" where
  "nfq_verdict qnum pid accept connmark connmark_mask = do {
     (buf, off) \<leftarrow> nla_put_raw (replicate 512 0) msg_start 512 NFQA_VERDICT_HDR
       (be_bytes 4 (if accept then NF_ACCEPT else NF_DROP) @ be_bytes 4 pid);
     (buf, off) \<leftarrow>
       (if connmark_mask \<noteq> 0 then do {
          (nest, buf, off) \<leftarrow> nla_nest_start buf off 512 NFQA_CT;
          (buf, off) \<leftarrow> nla_put_raw buf off 512 SG_CTA_MARK (be_bytes 4 connmark);
          (buf, off) \<leftarrow> nla_put_raw buf off 512 SG_CTA_MARK_MASK (be_bytes 4 connmark_mask);
          Some (nla_nest_end buf nest off, off)
        } else Some (buf, off));
     Some (finish_msg buf (NLA_ALIGN off) NFQNL_MSG_VERDICT 2 qnum)
   }"

end
