(* ===== verification/Nfq_Correct.thy ===== *)
theory Nfq_Correct
  imports Nfq
begin

unbundle bit_operations_syntax

text \<open>
  The packet queue does what it should: the parser stays inside its data and recovers the fields of a
  well-formed packet, a notification is read field by field, and the verdict message carries exactly the
  verdict, the packet id and the mark.
\<close>

section \<open>The packet parser\<close>

lemma rd_bytes_Some: "off + n \<le> length p \<Longrightarrow> rd_bytes p off n = Some (take n (drop off p))"
  by (simp add: rd_bytes_def)

lemma parse_l4_safe:
  "\<exists>pkt' n. parse_l4 d ihl proto pkt = Some (pkt', n) \<and> pk_payload pkt' = pk_payload pkt \<and>
     pk_proto pkt' = pk_proto pkt \<and> pk_src_ip pkt' = pk_src_ip pkt \<and> pk_dst_ip pkt' = pk_dst_ip pkt"
  by (auto simp: parse_l4_def rd_bytes_Some)

lemma nfq_parse_packet_total:
  "\<exists>r. nfq_parse_packet d pkt = Some r \<and>
     (case r of
        Inl pkt' \<Rightarrow> pkt' = pkt
      | Inr pkt' \<Rightarrow> length d \<ge> 20 \<and> (\<forall>bs. pk_payload pkt' = Some bs \<longrightarrow> bs \<noteq> [] \<and> suffix bs d))"
proof (cases "length d < 20")
  case False
  then have r: "rd_bytes d 0 1 = Some (take 1 d)" "rd_bytes d 9 1 = Some (take 1 (drop 9 d))"
      "rd_bytes d 12 4 = Some (take 4 (drop 12 d))" "rd_bytes d 16 4 = Some (take 4 (drop 16 d))"
    by (simp_all add: rd_bytes_def)
  let ?b = "of_be (take 1 d) :: u8"
  let ?p = "of_be (take 1 (drop 9 d)) :: u8"
  obtain p1 n where l4: "parse_l4 d (unat (take_bit 4 ?b) * 4) ?p (pkt\<lparr>pk_proto := ?p, pk_src_ip := of_be (take 4 (drop 12 d)),
      pk_dst_ip := of_be (take 4 (drop 16 d)), pk_sport := 0, pk_dport := 0, pk_tcp_flags := 0, pk_init_win := -1, pk_tcp_seq := 0\<rparr>)
      = Some (p1, n)"
    using parse_l4_safe by blast
  show ?thesis
    using False by (simp add: nfq_parse_packet_def r l4 Let_def suffix_drop del: One_nat_def)
qed (simp add: nfq_parse_packet_def)

text \<open>
  The packet parser is total and never reads outside its data, whatever the bytes are: it either rejects
  them and leaves the packet as it was, or the data hold at least an IPv4 header and the payload, if there is
  one, is a non-empty tail of the data.
\<close>

theorem nfq_parse_safe:
  "\<exists>r. nfq_parse_packet d pkt = Some r \<and>
     (case r of
        Inl pkt' \<Rightarrow> pkt' = pkt
      | Inr pkt' \<Rightarrow> length d \<ge> 20 \<and> (case pk_payload pkt' of None \<Rightarrow> True | Some bs \<Rightarrow> bs \<noteq> [] \<and> suffix bs d))"
  using nfq_parse_packet_total [of d pkt] by (auto split: sum.splits option.splits)

lemma set_bit_if: "(if bit b k then x OR push_bit k 1 else x) = (x OR (b AND push_bit k 1) :: u8)"
  by (rule bit_word_eqI) (auto simp: bit_or_iff bit_and_iff bit_exp_iff push_bit_of_1)

lemma tcp_flag_bits_eq: "tcp_flag_bits b = b AND 0x3F"
proof -
  have p: "push_bit 0 1 = (1 :: u8)" "push_bit 1 1 = (2 :: u8)" "push_bit 2 1 = (4 :: u8)" "push_bit 3 1 = (8 :: u8)"
    "push_bit 4 1 = (16 :: u8)" "push_bit 5 1 = (32 :: u8)" by simp_all
  note s = set_bit_if [of b 0 0, unfolded p or.left_neutral] set_bit_if [of b 1, unfolded p] set_bit_if [of b 2, unfolded p]
    set_bit_if [of b 3, unfolded p] set_bit_if [of b 4, unfolded p] set_bit_if [of b 5, unfolded p]
  have "tcp_flag_bits b = ((((b AND 1 OR b AND 2) OR b AND 4) OR b AND 8) OR b AND 16) OR b AND 32"
    unfolding tcp_flag_bits_def Let_def SIG_TCP_FIN_def SIG_TCP_SYN_def SIG_TCP_RST_def SIG_TCP_PSH_def SIG_TCP_ACK_def
      SIG_TCP_URG_def s ..
  also have "\<dots> = b AND ((((1 OR 2) OR 4) OR 8) OR 16 OR 32)" by (simp only: bit.conj_disj_distrib or.assoc)
  finally show ?thesis by simp
qed

lemma le_10_cases: "(n :: nat) \<le> 10 \<Longrightarrow> n \<in> {0, 1, 2, 3, 4, 5, 6, 7, 8, 9, 10}"
  by (simp add: numeral_eq_Suc le_Suc_eq)

text \<open>A reference encoder for IPv4 and TCP; \<open>x1\<close>, \<open>x2\<close>, \<open>ack\<close> and \<open>x3\<close> are the header fields nobody reads.\<close>

definition ip_packet :: "bytes \<Rightarrow> bytes \<Rightarrow> bytes \<Rightarrow> u8 \<Rightarrow> u32 \<Rightarrow> u32 \<Rightarrow> bytes \<Rightarrow> bytes" where
  "ip_packet x1 x2 opts proto src dst body =
     [of_nat (69 + length opts div 4)] @ x1 @ [proto] @ x2 @ be_bytes 4 src @ be_bytes 4 dst @ opts @ body"

definition tcp_segment :: "u16 \<Rightarrow> u16 \<Rightarrow> u32 \<Rightarrow> bytes \<Rightarrow> u8 \<Rightarrow> u16 \<Rightarrow> bytes \<Rightarrow> bytes \<Rightarrow> bytes \<Rightarrow> bytes" where
  "tcp_segment sport dport sq ack flags win x3 topts pl =
     be_bytes 2 sport @ be_bytes 2 dport @ be_bytes 4 sq @ ack @ [of_nat ((5 + length topts div 4) * 16)] @ [flags] @
     be_bytes 2 win @ x3 @ topts @ pl"

definition ip_fields :: "bytes \<Rightarrow> bytes \<Rightarrow> bytes \<Rightarrow> bool" where
  "ip_fields x1 x2 opts \<longleftrightarrow> length x1 = 8 \<and> length x2 = 2 \<and> length opts mod 4 = 0 \<and> length opts \<le> 40"

definition tcp_fields :: "bytes \<Rightarrow> bytes \<Rightarrow> bytes \<Rightarrow> bool" where
  "tcp_fields ack x3 topts \<longleftrightarrow> length ack = 4 \<and> length x3 = 4 \<and> length topts mod 4 = 0 \<and> length topts \<le> 40"

lemma of_be_single [simp]: "of_be [b] = (b :: u8)"
  by (simp add: of_be_def)

lemma ihl_byte:
  fixes n :: nat
  assumes "n \<le> 10"
  shows "drop_bit 4 (of_nat (69 + n) :: u8) = 4" "take_bit 4 (of_nat (69 + n) :: u8) = of_nat (5 + n)"
    "unat (take_bit 4 (of_nat (69 + n) :: u8)) = 5 + n" "\<not> take_bit 4 (of_nat (69 + n) :: u8) < 5"
proof -
  have n: "n \<in> {0,1,2,3,4,5,6,7,8,9,10}" using assms by (rule le_10_cases)
  then show "drop_bit 4 (of_nat (69 + n) :: u8) = 4" "take_bit 4 (of_nat (69 + n) :: u8) = of_nat (5 + n)"
    "unat (take_bit 4 (of_nat (69 + n) :: u8)) = 5 + n" "\<not> take_bit 4 (of_nat (69 + n) :: u8) < 5"
    by auto
qed

lemma doff_byte:
  fixes n :: nat
  assumes "n \<le> 10"
  shows "unat (drop_bit 4 (of_nat ((5 + n) * 16) :: u8)) = 5 + n"
proof -
  have "n \<in> {0,1,2,3,4,5,6,7,8,9,10}" using assms by (rule le_10_cases)
  then show ?thesis by auto
qed

lemma parse_l4_tcp:
  assumes "at_off d ihl (tcp_segment sport dport sq ack flags win x3 topts pl)" "tcp_fields ack x3 topts"
  shows "parse_l4 d ihl 6 pkt =
    Some (pkt\<lparr>pk_sport := sport, pk_dport := dport, pk_tcp_seq := sq, pk_tcp_flags := flags AND 0x3F,
           pk_init_win := (if bit flags 1 \<and> \<not> bit flags 4 then uint win else pk_init_win pkt)\<rparr>, 20 + length topts)"
proof -
  have l: "length ack = 4" "length x3 = 4" "length topts div 4 \<le> 10" "(5 + length topts div 4) * 4 = 20 + length topts"
    using assms(2) by (auto simp: tcp_fields_def)
  define ob :: u8 where "ob = of_nat ((5 + length topts div 4) * 16)"
  have ob: "unat (drop_bit 4 ob) = 5 + length topts div 4" unfolding ob_def by (rule doff_byte [OF l(3)])
  have a: "at_off d ihl (be_bytes 2 sport)" "at_off d (ihl + 2) (be_bytes 2 dport)" "at_off d (ihl + 4) (be_bytes 4 sq)"
      "at_off d (ihl + 12) [ob]" "at_off d (ihl + 13) [flags]" "at_off d (ihl + 14) (be_bytes 2 win)"
    using assms(1) l(1) unfolding tcp_segment_def at_append ob_def [symmetric]
    by (simp_all add: numeral_eq_Suc)
  have r: "rd_bytes d ihl 2 = Some (be_bytes 2 sport)" "rd_bytes d (ihl + 2) 2 = Some (be_bytes 2 dport)"
      "rd_bytes d (ihl + 4) 4 = Some (be_bytes 4 sq)" "rd_bytes d (ihl + 12) 1 = Some [ob]"
      "rd_bytes d (ihl + 13) 1 = Some [flags]" "rd_bytes d (ihl + 14) 2 = Some (be_bytes 2 win)"
    using a by (simp_all add: rd_bytes_at)
  have len: "length d \<ge> ihl + 20" using at_length [OF assms(1)] l by (simp add: tcp_segment_def)
  show ?thesis
    unfolding parse_l4_def using len l(4)
    by (simp only: r simp_thms if_True bind.bind_lunit of_be_be_bytes of_be_single tcp_flag_bits_eq ob refl)
qed

lemma nfq_parse_tcp:
  assumes "ip_fields x1 x2 opts" "tcp_fields ack x3 topts"
  shows "nfq_parse_packet (ip_packet x1 x2 opts 6 src dst (tcp_segment sport dport sq ack flags win x3 topts pl)) pkt =
    Some (Inr (pkt\<lparr>pk_proto := 6, pk_src_ip := src, pk_dst_ip := dst, pk_sport := sport, pk_dport := dport,
      pk_tcp_flags := flags AND 0x3F, pk_init_win := (if bit flags 1 \<and> \<not> bit flags 4 then uint win else -1),
      pk_tcp_seq := sq, pk_payload := (if pl = [] then None else Some pl)\<rparr>))"
proof -
  let ?seg = "tcp_segment sport dport sq ack flags win x3 topts pl"
  define d where "d = ip_packet x1 x2 opts 6 src dst ?seg"
  have l: "length x1 = 8" "length x2 = 2" "length opts div 4 \<le> 10" "(5 + length opts div 4) * 4 = 20 + length opts"
    using assms(1) by (auto simp: ip_fields_def)
  define hb :: u8 where "hb = of_nat (69 + length opts div 4)"
  note hb = ihl_byte [OF l(3), folded hb_def]
  have "at_off d 0 (ip_packet x1 x2 opts 6 src dst ?seg)" by (simp add: d_def at_off_def)
  then have a: "at_off d 0 [hb]" "at_off d 9 [6]" "at_off d 12 (be_bytes 4 src)" "at_off d 16 (be_bytes 4 dst)"
      "at_off d (20 + length opts) ?seg"
    using l(1,2) unfolding ip_packet_def at_append hb_def [symmetric] by (simp_all add: numeral_eq_Suc)
  have r: "rd_bytes d 0 1 = Some [hb]" "rd_bytes d 9 1 = Some [6]"
      "rd_bytes d 12 4 = Some (be_bytes 4 src)" "rd_bytes d 16 4 = Some (be_bytes 4 dst)"
    using a by (simp_all add: rd_bytes_at)
  have t: "length ack = 4" "length x3 = 4" using assms(2) by (auto simp: tcp_fields_def)
  have len: "length d = 20 + length opts + (20 + length topts + length pl)"
    using l t by (simp add: d_def ip_packet_def tcp_segment_def)
  have dr: "drop (20 + length opts + (20 + length topts)) d = pl"
    using l t by (simp add: d_def ip_packet_def tcp_segment_def drop_Cons')
  have c: "\<not> length d < 20" "\<not> length d < 20 + length opts" using len by simp_all
  show ?thesis
    unfolding d_def [symmetric] nfq_parse_packet_def
    by (simp only: c r simp_thms if_False bind.bind_lunit of_be_be_bytes of_be_single hb(1,3,4) Let_def l(4))
      (simp only: parse_l4_tcp [OF a(5) assms(2)] bind.bind_lunit split_conv simp_thms if_False c, simp only: len dr, simp)
qed

section \<open>The verdict\<close>

text \<open>The bytes of a finished message: the two headers and the attributes.\<close>

definition queue_msg :: "u16 \<Rightarrow> u32 \<Rightarrow> u16 \<Rightarrow> (u16 \<times> bytes) list \<Rightarrow> bytes" where
  "queue_msg msg sq res_id as =
     nl_header (20 + length (attr_list as)) (push_bit 8 NFNL_SUBSYS_QUEUE OR msg) NLM_F_REQUEST sq 0 res_id @ attr_list as"

lemma length_nl_header [simp]: "length (nl_header len ty flags sq fam res) = 20"
  by (simp add: nl_header_def)

lemma attr_list_mod [simp]: "length (attr_list as) mod 4 = 0"
  by (induction as) (auto simp: mod_add_eq [symmetric, of _ _ 4] NLA_ALIGN_def)

lemma NLA_ALIGN_id: "n mod 4 = 0 \<Longrightarrow> NLA_ALIGN n = n"
  by (auto simp: NLA_ALIGN_def elim!: dvdE dest!: mod_0_imp_dvd)

lemma finish_building:
  assumes "building cap buf (replicate 20 0 @ attr_list as)" "off = 20 + length (attr_list as)"
  shows "finish_msg buf off msg sq res = queue_msg msg sq res as"
proof -
  have al: "NLA_ALIGN off = off" unfolding assms(2) by (rule NLA_ALIGN_id) (simp add: mod_add_eq [symmetric, of _ _ 4])
  let ?h = "nl_header off (push_bit 8 NFNL_SUBSYS_QUEUE OR msg) NLM_F_REQUEST sq 0 res"
  have "building cap (put_at buf 0 ?h) (?h @ attr_list as)"
    using building_patch [of cap buf "[]" "replicate 20 0" "attr_list as" ?h] assms(1) by simp
  then have "take off (put_at buf 0 ?h) = ?h @ attr_list as" by (simp add: building_def assms(2))
  then show ?thesis unfolding finish_msg_def queue_msg_def al by (simp add: assms(2))
qed

lemma start_building: "20 \<le> cap \<Longrightarrow> building cap (replicate cap 0) (replicate 20 0 @ attr_list [])"
  by (simp add: building_def replicate_add [symmetric])

text \<open>Appending an attribute to a message under construction.\<close>

lemma put_attr:
  assumes "building cap buf (replicate 20 0 @ attr_list as)" "20 + length (attr_list as) + NLA_ALIGN (4 + length d) \<le> cap"
  shows "\<exists>buf'. nla_put_raw buf (20 + length (attr_list as)) cap ty d = Some (buf', 20 + length (attr_list (as @ [(ty, d)]))) \<and>
    building cap buf' (replicate 20 0 @ attr_list (as @ [(ty, d)]))"
  using nla_put_raw_building [OF assms(1), of d ty] assms(2) by (simp add: attr_list_def nl_consts)

lemma nfq_verdict_msg:
  fixes pid :: u32 and accept :: bool
  defines "v \<equiv> be_bytes 4 (if accept then NF_ACCEPT else NF_DROP) @ be_bytes 4 pid"
  shows "nfq_verdict qnum pid accept m mk = Some (queue_msg NFQNL_MSG_VERDICT 2 qnum
    ((NFQA_VERDICT_HDR, v) # (if mk = 0 then [] else
       [(NFQA_CT OR SG_NLA_F_NESTED, attr_list [(SG_CTA_MARK, be_bytes 4 m), (SG_CTA_MARK_MASK, be_bytes 4 mk)])])))"
proof -
  have lv: "length v = 8" by (simp add: v_def)
  have al: "NLA_ALIGN 12 = 12" "NLA_ALIGN 8 = 8" "NLA_ALIGN 20 = 20" "NLA_ALIGN 32 = 32" "NLA_ALIGN 52 = 52" by (simp_all add: NLA_ALIGN_def)
  obtain b1 where b1: "nla_put_raw (replicate 512 0) 20 512 NFQA_VERDICT_HDR v = Some (b1, 32)"
      "building 512 b1 (replicate 20 0 @ attr_list [(NFQA_VERDICT_HDR, v)])"
    using put_attr [OF start_building, of 512 v NFQA_VERDICT_HDR] lv by (auto simp: al nl_consts)
  show ?thesis
  proof (cases "mk = 0")
    case True
    then show ?thesis
      using b1(1) finish_building [OF b1(2), of 32 NFQNL_MSG_VERDICT 2 qnum] lv
      by (simp add: nfq_verdict_def msg_start_def nl_consts v_def [symmetric] al)
  next
    case False
    let ?w = "replicate 20 0 @ attr_list [(NFQA_VERDICT_HDR, v)]"
    let ?w2 = "?w @ le_bytes 2 (4 :: u16) @ le_bytes 2 (NFQA_CT OR SG_NLA_F_NESTED)"
    have lw: "length ?w = 32" "length ?w2 = 36" using lv by (simp_all add: al nl_consts)
    obtain b2 where b2: "nla_nest_start b1 32 512 NFQA_CT = Some (32, b2, 36)" "building 512 b2 ?w2"
      using nest_start_building [OF b1(2), of NFQA_CT] lv by (auto simp: al nl_consts)
    obtain b3 where b3: "nla_put_raw b2 36 512 SG_CTA_MARK (be_bytes 4 m) = Some (b3, 44)"
        "building 512 b3 (?w2 @ nla SG_CTA_MARK (be_bytes 4 m))"
      using nla_put_raw_building [OF b2(2), of "be_bytes 4 m" SG_CTA_MARK] unfolding lw by (auto simp: al lw nl_consts lv)
    obtain b4 where b4: "nla_put_raw b3 44 512 SG_CTA_MARK_MASK (be_bytes 4 mk) = Some (b4, 52)"
        "building 512 b4 ((?w2 @ nla SG_CTA_MARK (be_bytes 4 m)) @ nla SG_CTA_MARK_MASK (be_bytes 4 mk))"
      using nla_put_raw_building [OF b3(2), of "be_bytes 4 mk" SG_CTA_MARK_MASK] by (auto simp: al lw nl_consts lv)
    let ?ct = "attr_list [(SG_CTA_MARK, be_bytes 4 m), (SG_CTA_MARK_MASK, be_bytes 4 mk)]"
    have lct: "length ?ct = 16" by (simp add: al nl_consts)
    have "building 512 (nla_nest_end b4 32 52) (?w @ nla (NFQA_CT OR SG_NLA_F_NESTED) ?ct)"
      using nest_end_building [of 512 b4 ?w "NFQA_CT OR SG_NLA_F_NESTED" ?ct] b4(2) unfolding lw lct by simp
    then have b5: "building 512 (nla_nest_end b4 32 52)
        (replicate 20 0 @ attr_list [(NFQA_VERDICT_HDR, v), (NFQA_CT OR SG_NLA_F_NESTED, ?ct)])"
      by simp
    show ?thesis
      using False b1(1) b2(1) b3(1) b4(1) finish_building [OF b5, of 52 NFQNL_MSG_VERDICT 2 qnum] lv lct
      by (simp add: nfq_verdict_def msg_start_def nl_consts v_def [symmetric] al)
  qed
qed

text \<open>What the receiver of a message reads: the payload of an attribute, and of one inside a nest.\<close>

definition attr_at :: "bytes \<Rightarrow> nat \<Rightarrow> u16 \<Rightarrow> bytes option" where
  "attr_at p a want =
     (case nla_find p a (int (length p) - int a) want of
        Some (Some (off, n)) \<Rightarrow> Some (take n (drop off p))
      | _ \<Rightarrow> None)"

lemma attr_at_list:
  assumes "p = h @ attr_list as" "\<forall>(ty, d) \<in> set as. length d \<le> 65531"
  shows "attr_at p (length h) want = attr_named want as"
proof -
  have "at_off p (length h) (attr_list as)" by (simp add: assms(1) at_off_def)
  moreover have "int (length p) - int (length h) = int (length (attr_list as))" by (simp add: assms(1))
  ultimately show ?thesis
    using nla_find_attrs [of p "length h" as want] assms(2)
    by (auto simp: attr_at_def at_take split: option.splits)
qed

text \<open>
  The verdict that reaches the kernel is the one that was decided: the message always fits its
  buffer, its length field is its size, its verdict attribute holds the verdict and the packet id, and it
  carries a connection mark exactly if the mask is not zero, with the mark and the mask that were given.
\<close>

theorem nfq_verdict_roundtrip:
  "\<exists>msg. nfq_verdict qnum pid accept m mk = Some msg \<and> of_le (take 4 msg) = (of_nat (length msg) :: u32) \<and>
     attr_at msg 20 NFQA_VERDICT_HDR = Some (be_bytes 4 (if accept then NF_ACCEPT else NF_DROP) @ be_bytes 4 pid) \<and>
     (if mk = 0 then attr_at msg 20 NFQA_CT = None
      else \<exists>ct. attr_at msg 20 NFQA_CT = Some ct \<and> attr_at ct 0 SG_CTA_MARK = Some (be_bytes 4 m) \<and>
             attr_at ct 0 SG_CTA_MARK_MASK = Some (be_bytes 4 mk))"
proof -
  let ?v = "be_bytes 4 (if accept then NF_ACCEPT else NF_DROP) @ be_bytes 4 pid"
  let ?ct = "[(SG_CTA_MARK, be_bytes 4 m), (SG_CTA_MARK_MASK, be_bytes 4 mk)]"
  define as where "as = (NFQA_VERDICT_HDR, ?v) # (if mk = 0 then [] else [(NFQA_CT OR SG_NLA_F_NESTED, attr_list ?ct)])"
  let ?msg = "queue_msg NFQNL_MSG_VERDICT 2 qnum as"
  have al: "NLA_ALIGN 12 = 12" "NLA_ALIGN 8 = 8" "NLA_ALIGN 20 = 20" by (simp_all add: NLA_ALIGN_def)
  have small: "\<forall>(ty, d) \<in> set as. length d \<le> 65531" "\<forall>(ty, d) \<in> set ?ct. length d \<le> 65531"
    by (auto simp: as_def al nl_consts)
  have len: "length ?msg = 20 + length (attr_list as)" by (simp add: queue_msg_def)
  have "take 4 ?msg = le_bytes 4 (of_nat (length ?msg) :: u32)" by (simp add: len) (simp add: queue_msg_def nl_header_def)
  then have l: "of_le (take 4 ?msg) = (of_nat (length ?msg) :: u32)" by (simp only: of_le_le_bytes)
  have m: "attr_at ?msg 20 want = attr_named want as" for want
    using attr_at_list [OF _ small(1), of ?msg "nl_header (20 + length (attr_list as)) (push_bit 8 NFNL_SUBSYS_QUEUE OR NFQNL_MSG_VERDICT)
      NLM_F_REQUEST 2 0 qnum" want] by (simp add: queue_msg_def)
  have c: "attr_at (attr_list ?ct) 0 want = attr_named want ?ct" for want
    using attr_at_list [OF _ small(2), of "attr_list ?ct" "[]" want] by simp
  have n: "attr_named NFQA_VERDICT_HDR as = Some ?v" "attr_named NFQA_CT as = (if mk = 0 then None else Some (attr_list ?ct))"
      "attr_named SG_CTA_MARK ?ct = Some (be_bytes 4 m)" "attr_named SG_CTA_MARK_MASK ?ct = Some (be_bytes 4 mk)"
    by (simp_all add: as_def attr_named_def NFQA_VERDICT_HDR_def SG_CTA_MARK_def SG_CTA_MARK_MASK_def SG_NLA_TYPE_MASK_def
      NFQA_CT_def SG_NLA_F_NESTED_def)
  show ?thesis
    unfolding nfq_verdict_msg as_def [symmetric] using l m c n by auto
qed

section \<open>Receiving\<close>

text \<open>What the optional attributes of a notification say.\<close>

definition mark_prof :: "(u16 \<times> bytes) list \<Rightarrow> u8" where
  "mark_prof as =
     (case attr_named NFQA_MARK as of
        Some m \<Rightarrow> if length m \<ge> 4 then ucast (of_be (take 4 m) AND 0xFF :: u32) else 0
      | None \<Rightarrow> 0)"

definition stamp_sec :: "(u16 \<times> bytes) list \<Rightarrow> int" where
  "stamp_sec as =
     (case attr_named NFQA_TIMESTAMP as of
        Some t \<Rightarrow>
          if length t \<ge> 16 \<and> sint (of_be (take 8 t) :: u64) \<ge> 1577836800 then sint (of_be (take 8 t) :: u64) else 0
      | None \<Rightarrow> 0)"

lemma rd_bytes_at_take: "at_off p off d \<Longrightarrow> n \<le> length d \<Longrightarrow> rd_bytes p off n = Some (take n d)"
  using at_length [of p off d] at_take [of p off d]
  by (simp add: rd_bytes_def) (metis min.absorb1 take_take)

lemma recv_mark_attrs:
  assumes "at_off p a (attr_list as)" "\<forall>(ty, d) \<in> set as. length d \<le> 65531"
  shows "recv_mark p a (int (length (attr_list as))) pkt = Some (pkt\<lparr>pk_ips_prof_id := mark_prof as\<rparr>)"
proof (cases "attr_named NFQA_MARK as")
  case None
  then show ?thesis using nla_find_attrs [OF assms, of NFQA_MARK] by (simp add: recv_mark_def mark_prof_def)
next
  case (Some m)
  then obtain off where "nla_find p a (int (length (attr_list as))) NFQA_MARK = Some (Some (off, length m))" "at_off p off m"
    using nla_find_attrs [OF assms, of NFQA_MARK] by auto
  then show ?thesis using Some by (simp add: recv_mark_def mark_prof_def rd_bytes_at_take)
qed

lemma recv_time_attrs:
  assumes "at_off p a (attr_list as)" "\<forall>(ty, d) \<in> set as. length d \<le> 65531"
  shows "recv_time p a (int (length (attr_list as))) pkt = Some (pkt\<lparr>pk_cap_sec := stamp_sec as\<rparr>)"
proof (cases "attr_named NFQA_TIMESTAMP as")
  case None
  then show ?thesis using nla_find_attrs [OF assms, of NFQA_TIMESTAMP] by (simp add: recv_time_def stamp_sec_def)
next
  case (Some m)
  then obtain off where "nla_find p a (int (length (attr_list as))) NFQA_TIMESTAMP = Some (Some (off, length m))" "at_off p off m"
    using nla_find_attrs [OF assms, of NFQA_TIMESTAMP] by auto
  then show ?thesis using Some by (simp add: recv_time_def stamp_sec_def rd_bytes_at_take)
qed

text \<open>A notification of the kernel: message type \<open>ty\<close> and the attributes.\<close>

definition notification :: "u16 \<Rightarrow> u32 \<Rightarrow> u16 \<Rightarrow> (u16 \<times> bytes) list \<Rightarrow> bytes" where
  "notification ty sq res as = nl_header (20 + length (attr_list as)) ty 0 sq 2 res @ attr_list as"

definition sized_attrs :: "(u16 \<times> bytes) list \<Rightarrow> bool" where
  "sized_attrs as \<longleftrightarrow> (\<forall>(ty, d) \<in> set as. length d \<le> 65531) \<and> 20 + length (attr_list as) < 2 ^ 32"

lemma recv_msg_attrs:
  assumes p: "p = notification ty sq res as" and sz: "sized_attrs as"
    and ty: "ty AND 0xff = NFQNL_MSG_PACKET" "ty \<noteq> NLMSG_ERROR" "ty \<noteq> NLMSG_DONE"
    and h: "attr_named NFQA_PACKET_HDR as = Some h" "4 \<le> length h"
    and pl: "attr_named NFQA_PAYLOAD as = Some pl" "pl \<noteq> []" "length pl < NFQ_RAW_MAX"
    and q: "nfq_parse_packet pl (pkt\<lparr>pk_id := of_be (take 4 h), pk_raw_buf := pl\<rparr>) = Some (Inr q)"
    and ne: "attr_list as \<noteq> []"
  shows "recv_msg p 0 (20 + length (attr_list as)) pkt = Some (Inr (q\<lparr>pk_ips_prof_id := mark_prof as, pk_cap_sec := stamp_sec as\<rparr>))"
proof -
  have small: "\<forall>(ty, d) \<in> set as. length d \<le> 65531" using sz by (simp add: sized_attrs_def)
  have a: "at_off p 20 (attr_list as)" by (simp add: p notification_def at_off_def)
  have "at_off p 4 (le_bytes 2 ty)" by (simp add: p notification_def nl_header_def at_off_def)
  then have t: "nlmsg_type p 0 = Some ty" by (simp add: nlmsg_type_def rd_bytes_at of_le_le_bytes)
  obtain ho where ho: "nla_find p 20 (int (length (attr_list as))) NFQA_PACKET_HDR = Some (Some (ho, length h))" "at_off p ho h"
    using nla_find_attrs [OF a small, of NFQA_PACKET_HDR] h(1) by auto
  obtain po where po: "nla_find p 20 (int (length (attr_list as))) NFQA_PAYLOAD = Some (Some (po, length pl))" "at_off p po pl"
    using nla_find_attrs [OF a small, of NFQA_PAYLOAD] pl(1) by auto
  have r: "rd_bytes p ho 4 = Some (take 4 h)" "rd_bytes p po (length pl) = Some pl"
    using rd_bytes_at_take [OF ho(2) h(2)] rd_bytes_at [OF po(2)] by simp_all
  have at: "attrs_of 0 (20 + length (attr_list as)) = (20, int (length (attr_list as)))" by (simp add: attrs_of_def nl_consts)
  show ?thesis
    using ty ne pl(2,3)
    by (simp add: recv_msg_def t at ho(1) po(1) r q recv_mark_attrs [OF a small] recv_time_attrs [OF a small])
qed

lemma attr_list_Nil_iff [simp]: "attr_list as = [] \<longleftrightarrow> as = []"
proof (cases as)
  case (Cons x xs)
  have "length (nla (fst x) (snd x)) \<noteq> 0" by (simp add: NLA_ALIGN_def NLA_HDRLEN_def)
  then have "nla (fst x) (snd x) \<noteq> []" by (simp only: length_0_conv not_False_eq_True)
  then show ?thesis using Cons by (cases x) simp
qed simp

lemma nfq_recv_first:
  assumes "recv_msg (notification ty sq res as) 0 (20 + length (attr_list as)) pkt = Some (Inr q)" "sized_attrs as"
  shows "nfq_recv (notification ty sq res as) pkt = Some (Inr q)"
proof -
  let ?p = "notification ty sq res as" and ?n = "20 + length (attr_list as)"
  have len: "length ?p = ?n" by (simp add: notification_def)
  have "at_off ?p 0 (le_bytes 4 (of_nat ?n :: u32))" by (simp add: notification_def nl_header_def at_off_def)
  then have r: "rd_bytes ?p 0 4 = Some (le_bytes 4 (of_nat ?n :: u32))" by (simp add: rd_bytes_at)
  have "unat (of_nat ?n :: u32) = ?n" using assms(2) by (intro of_nat_inverse) (simp_all add: sized_attrs_def)
  then have u: "unat (of_le (le_bytes 4 (of_nat ?n :: u32)) :: u32) = ?n" unfolding of_le_le_bytes .
  show ?thesis
    unfolding nfq_recv_def len
    by (subst nlmsg_walk.simps) (simp only: r bind.bind_lunit Let_def u assms(1), simp add: nl_consts)
qed

text \<open>
  C33. A TCP packet that the kernel queues reaches the engine as it is: for a notification with a packet
  header, the packet itself and any other attributes in any order, the daemon reads the packet id, the
  addresses and ports, the sequence number, the six flags and the payload of the packet, whatever options the
  two headers carry, with the profile id from the low byte of the mark and a time stamp only if it is a
  plausible date.
\<close>

theorem nfq_recv_tcp_roundtrip:
  assumes "ip_fields x1 x2 opts" "tcp_fields ack x3 topts" and "sized_attrs as"
    and "ty AND 0xff = NFQNL_MSG_PACKET" "ty \<noteq> NLMSG_ERROR" "ty \<noteq> NLMSG_DONE"
    and "attr_named NFQA_PACKET_HDR as = Some (be_bytes 4 pid @ x4)"
    and "attr_named NFQA_PAYLOAD as =
      Some (ip_packet x1 x2 opts 6 src dst (tcp_segment sport dport sq ack flags win x3 topts pl))"
  shows "\<exists>q. nfq_recv (notification ty nsq res as) pkt = Some (Inr q) \<and> pk_id q = pid \<and> pk_proto q = 6 \<and>
    pk_src_ip q = src \<and> pk_dst_ip q = dst \<and> pk_sport q = sport \<and> pk_dport q = dport \<and> pk_tcp_seq q = sq \<and>
    pk_tcp_flags q = flags AND 0x3F \<and> pk_payload q = (if pl = [] then None else Some pl) \<and>
    pk_ips_prof_id q = mark_prof as \<and> pk_cap_sec q = stamp_sec as"
proof -
  let ?pl = "ip_packet x1 x2 opts 6 src dst (tcp_segment sport dport sq ack flags win x3 topts pl)"
  have f: "(NFQA_PAYLOAD', ?pl) \<in> set as \<Longrightarrow> length ?pl \<le> 65531" for NFQA_PAYLOAD'
    using assms(3) by (auto simp: sized_attrs_def simp del: length_nla)
  have "\<exists>t. (t, ?pl) \<in> set as"
    using assms(8) by (auto simp: attr_named_def find_Some_iff) (metis nth_mem)
  then have len: "length ?pl < NFQ_RAW_MAX" "attr_list as \<noteq> []" "?pl \<noteq> []"
    using f by (fastforce simp: NFQ_RAW_MAX_def, auto simp: ip_packet_def)
  have "take 4 (be_bytes 4 pid @ x4) = be_bytes 4 pid" by simp
  then have "nfq_parse_packet ?pl (pkt\<lparr>pk_id := of_be (take 4 (be_bytes 4 pid @ x4)), pk_raw_buf := ?pl\<rparr>) =
      Some (Inr (pkt\<lparr>pk_id := pid, pk_raw_buf := ?pl, pk_proto := 6, pk_src_ip := src, pk_dst_ip := dst, pk_sport := sport, pk_dport := dport,
      pk_tcp_flags := flags AND 0x3F, pk_init_win := (if bit flags 1 \<and> \<not> bit flags 4 then uint win else -1),
      pk_tcp_seq := sq, pk_payload := (if pl = [] then None else Some pl)\<rparr>))" (is "_ = Some (Inr ?q)")
    unfolding nfq_parse_tcp [OF assms(1,2)] by (simp add: of_be_be_bytes)
  from nfq_recv_first [OF recv_msg_attrs [OF refl assms(3-7) _ assms(8) len(3,1) this len(2)] assms(3)]
  show ?thesis by simp
qed

definition demo_attrs :: "(u16 \<times> bytes) list" where
  "demo_attrs =
     [(NFQA_PACKET_HDR, be_bytes 4 (7 :: u32) @ [8, 0, 1]), (NFQA_MARK, [0, 0, 1, 5]),
      (NFQA_PAYLOAD, ip_packet (replicate 8 0) [0, 0] [] 6 1 2 (tcp_segment 1000 80 99 [0, 0, 0, 0] 0x18 512 [0, 0, 0, 0] [] [71, 69, 84]))]"

definition zero_pkt :: nfq_pkt where
  "zero_pkt = \<lparr>pk_id = 0, pk_proto = 0, pk_src_ip = 0, pk_dst_ip = 0, pk_sport = 0, pk_dport = 0, pk_tcp_flags = 0, pk_tcp_seq = 0,
     pk_init_win = 0, pk_ips_prof_id = 0, pk_cap_sec = 0, pk_payload = None, pk_raw_buf = []\<rparr>"

theorem nfq_recv_tcp_roundtrip_witness:
  "\<exists>q. nfq_recv (notification 0x300 0 0 demo_attrs) zero_pkt = Some (Inr q) \<and> pk_id q = 7 \<and> pk_proto q = 6 \<and>
    pk_src_ip q = 1 \<and> pk_dst_ip q = 2 \<and> pk_sport q = 1000 \<and> pk_dport q = 80 \<and> pk_tcp_seq q = 99 \<and>
    pk_tcp_flags q = 0x18 AND 0x3F \<and> pk_payload q = (if [71, 69, 84] = ([] :: bytes) then None else Some [71, 69, 84]) \<and>
    pk_ips_prof_id q = mark_prof demo_attrs \<and> pk_cap_sec q = stamp_sec demo_attrs"
proof (rule nfq_recv_tcp_roundtrip)
  show "ip_fields (replicate 8 0) [0, 0] []" "tcp_fields [0, 0, 0, 0] [0, 0, 0, 0] []" by (simp_all add: ip_fields_def tcp_fields_def)
  show "sized_attrs demo_attrs"
    by (simp add: sized_attrs_def demo_attrs_def ip_packet_def tcp_segment_def NLA_ALIGN_def NLA_HDRLEN_def)
  show "0x300 AND 0xff = NFQNL_MSG_PACKET" "0x300 \<noteq> NLMSG_ERROR" "0x300 \<noteq> NLMSG_DONE"
    by (simp_all add: NFQNL_MSG_PACKET_def NLMSG_ERROR_def NLMSG_DONE_def)
  show "attr_named NFQA_PACKET_HDR demo_attrs = Some (be_bytes 4 (7 :: u32) @ [8, 0, 1])"
    by (simp add: attr_named_def demo_attrs_def NFQA_PACKET_HDR_def SG_NLA_TYPE_MASK_def)
  show "attr_named NFQA_PAYLOAD demo_attrs =
      Some (ip_packet (replicate 8 0) [0, 0] [] 6 1 2 (tcp_segment 1000 80 99 [0, 0, 0, 0] 0x18 512 [0, 0, 0, 0] [] [71, 69, 84]))"
    by (simp add: attr_named_def demo_attrs_def NFQA_PACKET_HDR_def NFQA_MARK_def NFQA_PAYLOAD_def SG_NLA_TYPE_MASK_def)
qed

end
