(* ===== verification/Ctdump_Correct.thy ===== *)
theory Ctdump_Correct
  imports Ctdump Nfq_Correct
begin

unbundle bit_operations_syntax

text \<open>
  The reader of connection tracking replies stays inside its datagram, the lookup request names exactly
  the flow it is asked for, and the features are the statistics they claim to be.
\<close>

section \<open>The request\<close>

text \<open>The three nests of the request.\<close>

definition ip_attrs :: "u32 \<Rightarrow> u32 \<Rightarrow> (u16 \<times> bytes) list" where
  "ip_attrs src dst = [(SG_CTA_IP_V4_SRC, be_bytes 4 src), (SG_CTA_IP_V4_DST, be_bytes 4 dst)]"

definition proto_attrs :: "u16 \<Rightarrow> u16 \<Rightarrow> u8 \<Rightarrow> (u16 \<times> bytes) list" where
  "proto_attrs sport dport proto =
     (SG_CTA_PROTO_NUM, [proto]) #
     (if proto = 6 \<or> proto = 17
      then [(SG_CTA_PROTO_SRC_PORT, be_bytes 2 sport), (SG_CTA_PROTO_DST_PORT, be_bytes 2 dport)] else [])"

definition tuple_attrs :: "u32 \<Rightarrow> u32 \<Rightarrow> u16 \<Rightarrow> u16 \<Rightarrow> u8 \<Rightarrow> (u16 \<times> bytes) list" where
  "tuple_attrs src dst sport dport proto =
     [(SG_CTA_TUPLE_IP OR SG_NLA_F_NESTED, attr_list (ip_attrs src dst)),
      (SG_CTA_TUPLE_PROTO OR SG_NLA_F_NESTED, attr_list (proto_attrs sport dport proto))]"

definition request_attrs :: "u32 \<Rightarrow> u32 \<Rightarrow> u16 \<Rightarrow> u16 \<Rightarrow> u8 \<Rightarrow> (u16 \<times> bytes) list" where
  "request_attrs src dst sport dport proto =
     [(SG_CTA_TUPLE_ORIG OR SG_NLA_F_NESTED, attr_list (tuple_attrs src dst sport dport proto))]"

lemma align_numerals: "NLA_ALIGN 5 = 8" "NLA_ALIGN 6 = 8" "NLA_ALIGN 8 = 8" "NLA_ALIGN 12 = 12" "NLA_ALIGN 20 = 20" "NLA_ALIGN 28 = 28"
  "NLA_ALIGN 36 = 36" "NLA_ALIGN 52 = 52" "NLA_ALIGN 56 = 56" "NLA_ALIGN 72 = 72" "NLA_ALIGN (Suc 4) = 8" "NLA_ALIGN (Suc (Suc 4)) = 8"
  by (simp_all add: NLA_ALIGN_def)

lemma request_lengths:
  "length (attr_list (ip_attrs src dst)) = 16"
  "length (attr_list (proto_attrs sport dport proto)) = (if proto = 6 \<or> proto = 17 then 24 else 8)"
  "length (attr_list (tuple_attrs src dst sport dport proto)) = (if proto = 6 \<or> proto = 17 then 48 else 32)"
  "length (attr_list (request_attrs src dst sport dport proto)) = (if proto = 6 \<or> proto = 17 then 52 else 36)"
  by (simp_all add: ip_attrs_def proto_attrs_def tuple_attrs_def request_attrs_def NLA_HDRLEN_def align_numerals)

lemma proto_building:
  assumes "building 512 buf w" "length w = 48"
  shows "\<exists>buf'. put_proto buf 48 512 sport dport proto = Some (buf', 48 + length (attr_list (proto_attrs sport dport proto))) \<and>
     building 512 buf' (w @ attr_list (proto_attrs sport dport proto))"
proof -
  obtain b1 where b1: "nla_put_raw buf 48 512 SG_CTA_PROTO_NUM [proto] = Some (b1, 56)" "building 512 b1 (w @ nla SG_CTA_PROTO_NUM [proto])"
    using nla_put_raw_building [OF assms(1), of "[proto]" SG_CTA_PROTO_NUM] assms(2) by (auto simp: align_numerals NLA_HDRLEN_def)
  obtain b2 where b2: "nla_put_raw b1 56 512 SG_CTA_PROTO_SRC_PORT (be_bytes 2 sport) = Some (b2, 64)"
      "building 512 b2 ((w @ nla SG_CTA_PROTO_NUM [proto]) @ nla SG_CTA_PROTO_SRC_PORT (be_bytes 2 sport))"
    using nla_put_raw_building [OF b1(2), of "be_bytes 2 sport" SG_CTA_PROTO_SRC_PORT] assms(2) by (auto simp: align_numerals NLA_HDRLEN_def)
  obtain b3 where b3: "nla_put_raw b2 64 512 SG_CTA_PROTO_DST_PORT (be_bytes 2 dport) = Some (b3, 72)"
      "building 512 b3 (((w @ nla SG_CTA_PROTO_NUM [proto]) @ nla SG_CTA_PROTO_SRC_PORT (be_bytes 2 sport)) @ nla SG_CTA_PROTO_DST_PORT (be_bytes 2 dport))"
    using nla_put_raw_building [OF b2(2), of "be_bytes 2 dport" SG_CTA_PROTO_DST_PORT] assms(2) by (auto simp: align_numerals NLA_HDRLEN_def)
  show ?thesis
    using b1 b2(1) b3 by (auto simp: put_proto_def proto_attrs_def align_numerals NLA_HDRLEN_def)
qed

lemma build_ct_get_msg:
  "build_ct_get 512 src dst sport dport proto =
     Some (nl_header (20 + length (attr_list (request_attrs src dst sport dport proto)))
       (push_bit 8 SG_NFNL_SUBSYS_CTNETLINK OR SG_IPCTNL_MSG_CT_GET) NLM_F_REQUEST 1 2 0 @
       attr_list (request_attrs src dst sport dport proto))"
proof -
  let ?w0 = "replicate 20 0 :: bytes"
  let ?h = "\<lambda>t. le_bytes 2 (4 :: u16) @ le_bytes 2 (t OR SG_NLA_F_NESTED)"
  let ?ip = "attr_list (ip_attrs src dst)" and ?pr = "attr_list (proto_attrs sport dport proto)"
  let ?tu = "attr_list (tuple_attrs src dst sport dport proto)"
  have w0: "building 512 (replicate 512 0) ?w0" using start_building [of 512] by simp
  obtain b1 where b1: "nla_nest_start (replicate 512 0) 20 512 SG_CTA_TUPLE_ORIG = Some (20, b1, 24)"
      "building 512 b1 (?w0 @ ?h SG_CTA_TUPLE_ORIG)"
    using nest_start_building [OF w0, of SG_CTA_TUPLE_ORIG] by auto
  obtain b2 where b2: "nla_nest_start b1 24 512 SG_CTA_TUPLE_IP = Some (24, b2, 28)"
      "building 512 b2 ((?w0 @ ?h SG_CTA_TUPLE_ORIG) @ ?h SG_CTA_TUPLE_IP)"
    using nest_start_building [OF b1(2), of SG_CTA_TUPLE_IP] by auto
  obtain b3 where b3: "nla_put_raw b2 28 512 SG_CTA_IP_V4_SRC (be_bytes 4 src) = Some (b3, 36)"
      "building 512 b3 (((?w0 @ ?h SG_CTA_TUPLE_ORIG) @ ?h SG_CTA_TUPLE_IP) @ nla SG_CTA_IP_V4_SRC (be_bytes 4 src))"
    using nla_put_raw_building [OF b2(2), of "be_bytes 4 src" SG_CTA_IP_V4_SRC] by (auto simp: align_numerals NLA_HDRLEN_def)
  obtain b4 where b4: "nla_put_raw b3 36 512 SG_CTA_IP_V4_DST (be_bytes 4 dst) = Some (b4, 44)"
      "building 512 b4 ((((?w0 @ ?h SG_CTA_TUPLE_ORIG) @ ?h SG_CTA_TUPLE_IP) @ nla SG_CTA_IP_V4_SRC (be_bytes 4 src)) @
         nla SG_CTA_IP_V4_DST (be_bytes 4 dst))"
    using nla_put_raw_building [OF b3(2), of "be_bytes 4 dst" SG_CTA_IP_V4_DST] by (auto simp: align_numerals NLA_HDRLEN_def)
  let ?w5 = "(?w0 @ ?h SG_CTA_TUPLE_ORIG) @ nla (SG_CTA_TUPLE_IP OR SG_NLA_F_NESTED) ?ip"
  have b5: "building 512 (nla_nest_end b4 24 44) ?w5"
    using nest_end_building [of 512 b4 "?w0 @ ?h SG_CTA_TUPLE_ORIG" "SG_CTA_TUPLE_IP OR SG_NLA_F_NESTED" ?ip] b4(2)
    by (simp add: ip_attrs_def align_numerals NLA_HDRLEN_def)
  obtain b6 where b6: "nla_nest_start (nla_nest_end b4 24 44) 44 512 SG_CTA_TUPLE_PROTO = Some (44, b6, 48)"
      "building 512 b6 (?w5 @ ?h SG_CTA_TUPLE_PROTO)"
    using nest_start_building [OF b5, of SG_CTA_TUPLE_PROTO] by (auto simp: request_lengths align_numerals NLA_HDRLEN_def)
  have l6: "length (?w5 @ ?h SG_CTA_TUPLE_PROTO) = 48" by (simp add: request_lengths align_numerals NLA_HDRLEN_def)
  obtain b7 where b7: "put_proto b6 48 512 sport dport proto = Some (b7, 48 + length ?pr)" "building 512 b7 ((?w5 @ ?h SG_CTA_TUPLE_PROTO) @ ?pr)"
    using proto_building [OF b6(2) l6, of sport dport proto] by auto
  have b8: "building 512 (nla_nest_end b7 44 (48 + length ?pr)) (?w5 @ nla (SG_CTA_TUPLE_PROTO OR SG_NLA_F_NESTED) ?pr)"
    using nest_end_building [of 512 b7 ?w5 "SG_CTA_TUPLE_PROTO OR SG_NLA_F_NESTED" ?pr] b7(2)
    by (simp add: request_lengths align_numerals NLA_HDRLEN_def add.commute)
  have b9: "building 512 (nla_nest_end (nla_nest_end b7 44 (48 + length ?pr)) 20 (48 + length ?pr))
      (?w0 @ nla (SG_CTA_TUPLE_ORIG OR SG_NLA_F_NESTED) ?tu)"
  proof -
    have "building 512 (nla_nest_end b7 44 (48 + length ?pr))
        (?w0 @ le_bytes 2 (4 :: u16) @ le_bytes 2 (SG_CTA_TUPLE_ORIG OR SG_NLA_F_NESTED) @ ?tu)"
      using b8 by (simp add: tuple_attrs_def)
    note b = nest_end_building [OF this attr_list_mod]
    have e: "20 + 4 + length ?tu = 48 + length ?pr" by (simp add: request_lengths)
    show ?thesis using b unfolding length_replicate e .
  qed
  let ?n = "20 + length (attr_list (request_attrs src dst sport dport proto))"
  let ?hd = "nl_header ?n (push_bit 8 SG_NFNL_SUBSYS_CTNETLINK OR SG_IPCTNL_MSG_CT_GET) NLM_F_REQUEST 1 2 0"
  have n: "48 + length ?pr = ?n" "NLA_ALIGN ?n = ?n" by (simp_all add: request_lengths align_numerals)
  let ?b9 = "nla_nest_end (nla_nest_end b7 44 ?n) 20 ?n"
  have "building 512 (put_at ?b9 0 ?hd) (?hd @ attr_list (request_attrs src dst sport dport proto))"
    using building_patch [of 512 ?b9 "[]" ?w0 _ ?hd] b9 by (simp add: n request_attrs_def)
  then have "take ?n (put_at ?b9 0 ?hd) = ?hd @ attr_list (request_attrs src dst sport dport proto)" by (simp add: building_def)
  then show ?thesis
    using b1(1) b2(1) b3(1) b4(1) b6(1) b7(1)
    by (simp add: build_ct_get_def Let_def nl_consts n split: if_splits)
qed

text \<open>Finding an attribute of a nest: where its payload stands.\<close>

lemma find_nested:
  assumes "at_off p a (attr_list as)" "\<forall>(ty, d) \<in> set as. length d \<le> 65531" "attr_named want as = Some d" "n = length (attr_list as)"
  obtains off where "nla_find p a (int n) want = Some (Some (off, length d))" "at_off p off d"
  using nla_find_attrs [OF assms(1,2), of want] assms(3,4) by auto

lemma find_missing:
  assumes "at_off p a (attr_list as)" "\<forall>(ty, d) \<in> set as. length d \<le> 65531" "attr_named want as = None" "n = length (attr_list as)"
  shows "nla_find p a (int n) want = Some None"
  using nla_find_attrs [OF assms(1,2), of want] assms(3,4) by auto

lemma request_sizes:
  "\<forall>(ty, d) \<in> set (request_attrs src dst sport dport proto). length d \<le> 65531"
  "\<forall>(ty, d) \<in> set (tuple_attrs src dst sport dport proto). length d \<le> 65531"
  "\<forall>(ty, d) \<in> set (ip_attrs src dst). length d \<le> 65531" "\<forall>(ty, d) \<in> set (proto_attrs sport dport proto). length d \<le> 65531"
  by (auto simp: request_attrs_def request_lengths(3) split: if_splits)
    (auto simp: tuple_attrs_def request_lengths ip_attrs_def proto_attrs_def NLA_HDRLEN_def align_numerals split: if_splits)

lemma request_named:
  "attr_named SG_CTA_TUPLE_ORIG (request_attrs src dst sport dport proto) = Some (attr_list (tuple_attrs src dst sport dport proto))"
  "attr_named SG_CTA_TUPLE_IP (tuple_attrs src dst sport dport proto) = Some (attr_list (ip_attrs src dst))"
  "attr_named SG_CTA_TUPLE_PROTO (tuple_attrs src dst sport dport proto) = Some (attr_list (proto_attrs sport dport proto))"
  "attr_named SG_CTA_IP_V4_SRC (ip_attrs src dst) = Some (be_bytes 4 src)"
  "attr_named SG_CTA_IP_V4_DST (ip_attrs src dst) = Some (be_bytes 4 dst)"
  "attr_named SG_CTA_PROTO_NUM (proto_attrs sport dport proto) = Some [proto]"
  "attr_named SG_CTA_PROTO_SRC_PORT (proto_attrs sport dport proto) = (if proto = 6 \<or> proto = 17 then Some (be_bytes 2 sport) else None)"
  "attr_named SG_CTA_PROTO_DST_PORT (proto_attrs sport dport proto) = (if proto = 6 \<or> proto = 17 then Some (be_bytes 2 dport) else None)"
  by (simp_all add: attr_named_def request_attrs_def tuple_attrs_def ip_attrs_def proto_attrs_def SG_CTA_TUPLE_ORIG_def SG_CTA_TUPLE_IP_def
    SG_CTA_TUPLE_PROTO_def SG_CTA_IP_V4_SRC_def SG_CTA_IP_V4_DST_def SG_CTA_PROTO_NUM_def SG_CTA_PROTO_SRC_PORT_def
    SG_CTA_PROTO_DST_PORT_def SG_NLA_F_NESTED_def SG_NLA_TYPE_MASK_def)

lemma copy_field_at: "at_off p off v \<Longrightarrow> n = length v \<Longrightarrow> copy_field p (Some (off, k)) n upd f = Some (upd v f)"
  by (simp add: copy_field_def rd_bytes_at)

lemma copy_field_none [simp]: "copy_field p None n upd f = Some f"
  by (simp add: copy_field_def)

lemma parse_tuple_request:
  assumes "at_off p a (attr_list (request_attrs src dst sport dport proto))" "n = length (attr_list (request_attrs src dst sport dport proto))"
  shows "parse_tuple p a (int n) f =
    Some (0, if proto = 6 \<or> proto = 17
             then f\<lparr>cf_src_ip := src, cf_dst_ip := dst, cf_proto := proto, cf_sport := sport, cf_dport := dport\<rparr>
             else f\<lparr>cf_src_ip := src, cf_dst_ip := dst, cf_proto := proto\<rparr>)"
proof -
  note sz = request_sizes
  note nm = request_named
  obtain t where t: "nla_find p a (int n) SG_CTA_TUPLE_ORIG = Some (Some (t, length (attr_list (tuple_attrs src dst sport dport proto))))"
      "at_off p t (attr_list (tuple_attrs src dst sport dport proto))"
    using find_nested [OF assms(1) sz(1) nm(1) assms(2)] by blast
  obtain i where i: "nla_find p t (int (length (attr_list (tuple_attrs src dst sport dport proto)))) SG_CTA_TUPLE_IP =
      Some (Some (i, length (attr_list (ip_attrs src dst))))" "at_off p i (attr_list (ip_attrs src dst))"
    using find_nested [OF t(2) sz(2) nm(2) refl] by blast
  obtain r where r: "nla_find p t (int (length (attr_list (tuple_attrs src dst sport dport proto)))) SG_CTA_TUPLE_PROTO =
      Some (Some (r, length (attr_list (proto_attrs sport dport proto))))" "at_off p r (attr_list (proto_attrs sport dport proto))"
    using find_nested [OF t(2) sz(2) nm(3) refl] by blast
  obtain s d where s: "nla_find p i (int (length (attr_list (ip_attrs src dst)))) SG_CTA_IP_V4_SRC = Some (Some (s, 4))" "at_off p s (be_bytes 4 src)"
    and d: "nla_find p i (int (length (attr_list (ip_attrs src dst)))) SG_CTA_IP_V4_DST = Some (Some (d, 4))" "at_off p d (be_bytes 4 dst)"
    using find_nested [OF i(2) sz(3) nm(4) refl] find_nested [OF i(2) sz(3) nm(5) refl] by (metis length_be_bytes)
  let ?n = "int (length (attr_list (proto_attrs sport dport proto)))"
  obtain u where u: "nla_find p r ?n SG_CTA_PROTO_NUM = Some (Some (u, 1))" "at_off p u [proto]"
    using find_nested [OF r(2) sz(4) nm(6) refl] by (metis One_nat_def list.size(3,4) add_0 plus_1_eq_Suc add.commute)
  show ?thesis
  proof (cases "proto = 6 \<or> proto = 17")
    case True
    then obtain v w where v: "nla_find p r ?n SG_CTA_PROTO_SRC_PORT = Some (Some (v, 2))" "at_off p v (be_bytes 2 sport)"
      and w: "nla_find p r ?n SG_CTA_PROTO_DST_PORT = Some (Some (w, 2))" "at_off p w (be_bytes 2 dport)"
      using find_nested [OF r(2) sz(4) nm(7) [THEN trans] refl, of "be_bytes 2 sport"]
        find_nested [OF r(2) sz(4) nm(8) [THEN trans] refl, of "be_bytes 2 dport"] by (metis length_be_bytes)
    show ?thesis
      using True t(1) i(1) r(1) s(1) d(1) u(1) v(1) w(1) copy_field_at [OF s(2)] copy_field_at [OF d(2)] copy_field_at [OF u(2)]
        copy_field_at [OF v(2)] copy_field_at [OF w(2)]
      by (simp add: parse_tuple_def of_be_be_bytes)
  next
    case False
    then have "nla_find p r ?n SG_CTA_PROTO_SRC_PORT = Some None" "nla_find p r ?n SG_CTA_PROTO_DST_PORT = Some None"
      using find_missing [OF r(2) sz(4) nm(7) [THEN trans] refl] find_missing [OF r(2) sz(4) nm(8) [THEN trans] refl] by simp_all
    then show ?thesis
      using False t(1) i(1) r(1) s(1) d(1) u(1) copy_field_at [OF s(2)] copy_field_at [OF d(2)] copy_field_at [OF u(2)]
      by (simp add: parse_tuple_def of_be_be_bytes)
  qed
qed

text \<open>
  C34. The lookup asks for the right flow: the request for a flow always fits its buffer, and reading its tuple
  with the code that reads the kernel's replies gives back the addresses, the protocol and, for TCP and UDP, the
  ports.
\<close>

theorem ct_get_roundtrip:
  "\<exists>msg. build_ct_get 512 src dst sport dport proto = Some msg \<and>
     parse_tuple msg 20 (int (length msg) - 20) cf_zero =
       Some (0, if proto = 6 \<or> proto = 17
                then cf_zero\<lparr>cf_src_ip := src, cf_dst_ip := dst, cf_proto := proto, cf_sport := sport, cf_dport := dport\<rparr>
                else cf_zero\<lparr>cf_src_ip := src, cf_dst_ip := dst, cf_proto := proto\<rparr>)"
proof -
  let ?as = "attr_list (request_attrs src dst sport dport proto)"
  let ?h = "nl_header (20 + length ?as) (push_bit 8 SG_NFNL_SUBSYS_CTNETLINK OR SG_IPCTNL_MSG_CT_GET) NLM_F_REQUEST 1 2 0"
  have a: "at_off (?h @ ?as) 20 ?as" by (simp add: at_off_def)
  have "int (length (?h @ ?as)) - 20 = int (length ?as)" by simp
  then show ?thesis unfolding build_ct_get_msg using parse_tuple_request [OF a refl, of cf_zero] by metis
qed

section \<open>Safety of the reader\<close>

lemma find_inside:
  assumes "int a + len \<le> int (length p)"
  obtains "nla_find p a len want = Some None"
    | off n where "nla_find p a len want = Some (Some (off, n))" "off + n \<le> length p"
  using nla_find_safe [OF assms, of want] assms that by force

lemma rd_bytes_inside: "off + n \<le> length p \<Longrightarrow> k \<le> n \<Longrightarrow> rd_bytes p off k = Some (take k (drop off p))"
  by (simp add: rd_bytes_def)

lemma read_ml_safe: "int a + len \<le> int (length p) \<Longrightarrow> \<exists>r. read_ml p a len out = Some r"
  by (erule find_inside [of a len p SG_CTA_ML]) (auto simp: read_ml_def rd_bytes_inside)

lemma read_mark_safe: "int a + len \<le> int (length p) \<Longrightarrow> \<exists>r. read_mark p a len out = Some r"
  by (erule find_inside [of a len p CT_MARK_ATTR]) (auto simp: read_mark_def rd_bytes_inside)

lemma counter_pkts_safe:
  assumes "int a + len \<le> int (length p)"
  shows "\<exists>r. counter_pkts p a len nest = Some r"
proof (rule find_inside [OF assms, of nest])
  fix off n assume f: "nla_find p a len nest = Some (Some (off, n))" "off + n \<le> length p"
  have "int off + int n \<le> int (length p)" using f(2) by simp
  from find_inside [OF this, of SG_CTA_COUNTERS_PKTS] show ?thesis
    using f(1) by cases (auto simp: counter_pkts_def rd_bytes_inside)
qed (simp add: counter_pkts_def)

lemma parse_response_safe:
  assumes "int a + len \<le> int (length p)"
  shows "\<exists>r. ctdump_parse_response p a len = Some r"
proof -
  obtain r1 co cr where r: "read_ml p a len ct_zero = Some r1" "counter_pkts p a len SG_CTA_COUNTERS_ORIG = Some co"
      "counter_pkts p a len SG_CTA_COUNTERS_REPLY = Some cr"
    using read_ml_safe [OF assms] counter_pkts_safe [OF assms] by metis
  obtain r4 where "\<And>out. read_mark p a len out = Some (r4 out)" using read_mark_safe [OF assms] by metis
  then show ?thesis using r by (simp add: ctdump_parse_response_def Let_def)
qed

text \<open>The walk over a datagram hands the body only messages that are inside it.\<close>

lemma nlmsg_walk_safe:
  assumes f: "\<And>nh ml s. nh + ml \<le> length p \<Longrightarrow> 16 \<le> ml \<Longrightarrow> \<exists>r. f nh ml s = Some r" and "int nh + rem \<le> int (length p)"
  shows "\<exists>r. nlmsg_walk f p nh rem s = Some r"
  using assms(2)
proof (induction "nat rem" arbitrary: nh rem s rule: less_induct)
  case less
  show ?case
  proof (cases "rem \<ge> 16")
    case True
    then obtain lb where lb: "rd_bytes p nh 4 = Some lb" using less(2) by (simp add: rd_bytes_def)
    let ?ml = "unat (of_le lb :: u32)"
    show ?thesis
    proof (cases "?ml < 16 \<or> int ?ml > rem")
      case False
      then have "nh + ?ml \<le> length p" "16 \<le> ?ml" using less(2) by linarith+
      then obtain r where r: "f nh ?ml s = Some r" using f by blast
      have "\<exists>q. nlmsg_walk f p (nh + NLA_ALIGN ?ml) (rem - int (NLA_ALIGN ?ml)) s' = Some q" for s'
      proof (rule less(1))
        have "0 < NLA_ALIGN ?ml" using False NLA_ALIGN_ge [of ?ml] by linarith
        then show "nat (rem - int (NLA_ALIGN ?ml)) < nat rem" using True by linarith
      qed (use less(2) in simp)
      then show ?thesis using True False lb r by (subst nlmsg_walk.simps) (auto simp: nl_consts Let_def split: sum.split)
    qed (use True lb in \<open>subst nlmsg_walk.simps, auto simp: nl_consts\<close>)
  qed (subst nlmsg_walk.simps, simp add: nl_consts)
qed

lemma query_msg_safe:
  assumes "nh + ml \<le> length p" "16 \<le> ml"
  shows "\<exists>r. query_msg p nh ml u = Some r"
proof -
  have "int (20 + nh) + (int ml - 20) \<le> int (length p)" using assms(1) by simp
  then obtain r where "ctdump_parse_response p (20 + nh) (int ml - 20) = Some r" using parse_response_safe by blast
  then show ?thesis using assms by (simp add: query_msg_def nlmsg_type_def rd_bytes_def attrs_of_def nl_consts add.commute)
qed

text \<open>
  Whatever bytes answer a lookup (or none at all), the reader terminates without looking outside the
  datagram: the walk over the messages, the search in the attributes and in the nested counters, and the copy
  of the accumulator block are all bounded by it.
\<close>

theorem ctdump_query_safe: "\<exists>r. ctdump_query reply = Some r"
proof (cases reply)
  case (Some p)
  then show ?thesis
    using nlmsg_walk_safe [of p "query_msg p" 0 "int (length p)" "()"] query_msg_safe by (auto simp: ctdump_query_def)
qed (simp add: ctdump_query_def)

text \<open>
  The reader of the dump is not that careful: it copies a fixed number of bytes from an attribute without
  looking at its length. An address attribute without a payload at the end of the datagram makes it read on.
\<close>

lemma le_bytes_2: "le_bytes 2 w = [ucast w, ucast (drop_bit 8 w)]"
  by (simp add: le_bytes_def numeral_2_eq_2)

lemma parse_tuple_overread:
  "parse_tuple (attr_list [(SG_CTA_TUPLE_ORIG, attr_list [(SG_CTA_TUPLE_IP, attr_list [(SG_CTA_IP_V4_SRC, [])])])]) 0 12 cf_zero = None"
proof -
  have al: "NLA_ALIGN 4 = 4" "NLA_ALIGN 8 = 8" "NLA_ALIGN 12 = 12" by (simp_all add: NLA_ALIGN_def)
  define p where "p = attr_list [(SG_CTA_TUPLE_ORIG, attr_list [(SG_CTA_TUPLE_IP, attr_list [(SG_CTA_IP_V4_SRC, [])])])]"
  have e: "p = [12, 0, 1, 0, 8, 0, 1, 0, 4, 0, 1, 0]"
    by (simp add: p_def nla_def le_bytes_2 NLA_HDRLEN_def al SG_CTA_TUPLE_ORIG_def SG_CTA_TUPLE_IP_def SG_CTA_IP_V4_SRC_def)
  have f: "nla_find p 0 12 1 = Some (Some (4, 8))" "nla_find p 4 8 1 = Some (Some (8, 4))" "nla_find p 8 4 1 = Some (Some (12, 0))"
      "nla_find p 12 0 2 = Some None" "nla_find p 8 4 2 = nla_find p 12 0 2"
    by (subst nla_find.simps, simp add: e rd_bytes_def of_le_def of_be_def NLA_HDRLEN_def al SG_NLA_TYPE_MASK_def)+
  show ?thesis
    unfolding p_def [symmetric]
    unfolding parse_tuple_def SG_CTA_TUPLE_ORIG_def SG_CTA_TUPLE_IP_def SG_CTA_IP_V4_SRC_def SG_CTA_IP_V4_DST_def
    by (simp add: f copy_field_def rd_bytes_def) (simp add: e)
qed

section \<open>Features\<close>

definition mean :: "nat list \<Rightarrow> real" where
  "mean xs = (if xs = [] then 0 else real (sum_list xs) / real (length xs))"

definition variance :: "nat list \<Rightarrow> real" where
  "variance xs = (if length xs < 2 then 0 else (\<Sum>x\<leftarrow>xs. (real x - mean xs)\<^sup>2) / real (length xs - 1))"

lemma sum_deviations:
  "(\<Sum>x\<leftarrow>xs. (real x - m)\<^sup>2) = real (\<Sum>x\<leftarrow>xs. x\<^sup>2) - 2 * m * real (sum_list xs) + real (length xs) * m\<^sup>2"
  by (induction xs) (auto simp: power2_eq_square algebra_simps)

lemma sample_var_variance: "sample_var (real (sum_list xs)) (real (\<Sum>x\<leftarrow>xs. x\<^sup>2)) (length xs) = variance xs"
proof (cases "length xs < 2")
  case False
  let ?n = "real (length xs)" and ?s = "real (sum_list xs)"
  have n: "?n > 0" "xs \<noteq> []" using False by auto
  have "(\<Sum>x\<leftarrow>xs. (real x - mean xs)\<^sup>2) = real (\<Sum>x\<leftarrow>xs. x\<^sup>2) - ?s * ?s / ?n"
    using n unfolding sum_deviations mean_def by (simp add: field_simps power2_eq_square)
  moreover have "(\<Sum>x\<leftarrow>xs. (real x - mean xs)\<^sup>2) \<ge> 0" by (rule sum_list_nonneg) auto
  ultimately have v: "variance xs = (real (\<Sum>x\<leftarrow>xs. x\<^sup>2) - ?s * ?s / ?n) / real (length xs - 1)" "variance xs \<ge> 0"
    using False by (simp_all add: variance_def)
  show ?thesis using False v(2) unfolding sample_var_def Let_def v(1) [symmetric] by auto
qed (simp add: sample_var_def variance_def)


definition demo_ml :: sg_nf_conn_ml where
  "demo_ml = (ml_of_bytes [])\<lparr>ml_pktlen_sum := 6, ml_pktlen_sq_sum := 20, ml_pktlen_count := 2, ml_iat_sum_us := 10,
     ml_flow_iat_sq_sum := 100, ml_iat_count := 1\<rparr>"


end
