(* ===== verification/Ips_Packet.thy ===== *)
theory Ips_Packet
  imports Stream_Inspection Proto_Buf Ctdump_Correct
begin

unbundle bit_operations_syntax

text \<open>
  The packet loop of the intrusion prevention daemon (\<open>src/src/userspace/ipsd/main.c\<close>): the table of flows,
  the callback that judges a hit of the streaming matcher, and the decision on one packet. This theory
  holds the definitions; \<open>Ips_Packet_Correct\<close> proves them.

  Conventions: \<open>g_flows\<close> is a list of slots. A flow's \<open>ac\<close> pointer is compared as an address and followed as a
  value, so a slot keeps the address of the ruleset it is bound to (\<open>sl_ac_addr\<close>) and the automaton is the one
  that the active ruleset holds at that address when the pointer is followed. The two pointers to the flowbits of
  a slot (in the match context and in the flow context) are one field of the match context. The lookup in
  connection tracking, the clock, the score of the model and the regular expression engine are arguments; a read
  outside a buffer is the result \<open>None\<close>. The lock around the ruleset is not modelled: a packet is judged against
  one ruleset.
\<close>

section \<open>The table of flows\<close>

definition FLOW_BUCKETS :: nat where "FLOW_BUCKETS = 512"

record flow_key =
  fk_ip_a :: u32
  fk_ip_b :: u32
  fk_port_a :: u16
  fk_port_b :: u16
  fk_proto :: u8
  fk_used :: bool

record flow_slot =
  sl_key :: flow_key
  sl_init_ip :: u32
  sl_init_port :: u16
  sl_rf :: reass_flow
  sl_ac_addr :: nat
  sl_fb :: flowbit_state
  sl_ml_done :: bool
  sl_is_tls :: int
  sl_profid :: u8

definition flow_build_key :: "u32 \<Rightarrow> u16 \<Rightarrow> u32 \<Rightarrow> u16 \<Rightarrow> u8 \<Rightarrow> flow_key" where
  "flow_build_key sip sp dip dp proto =
     (let a_first = (if sip \<noteq> dip then sip < dip else sp \<le> dp)
      in if a_first
         then \<lparr>fk_ip_a = sip, fk_ip_b = dip, fk_port_a = sp, fk_port_b = dp, fk_proto = proto, fk_used = True\<rparr>
         else \<lparr>fk_ip_a = dip, fk_ip_b = sip, fk_port_a = dp, fk_port_b = sp, fk_proto = proto, fk_used = True\<rparr>)"

definition flow_hash :: "flow_key \<Rightarrow> u32" where
  "flow_hash k =
     (let h = 2166136261;
          h = (h XOR fk_ip_a k) * 16777619;
          h = (h XOR fk_ip_b k) * 16777619;
          h = (h XOR (push_bit 16 (ucast (fk_port_a k)) OR ucast (fk_port_b k))) * 16777619
      in (h XOR ucast (fk_proto k)) * 16777619)"

definition flow_key_eq :: "flow_key \<Rightarrow> flow_key \<Rightarrow> bool" where
  "flow_key_eq a b \<longleftrightarrow> fk_used a \<and> fk_used b \<and> fk_ip_a a = fk_ip_a b \<and> fk_ip_b a = fk_ip_b b \<and>
     fk_port_a a = fk_port_a b \<and> fk_port_b a = fk_port_b b \<and> fk_proto a = fk_proto b"

definition flow_bucket :: "flow_key \<Rightarrow> nat" where
  "flow_bucket k = unat (flow_hash k) mod FLOW_BUCKETS"

definition fb_clean :: flowbit_state where
  "fb_clean = replicate SIG_FB_WORDS 0"

text \<open>
  \<open>flow_get\<close>: the table, and the bucket with the direction, or \<open>None\<close> when memory ran out. \<open>alloc\<close> and \<open>junk\<close> are
  the allocator; \<open>addr\<close> is the address of the ruleset that owns \<open>ac\<close>.
\<close>

definition flow_get ::
  "(nat \<Rightarrow> u8) \<Rightarrow> (nat \<Rightarrow> bool) \<Rightarrow> flow_slot list \<Rightarrow> nfq_pkt \<Rightarrow> nat \<Rightarrow> ac_automaton \<Rightarrow> flow_slot list \<times> (nat \<times> nat) option" where
  "flow_get junk alloc flows pkt addr ac =
     (let k = flow_build_key (pk_src_ip pkt) (pk_sport pkt) (pk_dst_ip pkt) (pk_dport pkt) (pk_proto pkt);
          b = flow_bucket k;
          s = flows ! b;
          (ok, s1) =
            (if \<not> flow_key_eq (sl_key s) k then
               (let s0 = (if fk_used (sl_key s) then s\<lparr>sl_rf := reass_flow_free (sl_rf s)\<rparr> else s);
                    (rc, rf) = reass_flow_init junk alloc (Some ac) 0
                in if rc \<noteq> 0 then (False, s0\<lparr>sl_rf := rf, sl_ac_addr := 0, sl_key := (sl_key s0)\<lparr>fk_used := False\<rparr>\<rparr>)
                   else (True, s0\<lparr>sl_rf := rf, sl_ac_addr := addr, sl_key := k, sl_init_ip := pk_src_ip pkt,
                                  sl_init_port := pk_sport pkt, sl_fb := fb_clean, sl_ml_done := False, sl_is_tls := 0,
                                  sl_profid := 0\<rparr>))
             else (True, s))
      in if \<not> ok then (flows[b := s1], None)
         else
           let s2 = (if pk_ips_prof_id pkt \<noteq> 0 then s1\<lparr>sl_profid := pk_ips_prof_id pkt\<rparr> else s1);
               to_server = (pk_src_ip pkt = sl_init_ip s2 \<and> pk_sport pkt = sl_init_port s2)
           in (flows[b := s2], Some (b, if to_server then 0 else 1)))"

section \<open>Hits on the stream\<close>

text \<open>
  \<open>struct l2_match\<close>. \<open>lm_best\<close> is \<open>None\<close> while \<open>best_idx\<close> is -1; \<open>lm_bufs\<close> is \<open>None\<close> while \<open>bufs_ready\<close> is 0 and
  carries the direction and length it was made for; \<open>lm_bad\<close> records a read outside the stream.
\<close>

record l2_match =
  lm_fc :: flow_ctx
  lm_fb :: flowbit_state
  lm_best :: "(nat \<times> sig_action) option"
  lm_bufs :: "(nat \<times> nat \<times> match_buffers) option"
  lm_ac_raw :: u64
  lm_bad :: bool

text \<open>The regions of the stream, made again when the direction or the length has changed.\<close>

definition stream_bufs :: "nat \<Rightarrow> bytes \<Rightarrow> (nat \<times> nat \<times> match_buffers) option \<Rightarrow> match_buffers option" where
  "stream_bufs dir s cache =
     (case cache of
        Some (d, n, mb) \<Rightarrow> if d \<noteq> dir \<or> n \<noteq> length s then bufs_extract (bufs_init_raw s) s else Some mb
      | None \<Rightarrow> bufs_extract (bufs_init_raw s) s)"

text \<open>What a verified rule does to the context, and whether the scan stops.\<close>

definition l2_verified :: "'p sig_rule \<Rightarrow> nat \<Rightarrow> l2_match \<Rightarrow> bool \<times> l2_match" where
  "l2_verified r rule_id m =
     (let m1 = m\<lparr>lm_fb := the (sig_flowbits_apply r (Some (lm_fb m)))\<rparr> in
      if r_fb_noalert r then (False, m1)
      else
        let action = capped_action r (fc_prof_id (lm_fc m));
            m2 = (if map_option snd (lm_best m1) < Some action then m1\<lparr>lm_best := Some (rule_id, action)\<rparr> else m1)
        in (map_option snd (lm_best m2) = Some SIG_DROP, m2))"

definition l2_on_match :: "'p pcre_match \<Rightarrow> 'p sig_ruleset \<Rightarrow> l2_match reass_match_cb" where
  "l2_on_match pcre_match rs rf rule_id end_off dir m0 =
     (let m = m0\<lparr>lm_ac_raw := lm_ac_raw m0 + 1\<rparr> in
      case reass_dir_buf rf (int dir) of
        None \<Rightarrow> (False, m)
      | Some (buf, clen) \<Rightarrow>
          let s = take clen buf in
          (case stream_bufs dir s (lm_bufs m) of
             None \<Rightarrow> (True, m\<lparr>lm_bad := True\<rparr>)
           | Some mb \<Rightarrow>
               let m1 = m\<lparr>lm_bufs := Some (dir, length s, mb), lm_fc := (lm_fc m)\<lparr>fc_bufs := Some mb\<rparr>\<rparr> in
               (case sig_verify pcre_match rs (int rule_id) s ((lm_fc m1)\<lparr>fc_fb := Some (lm_fb m1)\<rparr>) of
                  None \<Rightarrow> (True, m1\<lparr>lm_bad := True\<rparr>)
                | Some False \<Rightarrow> (False, m1)
                | Some True \<Rightarrow> l2_verified (rs_rules rs ! rule_id) rule_id m1)))"

section \<open>One packet\<close>

definition make_failclosed :: "ips_config \<Rightarrow> ips_decision" where
  "make_failclosed cfg =
     \<lparr>d_verdict = (if cfg_mode cfg = IPS_MODE_DETECT then IPS_ALERT else IPS_DROP), d_reason = IPS_R_SIGNATURE,
      d_sig_rule = None, d_score = -1, d_ml_evaluated = False, d_matched_sid = 0,
      d_matched_msg = ''reassembly anomaly (gap/overflow) fail-closed''\<rparr>"

definition looks_like_tls :: "bytes \<Rightarrow> bool" where
  "looks_like_tls p \<longleftrightarrow> length p \<ge> 3 \<and> p ! 0 = 0x16 \<and> p ! 1 = 0x03 \<and> p ! 2 \<le> 0x04"

text \<open>The daemon's counters.\<close>

record ipsd_stats =
  g_pkt_accept :: u64
  g_pkt_drop :: u64
  g_anomaly_hits :: u64
  g_l2_hits :: u64
  g_ml_hits :: u64
  g_ac_raw :: u64
  g_flow_oom :: u64
  g_tcp_payload :: u64
  g_reass_fed :: u64
  g_alert_logged :: u64

record ipsd_state =
  st_flows :: "flow_slot list"
  st_stats :: ipsd_stats

text \<open>What connection tracking and the clock say while a packet is handled.\<close>

record pkt_env =
  en_ct :: "ctdump_result option"
  en_now :: u64
  en_junk :: "nat \<Rightarrow> u8"
  en_alloc :: "nat \<Rightarrow> bool"

text \<open>The stream stage on the slot of the flow: the slot afterwards, the decision and the counters.\<close>

definition l2_start :: "flow_ctx \<Rightarrow> flow_slot \<Rightarrow> u64 \<Rightarrow> l2_match" where
  "l2_start fc slot raw =
     \<lparr>lm_fc = fc, lm_fb = sl_fb slot, lm_best = None, lm_bufs = None, lm_ac_raw = raw, lm_bad = False\<rparr>"

text \<open>
  Binding the flow to the active ruleset: a new address rescans the window, the same address follows the
  pointer to the automaton that is there now.
\<close>

definition l2_bind ::
  "'p pcre_match \<Rightarrow> nat \<Rightarrow> 'p sig_ruleset \<Rightarrow> flow_slot \<Rightarrow> l2_match \<Rightarrow> (flow_slot \<times> l2_match) option" where
  "l2_bind pcre_match addr rs slot m =
     (if sl_ac_addr slot \<noteq> addr then
        (case reass_flow_rebind (sl_rf slot) (Some (rs_ac rs)) (Some (l2_on_match pcre_match rs)) (m\<lparr>lm_fb := fb_clean\<rparr>) of
           None \<Rightarrow> None
         | Some (rf', m') \<Rightarrow> Some (slot\<lparr>sl_rf := rf', sl_ac_addr := addr\<rparr>, m'))
      else Some (slot\<lparr>sl_rf := (sl_rf slot)\<lparr>rf_ac := Some (rs_ac rs)\<rparr>\<rparr>, m))"

definition tls_probe :: "nfq_pkt \<Rightarrow> nat \<Rightarrow> flow_slot \<Rightarrow> flow_slot" where
  "tls_probe pkt dir slot =
     (case pk_payload pkt of
        Some pl \<Rightarrow>
          if sl_is_tls slot = 0 \<and> dir = 0 \<and> pl \<noteq> [] then slot\<lparr>sl_is_tls := (if looks_like_tls pl then 1 else -1)\<rparr> else slot
      | None \<Rightarrow> slot)"

definition l2_segment ::
  "'p pcre_match \<Rightarrow> 'p sig_ruleset \<Rightarrow> nfq_pkt \<Rightarrow> nat \<Rightarrow> flow_slot \<Rightarrow> ipsd_stats \<Rightarrow> l2_match \<Rightarrow>
   (int \<times> flow_slot \<times> ipsd_stats \<times> l2_match) option" where
  "l2_segment pcre_match rs pkt dir slot st m =
     (case pk_payload pkt of
        None \<Rightarrow> Some (REASS_OK, slot, st, m)
      | Some pl \<Rightarrow>
          if sl_is_tls slot \<noteq> 1 \<and> pl \<noteq> [] then
            (case reass_segment (g_reass_fed st) (sl_rf slot) (int dir) (pk_tcp_seq pkt) (Some pl)
                    (Some (l2_on_match pcre_match rs)) m of
               None \<Rightarrow> None
             | Some (rc, fed, rf, m') \<Rightarrow>
                 Some (rc, slot\<lparr>sl_rf := rf\<rparr>, st\<lparr>g_tcp_payload := g_tcp_payload st + 1, g_reass_fed := fed\<rparr>, m'))
          else Some (REASS_OK, slot, st, m))"

text \<open>The checkpoint: whether the model is asked about the flow now.\<close>

definition ml_checkpoint :: "nfq_pkt \<Rightarrow> flow_slot \<Rightarrow> ctdump_result \<Rightarrow> flow_stats \<Rightarrow> u64 \<Rightarrow> bool" where
  "ml_checkpoint pkt slot ctr fs now \<longleftrightarrow>
     (let n = fs_pkts_fwd fs + fs_pkts_bwd fs;
          first = ml_first_ns (ct_ml ctr);
          age = (if first \<noteq> 0 \<and> now > first then now - first else 0);
          fin_rst = (pk_tcp_flags pkt AND (SIG_TCP_FIN OR SIG_TCP_RST) \<noteq> 0)
      in fin_rst \<or> n \<ge> ML_CKP_PKTS \<or> age \<ge> ML_CKP_AGE_NS \<or> reass_inspected_bytes (sl_rf slot) \<ge> REASS_MAX_BYTES)"

text \<open>The stage behind the signatures: the decision, the slot and whether the flow is offloaded.\<close>

definition ml_stage ::
  "(real list \<Rightarrow> real) \<Rightarrow> ips_config \<Rightarrow> nfq_pkt \<Rightarrow> pkt_env \<Rightarrow> flow_slot \<Rightarrow> ips_decision \<Rightarrow> ips_decision \<times> flow_slot \<times> bool" where
  "ml_stage ips_score cfg pkt env slot d =
     (case en_ct env of
        None \<Rightarrow> (d, slot, False)
      | Some ctr \<Rightarrow>
          let fs = ctdump_to_flow_stats ctr in
          if d_verdict d = IPS_PASS \<and> d_sig_rule d = None \<and> \<not> sl_ml_done slot \<and> ct_ml_valid ctr \<and>
             ml_checkpoint pkt slot ctr fs (en_now env) then
            let win = ml_init_win_fwd (ct_ml ctr);
                iwin = (if win \<noteq> 0 then sint win else -1);
                d' = ips_ml_eval ips_score ctr (fs_pkts_fwd fs) (fs_pkts_bwd fs) iwin cfg
            in (d', slot\<lparr>sl_ml_done := True\<rparr>, d_verdict d' \<noteq> IPS_DROP)
          else (d, slot, False))"

text \<open>The context of the stream stage: the real direction, and the profile remembered for the reply direction.\<close>

definition stage_ctx :: "nat \<Rightarrow> flow_slot \<Rightarrow> flow_ctx \<Rightarrow> flow_ctx" where
  "stage_ctx dir slot fc0 =
     (let fc = fc0\<lparr>fc_to_server := (dir = 0)\<rparr>
      in if fc_prof_id fc = 0 \<and> sl_profid slot \<noteq> 0 then fc\<lparr>fc_prof_id := unat (sl_profid slot)\<rparr> else fc)"

text \<open>The result of the stream stage in the form \<open>ips_evaluate_full\<close> takes it.\<close>

definition l2_result :: "l2_match \<Rightarrow> nat option \<times> sig_action" where
  "l2_result m = (case lm_best m of None \<Rightarrow> (None, SIG_ALERT) | Some (i, a) \<Rightarrow> (Some i, a))"

definition tcp_stage ::
  "'p pcre_match \<Rightarrow> (real list \<Rightarrow> real) \<Rightarrow> ips_config \<Rightarrow> nat \<Rightarrow> 'p sig_ruleset \<Rightarrow> pkt_env \<Rightarrow> nfq_pkt \<Rightarrow> nat \<Rightarrow> flow_ctx \<Rightarrow>
   flow_slot \<Rightarrow> ipsd_stats \<Rightarrow> (ips_decision \<times> bool \<times> flow_slot \<times> ipsd_stats) option" where
  "tcp_stage pcre_match ips_score cfg addr rs env pkt dir fc0 slot0 st =
     (let fc = stage_ctx dir slot0 fc0 in do {
        (slot1, m1) \<leftarrow> l2_bind pcre_match addr rs slot0 (l2_start fc slot0 (g_ac_raw st));
        (rrc, slot2, st2, m2) \<leftarrow> l2_segment pcre_match rs pkt dir (tls_probe pkt dir slot1) st m1;
        let slot3 = slot2\<lparr>sl_fb := lm_fb m2\<rparr>;
        let st3 = st2\<lparr>g_ac_raw := lm_ac_raw m2\<rparr>;
        if lm_bad m2 then None
        else do {
          d \<leftarrow> (if rrc = REASS_FAILCLOSED then Some (make_failclosed cfg)
                else ips_evaluate_full pcre_match cfg rs [] fc (Some (l2_result m2)));
          let (d', slot4, inspected) = ml_stage ips_score cfg pkt env slot3 d;
          Some (d', inspected, slot4, st3)
        }
      })"

record pkt_out =
  po_accept :: bool
  po_connmark :: u32
  po_cmask :: u32
  po_decision :: ips_decision
  po_verdict_msg :: "bytes option"

text \<open>Verdict, mark and counters for a decision.\<close>

definition pkt_verdict :: "u16 \<Rightarrow> nfq_pkt \<Rightarrow> ips_decision \<Rightarrow> bool \<Rightarrow> pkt_out" where
  "pkt_verdict qnum pkt d inspected =
     (let (accept, connmark, cmask) =
            (if d_verdict d = IPS_DROP then (False, SG_CMK_IPS_BLOCK, SG_CMK_IPS_MASK)
             else if inspected then (True, SG_CMK_IPS_INSPECTED, SG_CMK_IPS_INSPECTED) else (True, 0, 0))
      in \<lparr>po_accept = accept, po_connmark = connmark, po_cmask = cmask, po_decision = d,
          po_verdict_msg = nfq_verdict qnum (pk_id pkt) accept connmark cmask\<rparr>)"

definition count_verdict :: "pkt_out \<Rightarrow> ipsd_stats \<Rightarrow> ipsd_stats" where
  "count_verdict out st =
     (let st1 = (if po_accept out then st\<lparr>g_pkt_accept := g_pkt_accept st + 1\<rparr> else st\<lparr>g_pkt_drop := g_pkt_drop st + 1\<rparr>);
          d = po_decision out
      in if d_verdict d \<noteq> IPS_PASS
         then (let st2 = (if d_sig_rule d \<noteq> None then st1\<lparr>g_l2_hits := g_l2_hits st1 + 1\<rparr>
                          else st1\<lparr>g_ml_hits := g_ml_hits st1 + 1\<rparr>)
               in st2\<lparr>g_alert_logged := g_alert_logged st2 + 1\<rparr>)
         else st1)"

definition base_ctx :: "nfq_pkt \<Rightarrow> pkt_env \<Rightarrow> flow_ctx" where
  "base_ctx pkt env =
     (nfq_pkt_to_flow_ctx pkt)\<lparr>
       fc_established := (case en_ct env of None \<Rightarrow> False | Some ctr \<Rightarrow> fs_pkts_bwd (ctdump_to_flow_stats ctr) > 0),
       fc_to_server := True\<rparr>"

definition pay_bytes :: "nfq_pkt \<Rightarrow> bytes" where
  "pay_bytes pkt = (case pk_payload pkt of None \<Rightarrow> [] | Some pl \<Rightarrow> pl)"

definition process_packet ::
  "'p pcre_match \<Rightarrow> (real list \<Rightarrow> real) \<Rightarrow> u16 \<Rightarrow> ips_config \<Rightarrow> nat \<Rightarrow> 'p sig_ruleset \<Rightarrow> pkt_env \<Rightarrow> nfq_pkt \<Rightarrow> ipsd_state \<Rightarrow>
   (ipsd_state \<times> pkt_out) option" where
  "process_packet pcre_match ips_score qnum cfg addr rs env pkt state =
     (let fc = base_ctx pkt env; st = st_stats state in do {
        (d, inspected, flows', st') \<leftarrow>
          (if pk_proto pkt = 6 then
             (case flow_get (en_junk env) (en_alloc env) (st_flows state) pkt addr (rs_ac rs) of
                (flows1, Some (b, dir)) \<Rightarrow>
                  map_option (\<lambda>(d, inspected, slot, st'). (d, inspected, flows1[b := slot], st'))
                    (tcp_stage pcre_match ips_score cfg addr rs env pkt dir fc (flows1 ! b) st)
              | (flows1, None) \<Rightarrow>
                  map_option (\<lambda>d. (d, False, flows1, st\<lparr>g_flow_oom := g_flow_oom st + 1\<rparr>))
                    (ips_evaluate pcre_match cfg rs (pay_bytes pkt) fc))
           else
             map_option (\<lambda>d. (d, False, st_flows state, st)) (ips_evaluate pcre_match cfg rs (pay_bytes pkt) fc));
        let out = pkt_verdict qnum pkt d inspected;
        Some (\<lparr>st_flows = flows', st_stats = count_verdict out st'\<rparr>, out)
      })"

end
