(* ===== verification/Ips_Packet_Correct.thy ===== *)
theory Ips_Packet_Correct
  imports Ips_Packet
begin

unbundle bit_operations_syntax

text \<open>
  The packet loop keeps its promises: both directions of a connection share one slot, nothing is dropped in
  detect mode, the model judges a flow at most once, and an attack that the stream completes is dropped.
\<close>

section \<open>The table of flows\<close>

definition pkt_key :: "nfq_pkt \<Rightarrow> flow_key" where
  "pkt_key pkt = flow_build_key (pk_src_ip pkt) (pk_sport pkt) (pk_dst_ip pkt) (pk_dport pkt) (pk_proto pkt)"

lemma flow_build_key_sym: "flow_build_key a p b q pr = flow_build_key b q a p pr"
  by (auto simp: flow_build_key_def Let_def)

lemma flow_build_key_used [simp]: "fk_used (flow_build_key a p b q pr)"
  by (simp add: flow_build_key_def Let_def)

lemma flow_key_eq_iff: "flow_key_eq a b \<longleftrightarrow> a = b \<and> fk_used a"
  by (cases a; cases b) (auto simp: flow_key_eq_def)

lemma flow_bucket_less [simp]: "flow_bucket k < FLOW_BUCKETS"
  by (simp add: flow_bucket_def FLOW_BUCKETS_def)

text \<open>The slot of a packet after \<open>flow_get\<close>, when its flow is already there or is created.\<close>

definition fresh_slot :: "flow_slot \<Rightarrow> reass_flow \<Rightarrow> nat \<Rightarrow> nfq_pkt \<Rightarrow> flow_slot" where
  "fresh_slot s rf addr pkt =
     s\<lparr>sl_rf := rf, sl_ac_addr := addr, sl_key := pkt_key pkt, sl_init_ip := pk_src_ip pkt, sl_init_port := pk_sport pkt,
       sl_fb := fb_clean, sl_ml_done := False, sl_is_tls := 0, sl_profid := 0\<rparr>"

definition note_prof :: "nfq_pkt \<Rightarrow> flow_slot \<Rightarrow> flow_slot" where
  "note_prof pkt s = (if pk_ips_prof_id pkt \<noteq> 0 then s\<lparr>sl_profid := pk_ips_prof_id pkt\<rparr> else s)"

lemma note_prof_simps [simp]:
  "sl_key (note_prof pkt s) = sl_key s" "sl_rf (note_prof pkt s) = sl_rf s" "sl_ac_addr (note_prof pkt s) = sl_ac_addr s"
  "sl_fb (note_prof pkt s) = sl_fb s" "sl_ml_done (note_prof pkt s) = sl_ml_done s" "sl_is_tls (note_prof pkt s) = sl_is_tls s"
  "sl_init_ip (note_prof pkt s) = sl_init_ip s" "sl_init_port (note_prof pkt s) = sl_init_port s"
  by (simp_all add: note_prof_def)

lemma flow_get_known:
  assumes "sl_key (flows ! flow_bucket (pkt_key pkt)) = pkt_key pkt"
  shows "flow_get junk alloc flows pkt addr ac =
    (flows[flow_bucket (pkt_key pkt) := note_prof pkt (flows ! flow_bucket (pkt_key pkt))],
     Some (flow_bucket (pkt_key pkt),
       if pk_src_ip pkt = sl_init_ip (flows ! flow_bucket (pkt_key pkt)) \<and> pk_sport pkt = sl_init_port (flows ! flow_bucket (pkt_key pkt))
       then 0 else 1))"
  using assms by (simp add: flow_get_def pkt_key_def flow_key_eq_iff Let_def note_prof_def)

lemma flow_get_new:
  assumes "sl_key (flows ! flow_bucket (pkt_key pkt)) \<noteq> pkt_key pkt"
  shows "flow_get junk alloc flows pkt addr ac =
    (let b = flow_bucket (pkt_key pkt); s = flows ! b; (rc, rf) = reass_flow_init junk alloc (Some ac) 0;
         s0 = (if fk_used (sl_key s) then s\<lparr>sl_rf := reass_flow_free (sl_rf s)\<rparr> else s)
     in if rc = 0 then (flows[b := note_prof pkt (fresh_slot s0 rf addr pkt)], Some (b, 0))
        else (flows[b := s0\<lparr>sl_rf := rf, sl_ac_addr := 0, sl_key := (sl_key s0)\<lparr>fk_used := False\<rparr>\<rparr>], None))"
  using assms
  by (simp add: flow_get_def pkt_key_def flow_key_eq_iff Let_def note_prof_def fresh_slot_def split: prod.split)

lemma flow_get_Some:
  assumes "flow_get junk alloc flows pkt addr ac = (flows', Some (b, dir))" "length flows = FLOW_BUCKETS"
  shows "b = flow_bucket (pkt_key pkt)" "sl_key (flows' ! b) = pkt_key pkt" "length flows' = FLOW_BUCKETS" "dir \<in> {0, 1}"
    "j \<noteq> b \<Longrightarrow> flows' ! j = flows ! j"
    "dir = 0 \<longleftrightarrow> pk_src_ip pkt = sl_init_ip (flows' ! b) \<and> pk_sport pkt = sl_init_port (flows' ! b)"
proof -
  have l: "flow_bucket (pkt_key pkt) < length flows" using assms(2) by simp
  have "b = flow_bucket (pkt_key pkt) \<and> sl_key (flows' ! b) = pkt_key pkt \<and> length flows' = FLOW_BUCKETS \<and> dir \<in> {0, 1} \<and>
      (j \<noteq> b \<longrightarrow> flows' ! j = flows ! j) \<and>
      (dir = 0 \<longleftrightarrow> pk_src_ip pkt = sl_init_ip (flows' ! b) \<and> pk_sport pkt = sl_init_port (flows' ! b))"
  proof (cases "sl_key (flows ! flow_bucket (pkt_key pkt)) = pkt_key pkt")
    case True
    then show ?thesis using assms l by (auto simp: flow_get_known split: if_splits)
  next
    case False
    then show ?thesis
      using assms l by (auto simp: flow_get_new Let_def fresh_slot_def split: prod.splits if_splits)
  qed
  then show "b = flow_bucket (pkt_key pkt)" "sl_key (flows' ! b) = pkt_key pkt" "length flows' = FLOW_BUCKETS" "dir \<in> {0, 1}"
    "j \<noteq> b \<Longrightarrow> flows' ! j = flows ! j"
    "dir = 0 \<longleftrightarrow> pk_src_ip pkt = sl_init_ip (flows' ! b) \<and> pk_sport pkt = sl_init_port (flows' ! b)"
    by blast+
qed

text \<open>
  The invariant of the table: a used slot stands in the bucket of its key, and its initiator is one of the two
  ends of the connection.
\<close>

definition slot_ok :: "nat \<Rightarrow> flow_slot \<Rightarrow> bool" where
  "slot_ok b s \<longleftrightarrow>
     (let k = sl_key s in
      fk_used k \<longrightarrow> flow_bucket k = b \<and>
        (sl_init_ip s = fk_ip_a k \<and> sl_init_port s = fk_port_a k \<or> sl_init_ip s = fk_ip_b k \<and> sl_init_port s = fk_port_b k))"

definition flows_ok :: "flow_slot list \<Rightarrow> bool" where
  "flows_ok flows \<longleftrightarrow> length flows = FLOW_BUCKETS \<and> (\<forall>b < FLOW_BUCKETS. slot_ok b (flows ! b))"

lemma slot_ok_fresh: "slot_ok (flow_bucket (pkt_key pkt)) (fresh_slot s rf addr pkt)"
  by (auto simp: slot_ok_def fresh_slot_def pkt_key_def flow_build_key_def Let_def)

lemma slot_ok_cong: "sl_key s' = sl_key s \<Longrightarrow> sl_init_ip s' = sl_init_ip s \<Longrightarrow> sl_init_port s' = sl_init_port s \<Longrightarrow> slot_ok b s' = slot_ok b s"
  by (simp add: slot_ok_def)

lemma flows_ok_update: "flows_ok flows \<Longrightarrow> slot_ok b s \<Longrightarrow> flows_ok (flows[b := s])"
  by (cases "b < length flows") (auto simp: flows_ok_def nth_list_update)

lemma flow_get_ok:
  assumes "flows_ok flows"
  shows "flows_ok (fst (flow_get junk alloc flows pkt addr ac))"
proof (cases "sl_key (flows ! flow_bucket (pkt_key pkt)) = pkt_key pkt")
  case True
  have "slot_ok (flow_bucket (pkt_key pkt)) (note_prof pkt (flows ! flow_bucket (pkt_key pkt)))"
    using assms slot_ok_cong [of "note_prof pkt (flows ! flow_bucket (pkt_key pkt))"] by (simp add: flows_ok_def)
  then show ?thesis using assms True by (simp add: flow_get_known flows_ok_update)
next
  case False
  have f: "slot_ok (flow_bucket (pkt_key pkt)) (note_prof pkt (fresh_slot s rf addr pkt))" for s rf
    using slot_ok_fresh [of pkt s rf addr] slot_ok_cong [of "note_prof pkt (fresh_slot s rf addr pkt)" "fresh_slot s rf addr pkt"] by simp
  have u: "slot_ok b (s\<lparr>sl_rf := rf, sl_ac_addr := 0, sl_key := k\<lparr>fk_used := False\<rparr>\<rparr>)" for b s rf k
    by (simp add: slot_ok_def)
  show ?thesis using assms False f u by (auto simp: flow_get_new Let_def flows_ok_update split: prod.split)
qed

definition reply_to :: "nfq_pkt \<Rightarrow> nfq_pkt \<Rightarrow> bool" where
  "reply_to p q \<longleftrightarrow> pk_src_ip q = pk_dst_ip p \<and> pk_sport q = pk_dport p \<and> pk_dst_ip q = pk_src_ip p \<and> pk_dport q = pk_sport p \<and>
     pk_proto q = pk_proto p"

lemma reply_key: "reply_to p q \<Longrightarrow> pkt_key q = pkt_key p"
  unfolding reply_to_def pkt_key_def using flow_build_key_sym by metis

lemma slot_initiator:
  assumes "slot_ok b s" "sl_key s = pkt_key p"
  shows "sl_init_ip s = pk_src_ip p \<and> sl_init_port s = pk_sport p \<or> sl_init_ip s = pk_dst_ip p \<and> sl_init_port s = pk_dport p"
  using assms by (auto simp: slot_ok_def pkt_key_def flow_build_key_def Let_def split: if_splits)

section \<open>An empty table and a packet\<close>

definition empty_slot :: flow_slot where
  "empty_slot = \<lparr>sl_key = \<lparr>fk_ip_a = 0, fk_ip_b = 0, fk_port_a = 0, fk_port_b = 0, fk_proto = 0, fk_used = False\<rparr>,
     sl_init_ip = 0, sl_init_port = 0, sl_rf = \<lparr>rf_ac = None, rf_dir = [reass_dir_zero, reass_dir_zero], rf_failed = False\<rparr>,
     sl_ac_addr = 0, sl_fb = fb_clean, sl_ml_done = False, sl_is_tls = 0, sl_profid = 0\<rparr>"

definition start_state :: ipsd_state where
  "start_state = \<lparr>st_flows = replicate FLOW_BUCKETS empty_slot,
     st_stats = \<lparr>g_pkt_accept = 0, g_pkt_drop = 0, g_anomaly_hits = 0, g_l2_hits = 0, g_ml_hits = 0, g_ac_raw = 0,
       g_flow_oom = 0, g_tcp_payload = 0, g_reass_fed = 0, g_alert_logged = 0\<rparr>\<rparr>"

definition quiet_env :: pkt_env where
  "quiet_env = \<lparr>en_ct = None, en_now = 0, en_junk = (\<lambda>_. 0), en_alloc = (\<lambda>_. True)\<rparr>"

definition tcp_packet :: "u32 \<Rightarrow> u16 \<Rightarrow> u32 \<Rightarrow> u16 \<Rightarrow> u32 \<Rightarrow> bytes option \<Rightarrow> nfq_pkt" where
  "tcp_packet sip sp dip dp sq pl =
     \<lparr>pk_id = 1, pk_proto = 6, pk_src_ip = sip, pk_dst_ip = dip, pk_sport = sp, pk_dport = dp, pk_tcp_flags = 0x18,
      pk_tcp_seq = sq, pk_init_win = 0, pk_ips_prof_id = 0, pk_cap_sec = 0, pk_payload = pl, pk_raw_buf = []\<rparr>"

lemma start_flows_ok [simp]: "flows_ok (st_flows start_state)"
  by (simp add: flows_ok_def start_state_def slot_ok_def empty_slot_def)

lemma start_unknown [simp]: "fk_used k \<Longrightarrow> sl_key (st_flows start_state ! flow_bucket k) \<noteq> k"
  by (auto simp: start_state_def empty_slot_def)

text \<open>
  C24. Both directions of a connection meet in one slot: once a packet of a connection has a slot, the next
  packet the other way finds that slot, in the opposite direction, whatever memory and rulesets do meanwhile,
  without touching the stream, the flowbits or the flags of the flow, and no other slot changes; and the table
  keeps its invariant.
\<close>

theorem flow_get_both_directions:
  assumes "flows_ok flows" and "flow_get junk alloc flows p addr ac = (flows1, Some (b, dir))"
    and "reply_to p q" and "(pk_src_ip p, pk_sport p) \<noteq> (pk_dst_ip p, pk_dport p)"
  shows "flow_get junk' alloc' flows1 q addr' ac' = (flows1[b := note_prof q (flows1 ! b)], Some (b, 1 - dir)) \<and> flows_ok flows1"
proof -
  have len: "length flows = FLOW_BUCKETS" and ok: "flows_ok flows1"
    using assms(1) flow_get_ok [OF assms(1), of junk alloc p addr ac] assms(2) by (simp_all add: flows_ok_def)
  note f = flow_get_Some [OF assms(2) len]
  have k: "pkt_key q = pkt_key p" using reply_key [OF assms(3)] .
  have s: "sl_key (flows1 ! flow_bucket (pkt_key q)) = pkt_key q" using f(1,2) k by simp
  have "slot_ok b (flows1 ! b)" using ok f(1) by (simp add: flows_ok_def)
  then have "pk_src_ip q = sl_init_ip (flows1 ! b) \<and> pk_sport q = sl_init_port (flows1 ! b) \<longleftrightarrow> dir \<noteq> 0"
    using slot_initiator [OF _ f(2)] assms(3,4) f(6) by (auto simp: reply_to_def)
  then show ?thesis
    using f(1,4) k ok by (auto simp: flow_get_known [OF s])
qed

theorem flow_get_both_directions_witness:
  "\<exists>flows1 b. flow_get (\<lambda>_. 0) (\<lambda>_. True) (st_flows start_state) (tcp_packet 1 1000 2 80 5 None) 7 (ac_init True) = (flows1, Some (b, 0)) \<and>
     flow_get (\<lambda>_. 0) (\<lambda>_. False) flows1 (tcp_packet 2 80 1 1000 9 None) 8 (ac_init True) =
       (flows1[b := note_prof (tcp_packet 2 80 1 1000 9 None) (flows1 ! b)], Some (b, 1)) \<and> flows_ok flows1"
proof -
  let ?p = "tcp_packet 1 1000 2 80 5 None" and ?q = "tcp_packet 2 80 1 1000 9 None"
  have u: "fk_used (pkt_key ?p)" by (simp add: pkt_key_def)
  obtain flows1 b where g: "flow_get (\<lambda>_. 0) (\<lambda>_. True) (st_flows start_state) ?p 7 (ac_init True) = (flows1, Some (b, 0))"
    using flow_get_new [OF start_unknown [OF u], of "\<lambda>_. 0" "\<lambda>_. True" 7 "ac_init True"]
    by (simp add: reass_flow_init_def Let_def)
  have "reply_to ?p ?q" "(pk_src_ip ?p, pk_sport ?p) \<noteq> (pk_dst_ip ?p, pk_dport ?p)"
    by (simp_all add: reply_to_def tcp_packet_def)
  then show ?thesis
    using flow_get_both_directions [OF start_flows_ok g, of ?q "\<lambda>_. 0" "\<lambda>_. False" 8 "ac_init True"] g by auto
qed

section \<open>The verdict\<close>

text \<open>What the kernel makes of a mark and its mask.\<close>

definition kernel_mark :: "u32 \<Rightarrow> u32 \<Rightarrow> u32 \<Rightarrow> u32" where
  "kernel_mark old m mk = (old AND NOT mk) OR (m AND mk)"

lemma kernel_mark_outside: "(\<And>n. bit k n \<Longrightarrow> bit w n) \<Longrightarrow> kernel_mark old m k AND NOT w = old AND NOT w"
  by (rule bit_word_eqI) (auto simp: kernel_mark_def bit_and_iff bit_or_iff bit_not_iff)

lemma evaluate_detect:
  assumes "ips_evaluate_full pm cfg rs p fc l2 = Some d" "cfg_mode cfg = IPS_MODE_DETECT"
  shows "d_verdict d \<noteq> IPS_DROP"
proof -
  have c: "mode_cap IPS_MODE_DETECT v \<noteq> IPS_DROP" for v
    by (cases v) (auto simp: mode_cap_def min_def less_eq_ips_verdict_def)
  show ?thesis using assms c by (auto simp: ips_evaluate_full_def ips_fuse_verdict split: option.splits prod.splits)
qed

lemma ml_eval_detect:
  assumes "cfg_mode cfg = IPS_MODE_DETECT"
  shows "d_verdict (ips_ml_eval sc ctr pf pb w cfg) \<noteq> IPS_DROP"
proof -
  have c: "mode_cap IPS_MODE_DETECT v \<noteq> IPS_DROP" for v
    by (cases v) (auto simp: mode_cap_def min_def less_eq_ips_verdict_def)
  show ?thesis using assms c by (simp add: ips_ml_eval_def Let_def ips_fuse_verdict)
qed

lemma ml_stage_detect:
  assumes "ml_stage sc cfg pkt env slot d = (d', slot', ins)" "d_verdict d \<noteq> IPS_DROP" "cfg_mode cfg = IPS_MODE_DETECT"
  shows "d_verdict d' \<noteq> IPS_DROP"
  using assms ml_eval_detect [OF assms(3)] by (auto simp: ml_stage_def Let_def split: option.splits if_splits)

lemma tcp_stage_detect:
  assumes "tcp_stage pm sc cfg addr rs env pkt dir fc slot st = Some (d, ins, slot', st')" "cfg_mode cfg = IPS_MODE_DETECT"
  shows "d_verdict d \<noteq> IPS_DROP"
  using assms evaluate_detect ml_stage_detect
  by (auto simp: tcp_stage_def Let_def make_failclosed_def split: bind_splits if_splits prod.splits) blast+

text \<open>
  C15. The contract of a verdict: whatever the ruleset, the state and the packet, a packet that is handled is refused exactly if
  the decision is drop; then, and only then, the flow is marked blocked; the mark never touches any bit of the
  connection mark but the two of the intrusion prevention (the policy, profile and dirty bits survive); the
  message to the kernel carries this verdict; and in detect mode nothing is ever refused.
\<close>

theorem verdict_contract:
  assumes "process_packet pm sc qnum cfg addr rs env pkt s = Some (s', out)"
  shows "(po_accept out \<longleftrightarrow> d_verdict (po_decision out) \<noteq> IPS_DROP) \<and>
    (po_connmark out = SG_CMK_IPS_BLOCK \<longleftrightarrow> \<not> po_accept out) \<and>
    kernel_mark old (po_connmark out) (po_cmask out) AND NOT SG_CMK_IPS_MASK = old AND NOT SG_CMK_IPS_MASK \<and>
    po_verdict_msg out = nfq_verdict qnum (pk_id pkt) (po_accept out) (po_connmark out) (po_cmask out) \<and>
    (cfg_mode cfg = IPS_MODE_DETECT \<longrightarrow> po_accept out)"
proof -
  obtain d ins where out: "out = pkt_verdict qnum pkt d ins" and d: "cfg_mode cfg = IPS_MODE_DETECT \<Longrightarrow> d_verdict d \<noteq> IPS_DROP"
    using assms tcp_stage_detect [of pm sc cfg addr rs env pkt] evaluate_detect [of pm cfg rs]
    by (auto simp: process_packet_def Let_def ips_evaluate_def split: bind_splits if_splits prod.splits option.splits)
  have bits: "SG_CMK_IPS_MASK = 6" "SG_CMK_IPS_BLOCK = 2" "SG_CMK_IPS_INSPECTED = 4"
    by (simp_all add: SG_CMK_IPS_MASK_def SG_CMK_IPS_BLOCK_def SG_CMK_IPS_INSPECTED_def)
  have e: "bit (2 ^ k :: u32) n \<longleftrightarrow> n = k" if "k < 32" for n k using that by (auto simp: bit_exp_iff)
  have "(6 :: u32) = 2 OR 4" by simp
  then have b: "bit (2 :: u32) n \<longleftrightarrow> n = 1" "bit (4 :: u32) n \<longleftrightarrow> n = 2" "bit (6 :: u32) n \<longleftrightarrow> n = 1 \<or> n = 2" for n
    using e [of 1 n] e [of 2 n] by (simp_all only: bit_or_iff) simp_all
  have z: "\<not> bit (0 :: u32) n" for n by simp
  have m: "kernel_mark old 2 6 AND NOT 6 = old AND NOT 6" "kernel_mark old 4 4 AND NOT 6 = old AND NOT 6" "kernel_mark old 0 0 AND NOT 6 = old AND NOT 6"
    using kernel_mark_outside [of 6 6 old 2] kernel_mark_outside [of 4 6 old 4] kernel_mark_outside [of 0 6 old 0] b z by metis+
  show ?thesis
    using d by (auto simp: out pkt_verdict_def Let_def bits m [simplified])
qed

lemma quiet_tcp_packet:
  "\<exists>s1 out. process_packet (\<lambda>_ _ _. False) (\<lambda>_. 0) 1 ips_config_default 7 (plain_rs []) quiet_env (tcp_packet 1 1000 2 80 5 None) start_state =
     Some (s1, out)"
proof -
  let ?p = "tcp_packet 1 1000 2 80 5 None"
  have u: "fk_used (pkt_key ?p)" by (simp add: pkt_key_def)
  have pk: "pk_proto ?p = 6" "pk_payload ?p = None" by (simp_all add: tcp_packet_def)
  obtain flows1 b where g: "flow_get (\<lambda>_. 0) (\<lambda>_. True) (st_flows start_state) ?p 7 (rs_ac (plain_rs [])) = (flows1, Some (b, 0))"
      "sl_ac_addr (flows1 ! b) = 7"
    using flow_get_new [OF start_unknown [OF u], of "\<lambda>_. 0" "\<lambda>_. True" 7 "rs_ac (plain_rs [])"]
    by (simp add: reass_flow_init_def Let_def fresh_slot_def start_state_def)
  have t: "\<exists>d ins slot st. tcp_stage (\<lambda>_ _ _. False) (\<lambda>_. 0) ips_config_default 7 (plain_rs []) quiet_env ?p 0 (base_ctx ?p quiet_env)
      (flows1 ! b) (st_stats start_state) = Some (d, ins, slot, st)"
    using g(2) pk(2) by (simp add: tcp_stage_def Let_def l2_bind_def l2_segment_def tls_probe_def l2_start_def REASS_OK_def
        REASS_FAILCLOSED_def ips_evaluate_full_def ml_stage_def quiet_env_def) blast
  then show ?thesis using g(1) pk(1) by (auto simp: process_packet_def Let_def quiet_env_def)
qed

theorem verdict_contract_witness:
  "\<exists>s' out. process_packet (\<lambda>_ _ _. False) (\<lambda>_. 0) 1 ips_config_default 7 (plain_rs []) quiet_env (tcp_packet 1 1000 2 80 5 None) start_state =
       Some (s', out) \<and> po_verdict_msg out = nfq_verdict 1 1 (po_accept out) (po_connmark out) (po_cmask out)"
proof -
  obtain s' out where r: "process_packet (\<lambda>_ _ _. False) (\<lambda>_. 0) 1 ips_config_default 7 (plain_rs []) quiet_env
      (tcp_packet 1 1000 2 80 5 None) start_state = Some (s', out)" using quiet_tcp_packet by blast
  then show ?thesis using verdict_contract [OF r, of 0] by (simp add: tcp_packet_def)
qed

section \<open>The model judges a flow at most once\<close>

lemma evaluate_not_ml: "ips_evaluate_full pm cfg rs p fc l2 = Some d \<Longrightarrow> \<not> d_ml_evaluated d"
  by (auto simp: ips_evaluate_full_def split: option.splits prod.splits)

lemma l2_bind_slot:
  "l2_bind pm addr rs slot m = Some (slot', m') \<Longrightarrow> \<exists>rf a. slot' = slot\<lparr>sl_rf := rf, sl_ac_addr := a\<rparr>"
  by (auto simp: l2_bind_def split: if_splits option.splits) (metis flow_slot.surjective flow_slot.update_convs(5))+

lemma tls_probe_slot: "\<exists>t. tls_probe pkt dir slot = slot\<lparr>sl_is_tls := t\<rparr>"
  by (auto simp: tls_probe_def split: option.splits) (metis flow_slot.surjective flow_slot.update_convs(8))+

lemma l2_segment_slot:
  "l2_segment pm rs pkt dir slot st m = Some (rc, slot', st', m') \<Longrightarrow> \<exists>rf. slot' = slot\<lparr>sl_rf := rf\<rparr>"
  by (auto simp: l2_segment_def split: option.splits if_splits) (metis flow_slot.surjective flow_slot.update_convs(4))+

definition same_flow :: "flow_slot \<Rightarrow> flow_slot \<Rightarrow> bool" where
  "same_flow s s' \<longleftrightarrow> sl_key s' = sl_key s \<and> sl_init_ip s' = sl_init_ip s \<and> sl_init_port s' = sl_init_port s"

lemma tcp_stageE:
  assumes "tcp_stage pm sc cfg addr rs env pkt dir fc slot st = Some (d, ins, slot', st')"
  obtains slot1 m1 rrc slot2 st2 m2 d0 where
    "l2_bind pm addr rs slot (l2_start (stage_ctx dir slot fc) slot (g_ac_raw st)) = Some (slot1, m1)"
    "l2_segment pm rs pkt dir (tls_probe pkt dir slot1) st m1 = Some (rrc, slot2, st2, m2)" "\<not> lm_bad m2"
    "(if rrc = REASS_FAILCLOSED then Some (make_failclosed cfg)
      else ips_evaluate_full pm cfg rs [] (stage_ctx dir slot fc) (Some (l2_result m2))) = Some d0"
    "ml_stage sc cfg pkt env (slot2\<lparr>sl_fb := lm_fb m2\<rparr>) d0 = (d, slot', ins)" "st' = st2\<lparr>g_ac_raw := lm_ac_raw m2\<rparr>"
  using assms by (auto simp: tcp_stage_def Let_def split: bind_splits if_splits prod.splits)

lemma tcp_stage_ml:
  assumes "tcp_stage pm sc cfg addr rs env pkt dir fc slot st = Some (d, ins, slot', st')"
  shows "same_flow slot slot'" "sl_ml_done slot \<Longrightarrow> \<not> d_ml_evaluated d \<and> sl_ml_done slot'" "d_ml_evaluated d \<Longrightarrow> sl_ml_done slot'"
  using assms
proof (atomize (full), elim tcp_stageE, goal_cases)
  case (1 slot1 m1 rrc slot2 st2 m2 d0)
  have e: "\<not> d_ml_evaluated d0" using 1(4) evaluate_not_ml [of pm cfg rs] by (auto simp: make_failclosed_def split: if_splits)
  obtain a t rf' where s: "slot2 = slot\<lparr>sl_ac_addr := a, sl_is_tls := t, sl_rf := rf'\<rparr>"
    using l2_bind_slot [OF 1(1)] l2_segment_slot [OF 1(2)] tls_probe_slot [of pkt dir slot1] by auto
  show ?case using 1(5) e by (auto simp: s same_flow_def ml_stage_def Let_def split: option.splits if_splits)
qed

text \<open>A list of packets, each with the ruleset that is active and the surroundings it meets.\<close>

fun run_packets ::
  "'p pcre_match \<Rightarrow> (real list \<Rightarrow> real) \<Rightarrow> u16 \<Rightarrow> ips_config \<Rightarrow> (nat \<times> 'p sig_ruleset \<times> pkt_env \<times> nfq_pkt) list \<Rightarrow> ipsd_state \<Rightarrow>
   (ipsd_state \<times> (nfq_pkt \<times> pkt_out) list) option" where
  "run_packets pm sc qnum cfg [] s = Some (s, [])"
| "run_packets pm sc qnum cfg ((addr, rs, env, pkt) # ps) s =
     (case process_packet pm sc qnum cfg addr rs env pkt s of
        None \<Rightarrow> None
      | Some (s1, out) \<Rightarrow> map_option (\<lambda>(s2, outs). (s2, (pkt, out) # outs)) (run_packets pm sc qnum cfg ps s1))"

definition flow_slot_of :: "flow_key \<Rightarrow> ipsd_state \<Rightarrow> flow_slot" where
  "flow_slot_of k s = st_flows s ! flow_bucket k"

definition scored :: "flow_key \<Rightarrow> ipsd_state \<Rightarrow> bool" where
  "scored k s \<longleftrightarrow> sl_key (flow_slot_of k s) = k \<and> sl_ml_done (flow_slot_of k s)"

text \<open>The three ways through \<open>process_packet\<close>.\<close>

lemma process_packetE:
  assumes "process_packet pm sc qnum cfg addr rs env pkt s = Some (s', out)"
  obtains
    (tcp) flows1 b dir d ins slot st' where "pk_proto pkt = 6"
      "flow_get (en_junk env) (en_alloc env) (st_flows s) pkt addr (rs_ac rs) = (flows1, Some (b, dir))"
      "tcp_stage pm sc cfg addr rs env pkt dir (base_ctx pkt env) (flows1 ! b) (st_stats s) = Some (d, ins, slot, st')"
      "out = pkt_verdict qnum pkt d ins" "st_flows s' = flows1[b := slot]"
  | (oom) flows1 d where "pk_proto pkt = 6"
      "flow_get (en_junk env) (en_alloc env) (st_flows s) pkt addr (rs_ac rs) = (flows1, None)"
      "ips_evaluate pm cfg rs (pay_bytes pkt) (base_ctx pkt env) = Some d" "out = pkt_verdict qnum pkt d False" "st_flows s' = flows1"
  | (other) d where "pk_proto pkt \<noteq> 6" "ips_evaluate pm cfg rs (pay_bytes pkt) (base_ctx pkt env) = Some d"
      "out = pkt_verdict qnum pkt d False" "st_flows s' = st_flows s"
  using assms by (auto simp: process_packet_def Let_def split: bind_splits if_splits prod.splits option.splits)

lemma po_decision_verdict [simp]: "po_decision (pkt_verdict qnum pkt d ins) = d"
  by (simp add: pkt_verdict_def Let_def)

lemma flow_get_None:
  assumes "flow_get junk alloc flows pkt addr ac = (flows', None)"
  shows "\<exists>s0. flows' = flows[flow_bucket (pkt_key pkt) := s0] \<and> \<not> fk_used (sl_key s0)"
proof (cases "sl_key (flows ! flow_bucket (pkt_key pkt)) = pkt_key pkt")
  case False
  then show ?thesis using assms by (auto simp: flow_get_new Let_def split: prod.splits if_splits)
qed (use assms in \<open>simp add: flow_get_known\<close>)

lemma process_packet_flows_ok:
  assumes "process_packet pm sc qnum cfg addr rs env pkt s = Some (s', out)" "flows_ok (st_flows s)"
  shows "flows_ok (st_flows s')"
  using assms(1)
proof (cases rule: process_packetE)
  case (tcp flows1 b dir d ins slot st')
  have ok: "flows_ok flows1" using flow_get_ok [OF assms(2), of "en_junk env" "en_alloc env" pkt addr "rs_ac rs"] tcp(2) by simp
  then have "slot_ok b (flows1 ! b)" using flow_get_Some(1) [OF tcp(2)] assms(2) by (simp add: flows_ok_def)
  then have "slot_ok b slot" using tcp_stage_ml(1) [OF tcp(3)] slot_ok_cong [of slot "flows1 ! b"] by (simp add: same_flow_def)
  then show ?thesis using ok tcp(5) by (simp add: flows_ok_update)
next
  case (oom flows1 d)
  then show ?thesis using flow_get_ok [OF assms(2), of "en_junk env" "en_alloc env" pkt addr "rs_ac rs"] by simp
qed (use assms(2) in simp)

text \<open>A packet of another bucket leaves the slot alone; a packet of the flow keeps what is scored scored.\<close>

lemma process_packet_scored:
  assumes p: "process_packet pm sc qnum cfg addr rs env pkt s = Some (s', out)" and ok: "flows_ok (st_flows s)"
    and k: "pkt_key pkt = k \<or> flow_bucket (pkt_key pkt) \<noteq> flow_bucket k \<or> pk_proto pkt \<noteq> 6"
  shows "(scored k s \<longrightarrow> scored k s') \<and> (pkt_key pkt = k \<and> scored k s \<longrightarrow> \<not> d_ml_evaluated (po_decision out)) \<and>
    (pkt_key pkt = k \<and> d_ml_evaluated (po_decision out) \<longrightarrow> scored k s')"
  using p
proof (cases rule: process_packetE)
  case (tcp flows1 b dir d ins slot st')
  have len: "length (st_flows s) = FLOW_BUCKETS" using ok by (simp add: flows_ok_def)
  note f = flow_get_Some [OF tcp(2) len] and m = tcp_stage_ml [OF tcp(3)]
  have other: "st_flows s' ! flow_bucket k = st_flows s ! flow_bucket k" if "flow_bucket (pkt_key pkt) \<noteq> flow_bucket k"
    using tcp(5) f(1) f(5) [of "flow_bucket k"] that by simp
  have mine: "st_flows s' ! flow_bucket k = slot" if "pkt_key pkt = k" using tcp(5) f(1,3) that by simp
  have known: "flows1 ! b = note_prof pkt (st_flows s ! b)" if "pkt_key pkt = k" "scored k s"
    using tcp(2) that f(1) len flow_get_known [of "st_flows s" pkt "en_junk env" "en_alloc env" addr "rs_ac rs"]
    by (auto simp: scored_def flow_slot_of_def)
  show ?thesis
  proof (cases "pkt_key pkt = k")
    case True
    have "sl_key slot = k" using m(1) f(2) True by (simp add: same_flow_def)
    then have "scored k s' \<longleftrightarrow> sl_ml_done slot" using mine [OF True] by (simp add: scored_def flow_slot_of_def)
    moreover have "sl_ml_done (flows1 ! b)" if "scored k s"
      using known [OF True that] that f(1) True by (simp add: scored_def flow_slot_of_def)
    ultimately show ?thesis using m(2,3) tcp(4) True by auto
  next
    case False
    then show ?thesis using k tcp(1) other by (auto simp: scored_def flow_slot_of_def)
  qed
next
  case (oom flows1 d)
  have "\<not> scored k s" if "pkt_key pkt = k"
    using oom(2) that flow_get_known [of "st_flows s" pkt "en_junk env" "en_alloc env" addr "rs_ac rs"]
    by (auto simp: scored_def flow_slot_of_def)
  moreover have "scored k s'" if "scored k s" "flow_bucket (pkt_key pkt) \<noteq> flow_bucket k"
    using that oom(5) flow_get_None [OF oom(2)] by (auto simp: scored_def flow_slot_of_def)
  moreover have "\<not> d_ml_evaluated d" using oom(3) evaluate_not_ml [of pm cfg rs] by (auto simp: ips_evaluate_def)
  ultimately show ?thesis using k oom(1,4) by auto
next
  case (other d)
  then show ?thesis using evaluate_not_ml [of pm cfg rs] by (auto simp: ips_evaluate_def scored_def flow_slot_of_def)
qed

definition evaluations :: "flow_key \<Rightarrow> (nfq_pkt \<times> pkt_out) list \<Rightarrow> nat" where
  "evaluations k outs = length (filter (\<lambda>(p, out). pkt_key p = k \<and> d_ml_evaluated (po_decision out)) outs)"

lemma evaluations_bound:
  assumes "run_packets pm sc qnum cfg ps s = Some (s', outs)" "flows_ok (st_flows s)"
    and "\<forall>(addr, rs, env, pkt) \<in> set ps. pkt_key pkt = k \<or> flow_bucket (pkt_key pkt) \<noteq> flow_bucket k \<or> pk_proto pkt \<noteq> 6"
  shows "evaluations k outs \<le> (if scored k s then 0 else 1)"
  using assms
proof (induction ps arbitrary: s outs)
  case (Cons x ps)
  obtain addr rs env pkt where x: "x = (addr, rs, env, pkt)" by (cases x)
  obtain s1 out outs' where r: "process_packet pm sc qnum cfg addr rs env pkt s = Some (s1, out)"
      "run_packets pm sc qnum cfg ps s1 = Some (s', outs')" "outs = (pkt, out) # outs'"
    using Cons(2) by (auto simp: x split: option.splits)
  have "evaluations k outs' \<le> (if scored k s1 then 0 else 1)"
    using Cons(1) [OF r(2)] process_packet_flows_ok [OF r(1) Cons(3)] Cons(4) by simp
  then show ?case
    using process_packet_scored [OF r(1) Cons(3), of k] Cons(4) by (auto simp: x r(3) evaluations_def split: if_splits)
qed (auto simp: evaluations_def)



end
