(* ===== verification/Ips_Detection.thy ===== *)
theory Ips_Detection
  imports Ips_Packet_Correct
begin

text \<open>
  The packet loop drops an attack however its bytes are cut into packets: the stages of the earlier
  theories (reassembly, prefilter, verification, fusion, verdict) composed, for one connection.
\<close>

section \<open>The stream of a flow\<close>

text \<open>
  One direction of a flow holds bytes of the stream \<open>S\<close> only, at least those at the offsets \<open>C\<close>, and the
  matcher has read the contiguous part.
\<close>

definition stream_inv :: "bytes \<Rightarrow> u32 \<Rightarrow> bool \<times> (bytes \<rightharpoonup> nat) \<Rightarrow> nat set \<Rightarrow> ac_automaton \<Rightarrow> reass_flow \<Rightarrow> nat \<Rightarrow> bool" where
  "stream_inv S isn dict C ac rf dir \<longleftrightarrow>
     (let d = rf_dir rf ! dir in
      flow_ok dict rf \<and> \<not> rf_failed rf \<and> rf_ac rf = Some ac \<and> rd_scan_limit d = rd_cap d \<and> rd_cap d < 2 ^ 31 \<and>
      (rd_have_base d \<longrightarrow> rd_base_seq d = isn) \<and>
      (\<forall>i v. recv d i = Some v \<longrightarrow> i < length S \<and> S ! i = v) \<and>
      (\<forall>i \<in> C. i < rd_cap d \<longrightarrow> recv d i \<noteq> None) \<and>
      ac_reads ac dict (rd_ac_state d) (take (rd_scanned d) S))"

text \<open>What a segment of the stream does: the hits on the new bytes reach the callback on the longer stream.\<close>

lemma stream_segment:
  assumes inv: "stream_inv S isn dict C ac rf (nat dir)" and dir: "0 \<le> dir" "dir \<le> 1"
    and sz: "off + l \<le> length S" "length S < 2 ^ 31" and l: "0 < l"
    and base: "rd_have_base (rf_dir rf ! nat dir) \<or> off = 0"
  defines "d \<equiv> rf_dir rf ! nat dir"
  shows "\<exists>rc fed' d' ctx'. reass_segment fed rf dir (isn + of_nat off) (Some (take l (drop off S))) cb ctx =
      Some (rc, fed', (put_dir rf (nat dir) d')\<lparr>rf_failed := rc \<noteq> REASS_OK\<rparr>, ctx') \<and> rc \<in> {REASS_OK, REASS_FAILCLOSED} \<and>
    rd_have_base d' \<and> dir_ok d' \<and> rd_cap d' = rd_cap d \<and> stream d' = take (rd_next_off d') S \<and> rd_next_off d' \<le> length S \<and>
    (let R = feed_hits (feed_trampoline cb (reading_flow rf (nat dir) d d') (nat dir))
               (ac_hits dict (take (rd_scanned d) S) (rd_scanned d) (new_bytes d d')) ctx in
     ctx' = snd (snd R) \<and>
     (rc = REASS_OK \<longrightarrow>
       rd_scanned d = rd_next_off d \<and> rd_scanned d' = rd_next_off d' \<and> rd_scanned d \<le> rd_scanned d' \<and>
       take (rd_scanned d) S @ new_bytes d d' = take (rd_scanned d') S \<and>
       (\<not> fst (snd R) \<longrightarrow> stream_inv S isn dict (C \<union> {off..<off + l}) ac (put_dir rf (nat dir) d') (nat dir))))"
proof -
  let ?seq = "isn + of_nat off :: u32" and ?bs = "take l (drop off S)" and ?pre = "take (rd_scanned d) S"
  have n: "nat dir < 2" using dir by simp
  have fk: "flow_ok dict rf" "\<not> rf_failed rf" "rf_ac rf = Some ac" "length (rf_dir rf) = 2" "rd_cap d < 2 ^ 31" "rd_scan_limit d = rd_cap d"
    using inv by (auto simp: stream_inv_def Let_def flow_ok_def d_def)
  have bs: "?bs \<noteq> []" "length ?bs = l" "rd_cap d + length ?bs < 2 ^ 32" using sz l fk(5) by auto
  have pre: "ac_reads a dict (rd_ac_state (rf_dir rf ! nat dir)) ?pre" if "rf_ac rf = Some a" for a
    using inv that by (auto simp: stream_inv_def Let_def d_def)
  obtain rc fed' d' ctx' where r: "reass_segment fed rf dir ?seq (Some ?bs) cb ctx =
        Some (rc, fed', (put_dir rf (nat dir) d')\<lparr>rf_failed := rc \<noteq> REASS_OK\<rparr>, ctx')"
      "rc \<in> {REASS_OK, REASS_FAILCLOSED}"
      and p: "seg_post dict rf (nat dir) ?seq ?bs cb ?pre ctx rc d' ctx'"
    using reass_segment_step [OF fk(1,2) dir bs(1) bs(3) [unfolded d_def] pre, of fed ?seq cb ctx] by blast
  have b: "rd_base_seq (rebased ?seq d) = isn" using base inv by (auto simp: rebased_def stream_inv_def Let_def d_def)
  have off: "seg_off ?seq d = int off" using sz b by (simp add: seg_off_def sint_of_nat_small)
  have d': "recv d' = seg_bytes (rd_cap d) (int off) ?bs ++ recv d" "dir_ok d'" "rd_have_base d'" "rd_base_seq d' = isn"
      "rd_cap d' = rd_cap d" "rd_scan_limit d' = rd_cap d"
    using p off b fk(6) by (auto simp: seg_post_def Let_def d_def)
  have S: "\<forall>i v. recv d' i = Some v \<longrightarrow> i < length S \<and> S ! i = v"
    using inv seg_bytes_cut [OF sz(1)] unfolding d'(1) by (auto simp: stream_inv_def Let_def map_add_Some_iff d_def)
  have C: "\<forall>i \<in> C \<union> {off..<off + l}. i < rd_cap d' \<longrightarrow> recv d' i \<noteq> None"
    using inv bs(2) d'(5) unfolding d'(1) by (auto simp: stream_inv_def Let_def map_add_None seg_bytes_def d_def)
  note st = stream_of [OF d'(2) S]
  have hr: "has_read dict ac (feed_trampoline cb (reading_flow rf (nat dir) d d') (nat dir)) ?pre d d' ctx ctx'"
      "feed_to d' \<le> rd_scanned d'"
    using p fk(3) by (auto simp: seg_post_def Let_def d_def)
  have sc: "rd_scanned d = rd_next_off d" "rd_scanned d' = rd_next_off d'"
    using scanned_all [OF fk(1) n fk(3)] fk(6) hr(2) d'(2,5,6) by (auto simp: d_def dir_ok_def feed_to_def split: if_splits)
  have "recv d' i \<noteq> None" if "i < rd_next_off d" for i
    using that flow_okD(2) [OF fk(1) n] d'(1) by (auto simp: dir_ok_def map_add_def d_def split: option.split)
  then have le: "rd_scanned d \<le> rd_scanned d'" using d'(2) sc by (metis dir_ok_def leI)
  have nb: "new_bytes d d' = take (rd_scanned d' - rd_scanned d) (drop (rd_scanned d) (take (rd_scanned d') S))"
    using st(2) sc(2) by (simp add: new_bytes_def)
  have app: "?pre @ new_bytes d d' = take (rd_scanned d') S" unfolding nb using le by (rule take_slice)
  have next': "stream_inv S isn dict (C \<union> {off..<off + l}) ac (put_dir rf (nat dir) d') (nat dir)"
    if "rc = REASS_OK" "ac_reads ac dict (rd_ac_state d') (?pre @ new_bytes d d')"
  proof -
    have "flow_ok dict (put_dir rf (nat dir) d')"
      using reass_segment_flow_ok [OF fk(1) bs(3) [unfolded d_def], of fed ?seq cb ctx] r(1) that(1)
      by (auto simp: put_dir_failed_same [OF fk(2)])
    then show ?thesis using fk n d'(2-6) S C that(2) by (simp add: stream_inv_def Let_def app)
  qed
  define R where "R = feed_hits (feed_trampoline cb (reading_flow rf (nat dir) d d') (nat dir))
      (ac_hits dict ?pre (rd_scanned d) (new_bytes d d')) ctx"
  have R: "ctx' = snd (snd R)" "\<not> fst (snd R) \<Longrightarrow> ac_reads ac dict (rd_ac_state d') (?pre @ new_bytes d d')"
    using hr(1) by (simp_all add: has_read_def Let_def R_def)
  show ?thesis
    unfolding Let_def
    by (rule exI [of _ rc], rule exI [of _ fed'], rule exI [of _ d'], rule exI [of _ ctx'])
      (intro conjI impI r d'(2,3,5) st sc le app next' R [unfolded R_def])
qed

section \<open>Judging the hits\<close>

text \<open>The regions of a stream, and the context a rule is verified in.\<close>

definition regions :: "bytes \<Rightarrow> match_buffers" where
  "regions s = the (bufs_extract (bufs_init_raw s) s)"

lemma regions_eq: "bufs_extract (bufs_init_raw s) s = Some (regions s)" and regions_parts: "parts_of s (regions s)"
  using bufs_extract_parts [OF bufs_init_parts, of s] by (auto simp: regions_def)

definition judge_ctx :: "flow_ctx \<Rightarrow> bytes \<Rightarrow> flowbit_state \<Rightarrow> flow_ctx" where
  "judge_ctx fc s fb = fc\<lparr>fc_bufs := Some (regions s), fc_fb := Some fb\<rparr>"

lemma judge_sizes: "length s < 2 ^ 29 \<Longrightarrow> sizes_ok s (judge_ctx fc s fb)"
  using regions_parts [of s]
  by (auto simp: sizes_ok_def content_buf_def judge_ctx_def parts_of_def split: option.splits if_splits)
    (meson le_less_trans sublist_length_le)

text \<open>The state of the match context while the hits on the stream \<open>s\<close> are judged.\<close>

definition judging :: "flow_ctx \<Rightarrow> nat \<Rightarrow> bytes \<Rightarrow> l2_match \<Rightarrow> bool" where
  "judging fc dir s m \<longleftrightarrow> \<not> lm_bad m \<and> (\<exists>b. lm_fc m = fc\<lparr>fc_bufs := b\<rparr>) \<and>
     (lm_bufs m = None \<or> lm_bufs m = Some (dir, length s, regions s)) \<and> map_option snd (lm_best m) \<noteq> Some SIG_DROP"

lemma stream_bufs_regions: "judging fc dir s m \<Longrightarrow> stream_bufs dir s (lm_bufs m) = Some (regions s)"
  by (auto simp: judging_def stream_bufs_def regions_eq)

lemma l2_on_match_step:
  assumes "reass_dir_buf rf (int dir) = Some (buf, clen)" "take clen buf = s" "judging fc dir s m"
    and "i < length (rs_rules rs)" "rule_safe (rs_rules rs ! i)" "length s < 2 ^ 29"
  shows "case verify_rule pm (rs_rules rs ! i) s (judge_ctx fc s (lm_fb m)) of
      None \<Rightarrow> False
    | Some v \<Rightarrow>
        (let (stop, m') = l2_on_match pm rs rf i k dir m in
         (stop \<and> \<not> lm_bad m' \<and> map_option snd (lm_best m') = Some SIG_DROP \<or> \<not> stop \<and> judging fc dir s m') \<and>
         (v \<and> \<not> r_fb_noalert (rs_rules rs ! i) \<and> capped_action (rs_rules rs ! i) (fc_prof_id fc) = SIG_DROP \<longrightarrow> stop))"
proof -
  let ?r = "rs_rules rs ! i"
  obtain b where b: "lm_fc m = fc\<lparr>fc_bufs := b\<rparr>" using assms(3) by (auto simp: judging_def)
  obtain v where v: "verify_rule pm ?r s (judge_ctx fc s (lm_fb m)) = Some v"
    using verify_rule_safe [OF assms(5) judge_sizes [OF assms(6)], of pm fc "lm_fb m"] by blast
  have sv: "sig_verify pm rs (int i) s (fc\<lparr>fc_bufs := Some (regions s), fc_fb := Some (lm_fb m)\<rparr>) = Some v"
    using v assms(4) by (simp add: sig_verify_def judge_ctx_def)
  let ?m = "m\<lparr>lm_ac_raw := lm_ac_raw m + 1\<rparr>"
  have "judging fc dir s ?m" using assms(3) by (simp add: judging_def)
  note sb = stream_bufs_regions [OF this]
  define m1 where "m1 = ?m\<lparr>lm_bufs := Some (dir, length s, regions s), lm_fc := fc\<lparr>fc_bufs := Some (regions s)\<rparr>\<rparr>"
  have step: "l2_on_match pm rs rf i k dir m = (if v then l2_verified ?r i m1 else (False, m1))"
    using assms(1,2) sb sv b by (auto simp: l2_on_match_def Let_def m1_def)
  have j: "judging fc dir s m1" using assms(3) by (auto simp: judging_def m1_def)
  then have "(let (stop, m') = l2_verified ?r i m1 in
       (stop \<and> \<not> lm_bad m' \<and> map_option snd (lm_best m') = Some SIG_DROP \<or> \<not> stop \<and> judging fc dir s m') \<and>
       (\<not> r_fb_noalert ?r \<and> capped_action ?r (fc_prof_id fc) = SIG_DROP \<longrightarrow> stop))"
    by (cases "lm_best m1") (auto simp: l2_verified_def Let_def judging_def m1_def less_sig_action_def, metis sig_action.exhaust)
  then show ?thesis using v step j by (auto simp: Let_def)
qed

text \<open>A list of hits: unless the scan is stopped by a drop, every hit was judged and none demanded a drop.\<close>

lemma feed_l2:
  assumes buf: "reass_dir_buf rf (int dir) = Some (buf, clen)" "take clen buf = s" "length s < 2 ^ 29"
    and rules: "\<forall>i < length (rs_rules rs). rule_safe (rs_rules rs ! i)" "\<forall>(i, k) \<in> set hs. i < length (rs_rules rs)"
    and m: "judging fc dir s m"
  shows "let (n, stop, m') = feed_hits (feed_trampoline (Some (l2_on_match pm rs)) rf dir) hs m in
    (stop \<and> \<not> lm_bad m' \<and> map_option snd (lm_best m') = Some SIG_DROP \<or> \<not> stop \<and> judging fc dir s m') \<and>
    ((\<exists>(i, k) \<in> set hs. (\<forall>fb. verify_rule pm (rs_rules rs ! i) s (judge_ctx fc s fb) = Some True) \<and> \<not> r_fb_noalert (rs_rules rs ! i) \<and>
        capped_action (rs_rules rs ! i) (fc_prof_id fc) = SIG_DROP) \<longrightarrow> stop)"
  using rules(2) m
proof (induction hs arbitrary: m)
  case Nil
  then show ?case by simp
next
  case (Cons h hs)
  obtain i k where h: "h = (i, k)" by fastforce
  have i: "i < length (rs_rules rs)" using Cons(2) h by simp
  obtain stop m' where cb: "l2_on_match pm rs rf i k dir m = (stop, m')" by fastforce
  obtain v where v: "verify_rule pm (rs_rules rs ! i) s (judge_ctx fc s (lm_fb m)) = Some v"
      "stop \<and> \<not> lm_bad m' \<and> map_option snd (lm_best m') = Some SIG_DROP \<or> \<not> stop \<and> judging fc dir s m'"
      "v \<and> \<not> r_fb_noalert (rs_rules rs ! i) \<and> capped_action (rs_rules rs ! i) (fc_prof_id fc) = SIG_DROP \<longrightarrow> stop"
    using l2_on_match_step [OF buf(1,2) Cons(3) i _ buf(3), of pm k] rules(1) i cb by (auto simp: Let_def split: option.splits)
  have t: "feed_trampoline (Some (l2_on_match pm rs)) rf dir i k m = (stop, m')" by (simp add: feed_trampoline_def cb)
  show ?case
  proof (cases stop)
    case True
    then show ?thesis using v(2) t by (simp add: h)
  next
    case False
    then have j: "judging fc dir s m'" using v(2) by simp
    have no: "\<not> ((\<forall>fb. verify_rule pm (rs_rules rs ! i) s (judge_ctx fc s fb) = Some True) \<and> \<not> r_fb_noalert (rs_rules rs ! i) \<and>
        capped_action (rs_rules rs ! i) (fc_prof_id fc) = SIG_DROP)"
      using v(1,3) False by auto
    show ?thesis using Cons(1) [OF _ j] Cons(2) False t no by (auto simp: h Let_def split: prod.splits)
  qed
qed

section \<open>A rule with one content\<close>

text \<open>The rules the theorem is about: one content on the raw stream without position modifiers, and nothing else.\<close>

definition content_rule :: "'p sig_rule \<Rightarrow> bytes \<Rightarrow> bool" where
  "content_rule r b \<longleftrightarrow> r_content r = [plain_content b] \<and> r_fast r = Some 0 \<and> r_byteop r = [] \<and> r_pcre r = None \<and> r_flowbits r = [] \<and>
     r_dsize_min r < 0 \<and> r_dsize_max r < 0 \<and> \<not> r_fb_noalert r"

lemma mem_find_sublist:
  assumes "sublist b s" "b \<noteq> []"
  shows "mem_find s b False 0 (length s) \<noteq> None"
proof -
  obtain u w where s: "s = u @ b @ w" using assms(1) by (auto simp: sublist_def)
  have "occurs_at False s b (length u)" by (simp add: occurs_at_def s)
  moreover have "length u + length b \<le> length s" by (simp add: s)
  ultimately show ?thesis
    using mem_find_loop_spec [where hay = s and needle = b and nocase = False and s = 0 and to = "length s"] assms(2) by (auto simp: mem_find_def split: option.splits)
qed

lemma content_rule_verify:
  assumes "content_rule r b" "b \<noteq> []" "sublist b s" "header_holds r (int (length s)) (judge_ctx fc s fb)"
  shows "verify_rule pm r s (judge_ctx fc s fb) = Some True"
proof -
  obtain q where "mem_find s b False 0 (length s) = Some q" using mem_find_sublist [OF assms(3,2)] by blast
  then show ?thesis
    using assms(1,4)
    by (simp add: verify_rule_def content_rule_def verify_content_def content_buf_def content_window_def plain_content_def verify_pcre_def Let_def)
qed

lemma content_rule_header:
  assumes "content_rule r b" "header_holds r n fc"
  shows "header_holds r n' (judge_ctx fc s fb)"
  using assms by (auto simp: header_holds_def content_rule_def judge_ctx_def flowbits_hold_def)

lemma new_hit:
  assumes "sublist b (pre @ w)" "\<not> sublist b pre" "b \<noteq> []" "D (map (ac_norm True) b) = Some i"
  shows "\<exists>k. (i, k) \<in> set (ac_hits (True, D) pre off w)"
proof -
  obtain u v where e: "pre @ w = u @ b @ v" using assms(1) by (auto simp: sublist_def)
  have gt: "length u + length b > length pre"
  proof (rule ccontr)
    assume "\<not> ?thesis"
    then have "pre = take (length pre) (u @ b @ v)" "length u + length b \<le> length pre" using e by (metis append_eq_conv_conj, simp)
    then have "pre = u @ b @ take (length pre - (length u + length b)) v" by simp
    then show False using assms(2) by (metis sublist_appendI)
  qed
  define j where "j = length u + length b - length pre - 1"
  have le: "length u + length b \<le> length pre + length w" using arg_cong [OF e, of length] by simp
  have "take (length pre + Suc j) (pre @ w) = u @ b" unfolding e using gt by (simp add: j_def)
  then have "pre @ take (Suc j) w = u @ b" by simp
  then have "map (ac_norm True) pre @ take (Suc j) (map (ac_norm True) w) = map (ac_norm True) u @ map (ac_norm True) b"
    by (metis map_append take_map)
  moreover have "j < length w" using gt le by (simp add: j_def)
  ultimately show ?thesis using assms(4) by (auto simp: ac_hits_def naive_hits_iff suffix_def)
qed

lemma hit_index_any:
  assumes "(i, k) \<in> set (ac_hits (True, pattern_dict True (fast_pats 0 rules)) pre off w)"
  shows "i < length rules"
proof -
  obtain q where "pattern_dict True (fast_pats 0 rules) q = Some i" using assms by (auto simp: ac_hits_def naive_hits_iff)
  then show ?thesis unfolding pattern_dict_def by (auto dest!: map_of_SomeD simp: fast_pats_set)
qed

section \<open>One packet of the stream\<close>

text \<open>What is fixed while the connection is inspected: the ruleset is built, its rules are safe, rule \<open>i\<close> is one that drops.\<close>

definition drop_rule :: "'p sig_ruleset \<Rightarrow> nat \<Rightarrow> bytes \<Rightarrow> flow_ctx \<Rightarrow> bool" where
  "drop_rule rs i b fc \<longleftrightarrow> i < length (rs_rules rs) \<and> content_rule (rs_rules rs ! i) b \<and> b \<noteq> [] \<and>
     header_holds (rs_rules rs ! i) 0 fc \<and> capped_action (rs_rules rs ! i) (fc_prof_id fc) = SIG_DROP \<and>
     pattern_dict True (fast_pats 0 (rs_rules rs)) (map (ac_norm True) b) = Some i \<and>
     (\<forall>j < length (rs_rules rs). rule_safe (rs_rules rs ! j))"

abbreviation rs_dict :: "'p sig_ruleset \<Rightarrow> bool \<times> (bytes \<rightharpoonup> nat)" where
  "rs_dict rs \<equiv> (True, pattern_dict True (fast_pats 0 (rs_rules rs)))"

definition slot_inv :: "bytes \<Rightarrow> u32 \<Rightarrow> nat set \<Rightarrow> nat \<Rightarrow> 'p sig_ruleset \<Rightarrow> bytes \<Rightarrow> flow_slot \<Rightarrow> nat \<Rightarrow> bool" where
  "slot_inv S isn C addr rs b slot dir \<longleftrightarrow> sl_ac_addr slot = addr \<and> sl_is_tls slot \<noteq> 1 \<and>
     stream_inv S isn (rs_dict rs) C (rs_ac rs) (sl_rf slot) dir \<and> rd_cap (rf_dir (sl_rf slot) ! dir) = REASS_MAX_BYTES \<and>
     \<not> sublist b (take (rd_scanned (rf_dir (sl_rf slot) ! dir)) S)"

lemma reading_buf:
  assumes "dir_ok d'" "dir < length (rf_dir rf)" "dir < 2"
  shows "\<exists>buf. reass_dir_buf (reading_flow rf dir d d') (int dir) = Some (buf, rd_next_off d') \<and> take (rd_next_off d') buf = stream d'"
proof -
  obtain buf where b: "rd_buf d' = Some buf" using assms(1) by (auto simp: dir_ok_def dir_shape_def)
  show ?thesis using stream_take [OF assms(1) b] b assms(2,3) by (simp add: reass_dir_buf_def reading_flow_def)
qed

lemma l2_segment_stream:
  assumes inv: "slot_inv S isn C addr rs b slot dir" and dir: "dir < 2" and rule: "drop_rule rs i b fc"
    and pkt: "pk_payload pkt = Some (take l (drop off S))" "pk_tcp_seq pkt = isn + of_nat off"
    and sz: "off + l \<le> length S" "length S < 2 ^ 29" "0 < l" and base: "rd_have_base (rf_dir (sl_rf slot) ! dir) \<or> off = 0"
    and m: "lm_fc m = fc" "lm_bufs m = None" "lm_best m = None" "\<not> lm_bad m"
  shows "\<exists>rc slot' st' m'. l2_segment pm rs pkt dir slot st m = Some (rc, slot', st', m') \<and> \<not> lm_bad m' \<and>
    (rc = REASS_FAILCLOSED \<or> map_option snd (lm_best m') = Some SIG_DROP \<or>
     slot_inv S isn (C \<union> {off..<off + l}) addr rs b slot' dir \<and> rd_have_base (rf_dir (sl_rf slot') ! dir))"
proof -
  let ?rf = "sl_rf slot" and ?cb = "Some (l2_on_match pm rs)" and ?bs = "take l (drop off S)"
  define d where "d = rf_dir ?rf ! dir"
  have si: "stream_inv S isn (rs_dict rs) C (rs_ac rs) ?rf (nat (int dir))" "sl_is_tls slot \<noteq> 1" "sl_ac_addr slot = addr"
      "\<not> sublist b (take (rd_scanned d) S)" "rd_cap d = REASS_MAX_BYTES"
    using inv by (auto simp: slot_inv_def d_def)
  have base': "rd_have_base (rf_dir ?rf ! nat (int dir)) \<or> off = 0" using base by simp
  have dir': "0 \<le> int dir" "int dir \<le> 1" and S31: "length S < 2 ^ 31" using dir sz(2) by auto
  obtain rc fed' d' m' where r: "reass_segment (g_reass_fed st) ?rf (int dir) (isn + of_nat off) (Some ?bs) ?cb m =
        Some (rc, fed', (put_dir ?rf dir d')\<lparr>rf_failed := rc \<noteq> REASS_OK\<rparr>, m')" "rc \<in> {REASS_OK, REASS_FAILCLOSED}"
      "rd_have_base d'" "dir_ok d'" "rd_cap d' = rd_cap d" "stream d' = take (rd_next_off d') S" "rd_next_off d' \<le> length S"
    and R: "let R = feed_hits (feed_trampoline ?cb (reading_flow ?rf dir d d') dir)
               (ac_hits (rs_dict rs) (take (rd_scanned d) S) (rd_scanned d) (new_bytes d d')) m in
     m' = snd (snd R) \<and>
     (rc = REASS_OK \<longrightarrow>
       rd_scanned d = rd_next_off d \<and> rd_scanned d' = rd_next_off d' \<and> rd_scanned d \<le> rd_scanned d' \<and>
       take (rd_scanned d) S @ new_bytes d d' = take (rd_scanned d') S \<and>
       (\<not> fst (snd R) \<longrightarrow> stream_inv S isn (rs_dict rs) (C \<union> {off..<off + l}) (rs_ac rs) (put_dir ?rf dir d') dir))"
    using stream_segment [OF si(1) dir' sz(1) S31 sz(3) base', of "g_reass_fed st" ?cb m, unfolded nat_int, folded d_def]
    by (elim exE conjE) (rule that)
  have len: "dir < length (rf_dir ?rf)" using si(1) dir by (auto simp: stream_inv_def Let_def flow_ok_def)
  obtain buf where buf: "reass_dir_buf (reading_flow ?rf dir d d') (int dir) = Some (buf, rd_next_off d')" "take (rd_next_off d') buf = stream d'"
    using reading_buf [OF r(4) len dir] by blast
  let ?s = "stream d'" and ?hs = "ac_hits (rs_dict rs) (take (rd_scanned d) S) (rd_scanned d) (new_bytes d d')"
  have s29: "length ?s < 2 ^ 29" using r(7) sz(2) by simp
  have hs: "\<forall>(j, k) \<in> set ?hs. j < length (rs_rules rs)" using hit_index_any by fastforce
  have safe: "\<forall>j < length (rs_rules rs). rule_safe (rs_rules rs ! j)" using rule by (simp add: drop_rule_def)
  have j: "judging fc dir ?s m" using m by (auto simp: judging_def intro: exI [of _ "fc_bufs fc"])
  obtain n stop m2 where F: "feed_hits (feed_trampoline ?cb (reading_flow ?rf dir d d') dir) ?hs m = (n, stop, m2)" by (metis prod_cases3)
  note f = feed_l2 [OF buf s29 safe hs j, of pm, unfolded F Let_def split_conv]
  have m2: "m' = m2" using R F by simp
  have seg: "l2_segment pm rs pkt dir slot st m = Some (rc, slot\<lparr>sl_rf := (put_dir ?rf dir d')\<lparr>rf_failed := rc \<noteq> REASS_OK\<rparr>\<rparr>,
      st\<lparr>g_tcp_payload := g_tcp_payload st + 1, g_reass_fed := fed'\<rparr>, m')"
    using r(1) pkt si(2) sz by (simp add: l2_segment_def)
  have bad: "\<not> lm_bad m'" using f m2 by (auto simp: judging_def)
  show ?thesis
  proof (cases "rc = REASS_OK \<and> \<not> stop")
    case False
    then show ?thesis using seg bad f m2 r(2) by auto
  next
    case True
    have sc: "rd_scanned d' = rd_next_off d'" "take (rd_scanned d) S @ new_bytes d d' = take (rd_scanned d') S"
        "stream_inv S isn (rs_dict rs) (C \<union> {off..<off + l}) (rs_ac rs) (put_dir ?rf dir d') dir"
      using R F True by (auto simp: Let_def)
    have "\<not> sublist b (take (rd_scanned d') S)"
    proof
      assume sub: "sublist b (take (rd_scanned d') S)"
      have "\<exists>k. (i, k) \<in> set ?hs"
        using new_hit [of b "take (rd_scanned d) S" "new_bytes d d'"] sub si(4) sc(2) rule by (simp add: drop_rule_def)
      moreover have "verify_rule pm (rs_rules rs ! i) ?s (judge_ctx fc ?s fb) = Some True" for fb
        using content_rule_verify content_rule_header rule sub sc(1) r(6) unfolding drop_rule_def by metis
      ultimately have stop using f rule by (auto simp: drop_rule_def content_rule_def)
      then show False using True by simp
    qed
    moreover have "rf_dir (put_dir ?rf dir d') ! dir = d'" using len by simp
    ultimately have "slot_inv S isn (C \<union> {off..<off + l}) addr rs b (slot\<lparr>sl_rf := put_dir ?rf dir d'\<rparr>) dir"
      using si sc(3) r(5) by (simp add: slot_inv_def)
    moreover have "\<not> rf_failed ?rf" using si(1) by (simp add: stream_inv_def Let_def)
    ultimately show ?thesis using seg bad True r(3) len by (auto simp: put_dir_failed_same)
  qed
qed

lemma slot_inv_cong:
  assumes "slot_inv S isn C addr rs b s dir" "sl_rf s' = sl_rf s" "sl_ac_addr s' = sl_ac_addr s" "sl_is_tls s' \<noteq> 1"
  shows "slot_inv S isn C addr rs b s' dir"
  using assms by (simp add: slot_inv_def)

lemma tls_probe_inv:
  assumes "slot_inv S isn C addr rs b s dir" "pk_payload pkt = Some pl" "\<not> looks_like_tls pl"
  shows "slot_inv S isn C addr rs b (tls_probe pkt d s) dir"
  using assms by (auto simp: tls_probe_def slot_inv_def)

lemma ml_stage_drop: "d_verdict d = IPS_DROP \<Longrightarrow> ml_stage sc cfg pkt env slot d = (d, slot, False)"
  by (simp add: ml_stage_def Let_def split: option.splits)

lemma evaluate_drop:
  assumes "cfg_mode cfg = IPS_MODE_PREVENT" "map_option snd (lm_best m) = Some SIG_DROP"
  shows "\<exists>d. ips_evaluate_full pm cfg rs p fc (Some (l2_result m)) = Some d \<and> d_verdict d = IPS_DROP"
proof -
  obtain j where "lm_best m = Some (j, SIG_DROP)" using assms(2) by (cases "lm_best m") auto
  moreover have "max IPS_DROP v = IPS_DROP" for v by (cases v) (simp_all add: verdict_order)
  ultimately show ?thesis
    using assms(1) by (simp add: ips_evaluate_full_def l2_result_def ips_fuse_verdict mode_cap_def sig_severity_def)
qed

lemma tcp_stage_stream:
  assumes inv: "slot_inv S isn C addr rs b slot dir" and dir: "dir < 2" and rule: "drop_rule rs i b (stage_ctx dir slot fc)"
    and pkt: "pk_payload pkt = Some (take l (drop off S))" "pk_tcp_seq pkt = isn + of_nat off"
    and sz: "off + l \<le> length S" "length S < 2 ^ 29" "0 < l" and base: "rd_have_base (rf_dir (sl_rf slot) ! dir) \<or> off = 0"
    and tls: "\<not> looks_like_tls (take l (drop off S))" and mode: "cfg_mode cfg = IPS_MODE_PREVENT"
  shows "\<exists>d ins slot' st'. tcp_stage pm sc cfg addr rs env pkt dir fc slot st = Some (d, ins, slot', st') \<and>
    (d_verdict d = IPS_DROP \<or>
     slot_inv S isn (C \<union> {off..<off + l}) addr rs b slot' dir \<and> rd_have_base (rf_dir (sl_rf slot') ! dir) \<and>
     sl_profid slot' = sl_profid slot)"
proof -
  let ?fc = "stage_ctx dir slot fc"
  let ?m = "l2_start ?fc slot (g_ac_raw st)" and ?slot = "tls_probe pkt dir slot"
  have "rf_ac (sl_rf slot) = Some (rs_ac rs)" "sl_ac_addr slot = addr" using inv by (auto simp: slot_inv_def stream_inv_def Let_def)
  then have bind: "l2_bind pm addr rs slot ?m = Some (slot, ?m)"
    by (simp add: l2_bind_def)
  have rf: "sl_rf ?slot = sl_rf slot" "sl_profid ?slot = sl_profid slot" by (auto simp: tls_probe_def split: option.split)
  obtain rc slot2 st2 m2 where seg: "l2_segment pm rs pkt dir ?slot st ?m = Some (rc, slot2, st2, m2)" "\<not> lm_bad m2"
      "rc = REASS_FAILCLOSED \<or> map_option snd (lm_best m2) = Some SIG_DROP \<or>
       slot_inv S isn (C \<union> {off..<off + l}) addr rs b slot2 dir \<and> rd_have_base (rf_dir (sl_rf slot2) ! dir)"
    using l2_segment_stream [OF tls_probe_inv [OF inv pkt(1) tls] dir rule pkt sz, of dir ?m pm st] base rf
    by (auto simp: l2_start_def)
  define d0 where "d0 = (if rc = REASS_FAILCLOSED then make_failclosed cfg
      else the (ips_evaluate_full pm cfg rs [] ?fc (Some (l2_result m2))))"
  have d0: "(if rc = REASS_FAILCLOSED then Some (make_failclosed cfg)
      else ips_evaluate_full pm cfg rs [] ?fc (Some (l2_result m2))) = Some d0"
    by (simp add: d0_def ips_evaluate_full_def)
  obtain d slot3 ins where ml: "ml_stage sc cfg pkt env (slot2\<lparr>sl_fb := lm_fb m2\<rparr>) d0 = (d, slot3, ins)" by (metis prod_cases3)
  have run: "tcp_stage pm sc cfg addr rs env pkt dir fc slot st = Some (d, ins, slot3, st2\<lparr>g_ac_raw := lm_ac_raw m2\<rparr>)"
    using bind seg(1,2) d0 ml by (simp add: tcp_stage_def Let_def)
  have drop: "d_verdict d = IPS_DROP" if "d_verdict d0 = IPS_DROP"
    using that ml ml_stage_drop [OF that, of sc cfg pkt env "slot2\<lparr>sl_fb := lm_fb m2\<rparr>"] by simp
  have s3: "sl_rf slot3 = sl_rf slot2" "sl_ac_addr slot3 = sl_ac_addr slot2" "sl_is_tls slot3 = sl_is_tls slot2" "sl_profid slot3 = sl_profid slot2"
    using ml by (auto simp: ml_stage_def Let_def split: option.splits if_splits)
  have p: "sl_profid slot2 = sl_profid slot" using l2_segment_slot [OF seg(1)] rf(2) by auto
  consider "rc = REASS_FAILCLOSED" | "rc \<noteq> REASS_FAILCLOSED" "map_option snd (lm_best m2) = Some SIG_DROP"
    | "slot_inv S isn (C \<union> {off..<off + l}) addr rs b slot2 dir" "rd_have_base (rf_dir (sl_rf slot2) ! dir)"
    using seg(3) by blast
  then show ?thesis
  proof cases
    case 1
    then have "d_verdict d0 = IPS_DROP" using mode by (simp add: d0_def make_failclosed_def)
    then show ?thesis using run drop by blast
  next
    case 2
    then have "d_verdict d0 = IPS_DROP" using evaluate_drop [OF mode 2(2), of pm rs "[]" ?fc] by (auto simp: d0_def)
    then show ?thesis using run drop by blast
  next
    case 3
    then have "slot_inv S isn (C \<union> {off..<off + l}) addr rs b slot3 dir"
      using slot_inv_cong [OF 3(1), of slot3] s3 by (simp add: slot_inv_def)
    then show ?thesis using run 3(2) s3 p by auto
  qed
qed

section \<open>The whole connection\<close>

text \<open>
  A packet of the client that carries the \<open>l\<close> bytes of the stream from \<open>off\<close> on, in the clear, with the profile
  of the connection.
\<close>

record conn =
  cn_src :: u32
  cn_sport :: u16
  cn_dst :: u32
  cn_dport :: u16
  cn_prof :: u8

definition conn_key :: "conn \<Rightarrow> flow_key" where
  "conn_key c = flow_build_key (cn_src c) (cn_sport c) (cn_dst c) (cn_dport c) 6"

definition carries :: "conn \<Rightarrow> bytes \<Rightarrow> u32 \<Rightarrow> nat \<times> nat \<Rightarrow> nfq_pkt \<Rightarrow> bool" where
  "carries c S isn p pkt \<longleftrightarrow> pk_proto pkt = 6 \<and> pk_src_ip pkt = cn_src c \<and> pk_sport pkt = cn_sport c \<and> pk_dst_ip pkt = cn_dst c \<and>
     pk_dport pkt = cn_dport c \<and> pk_ips_prof_id pkt = cn_prof c \<and> pk_tcp_seq pkt = isn + of_nat (fst p) \<and>
     pk_payload pkt = Some (take (snd p) (drop (fst p) S)) \<and> 0 < snd p \<and> fst p + snd p \<le> length S \<and>
     \<not> looks_like_tls (take (snd p) (drop (fst p) S))"

definition flow_inv :: "conn \<Rightarrow> bytes \<Rightarrow> u32 \<Rightarrow> nat set \<Rightarrow> nat \<Rightarrow> 'p sig_ruleset \<Rightarrow> bytes \<Rightarrow> flow_slot \<Rightarrow> bool" where
  "flow_inv c S isn C addr rs b s \<longleftrightarrow> sl_key s = conn_key c \<and> sl_init_ip s = cn_src c \<and> sl_init_port s = cn_sport c \<and>
     sl_profid s \<in> {0, cn_prof c} \<and> slot_inv S isn C addr rs b s 0"

lemma stage_ctx_conn:
  assumes "sl_profid s \<in> {0, pk_ips_prof_id pkt}"
  shows "stage_ctx 0 s (base_ctx pkt env) = base_ctx pkt env"
  using assms by (auto simp: stage_ctx_def base_ctx_def nfq_pkt_to_flow_ctx_def Let_def unat_eq_zero)

lemma process_stream:
  assumes get: "flow_get (en_junk env) (en_alloc env) (st_flows s) pkt addr (rs_ac rs) = (flows1, Some (bk, 0))"
    and ok: "flows_ok (st_flows s)" and inv: "flow_inv c S isn C addr rs b (flows1 ! bk)"
    and pkt: "carries c S isn p pkt" and rule: "drop_rule rs i b (base_ctx pkt env)" and S: "length S < 2 ^ 29"
    and base: "rd_have_base (rf_dir (sl_rf (flows1 ! bk)) ! 0) \<or> fst p = 0" and mode: "cfg_mode cfg = IPS_MODE_PREVENT"
  shows "\<exists>s' out. process_packet pm sc qnum cfg addr rs env pkt s = Some (s', out) \<and>
    (\<not> po_accept out \<and> po_connmark out = SG_CMK_IPS_BLOCK \<or>
     flow_inv c S isn (C \<union> {fst p..<fst p + snd p}) addr rs b (flow_slot_of (conn_key c) s') \<and>
     rd_have_base (rf_dir (sl_rf (flow_slot_of (conn_key c) s')) ! 0))"
proof -
  have len: "length (st_flows s) = FLOW_BUCKETS" using ok by (simp add: flows_ok_def)
  note f = flow_get_Some [OF get len]
  have k: "pkt_key pkt = conn_key c" using pkt by (simp add: carries_def pkt_key_def conn_key_def)
  have fc: "stage_ctx 0 (flows1 ! bk) (base_ctx pkt env) = base_ctx pkt env"
    using stage_ctx_conn [of "flows1 ! bk" pkt env] inv pkt by (simp add: flow_inv_def carries_def)
  obtain d ins slot st where t: "tcp_stage pm sc cfg addr rs env pkt 0 (base_ctx pkt env) (flows1 ! bk) (st_stats s) = Some (d, ins, slot, st)"
      "d_verdict d = IPS_DROP \<or> slot_inv S isn (C \<union> {fst p..<fst p + snd p}) addr rs b slot 0 \<and> rd_have_base (rf_dir (sl_rf slot) ! 0) \<and>
       sl_profid slot = sl_profid (flows1 ! bk)"
    using tcp_stage_stream [of S isn C addr rs b "flows1 ! bk" 0 i "base_ctx pkt env" pkt "snd p" "fst p" cfg pm sc env "st_stats s"]
      inv pkt rule S base mode fc by (auto simp: flow_inv_def carries_def)
  let ?out = "pkt_verdict qnum pkt d ins"
  let ?s' = "\<lparr>st_flows = flows1[bk := slot], st_stats = count_verdict ?out st\<rparr>"
  have run: "process_packet pm sc qnum cfg addr rs env pkt s = Some (?s', ?out)"
    using get t(1) pkt by (simp add: process_packet_def Let_def carries_def)
  have sl: "flow_slot_of (conn_key c) ?s' = slot" using f(1,3) k by (simp add: flow_slot_of_def)
  have "same_flow (flows1 ! bk) slot" using tcp_stage_ml(1) [OF t(1)] .
  then have "flow_inv c S isn (C \<union> {fst p..<fst p + snd p}) addr rs b slot" if "d_verdict d \<noteq> IPS_DROP"
    using that t(2) inv by (auto simp: flow_inv_def same_flow_def)
  then show ?thesis using run sl t(2) by (auto simp: pkt_verdict_def Let_def)
qed

text \<open>A fresh flow.\<close>

lemma fresh_flow_inv:
  assumes "reass_flow_init junk alloc (Some (rs_ac rs)) 0 = (0, rf)" "ac_compiled (rs_ac rs) (rs_dict rs)" "b \<noteq> []" "carries c S isn p pkt"
  shows "flow_inv c S isn {} addr rs b (note_prof pkt (fresh_slot s rf addr pkt))"
proof -
  have cap: "init_cap 0 = REASS_MAX_BYTES" by (simp add: init_cap_def)
  have rf: "rf_dir rf ! 0 = reass_dir_init junk REASS_MAX_BYTES" "rf_ac rf = Some (rs_ac rs)" "\<not> rf_failed rf"
    using reass_flow_init_ok [OF assms(1)] by (simp_all add: cap)
  have z: "rd_scanned (rf_dir rf ! 0) = 0" "rd_cap (rf_dir rf ! 0) = REASS_MAX_BYTES" "rd_scan_limit (rf_dir rf ! 0) = REASS_MAX_BYTES"
      "rd_ac_state (rf_dir rf ! 0) = 0" "\<not> rd_have_base (rf_dir rf ! 0)" "rd_max_off (rf_dir rf ! 0) = 0"
    by (simp_all add: rf reass_dir_init_def reass_dir_zero_def)
  have "dir_ok (rf_dir rf ! 0)" using dir_ok_init [of REASS_MAX_BYTES junk] rf(1) by (simp add: REASS_MAX_BYTES_def)
  then have "recv (rf_dir rf ! 0) j = None" for j using z(6) by (simp add: dir_ok_def)
  then have "stream_inv S isn (rs_dict rs) {} (rs_ac rs) rf 0"
    using init_flow_ok [OF assms(1,2)] rf z ac_stream.reads_start [OF assms(2)]
    by (simp add: stream_inv_def Let_def REASS_MAX_BYTES_def)
  then show ?thesis
    using assms(3,4) z by (auto simp: flow_inv_def slot_inv_def fresh_slot_def note_prof_def pkt_key_def conn_key_def carries_def)
qed

lemma slot_inv_complete:
  assumes "slot_inv S isn C addr rs b s 0" "{..<length S} \<subseteq> C" "length S \<le> REASS_MAX_BYTES"
  shows "\<not> sublist b S"
proof -
  let ?d = "rf_dir (sl_rf s) ! 0"
  have inv: "stream_inv S isn (rs_dict rs) C (rs_ac rs) (sl_rf s) 0" "rd_cap ?d = REASS_MAX_BYTES" "\<not> sublist b (take (rd_scanned ?d) S)"
    using assms(1) by (auto simp: slot_inv_def)
  have fk: "flow_ok (rs_dict rs) (sl_rf s)" "rd_scan_limit ?d = rd_cap ?d" "\<forall>i v. recv ?d i = Some v \<longrightarrow> i < length S \<and> S ! i = v"
      "rf_ac (sl_rf s) = Some (rs_ac rs)"
    using inv(1) by (auto simp: stream_inv_def Let_def)
  note d = flow_okD(2) [OF fk(1), of 0, simplified]
  have sc: "rd_scanned ?d = rd_next_off ?d" using scanned_all [OF fk(1) _ fk(4) fk(2)] by simp
  have "recv ?d (rd_next_off ?d) = None" using d by (simp add: dir_ok_def)
  moreover have "recv ?d j \<noteq> None" if "j < length S" for j
    using inv(1,2) assms(2,3) that by (auto simp: stream_inv_def Let_def)
  ultimately have "length S \<le> rd_next_off ?d" by (meson leI)
  then show ?thesis using inv(3) sc by simp
qed

section \<open>The run of the daemon over the connection\<close>

abbreviation blocked :: "pkt_out \<Rightarrow> bool" where
  "blocked out \<equiv> \<not> po_accept out \<and> po_connmark out = SG_CMK_IPS_BLOCK"

abbreviation input_of ::
  "nat \<Rightarrow> 'p sig_ruleset \<Rightarrow> ((nat \<times> nat) \<times> pkt_env \<times> nfq_pkt) list \<Rightarrow> (nat \<times> 'p sig_ruleset \<times> pkt_env \<times> nfq_pkt) list" where
  "input_of addr rs \<equiv> map (\<lambda>x. (addr, rs, snd x))"

abbreviation covered :: "((nat \<times> nat) \<times> 'a) list \<Rightarrow> nat set" where
  "covered ps \<equiv> \<Union>((\<lambda>((off, l), x). {off..<off + l}) ` set ps)"

lemma run_stream:
  assumes "flows_ok (st_flows s)" "flow_inv c S isn C addr rs b (flow_slot_of (conn_key c) s)"
    "rd_have_base (rf_dir (sl_rf (flow_slot_of (conn_key c) s)) ! 0)"
    "\<forall>(p, env, pkt) \<in> set ps. carries c S isn p pkt \<and> drop_rule rs i b (base_ctx pkt env)" "length S < 2 ^ 29"
    "cfg_mode cfg = IPS_MODE_PREVENT"
  shows "(\<exists>n s' outs. n \<le> length ps \<and> run_packets pm sc qnum cfg (input_of addr rs (take n ps)) s = Some (s', outs) \<and>
      (\<exists>x \<in> set outs. blocked (snd x))) \<or>
    (\<exists>s' outs. run_packets pm sc qnum cfg (input_of addr rs ps) s = Some (s', outs) \<and>
      flow_inv c S isn (C \<union> covered ps) addr rs b (flow_slot_of (conn_key c) s'))"
  using assms
proof (induction ps arbitrary: s C)
  case Nil
  then show ?case by simp
next
  case (Cons x ps)
  obtain p env pkt where x: "x = (p, env, pkt)" by (cases x)
  have c: "carries c S isn p pkt" "drop_rule rs i b (base_ctx pkt env)" using Cons.prems(4) x by auto
  have k: "pkt_key pkt = conn_key c" using c(1) by (simp add: carries_def pkt_key_def conn_key_def)
  let ?b = "flow_bucket (conn_key c)" and ?sl = "flow_slot_of (conn_key c) s"
  have len: "length (st_flows s) = FLOW_BUCKETS" using Cons.prems(1) by (simp add: flows_ok_def)
  have get: "flow_get (en_junk env) (en_alloc env) (st_flows s) pkt addr (rs_ac rs) = ((st_flows s)[?b := note_prof pkt ?sl], Some (?b, 0))"
    using flow_get_known [of "st_flows s" pkt] Cons.prems(2) c(1) k by (simp add: flow_inv_def flow_slot_of_def carries_def)
  have n: "sl_profid (note_prof pkt ?sl) \<in> {0, cn_prof c}" using Cons.prems(2) c(1) by (auto simp: flow_inv_def note_prof_def carries_def)
  then have inv: "flow_inv c S isn C addr rs b ((st_flows s)[?b := note_prof pkt ?sl] ! ?b)"
    using Cons.prems(2) len by (simp add: flow_inv_def slot_inv_def)
  obtain s1 out where r: "process_packet pm sc qnum cfg addr rs env pkt s = Some (s1, out)"
      "blocked out \<or> flow_inv c S isn (C \<union> {fst p..<fst p + snd p}) addr rs b (flow_slot_of (conn_key c) s1) \<and>
        rd_have_base (rf_dir (sl_rf (flow_slot_of (conn_key c) s1)) ! 0)"
    using process_stream [OF get Cons.prems(1) inv c Cons.prems(5) _ Cons.prems(6), of pm sc qnum] Cons.prems(3) len
    by auto
  show ?case
  proof (cases "blocked out")
    case True
    then have "run_packets pm sc qnum cfg (input_of addr rs (take 1 (x # ps))) s = Some (s1, [(pkt, out)])" using r(1) x by simp
    then show ?thesis using True by (intro disjI1 exI [of _ 1] exI [of _ s1] exI [of _ "[(pkt, out)]"]) (simp add: x)
  next
    case False
    have ok1: "flows_ok (st_flows s1)" using process_packet_flows_ok [OF r(1) Cons.prems(1)] .
    from False r(2) Cons.IH [OF ok1 _ _ _ Cons.prems(5,6), of "C \<union> {fst p..<fst p + snd p}"] Cons.prems(4)
    consider (hit) n s' outs where "n \<le> length ps" "run_packets pm sc qnum cfg (input_of addr rs (take n ps)) s1 = Some (s', outs)"
        "\<exists>x \<in> set outs. blocked (snd x)"
      | (all) s' outs where "run_packets pm sc qnum cfg (input_of addr rs ps) s1 = Some (s', outs)"
        "flow_inv c S isn (C \<union> {fst p..<fst p + snd p} \<union> covered ps) addr rs b (flow_slot_of (conn_key c) s')"
      by fastforce
    then show ?thesis
    proof cases
      case hit
      then have "run_packets pm sc qnum cfg (input_of addr rs (take (Suc n) (x # ps))) s = Some (s', (pkt, out) # outs)"
        using r(1) x by simp
      then show ?thesis using hit(1,3)
        by (intro disjI1 exI [of _ "Suc n"] exI [of _ s'] exI [of _ "(pkt, out) # outs"]) (simp add: x)
    next
      case all
      have "C \<union> {fst p..<fst p + snd p} \<union> covered ps = C \<union> covered (x # ps)" using x by (cases p) auto
      then show ?thesis using all r(1) x by auto
    qed
  qed
qed

lemma first_packet:
  assumes "flows_ok (st_flows s)" "sl_key (flow_slot_of (conn_key c) s) \<noteq> conn_key c" "en_alloc env = (\<lambda>_. True)"
    "carries c S isn p pkt" "drop_rule rs i b (base_ctx pkt env)" "fst p = 0" "length S < 2 ^ 29" "cfg_mode cfg = IPS_MODE_PREVENT"
    "ac_compiled (rs_ac rs) (rs_dict rs)"
  shows "\<exists>s' out. process_packet pm sc qnum cfg addr rs env pkt s = Some (s', out) \<and>
    (blocked out \<or>
     flow_inv c S isn {fst p..<fst p + snd p} addr rs b (flow_slot_of (conn_key c) s') \<and>
     rd_have_base (rf_dir (sl_rf (flow_slot_of (conn_key c) s')) ! 0))"
proof -
  have k: "pkt_key pkt = conn_key c" using assms(4) by (simp add: carries_def pkt_key_def conn_key_def)
  have len: "length (st_flows s) = FLOW_BUCKETS" using assms(1) by (simp add: flows_ok_def)
  let ?b = "flow_bucket (conn_key c)"
  obtain rf where rf: "reass_flow_init (en_junk env) (en_alloc env) (Some (rs_ac rs)) 0 = (0, rf)"
    using assms(3) by (simp add: reass_flow_init_def Let_def)
  define s0 where "s0 = (let s1 = st_flows s ! ?b in if fk_used (sl_key s1) then s1\<lparr>sl_rf := reass_flow_free (sl_rf s1)\<rparr> else s1)"
  have get: "flow_get (en_junk env) (en_alloc env) (st_flows s) pkt addr (rs_ac rs) =
      ((st_flows s)[?b := note_prof pkt (fresh_slot s0 rf addr pkt)], Some (?b, 0))"
    using flow_get_new [of "st_flows s" pkt "en_junk env" "en_alloc env" addr "rs_ac rs"] assms(2) rf k
    by (simp add: flow_slot_of_def s0_def Let_def)
  have "b \<noteq> []" using assms(5) by (simp add: drop_rule_def)
  then have "flow_inv c S isn {} addr rs b ((st_flows s)[?b := note_prof pkt (fresh_slot s0 rf addr pkt)] ! ?b)"
    using fresh_flow_inv [OF rf assms(9) _ assms(4)] len by simp
  from process_stream [OF get assms(1) this assms(4,5,7) disjI2 [OF assms(6)] assms(8)] show ?thesis by simp
qed



end
