(* ===== verification/Sig_Parse_Correct.thy ===== *)
theory Sig_Parse_Correct
  imports Sig_Parse Sig_Match
begin

unbundle bit_operations_syntax

text \<open>
  What the parser guarantees to the matcher: every rule it commits respects the fixed array sizes of
  the C structures and is well-formed for the prefilter, a rule with an option the engine cannot
  evaluate never keeps the right to drop, and the load statistics count what was loaded.
\<close>

section \<open>The invariant of a rule under construction\<close>

definition content_ok :: "sig_content \<Rightarrow> bool" where
  "content_ok c \<longleftrightarrow> c_data c \<noteq> [] \<and> length (c_data c) \<le> SIG_CONTENT_MAX"

definition byteop_ok :: "sig_byteop \<Rightarrow> bool" where
  "byteop_ok b \<longleftrightarrow> bo_nbytes b \<noteq> 0 \<and> bo_nbytes b \<le> 8"

definition names_ok :: "'p sig_ruleset \<Rightarrow> bool" where
  "names_ok rs \<longleftrightarrow> length (rs_fb_names rs) \<le> SIG_MAX_FLOWBITS \<and>
     length (rs_fb_ever_set rs) = length (rs_fb_names rs)"

definition rule_ok :: "nat \<Rightarrow> 'p sig_rule \<Rightarrow> bool" where
  "rule_ok n r \<longleftrightarrow>
     length (r_content r) \<le> SIG_MAX_CONTENT \<and> (\<forall>c \<in> set (r_content r). content_ok c) \<and>
     length (r_byteop r) \<le> SIG_MAX_BYTEOP \<and> (\<forall>b \<in> set (r_byteop r). byteop_ok b) \<and>
     length (r_flowbits r) \<le> SIG_MAX_FB_RULE \<and> (\<forall>b \<in> set (r_flowbits r). fb_flag_id b < n) \<and>
     length (r_dport_list r) \<le> SIG_DPORT_MAX \<and> length (r_msg r) < SIG_MSG_MAX \<and>
     (r_has_unsup r \<noteq> 0 \<longrightarrow> r_fidelity r = SIG_FID_ALERT)"

definition state_ok :: "'p sig_ruleset \<times> 'p sig_rule \<times> nat option \<Rightarrow> bool" where
  "state_ok st \<longleftrightarrow>
     (case st of (rs, r, cur) \<Rightarrow> names_ok rs \<and> rule_ok (length (rs_fb_names rs)) r \<and>
        (\<forall>i. cur = Some i \<longrightarrow> i < length (r_content r)))"

lemma put_byte_length: "length out \<le> cap \<Longrightarrow> length (put_byte cap out b) \<le> cap"
  by (simp add: put_byte_def)

lemma decode_content_length:
  "decode_content cap hex s out = Some bs \<Longrightarrow> length out \<le> cap \<Longrightarrow> length bs \<le> cap"
proof (induction cap hex s out rule: decode_content.induct)
  case (2 cap hex c s out)
  note ih = 2(1-5) and d = 2(6) and l = 2(7)
  show ?case
    using d ih l put_byte_length [OF l]
    by (subst (asm) decode_content.simps) (auto simp del: decode_content.simps split: if_splits list.splits)
qed (auto split: if_splits)

lemma takeWhile_neq_length: "x \<in> set xs \<Longrightarrow> length (takeWhile (\<lambda>y. y \<noteq> x) xs) < length xs"
  by (induction xs) auto

lemma or_nonzero_iff: "(a OR b :: u8) \<noteq> 0 \<longleftrightarrow> a \<noteq> 0 \<or> b \<noteq> 0"
  by (metis or_eq_0_iff)

lemma cap_alert_ok [simp]: "rule_ok n r \<Longrightarrow> rule_ok n (cap_alert b r)"
  by (simp add: rule_ok_def cap_alert_def)

lemma cap_alert_content [simp]: "r_content (cap_alert b r) = r_content r"
  by (simp add: cap_alert_def)

lemma on_cur_ok:
  assumes "rule_ok n r" "\<And>c. content_ok c \<Longrightarrow> content_ok (f c)" "\<forall>i. cur = Some i \<longrightarrow> i < length (r_content r)"
  shows "rule_ok n (on_cur cur f r)"
proof (cases cur)
  case (Some i)
  have "set ((r_content r)[i := f (r_content r ! i)]) \<subseteq> insert (f (r_content r ! i)) (set (r_content r))"
    by (rule set_update_subset_insert)
  then show ?thesis using assms Some by (force simp: on_cur_def rule_ok_def)
qed (use assms in \<open>simp add: on_cur_def\<close>)

lemma on_cur_length [simp]: "length (r_content (on_cur cur f r)) = length (r_content r)"
  by (simp add: on_cur_def split: option.split)

lemma add_content_ok:
  assumes "rule_ok n r" "\<forall>i. cur = Some i \<longrightarrow> i < length (r_content r)" "add_content val cur r = (cur', r')"
  shows "rule_ok n r' \<and> (\<forall>i. cur' = Some i \<longrightarrow> i < length (r_content r'))"
  using assms decode_content_length [of SIG_CONTENT_MAX False val "[]"]
  by (auto simp: add_content_def rule_ok_def content_ok_def split: if_splits option.splits)

lemma add_byteop_ok:
  assumes "rule_ok n r" "\<And>opn. b = Some opn \<Longrightarrow> byteop_ok opn"
  shows "rule_ok n (add_byteop b r)" "r_content (add_byteop b r) = r_content r"
  using assms cap_alert_ok [OF assms(1), of SIG_U_BYTEOP]
  by (auto simp: add_byteop_def rule_ok_def split: option.split if_splits)

lemma byte_test_opts_nbytes: "byte_test_opts ts b = Some b' \<Longrightarrow> bo_nbytes b' = bo_nbytes b"
  by (induction ts b rule: byte_test_opts.induct) (auto split: if_splits)

lemma byte_jump_opts_nbytes: "byte_jump_opts ts b = Some b' \<Longrightarrow> bo_nbytes b' = bo_nbytes b"
  by (induction ts b rule: byte_jump_opts.induct) (auto split: if_splits option.splits)

lemma parse_byte_ok:
  "parse_byte_test val n = Some b \<Longrightarrow> byteop_ok b" "parse_byte_jump val n = Some b \<Longrightarrow> byteop_ok b"
  by (auto simp: parse_byte_test_def parse_byte_jump_def byteop_ok_def Let_def not_less split: if_splits
      dest!: byte_test_opts_nbytes byte_jump_opts_nbytes)

lemma parse_pcre_ok:
  assumes "rule_ok n r"
  shows "rule_ok n (parse_pcre pc r val)" "r_content (parse_pcre pc r val) = r_content r"
proof -
  have u: "rule_ok n (r\<lparr>r_pcre := c, r_pcre_relative := x, r_pcre_buffer := y\<rparr>)" for c x y
    using assms by (simp add: rule_ok_def)
  show "rule_ok n (parse_pcre pc r val)" "r_content (parse_pcre pc r val) = r_content r"
    using assms u by (auto simp: parse_pcre_def Let_def split: option.split)
qed

lemma flowbit_intern_ok:
  assumes "names_ok rs" "flowbit_intern rs name = (rs', i)"
  shows "names_ok rs'" "length (rs_fb_names rs) \<le> length (rs_fb_names rs')" "rs_rules rs' = rs_rules rs"
    "\<And>k. i = Some k \<Longrightarrow> k < length (rs_fb_names rs')"
  using assms
  by (auto simp: flowbit_intern_def names_ok_def takeWhile_neq_length split: if_splits)

lemma rule_ok_mono: "rule_ok n r \<Longrightarrow> n \<le> m \<Longrightarrow> rule_ok m r"
  by (auto simp: rule_ok_def)

lemma parse_flowbits_ok:
  assumes "names_ok rs" "rule_ok (length (rs_fb_names rs)) r" "parse_flowbits rs r val = (rs', r')"
  shows "names_ok rs' \<and> rule_ok (length (rs_fb_names rs')) r' \<and> r_content r' = r_content r \<and>
    rs_rules rs' = rs_rules rs"
proof -
  define t where "t = split_csv 3 val"
  obtain rs1 i where f: "flowbit_intern rs (t ! 1) = (rs1, i)" by force
  note fi = flowbit_intern_ok [OF assms(1) f]
  have ok1: "rule_ok (length (rs_fb_names rs1)) r" using rule_ok_mono [OF assms(2) fi(2)] .
  have cases: "(rs' = rs \<and> (r' = r \<or> r' = r\<lparr>r_fb_noalert := True\<rparr>)) \<or> (rs' = rs1 \<and> (r' = r \<or>
      (\<exists>op' k. i = Some k \<and> length (r_flowbits r) < SIG_MAX_FB_RULE \<and>
         r' = r\<lparr>r_flowbits := r_flowbits r @ [\<lparr>fb_op = op', fb_flag_id = k\<rparr>]\<rparr>)))"
    using assms(3) f unfolding parse_flowbits_def t_def [symmetric] Let_def
    by (auto split: if_splits option.splits)
  then show ?thesis
    using assms(1,2) fi ok1 by (auto simp: rule_ok_def)
qed

lemma on_cur_within:
  "rule_ok n r \<Longrightarrow> \<forall>i. cur = Some i \<longrightarrow> i < length (r_content r) \<Longrightarrow>
   rule_ok n (on_cur cur (\<lambda>c. (let v = parse_uint_field val 65535
                          in (if v \<ge> 0 then c\<lparr>c_within := v\<rparr> else c)\<lparr>c_relative := True\<rparr>)) r)"
  by (rule on_cur_ok) (auto simp: content_ok_def Let_def)

lemma parse_pcre_content [simp]: "r_content (parse_pcre pc r val) = r_content r"
  by (auto simp: parse_pcre_def Let_def split: option.split)

lemma add_byteop_content [simp]: "r_content (add_byteop b r) = r_content r"
  by (auto simp: add_byteop_def split: option.split)

text \<open>Every keyword keeps the bounds, and none but \<open>content\<close> changes the number of contents.\<close>

lemma rule_option_length [simp]: "length (r_content (rule_option pc key val cur r)) = length (r_content r)"
  unfolding rule_option_def by (simp split del: if_split add: if_distrib [of r_content] if_distrib [of length] cong: if_cong)

lemma rule_ok_if: "rule_ok n a \<Longrightarrow> rule_ok n b \<Longrightarrow> rule_ok n (if P then a else b)"
  by simp

lemma rule_ok_fields:
  assumes "rule_ok n r"
  shows "rule_ok n (r\<lparr>r_prof_mask := x\<rparr>)" "rule_ok n (r\<lparr>r_dsize_min := i, r_dsize_max := j\<rparr>)"
    "rule_ok n (r\<lparr>r_flow_flags := f\<rparr>)" "rule_ok n (r\<lparr>r_flags_set := f\<rparr>)" "rule_ok n (r\<lparr>r_sid := k\<rparr>)"
    "rule_ok n (r\<lparr>r_rev := k\<rparr>)" "rule_ok n (r\<lparr>r_msg := take (SIG_MSG_MAX - 1) m\<rparr>)"
  using assms by (simp_all add: rule_ok_def SIG_MSG_MAX_def)

lemma add_byteop_parsed_ok:
  "rule_ok n r \<Longrightarrow> rule_ok n (add_byteop (parse_byte_test val k) r)"
  "rule_ok n r \<Longrightarrow> rule_ok n (add_byteop (parse_byte_jump val k) r)"
  by (rule add_byteop_ok(1), assumption, erule parse_byte_ok)+

lemma on_cur_fields_ok:
  assumes "rule_ok n r" "\<forall>i. cur = Some i \<longrightarrow> i < length (r_content r)"
  shows "rule_ok n (on_cur cur (\<lambda>c. c\<lparr>c_nocase := x\<rparr>) r)" "rule_ok n (on_cur cur (\<lambda>c. c\<lparr>c_offset := i\<rparr>) r)"
    "rule_ok n (on_cur cur (\<lambda>c. c\<lparr>c_depth := i\<rparr>) r)" "rule_ok n (on_cur cur (\<lambda>c. c\<lparr>c_buffer := b\<rparr>) r)"
    "rule_ok n (on_cur cur (\<lambda>c. c\<lparr>c_distance := i, c_relative := x\<rparr>) r)"
  by (rule on_cur_ok [OF assms(1) _ assms(2)], simp add: content_ok_def)+

lemma rule_option_ok:
  assumes "rule_ok n r" "\<forall>i. cur = Some i \<longrightarrow> i < length (r_content r)"
  shows "rule_ok n (rule_option pc key val cur r)"
  unfolding rule_option_def
  by (intro rule_ok_if on_cur_fields_ok [OF assms] on_cur_within [OF assms] parse_pcre_ok(1) [OF assms(1)]
      add_byteop_parsed_ok [OF assms(1)] cap_alert_ok [OF assms(1)] rule_ok_fields [OF assms(1)] assms(1))

lemma dispatch_option_ok:
  assumes "state_ok st"
  shows "state_ok (dispatch_option pc key val st) \<and> rs_rules (fst (dispatch_option pc key val st)) = rs_rules (fst st)"
proof -
  obtain rs r cur where st: "st = (rs, r, cur)" by (cases st)
  have ok: "names_ok rs" "rule_ok (length (rs_fb_names rs)) r" "\<forall>i. cur = Some i \<longrightarrow> i < length (r_content r)"
    using assms by (auto simp: st state_ok_def)
  obtain cur' r' where ac: "add_content val cur r = (cur', r')" by force
  obtain rs2 r2 where pf: "parse_flowbits rs r val = (rs2, r2)" by force
  have d: "dispatch_option pc key val st =
      (if key = ''content'' then (rs, r', cur') else if key = ''flowbits'' then (rs2, r2, cur)
       else (rs, rule_option pc key val cur r, cur))"
    by (simp add: dispatch_option_def st ac pf)
  note f = add_content_ok [OF ok(2,3) ac] parse_flowbits_ok [OF ok(1,2) pf] rule_option_ok [OF ok(2,3), of pc key val]
  have "state_ok (rs, r', cur')" using f(1) ok(1) by (simp add: state_ok_def)
  moreover have "state_ok (rs2, r2, cur) \<and> rs_rules rs2 = rs_rules rs" using f(2) ok(3) by (simp add: state_ok_def)
  moreover have "state_ok (rs, rule_option pc key val cur r, cur)" using f(3) ok by (simp add: state_ok_def)
  ultimately show ?thesis unfolding d by (simp add: st)
qed

lemma parse_options_ok:
  "state_ok st \<Longrightarrow> state_ok (parse_options pc p st) \<and> rs_rules (fst (parse_options pc p st)) = rs_rules (fst st)"
proof (induction pc p st rule: parse_options.induct)
  case (1 pc p st)
  define q where "q = dropWhile (\<lambda>c. is_blank c \<or> c = CHR '';'') p"
  define kp vp where "kp = read_key q []" and "vp = read_value (snd kp)"
  define st' where "st' = dispatch_option pc (fst kp) (fst vp) st"
  have eq: "parse_options pc p st = (if q = [] then st else parse_options pc (snd vp) st')"
    by (subst parse_options.simps) (simp add: Let_def q_def [symmetric] kp_def [symmetric] vp_def [symmetric] st'_def)
  have st': "state_ok st' \<and> rs_rules (fst st') = rs_rules (fst st)"
    unfolding st'_def by (rule dispatch_option_ok [OF 1(2)])
  show ?case
  proof (cases "q = []")
    case False
    then have "state_ok (parse_options pc (snd vp) st') \<and> rs_rules (fst (parse_options pc (snd vp) st')) = rs_rules (fst st')"
      using 1(1) [OF q_def _ kp_def vp_def] st' unfolding st'_def by blast
    then show ?thesis unfolding eq using False st' by simp
  qed (use 1(2) eq in simp)
qed

lemma parse_flowbits_names: "length (rs_fb_names rs) \<le> length (rs_fb_names (fst (parse_flowbits rs r val)))"
  by (auto simp: parse_flowbits_def Let_def flowbit_intern_def split: option.split)

lemma parse_options_names:
  "length (rs_fb_names (fst st)) \<le> length (rs_fb_names (fst (parse_options pc p st)))"
proof (induction pc p st rule: parse_options.induct)
  case (1 pc p st)
  have d: "length (rs_fb_names (fst st)) \<le> length (rs_fb_names (fst (dispatch_option pc k v st)))" for k v
  proof -
    obtain rs r cur where st: "st = (rs, r, cur)" by (cases st)
    show ?thesis
      using parse_flowbits_names [of rs r v] by (auto simp: st dispatch_option_def split: prod.split)
  qed
  show ?case
    using 1 [OF refl _ refl refl] d
    by (subst parse_options.simps) (auto simp: Let_def intro: order_trans)
qed

section \<open>Committed rules\<close>

definition rule_loaded :: "nat \<Rightarrow> 'p sig_rule \<Rightarrow> bool" where
  "rule_loaded n r \<longleftrightarrow> rule_ok n r \<and> rule_wf r \<and> r_sid r \<noteq> 0 \<and> r_base_action r = r_action r \<and>
     (\<forall>f. r_fast r = Some f \<longrightarrow> (\<forall>c \<in> set (r_content r). length (c_data c) \<le> length (c_data (r_content r ! f))))"

definition ruleset_loaded :: "'p sig_ruleset \<Rightarrow> bool" where
  "ruleset_loaded rs \<longleftrightarrow> names_ok rs \<and> (\<forall>r \<in> set (rs_rules rs). rule_loaded (length (rs_fb_names rs)) r)"

lemma argmax_fold:
  fixes L :: "nat \<Rightarrow> nat" and n :: nat
  defines "m \<equiv> foldl (\<lambda>f i. if L i > L f then i else f) 0 [1..<Suc n]"
  shows "m < Suc n \<and> (\<forall>i < Suc n. L i \<le> L m)"
  unfolding m_def
proof (induction n)
  case (Suc n)
  define k where "k = foldl (\<lambda>f i. if L i > L f then i else f) 0 [1..<Suc n]"
  have "foldl (\<lambda>f i. if L i > L f then i else f) 0 [1..<Suc (Suc n)] = (if L (Suc n) > L k then Suc n else k)"
    by (simp add: k_def)
  moreover have "k < Suc n" "\<forall>i < Suc n. L i \<le> L k" using Suc unfolding k_def by blast+
  ultimately show ?case by (auto simp: less_Suc_eq intro: order_trans less_imp_le)
qed simp

lemma pick_fast_spec:
  assumes "cs \<noteq> []"
  shows "pick_fast cs < length cs" "\<forall>c \<in> set cs. length (c_data c) \<le> length (c_data (cs ! pick_fast cs))"
proof -
  obtain n where n: "length cs = Suc n" using assms by (cases cs) auto
  note am = argmax_fold [where L = "\<lambda>i. length (c_data (cs ! i))" and n = n, folded n, folded pick_fast_def]
  show "pick_fast cs < length cs" using am by simp
  show "\<forall>c \<in> set cs. length (c_data c) \<le> length (c_data (cs ! pick_fast cs))"
    using am by (auto simp: in_set_conv_nth)
qed

lemma fidelity_not_alert [simp]: "f \<noteq> SIG_FID_ALERT \<longleftrightarrow> f = SIG_FID_FULL"
  by (cases f) auto

lemma trust_length: "length (foldl trust_flag es bs) = length es"
  by (induction bs arbitrary: es) (simp_all add: trust_flag_def)

lemma rule_loaded_commit:
  assumes "rule_ok n r" "r_content r \<noteq> []" "r_sid r \<noteq> 0"
  shows "rule_loaded n (r\<lparr>r_fast := Some (pick_fast (r_content r)), r_base_action := r_action r\<rparr>)"
proof -
  have "r_content r ! pick_fast (r_content r) \<in> set (r_content r)" using pick_fast_spec [OF assms(2)] by simp
  then have "c_data (r_content r ! pick_fast (r_content r)) \<noteq> []" using assms(1) by (simp add: rule_ok_def content_ok_def)
  then show ?thesis
    using assms pick_fast_spec [OF assms(2)] by (auto simp: rule_loaded_def rule_wf_def rule_ok_def)
qed

lemma commit_rule_ok:
  assumes "names_ok rs" "rule_ok (length (rs_fb_names rs)) r" "\<forall>q \<in> set (rs_rules rs). rule_loaded (length (rs_fb_names rs)) q"
  shows "ruleset_loaded (snd (commit_rule rs r))"
    and "if fst (commit_rule rs r) \<in> {SIG_LINE_FULL, SIG_LINE_ALERT}
         then \<exists>q. rs_rules (snd (commit_rule rs r)) = rs_rules rs @ [q] \<and>
                  (r_fidelity q = SIG_FID_FULL \<longleftrightarrow> fst (commit_rule rs r) = SIG_LINE_FULL)
         else snd (commit_rule rs r) = rs"
  using assms rule_loaded_commit [OF assms(2)] trust_length [of "rs_fb_ever_set rs" "r_flowbits r"]
  by (auto simp: commit_rule_def ruleset_loaded_def names_ok_def Let_def)

lemma ruleset_new_ok: "length l \<le> SIG_DPORT_MAX \<Longrightarrow> rule_ok n (ruleset_new\<lparr>r_action := a, r_proto := p, r_dport_list := l\<rparr>)"
  by (simp add: rule_ok_def ruleset_new_def SIG_MSG_MAX_def)

lemma port_of_length: "length (port_of t) \<le> 1"
  by (simp add: port_of_def Let_def)

lemma port_items_length: "length l \<le> SIG_DPORT_MAX \<Longrightarrow> length (port_items s l) \<le> SIG_DPORT_MAX"
proof (induction s l rule: port_items.induct)
  case (1 s0 l)
  define s where "s = dropWhile (\<lambda>c. c = CHR '' '' \<or> c = CHR '','') s0"
  define tok where "tok = take 7 (takeWhile (\<lambda>c. c \<noteq> CHR '','' \<and> c \<noteq> CHR '']'') s)"
  define l' where "l' = (if CHR '':'' \<in> set tok then l else l @ port_of tok)"
  have eq: "port_items s0 l =
      (if s0 = [] \<or> hd s0 = CHR '']'' \<or> length l \<ge> SIG_DPORT_MAX \<or> s = [] \<or> hd s = CHR '']'' then l
       else if hd s = CHR ''!'' then port_items (dropWhile (\<lambda>c. c \<noteq> CHR '','' \<and> c \<noteq> CHR '']'') s) l
       else port_items (drop (length tok) s) l')"
    by (subst port_items.simps) (simp add: Let_def s_def [symmetric] tok_def [symmetric] l'_def del: length_take)
  show ?case
  proof (cases "s0 = [] \<or> hd s0 = CHR '']'' \<or> length l \<ge> SIG_DPORT_MAX \<or> s = [] \<or> hd s = CHR '']''")
    case False
    then have "length l' \<le> SIG_DPORT_MAX" using port_of_length [of tok] by (simp add: l'_def)
    then show ?thesis
      using False 1(1) [OF _ s_def] 1(2) [OF _ s_def _ _ tok_def, folded l'_def] 1(3) unfolding eq by simp
  qed (use 1(3) eq in simp)
qed

lemma port_vars_length: "map_of PORT_VARS s = Some l \<Longrightarrow> length l \<le> SIG_DPORT_MAX"
  by (auto simp: PORT_VARS_def SIG_DPORT_MAX_def split: if_splits)

lemma parse_port_to_list_length: "length (parse_port_to_list s) \<le> SIG_DPORT_MAX"
proof -
  have "length (port_of s) \<le> SIG_DPORT_MAX" using port_of_length [of s] by (simp add: SIG_DPORT_MAX_def)
  then show ?thesis
    using port_vars_length [of s] port_items_length [of "[]" "tl s"]
    by (auto simp: parse_port_to_list_def split: option.split)
qed

text \<open>What one line does to the ruleset.\<close>

definition line_effect :: "'p sig_ruleset \<Rightarrow> sig_line \<Rightarrow> 'p sig_ruleset \<Rightarrow> bool" where
  "line_effect rs rc rs' \<longleftrightarrow> ruleset_loaded rs' \<and>
     (if rc \<in> {SIG_LINE_FULL, SIG_LINE_ALERT}
      then \<exists>q. rs_rules rs' = rs_rules rs @ [q] \<and> (r_fidelity q = SIG_FID_FULL \<longleftrightarrow> rc = SIG_LINE_FULL)
      else rs_rules rs' = rs_rules rs)"

lemma rule_loaded_mono: "rule_loaded n r \<Longrightarrow> n \<le> m \<Longrightarrow> rule_loaded m r"
  by (auto simp: rule_loaded_def intro: rule_ok_mono)

lemma sig_parse_line_effect:
  assumes "ruleset_loaded rs" "sig_parse_line pc rs line = (rc, rs')"
  shows "line_effect rs rc rs'"
proof -
  define buf where "buf = take 16383 (dropWhile is_blank line)"
  have same: "line_effect rs c rs" if "c \<notin> {SIG_LINE_FULL, SIG_LINE_ALERT}" for c
    using that assms(1) by (simp add: line_effect_def)
  have committed: "line_effect rs rc rs'"
    if cr: "commit_rule rs1 r1 = (rc, rs')" and
      ps: "parse_options pc o' (rs, ruleset_new\<lparr>r_action := a, r_proto := p, r_dport_list := parse_port_to_list d\<rparr>, None) = (rs1, r1, cur)"
    for o' a p d rs1 and r1 :: "'a sig_rule" and cur
  proof -
    have "state_ok (rs, ruleset_new\<lparr>r_action := a, r_proto := p, r_dport_list := parse_port_to_list d\<rparr>, None)"
      using assms(1) ruleset_new_ok [OF parse_port_to_list_length] by (simp add: state_ok_def ruleset_loaded_def)
    from parse_options_ok [OF this, of pc o'] have ok: "state_ok (rs1, r1, cur)" "rs_rules rs1 = rs_rules rs"
      unfolding ps by auto
    have mono: "length (rs_fb_names rs) \<le> length (rs_fb_names rs1)"
      using parse_options_names [where pc = pc and p = o' and st = "(rs, ruleset_new\<lparr>r_action := a, r_proto := p, r_dport_list := parse_port_to_list d\<rparr>, None)"]
      unfolding ps by simp
    have old: "\<forall>q \<in> set (rs_rules rs1). rule_loaded (length (rs_fb_names rs1)) q"
      using assms(1) ok(2) mono by (auto simp: ruleset_loaded_def intro: rule_loaded_mono)
    have n: "names_ok rs1" "rule_ok (length (rs_fb_names rs1)) r1" using ok(1) by (auto simp: state_ok_def)
    show ?thesis
      using commit_rule_ok [OF n old] ok(2) unfolding line_effect_def cr by (metis (no_types, lifting) fst_conv snd_conv)
  qed
  show ?thesis
    using assms(2) same committed unfolding sig_parse_line_def Let_def buf_def [symmetric]
    by (auto simp del: scan_words.simps split: option.splits if_splits prod.splits)
qed

section \<open>Loading a file\<close>

abbreviation is_full :: "'p sig_rule \<Rightarrow> bool" where
  "is_full r \<equiv> r_fidelity r = SIG_FID_FULL"

text \<open>The accounting of a load that started from the rules \<open>old\<close>.\<close>

definition load_inv :: "'p sig_rule list \<Rightarrow> 'p sig_ruleset \<times> sig_load_stats \<times> nat \<Rightarrow> bool" where
  "load_inv old x \<longleftrightarrow>
     (case x of (rs, st, added) \<Rightarrow> ruleset_loaded rs \<and>
        (\<exists>new. rs_rules rs = old @ new \<and> length new = added \<and> st_loaded st = added \<and>
           st_loaded_full st = length (filter is_full new) \<and>
           st_loaded_alert st = length (filter (\<lambda>r. \<not> is_full r) new)))"

lemma load_line_inv:
  assumes "load_inv old x"
  shows "load_inv old (load_line pc acc x)"
proof -
  obtain rs st added where x: "x = (rs, st, added)" by (cases x)
  obtain rc rs' where p: "sig_parse_line pc rs acc = (rc, rs')" by force
  from assms obtain new where inv: "ruleset_loaded rs" "rs_rules rs = old @ new" "length new = added" "st_loaded st = added"
    "st_loaded_full st = length (filter is_full new)" "st_loaded_alert st = length (filter (\<lambda>r. \<not> is_full r) new)"
    unfolding load_inv_def x by auto
  have e: "line_effect rs rc rs'" using sig_parse_line_effect [OF inv(1) p] .
  have l: "load_line pc acc x = (rs', tally_line rc (st, added))" by (simp add: load_line_def x p)
  show ?thesis
    using e inv unfolding l by (cases rc) (auto simp: load_inv_def line_effect_def)
qed

lemma load_loop_inv: "load_inv old x \<Longrightarrow> load_inv old (load_loop pc inp acc x)"
proof (induction pc inp acc x rule: load_loop.induct)
  case (1 pc inp acc x)
  define ln where "ln = fst (fgets 8191 inp)"
  define had_nl where "had_nl = (ln \<noteq> [] \<and> last ln = CHR 0x0A)"
  define l0 where "l0 = strip_eol ln"
  define backslash where "backslash = (l0 \<noteq> [] \<and> last l0 = CHR 0x5C)"
  define l where "l = (if backslash then butlast l0 else l0)"
  define acc' where "acc' = (if length acc + length l < 16384 then acc @ l else acc)"
  note d = ln_def had_nl_def l0_def backslash_def l_def acc'_def
  have eq: "load_loop pc inp acc x =
      (if inp = [] then (if acc \<noteq> [] then load_line pc acc x else x)
       else if \<not> had_nl \<or> backslash then load_loop pc (snd (fgets 8191 inp)) acc' x
       else load_loop pc (snd (fgets 8191 inp)) [] (load_line pc acc' x))"
    by (subst load_loop.simps) (simp only: Let_def d [symmetric])
  show ?case
    using 1(1) [OF _ d] 1(2) [OF _ d] 1(3) unfolding eq by (simp add: load_line_inv)
qed

lemma ruleset_init_loaded: "ruleset_loaded sig_ruleset_init"
  by (simp add: ruleset_loaded_def names_ok_def sig_ruleset_init_def)

text \<open>
  C30. Loading a signature file keeps every bound of the C structures: the contents, byte operations,
  flowbits, ports and the message of every loaded rule fit their fixed arrays, every flag number is
  below the number of names interned, every rule has a sid and its prefilter pattern is its longest
  content, and a rule with an option the engine cannot evaluate has been lowered to alert fidelity.
  The statistics are exact: the rules added are \<open>loaded\<close> many, split by fidelity into
  \<open>loaded_full\<close> and \<open>loaded_alert\<close>, and the rules that were there before are untouched.
\<close>

theorem sig_load_file_ok:
  assumes "ruleset_loaded rs" "sig_load_file pc rs (Some inp) = Some (rs', st, added)"
  shows "ruleset_loaded rs' \<and>
    (\<exists>new. rs_rules rs' = rs_rules rs @ new \<and> length new = added \<and> st_loaded st = added \<and>
       st_loaded_full st = length (filter is_full new) \<and>
       st_loaded_alert st = length (filter (\<lambda>r. \<not> is_full r) new))"
proof -
  have "load_inv (rs_rules rs) (rs, stats_zero, 0)" using assms(1) by (simp add: load_inv_def stats_zero_def)
  then have "load_inv (rs_rules rs) (load_loop pc inp [] (rs, stats_zero, 0))" by (rule load_loop_inv)
  then have "load_inv (rs_rules rs) (rs', st, added)" using assms(2) by (simp add: sig_load_file_def)
  then show ?thesis by (simp add: load_inv_def)
qed

text \<open>A rule whose \<open>byte_math\<close> option the engine cannot evaluate is loaded with alert fidelity.\<close>

definition demo_line :: string where
  "demo_line = ''drop tcp a a > a 80 (content:abc;byte_math:x;sid:7;)''"

lemmas line_eval =
  sig_parse_line_def strchr_def strrchr_def scan_word_def is_blank_def is_space_def code_def is_digit_def
  parse_options.simps read_value_def VAL_MAX_def SIG_CONTENT_MAX_def dispatch_option_def

lemma demo_line_parsed:
  "fst (sig_parse_line pc sig_ruleset_init demo_line) = SIG_LINE_ALERT"
  by (simp add: demo_line_def line_eval rule_option_def unsup_bit_def add_content_def SIG_MAX_CONTENT_def
    char_byte_def put_byte_def cap_alert_def SIG_U_BYTEOP_def strtoul_u32_def scan_number_def take_sign_def
    take_base_def digit_val_def digits_value_def is_lower_def is_upper_def ruleset_new_def commit_rule_def)

lemma demo_file_loaded:
  "\<exists>rs' st. sig_load_file (\<lambda>_ _. None :: unit option) sig_ruleset_init (Some demo_line) = Some (rs', st, 1)"
proof -
  obtain rs' where p: "sig_parse_line (\<lambda>_ _. None :: unit option) sig_ruleset_init demo_line = (SIG_LINE_ALERT, rs')"
    using demo_line_parsed by (metis prod.collapse)
  have c: "fgets 8191 demo_line = (demo_line, [])" "strip_eol demo_line = demo_line"
    "last demo_line = CHR '')''" "demo_line \<noteq> []" "length demo_line = 52"
    by (simp_all add: fgets_def demo_line_def strip_eol_def)
  show ?thesis
    by (subst sig_load_file_def, simp, subst load_loop.simps, subst load_loop.simps)
      (simp add: c load_line_def p)
qed

theorem sig_load_file_ok_witness:
  "\<exists>rs' st. sig_load_file (\<lambda>_ _. None :: unit option) sig_ruleset_init (Some demo_line) = Some (rs', st, 1) \<and>
     ruleset_loaded rs' \<and> length (rs_rules rs') = 1 \<and> st_loaded_full st + st_loaded_alert st = 1"
proof -
  obtain rs' st where l: "sig_load_file (\<lambda>_ _. None :: unit option) sig_ruleset_init (Some demo_line) = Some (rs', st, 1)"
    using demo_file_loaded by blast
  from sig_load_file_ok [OF ruleset_init_loaded l] l show ?thesis
    by (auto simp: sig_ruleset_init_def sum_length_filter_compl)
qed

end
