(* ===== verification/Sig_Profile.thy ===== *)
theory Sig_Profile
  imports Sig_Parse_Correct
begin

unbundle bit_operations_syntax

text \<open>
  The per-profile selection maps (\<open>sig_load_profile_maps\<close> of \<open>src/src/userspace/ipsd/sig_rule.c\<close>): every
  file \<open><1..31>.rules\<close> of a directory lists sids with an action, and each profile owns one bit of the
  membership mask and of the drop mask of a rule. The directory is the list of its entries in the
  order of \<open>readdir\<close>, each a name and the content of the file (\<open>None\<close>: it cannot be opened).
\<close>

section \<open>The maps\<close>

text \<open>\<open>sscanf(name, "%d.%7s", ...) = 2\<close> with the tail \<open>rules\<close> and a number from 1 to 31.\<close>

definition prof_name :: "string \<Rightarrow> nat option" where
  "prof_name name =
     (case strtol 10 name of
        None \<Rightarrow> None
      | Some (v, rest) \<Rightarrow>
          if rest = [] \<or> hd rest \<noteq> CHR ''.'' then None
          else (case scan_word 7 (tl rest) of
                  None \<Rightarrow> None
                | Some (tail', _) \<Rightarrow>
                    (let profid = cast_i32 v in
                     if tail' \<noteq> ''rules'' \<or> profid < 1 \<or> profid > 31 then None else Some (nat profid))))"

text \<open>\<open>sscanf(line, "%u %15s", ...)\<close>: the sid and the action word, no result for sid 0.\<close>

definition map_entry :: "string \<Rightarrow> (u32 \<times> string) option" where
  "map_entry line =
     (case scan_number 10 line of
        None \<Rightarrow> None
      | Some (_, _, rest) \<Rightarrow>
          if strtoul_u32 10 line = 0 then None
          else Some (strtoul_u32 10 line, case scan_word 15 rest of None \<Rightarrow> [] | Some (w, _) \<Rightarrow> w))"

function map_lines :: "nat \<Rightarrow> string \<Rightarrow> 'p sig_ruleset \<Rightarrow> 'p sig_ruleset" where
  "map_lines profid inp rs =
     (if inp = [] then rs
      else map_lines profid (snd (fgets 127 inp))
             (case map_entry (fst (fgets 127 inp)) of None \<Rightarrow> rs | Some l \<Rightarrow> map_line profid rs l))"
  by pat_completeness auto
termination
  by (relation "measure (\<lambda>(p, inp, rs). length inp)") (auto simp: fgets_progress)

declare map_lines.simps [simp del]

definition map_dirent :: "string \<times> string option \<Rightarrow> 'p sig_ruleset \<Rightarrow> 'p sig_ruleset" where
  "map_dirent e rs =
     (case e of (name, inp) \<Rightarrow>
        (case (prof_name name, inp) of
           (Some profid, Some content) \<Rightarrow> map_lines profid content rs
         | _ \<Rightarrow> rs))"

text \<open>The result code and the ruleset; a directory that cannot be opened leaves the rules reset.\<close>

definition sig_load_profile_maps ::
  "'p sig_ruleset \<Rightarrow> (string \<times> string option) list option \<Rightarrow> int \<times> 'p sig_ruleset" where
  "sig_load_profile_maps rs dir =
     (let rs0 = rs\<lparr>rs_rules := map reset_rule (rs_rules rs)\<rparr> in
      case dir of None \<Rightarrow> (-1, rs0) | Some es \<Rightarrow> (0, fold map_dirent es rs0))"

section \<open>What a directory selects\<close>

function file_entries :: "string \<Rightarrow> (u32 \<times> string) list" where
  "file_entries inp =
     (if inp = [] then []
      else (case map_entry (fst (fgets 127 inp)) of None \<Rightarrow> [] | Some l \<Rightarrow> [l]) @ file_entries (snd (fgets 127 inp)))"
  by pat_completeness auto
termination
  by (relation "measure length") (auto simp: fgets_progress)

declare file_entries.simps [simp del]

text \<open>The actions the files of profile \<open>p\<close> give to \<open>sid\<close>, in the order they are read.\<close>

definition dirent_sels :: "string \<times> string option \<Rightarrow> (nat \<times> u32 \<times> string) list" where
  "dirent_sels e =
     (case (prof_name (fst e), snd e) of
        (Some q, Some content) \<Rightarrow> map (\<lambda>l. (q, l)) (file_entries content)
      | _ \<Rightarrow> [])"

definition selections :: "(string \<times> string option) list \<Rightarrow> nat \<Rightarrow> u32 \<Rightarrow> string list" where
  "selections es p sid =
     map (snd \<circ> snd) (filter (\<lambda>(q, s, a). q = p \<and> s = sid) (concat (map dirent_sels es)))"

definition sel_line :: "nat \<times> u32 \<times> string \<Rightarrow> 'p sig_ruleset \<Rightarrow> 'p sig_ruleset" where
  "sel_line x rs = map_line (fst x) rs (snd x)"

lemma map_lines_fold: "map_lines q inp rs = fold (\<lambda>l rs. map_line q rs l) (file_entries inp) rs"
proof (induction q inp rs rule: map_lines.induct)
  case (1 q inp rs)
  then show ?case
    by (subst map_lines.simps, subst file_entries.simps) (auto split: option.split)
qed

lemma map_dirent_fold: "map_dirent e rs = fold sel_line (dirent_sels e) rs"
proof -
  have "fold sel_line (map (\<lambda>l. (q, l)) ls) rs = fold (\<lambda>l rs. map_line q rs l) ls rs" for q ls and rs :: "'a sig_ruleset"
    by (induction ls arbitrary: rs) (simp_all add: sel_line_def)
  then show ?thesis
    by (cases e) (simp add: map_dirent_def dirent_sels_def map_lines_fold split: option.split)
qed

lemma fold_dirents: "fold map_dirent es rs = fold sel_line (concat (map dirent_sels es)) rs"
  by (induction es arbitrary: rs) (simp_all add: map_dirent_fold)

section \<open>One rule under the selections\<close>

definition rule_sels :: "u32 \<Rightarrow> (nat \<times> u32 \<times> string) list \<Rightarrow> 'p sig_rule \<Rightarrow> 'p sig_rule" where
  "rule_sels sid xs r = fold (\<lambda>(q, s, a) r. if s = sid then select_rule q a r else r) xs r"

lemma select_rule_sid [simp]: "r_sid (select_rule q a r) = r_sid r"
  by (simp add: select_rule_def)

lemma map_line_sids [simp]:
  "map r_sid (rs_rules (map_line q rs l)) = map r_sid (rs_rules rs)" "rs_sid_index (map_line q rs l) = rs_sid_index rs"
  by (auto simp: map_line_def map_update list_update_id split: option.split)
    (metis list_update_id list_update_overwrite map_update nth_map list_update_beyond not_le)

definition index_ok :: "'p sig_ruleset \<Rightarrow> bool" where
  "index_ok rs \<longleftrightarrow> sig_build_sid_index (map r_sid (rs_rules rs)) = Some (rs_sid_index rs)"

lemma sel_line_index [simp]: "index_ok (sel_line x rs) \<longleftrightarrow> index_ok rs"
  by (simp add: index_ok_def sel_line_def)

lemma sel_line_sids [simp]: "map r_sid (rs_rules (sel_line x rs)) = map r_sid (rs_rules rs)"
  by (simp add: sel_line_def)

text \<open>The index sends a line to the first rule with its sid and to no other.\<close>

definition first_of_sid :: "'p sig_ruleset \<Rightarrow> nat \<Rightarrow> bool" where
  "first_of_sid rs i \<longleftrightarrow> i < length (rs_rules rs) \<and> (\<forall>j < i. r_sid (rs_rules rs ! j) \<noteq> r_sid (rs_rules rs ! i))"

lemma first_of_sid_alt:
  "first_of_sid rs i \<longleftrightarrow> i < length (map r_sid (rs_rules rs)) \<and>
     (\<forall>j < i. map r_sid (rs_rules rs) ! j \<noteq> map r_sid (rs_rules rs) ! i)"
  by (auto simp: first_of_sid_def)

lemma first_of_sid_cong:
  "map r_sid (rs_rules a) = map r_sid (rs_rules b) \<Longrightarrow> first_of_sid b i \<Longrightarrow> first_of_sid a i"
  unfolding first_of_sid_alt by metis

lemma by_sid_first:
  assumes "index_ok rs" "first_of_sid rs i"
  shows "rs_by_sid (map r_sid (rs_rules rs)) (rs_sid_index rs) s = Some i \<longleftrightarrow> s = r_sid (rs_rules rs ! i)"
proof
  assume "rs_by_sid (map r_sid (rs_rules rs)) (rs_sid_index rs) s = Some i"
  then show "s = r_sid (rs_rules rs ! i)"
    using sids.find_hit [OF assms(1) [unfolded index_ok_def]] by fastforce
next
  assume s: "s = r_sid (rs_rules rs ! i)"
  have "s \<in> set (map r_sid (rs_rules rs))" using assms(2) s by (auto simp: first_of_sid_def)
  then obtain j where j: "rs_by_sid (map r_sid (rs_rules rs)) (rs_sid_index rs) s = Some j"
    using sids.find_iff [OF assms(1) [unfolded index_ok_def]] by blast
  have "j < length (rs_rules rs)" "r_sid (rs_rules rs ! j) = s" "\<forall>k < j. r_sid (rs_rules rs ! k) \<noteq> s"
    using sids.find_hit [OF assms(1) [unfolded index_ok_def] j] by auto
  then have "j = i" using assms(2) s by (metis first_of_sid_def linorder_neqE_nat)
  then show "rs_by_sid (map r_sid (rs_rules rs)) (rs_sid_index rs) s = Some i" using j by simp
qed

lemma sel_line_rule:
  assumes "index_ok rs" "first_of_sid rs i"
  shows "rs_rules (sel_line (q, s, a) rs) ! i =
    (if s = r_sid (rs_rules rs ! i) then select_rule q a (rs_rules rs ! i) else rs_rules rs ! i)"
  using by_sid_first [OF assms, of s] assms(2)
  by (auto simp: sel_line_def map_line_def first_of_sid_def split: option.split)

lemma fold_sel_rule:
  "index_ok rs \<Longrightarrow> first_of_sid rs i \<Longrightarrow>
   rs_rules (fold sel_line xs rs) ! i = rule_sels (r_sid (rs_rules rs ! i)) xs (rs_rules rs ! i)"
proof (induction xs arbitrary: rs)
  case (Cons x xs)
  obtain q s a where x: "x = (q, s, a)" by (cases x)
  have f: "first_of_sid (sel_line x rs) i" by (rule first_of_sid_cong [OF _ Cons.prems(2)]) simp
  have l: "i < length (rs_rules rs)" "i < length (rs_rules (sel_line x rs))"
    using Cons.prems(2) f by (auto simp: first_of_sid_def)
  have "map r_sid (rs_rules (sel_line x rs)) ! i = map r_sid (rs_rules rs) ! i" by simp
  then have sid: "r_sid (rs_rules (sel_line x rs) ! i) = r_sid (rs_rules rs ! i)" using l by (metis nth_map)
  show ?case
    using Cons.IH [of "sel_line x rs"] Cons.prems f sel_line_rule [OF Cons.prems, of q s a]
    unfolding sid by (simp add: x rule_sels_def)
qed (simp add: rule_sels_def)

section \<open>The bits of one profile\<close>

definition member :: "nat \<Rightarrow> 'p sig_rule \<Rightarrow> bool" where
  "member p r \<longleftrightarrow> r_prof_mask r AND prof_bit p \<noteq> 0"

definition drops :: "nat \<Rightarrow> 'p sig_rule \<Rightarrow> bool" where
  "drops p r \<longleftrightarrow> r_prof_drop_mask r AND prof_bit p \<noteq> 0"

lemma prof_bit_nth: "bit (prof_bit q) n \<longleftrightarrow> n = q - 1 \<and> n < 32"
  by (auto simp: prof_bit_def push_bit_of_1 bit_exp_iff)

lemma and_prof_bit: "x AND prof_bit p \<noteq> 0 \<longleftrightarrow> bit x (p - 1) \<and> p - 1 < 32"
proof -
  have "bit (x AND prof_bit p) n \<longleftrightarrow> bit x n \<and> n = p - 1 \<and> n < 32" for n
    by (auto simp: bit_and_iff prof_bit_nth)
  then show ?thesis using bit_eq_iff [of "x AND prof_bit p" 0] by auto
qed

lemma select_rule_bits:
  assumes "1 \<le> p" "p \<le> 31" "1 \<le> q"
  shows "member p (select_rule q a r) \<longleftrightarrow> p = q \<or> member p r"
    and "drops p (select_rule q a r) \<longleftrightarrow> (if p = q then a = ''block'' else drops p r)"
  using assms
  by (auto simp: member_def drops_def select_rule_def and_prof_bit bit_or_iff bit_and_iff bit_not_iff prof_bit_nth)

lemma rule_sels_bits:
  assumes "1 \<le> p" "p \<le> 31" "\<forall>x \<in> set xs. 1 \<le> fst x"
  shows "member p (rule_sels sid xs r) \<longleftrightarrow> member p r \<or> filter (\<lambda>(q, s, a). q = p \<and> s = sid) xs \<noteq> []"
    and "drops p (rule_sels sid xs r) \<longleftrightarrow>
      (let ys = filter (\<lambda>(q, s, a). q = p \<and> s = sid) xs in if ys = [] then drops p r else snd (snd (last ys)) = ''block'')"
  using assms(3)
  by (induction xs rule: rev_induct)
    (auto simp: rule_sels_def select_rule_bits [OF assms(1,2)] Let_def split: if_splits)

lemma rule_sels_rest:
  "r_action (rule_sels sid xs r) = r_action r" "r_base_action (rule_sels sid xs r) = r_base_action r"
  "r_content (rule_sels sid xs r) = r_content r" "r_fidelity (rule_sels sid xs r) = r_fidelity r"
  by (induction xs arbitrary: r) (auto simp: rule_sels_def select_rule_def)

lemma prof_name_range: "prof_name n = Some q \<Longrightarrow> 1 \<le> q \<and> q \<le> 31"
  by (auto simp: prof_name_def Let_def le_nat_iff nat_le_iff split: option.splits if_splits)

lemma dirent_sels_range: "x \<in> set (concat (map dirent_sels es)) \<Longrightarrow> 1 \<le> fst x"
  by (auto simp: dirent_sels_def split: option.splits dest: prof_name_range [OF sym])


text \<open>Profile 2 blocks the rule that profile 1 lists as an alert; profile 3 does not list it.\<close>

definition demo_dir :: "(string \<times> string option) list" where
  "demo_dir = [(''1.rules'', Some ''7 alert''), (''2.rules'', Some ''7 block''), (''x.rules'', Some ''7 block'')]"

definition demo_rs :: "unit sig_ruleset" where
  "demo_rs = sig_ruleset_init\<lparr>rs_rules := [ruleset_new\<lparr>r_sid := 7, r_action := SIG_DROP, r_base_action := SIG_DROP\<rparr>],
     rs_sid_index := the (sig_build_sid_index [7])\<rparr>"

lemma demo_rs_ok: "index_ok demo_rs" "first_of_sid demo_rs 0"
  using sids.build_total [of "[7]"] by (auto simp: index_ok_def first_of_sid_def demo_rs_def)

lemma demo_selections: "selections demo_dir 2 7 = [''block'']"
  by (simp add: selections_def demo_dir_def dirent_sels_def prof_name_def strtol_def scan_number_def take_sign_def
      take_base_def digit_val_def digits_value_def is_digit_def is_lower_def is_upper_def is_space_def code_def
      cast_i32_def scan_word_def file_entries.simps map_entry_def strtoul_u32_def fgets_def)


end
