(* ===== verification/Sig_Reload.thy ===== *)
theory Sig_Reload
  imports Sig_Profile
begin

text \<open>
  Replacing the ruleset while packets are inspected (\<open>src/src/userspace/ipsd/sig_reload.c\<close>). The threads share one
  structure: the packet loop and the inspection server read the active ruleset under the read lock, the reload
  thread builds a new one beside it and swaps the pointer under the write lock. A ruleset is an object on a heap of
  addresses, so that a pointer to a freed one is a fault of the model. The reload thread is a machine with one state for each
  stretch of its code between two points where it meets the other threads; the files the management daemon writes are part of the
  state. The field \<open>pending\<close> is only ever set to the null pointer and is left out.
\<close>

section \<open>State\<close>

text \<open>The points of \<open>reload_thread_fn\<close>; an address is that of the new ruleset, and of the old one in \<open>RL_Free\<close>.\<close>

datatype reload_pc =
    RL_Alloc
  | RL_Path nat
  | RL_Load nat string
  | RL_Build nat
  | RL_Maps nat
  | RL_Swap nat
  | RL_Free "nat option"
  | RL_Count
  | RL_Idle
  | RL_Fail
  | RL_Clear

text \<open>
  \<open>sr_thread\<close> is the point the running thread has reached, \<open>sr_readers\<close> the pointers read under a read lock that is
  still held, \<open>sr_pipe\<close> the number of bytes in the pipe, \<open>sr_locks\<close> whether the locks are initialised.
\<close>

record 'p sig_reload =
  sr_active :: "nat option"
  sr_heap :: "nat \<Rightarrow> 'p sig_ruleset option"
  sr_locks :: bool
  sr_readers :: "nat option list"
  sr_thread :: "reload_pc option"
  sr_pipe :: nat
  sr_rules_path :: string
  sr_prof_dir :: string
  sr_last_result :: int
  sr_reload_count :: u64
  sr_reload_errors :: u64
  sr_global :: bool
  sr_files :: "string \<Rightarrow> string option"
  sr_dirs :: "string \<Rightarrow> (string \<times> string option) list option"
  sr_stats :: "sig_load_stats option"

text \<open>An operation goes on, waits for a lock, or uses an object that does not exist.\<close>

datatype 'a run_result = Next 'a | Blocked | Fault

definition goto :: "reload_pc \<Rightarrow> 'p sig_reload \<Rightarrow> 'p sig_reload" where
  "goto l s = s\<lparr>sr_thread := Some l\<rparr>"

definition put_ruleset :: "nat \<Rightarrow> 'p sig_ruleset \<Rightarrow> 'p sig_reload \<Rightarrow> 'p sig_reload" where
  "put_ruleset a rs s = s\<lparr>sr_heap := (sr_heap s)(a := Some rs)\<rparr>"

definition drop_ruleset :: "nat \<Rightarrow> 'p sig_reload \<Rightarrow> 'p sig_reload" where
  "drop_ruleset a s = s\<lparr>sr_heap := (sr_heap s)(a := None)\<rparr>"

definition with_ruleset :: "'p sig_reload \<Rightarrow> nat option \<Rightarrow> (nat \<Rightarrow> 'p sig_ruleset \<Rightarrow> 'a run_result) \<Rightarrow> 'a run_result" where
  "with_ruleset s p f = (case p of
      None \<Rightarrow> Fault
    | Some a \<Rightarrow> (case sr_heap s a of None \<Rightarrow> Fault | Some rs \<Rightarrow> f a rs))"

definition under_lock :: "'p sig_reload \<Rightarrow> 'a run_result \<Rightarrow> 'a run_result" where
  "under_lock s r = (if sr_locks s then r else Fault)"

definition write_load_stats :: "bool \<Rightarrow> sig_load_stats \<Rightarrow> 'p sig_reload \<Rightarrow> 'p sig_reload" where
  "write_load_stats writable st s = (if writable then s\<lparr>sr_stats := Some st\<rparr> else s)"

section \<open>Signals and the reload thread\<close>

text \<open>The pipe holds 65536 bytes; a write to a full pipe fails and is ignored.\<close>

definition sigusr1_handler :: "'p sig_reload \<Rightarrow> 'p sig_reload" where
  "sigusr1_handler s = (if \<not> sr_global s then s else s\<lparr>sr_pipe := min 65536 (Suc (sr_pipe s))\<rparr>)"

text \<open>One step of the thread. \<open>mem\<close> is the address the allocation returns, \<open>writable\<close> whether the file of the statistics can be opened.\<close>

definition load_step :: "'p pcre_compile \<Rightarrow> bool \<Rightarrow> nat \<Rightarrow> string \<Rightarrow> 'p sig_ruleset \<Rightarrow> 'p sig_reload \<Rightarrow> 'p sig_reload" where
  "load_step pc writable a path rs s = (case sig_load_file pc rs (sr_files s path) of
      None \<Rightarrow> goto RL_Fail (drop_ruleset a s)
    | Some (rs', st, rc) \<Rightarrow>
        if st_loaded st = 0 then goto RL_Fail (drop_ruleset a s)
        else goto (RL_Build a) (write_load_stats writable st (put_ruleset a rs' s)))"

definition build_step :: "nat \<Rightarrow> 'p sig_ruleset \<Rightarrow> 'p sig_reload \<Rightarrow> 'p sig_reload" where
  "build_step a rs s = (case sig_build rs of
      None \<Rightarrow> goto RL_Fail (drop_ruleset a s)
    | Some rs' \<Rightarrow> goto (RL_Maps a) (put_ruleset a rs' s))"

definition reload_thread_fn :: "'p pcre_compile \<Rightarrow> nat option \<Rightarrow> bool \<Rightarrow> reload_pc \<Rightarrow> 'p sig_reload \<Rightarrow> 'p sig_reload run_result" where
  "reload_thread_fn pc mem writable l s = (case l of
      RL_Alloc \<Rightarrow> (case mem of
          None \<Rightarrow> Next (goto RL_Clear s)
        | Some a \<Rightarrow> Next (goto (RL_Path a) (put_ruleset a sig_ruleset_init s)))
    | RL_Path a \<Rightarrow> under_lock s (Next (goto (RL_Load a (sr_rules_path s)) s))
    | RL_Load a path \<Rightarrow> with_ruleset s (Some a) (\<lambda>a rs. Next (load_step pc writable a path rs s))
    | RL_Build a \<Rightarrow> with_ruleset s (Some a) (\<lambda>a rs. Next (build_step a rs s))
    | RL_Maps a \<Rightarrow> with_ruleset s (Some a) (\<lambda>a rs.
          Next (goto (RL_Swap a) (put_ruleset a (snd (sig_load_profile_maps rs (sr_dirs s (sr_prof_dir s)))) s)))
    | RL_Swap a \<Rightarrow> under_lock s
          (if sr_readers s \<noteq> [] then Blocked else Next (goto (RL_Free (sr_active s)) (s\<lparr>sr_active := Some a\<rparr>)))
    | RL_Free old \<Rightarrow> with_ruleset s old (\<lambda>a rs. Next (goto RL_Count (drop_ruleset a s)))
    | RL_Count \<Rightarrow> Next (goto RL_Idle (s\<lparr>sr_reload_count := sr_reload_count s + 1, sr_last_result := 0\<rparr>))
    | RL_Idle \<Rightarrow> under_lock s (Next (s\<lparr>sr_thread := None\<rparr>))
    | RL_Fail \<Rightarrow> Next (goto RL_Clear (s\<lparr>sr_reload_errors := sr_reload_errors s + 1, sr_last_result := -1\<rparr>))
    | RL_Clear \<Rightarrow> under_lock s (Next (s\<lparr>sr_thread := None\<rparr>)))"

section \<open>Initialisation\<close>

text \<open>The directory of the maps: the last two parts of the path give way to \<open>profiles\<close>.\<close>

definition prof_dir_of :: "string \<Rightarrow> string" where
  "prof_dir_of path =
     (let p = take 255 path;
          q = (case strrchr p (CHR ''/'') of None \<Rightarrow> p | Some i \<Rightarrow> take i p)
      in case strrchr q (CHR ''/'') of
           None \<Rightarrow> ''profiles''
         | Some i \<Rightarrow> take 255 (take i q @ ''/profiles''))"

definition compile_rules :: "'p pcre_compile \<Rightarrow> string option \<Rightarrow> 'p sig_ruleset option" where
  "compile_rules pc content = (case sig_load_file pc sig_ruleset_init content of
      None \<Rightarrow> None
    | Some (rs, st, rc) \<Rightarrow> if st_loaded st = 0 then None else sig_build rs)"

text \<open>The statistics after a load: a file that cannot be opened leaves the variable as it was, \<open>junk\<close>.\<close>

definition load_stats :: "'p pcre_compile \<Rightarrow> sig_load_stats \<Rightarrow> string option \<Rightarrow> sig_load_stats" where
  "load_stats pc junk content = (case sig_load_file pc (sig_ruleset_init :: 'p sig_ruleset) content of None \<Rightarrow> junk | Some (rs, st, rc) \<Rightarrow> st)"

definition zero_reload :: "(string \<Rightarrow> string option) \<Rightarrow> (string \<Rightarrow> (string \<times> string option) list option) \<Rightarrow> 'p sig_reload" where
  "zero_reload files dirs =
     \<lparr>sr_active = None, sr_heap = (\<lambda>_. None), sr_locks = False, sr_readers = [], sr_thread = None, sr_pipe = 0,
      sr_rules_path = [], sr_prof_dir = [], sr_last_result = 0, sr_reload_count = 0, sr_reload_errors = 0, sr_global = False,
      sr_files = files, sr_dirs = dirs, sr_stats = None\<rparr>"

text \<open>
  A file that cannot be used leaves an empty ruleset; \<open>junk\<close> is what the uninitialised statistics hold, \<open>pipe_ok\<close> and \<open>locks_ok\<close> are the results of \<open>pipe2\<close> and of the
  initialisation of the locks.
\<close>

definition sig_reload_init ::
  "'p pcre_compile \<Rightarrow> (string \<Rightarrow> string option) \<Rightarrow> (string \<Rightarrow> (string \<times> string option) list option) \<Rightarrow>
   nat option \<Rightarrow> sig_load_stats \<Rightarrow> bool \<Rightarrow> bool \<Rightarrow> bool \<Rightarrow> string \<Rightarrow> int \<times> 'p sig_reload" where
  "sig_reload_init pc files dirs mem junk pipe_ok locks_ok writable path =
     (let s0 = zero_reload files dirs in
      case mem of
        None \<Rightarrow> (-1, s0)
      | Some a \<Rightarrow>
          (case (case compile_rules pc (files path) of None \<Rightarrow> sig_build sig_ruleset_init | Some rs \<Rightarrow> Some rs) of
             None \<Rightarrow> (-1, s0)
           | Some rs \<Rightarrow>
               (let s1 = s0\<lparr>sr_active := Some a, sr_rules_path := take 255 path, sr_prof_dir := prof_dir_of path\<rparr>;
                    s2 = put_ruleset a (snd (sig_load_profile_maps rs (dirs (sr_prof_dir s1)))) s1
                in if \<not> pipe_ok \<or> \<not> locks_ok then (-1, drop_ruleset a s2)
                   else (0, write_load_stats writable (load_stats pc junk (files path)) (s2\<lparr>sr_locks := True, sr_global := True\<rparr>)))))"

section \<open>Operations\<close>

text \<open>\<open>created\<close> is whether the thread can be created; the result is 0 (started), 1 (a reload is running) or -1.\<close>

definition spawn_reload_locked :: "bool \<Rightarrow> 'p sig_reload \<Rightarrow> int \<times> 'p sig_reload" where
  "spawn_reload_locked created s =
     (if sr_thread s \<noteq> None then (1, s) else if \<not> created then (-1, s) else (0, goto RL_Alloc s))"

definition sig_reload_handle_signal :: "bool \<Rightarrow> 'p sig_reload \<Rightarrow> (int \<times> 'p sig_reload) run_result" where
  "sig_reload_handle_signal created s = under_lock s (Next (spawn_reload_locked created (s\<lparr>sr_pipe := 0\<rparr>)))"

definition sig_reload_trigger :: "string option \<Rightarrow> bool \<Rightarrow> 'p sig_reload \<Rightarrow> (int \<times> 'p sig_reload) run_result" where
  "sig_reload_trigger new_path created s = under_lock s (Next (spawn_reload_locked created
     (case new_path of Some (c # cs) \<Rightarrow> s\<lparr>sr_rules_path := take 255 (c # cs)\<rparr> | _ \<Rightarrow> s)))"

definition sig_reload_match :: "'p pcre_match \<Rightarrow> bytes \<Rightarrow> flow_ctx \<Rightarrow> 'p sig_reload \<Rightarrow> nat option option run_result" where
  "sig_reload_match pm payload fc s = under_lock s (with_ruleset s (sr_active s) (\<lambda>a rs. Next (sig_match pm rs payload fc)))"

definition sig_reload_apply_scope :: "'p sig_reload \<Rightarrow> (int \<times> 'p sig_reload) run_result" where
  "sig_reload_apply_scope s = under_lock s
     (if sr_readers s \<noteq> [] then Blocked
      else with_ruleset s (sr_active s) (\<lambda>a rs.
        (let (rc, rs') = sig_load_profile_maps rs (sr_dirs s (sr_prof_dir s)) in Next (rc, put_ruleset a rs' s))))"

text \<open>Waiting polls the structure, one millisecond apart; \<open>seen i\<close> is its state at poll \<open>i\<close>.\<close>

fun wait_loop :: "(nat \<Rightarrow> 'p sig_reload) \<Rightarrow> nat \<Rightarrow> nat \<Rightarrow> int" where
  "wait_loop seen i 0 = -1"
| "wait_loop seen i (Suc n) = (if sr_thread (seen i) = None then sr_last_result (seen i) else wait_loop seen (Suc i) n)"

definition sig_reload_wait :: "(nat \<Rightarrow> 'p sig_reload) \<Rightarrow> int" where
  "sig_reload_wait seen = wait_loop seen 0 5000"

text \<open>The state after the wait; its result is ignored.\<close>

definition sig_reload_free :: "'p sig_reload \<Rightarrow> 'p sig_reload run_result" where
  "sig_reload_free s =
     (let close = (\<lambda>s. s\<lparr>sr_pipe := 0, sr_locks := False, sr_global := False\<rparr>)
      in case sr_active s of
           None \<Rightarrow> Next (close s)
         | Some a \<Rightarrow> with_ruleset s (Some a) (\<lambda>a rs. Next (close ((drop_ruleset a s)\<lparr>sr_active := None\<rparr>))))"

section \<open>Interleavings\<close>

text \<open>
  What can happen next. A reader (\<open>process_packet\<close>, \<open>insp_handle_data\<close>) takes the read lock and the pointer, uses the ruleset and
  gives the lock back; the management daemon replaces files at any time.
\<close>

datatype reload_event =
    Thread_Step "nat option" bool
  | Signal
  | Handle_Signal bool
  | Trigger "string option" bool
  | Apply_Scope
  | Match bytes flow_ctx
  | Reader_Lock
  | Reader_Use nat
  | Reader_Unlock nat
  | Rules_Written string "string option"
  | Maps_Written string "(string \<times> string option) list option"

definition then_state :: "('a \<times> 'b) run_result \<Rightarrow> 'b run_result" where
  "then_state r = (case r of Next x \<Rightarrow> Next (snd x) | Blocked \<Rightarrow> Blocked | Fault \<Rightarrow> Fault)"

definition reload_exec :: "'p pcre_match \<Rightarrow> 'p pcre_compile \<Rightarrow> reload_event \<Rightarrow> 'p sig_reload \<Rightarrow> 'p sig_reload run_result" where
  "reload_exec pm pc e s = (case e of
      Thread_Step mem writable \<Rightarrow> (case sr_thread s of None \<Rightarrow> Blocked | Some l \<Rightarrow> reload_thread_fn pc mem writable l s)
    | Signal \<Rightarrow> Next (sigusr1_handler s)
    | Handle_Signal created \<Rightarrow> then_state (sig_reload_handle_signal created s)
    | Trigger p created \<Rightarrow> then_state (sig_reload_trigger p created s)
    | Apply_Scope \<Rightarrow> then_state (sig_reload_apply_scope s)
    | Match payload fc \<Rightarrow> (case sig_reload_match pm payload fc s of Next _ \<Rightarrow> Next s | Blocked \<Rightarrow> Blocked | Fault \<Rightarrow> Fault)
    | Reader_Lock \<Rightarrow> under_lock s (Next (s\<lparr>sr_readers := sr_active s # sr_readers s\<rparr>))
    | Reader_Use i \<Rightarrow> (if i < length (sr_readers s) then with_ruleset s (sr_readers s ! i) (\<lambda>a rs. Next s) else Blocked)
    | Reader_Unlock i \<Rightarrow> (if i < length (sr_readers s)
        then under_lock s (Next (s\<lparr>sr_readers := take i (sr_readers s) @ drop (Suc i) (sr_readers s)\<rparr>)) else Blocked)
    | Rules_Written path content \<Rightarrow> Next (s\<lparr>sr_files := (sr_files s)(path := content)\<rparr>)
    | Maps_Written dir es \<Rightarrow> Next (s\<lparr>sr_dirs := (sr_dirs s)(dir := es)\<rparr>))"

text \<open>The allocator returns an address that is not in use.\<close>

definition admissible :: "reload_event \<Rightarrow> 'p sig_reload \<Rightarrow> bool" where
  "admissible e s = (case e of Thread_Step (Some a) writable \<Rightarrow> sr_heap s a = None | _ \<Rightarrow> True)"

inductive reload_reachable :: "'p pcre_match \<Rightarrow> 'p pcre_compile \<Rightarrow> 'p sig_reload \<Rightarrow> bool" for pm pc where
  started: "sig_reload_init pc files dirs mem junk pipe_ok locks_ok writable path = (0, s) \<Longrightarrow> reload_reachable pm pc s"
| step: "reload_reachable pm pc s \<Longrightarrow> admissible e s \<Longrightarrow> reload_exec pm pc e s = Next s' \<Longrightarrow> reload_reachable pm pc s'"

end
