(* ===== verification/Sig_Reload_Correct.thy ===== *)
theory Sig_Reload_Correct
  imports Sig_Reload
begin

text \<open>
  Replacing the ruleset is safe under every interleaving and comes to an end: there is a complete ruleset at every moment,
  no thread uses one that has been freed, none is leaked, and a reload that has been started ends.
\<close>

section \<open>Rulesets that are ready for use\<close>

definition ready :: "'p sig_ruleset \<Rightarrow> bool" where
  "ready rs \<longleftrightarrow> rs_built rs \<and> rules_wf rs \<and> index_ok rs \<and>
     ac_compiled (rs_ac rs) (True, pattern_dict True (fast_pats 0 (rs_rules rs)))"

lemma fast_pats_cong: "map fast_bytes rules = map fast_bytes rules' \<Longrightarrow> fast_pats i rules = fast_pats i rules'"
proof (induction rules arbitrary: i rules')
  case (Cons r rules)
  then obtain r' rest where "rules' = r' # rest" by (cases rules') auto
  with Cons show ?case by (auto split: option.split)
qed auto

lemma selection_fields [simp]:
  "fast_bytes (select_rule q a r) = fast_bytes r" "rule_wf (select_rule q a r) = rule_wf r"
  "fast_bytes (reset_rule r) = fast_bytes r" "rule_wf (reset_rule r) = rule_wf r" "r_sid (reset_rule r) = r_sid r"
  by (simp_all add: select_rule_def reset_rule_def fast_bytes_def rule_wf_def)

lemma ready_rules:
  assumes "ready rs" "map fast_bytes rules = map fast_bytes (rs_rules rs)" "map r_sid rules = map r_sid (rs_rules rs)"
    and "\<forall>r \<in> set rules. rule_wf r"
  shows "ready (rs\<lparr>rs_rules := rules\<rparr>)"
  using assms fast_pats_cong [OF assms(2), of 0] by (simp add: ready_def rules_wf_def index_ok_def)

lemma map_update_same: "f y = f (xs ! i) \<Longrightarrow> map f (xs[i := y]) = map f xs"
  by (simp add: map_update) (metis length_map linorder_not_less list_update_beyond list_update_id nth_map)

lemma ready_line: "ready rs \<Longrightarrow> ready (sel_line x rs)"
proof -
  assume r: "ready rs"
  have "ready (map_line q rs l)" for q l
  proof (cases "rs_by_sid (map r_sid (rs_rules rs)) (rs_sid_index rs) (fst l)")
    case (Some i)
    then have i: "i < length (rs_rules rs)" using r sids.find_hit by (fastforce simp: ready_def index_ok_def)
    have "\<forall>r \<in> set ((rs_rules rs)[i := select_rule q (snd l) (rs_rules rs ! i)]). rule_wf r"
      using r i set_update_subset_insert [of "rs_rules rs" i] by (fastforce simp: ready_def rules_wf_def)
    with r Some show ?thesis by (simp add: map_line_def ready_rules map_update_same)
  qed (simp add: map_line_def r)
  then show ?thesis by (simp add: sel_line_def split: prod.split)
qed

lemma ready_maps: "ready rs \<Longrightarrow> ready (snd (sig_load_profile_maps rs d))"
proof -
  assume r: "ready rs"
  have "ready (rs\<lparr>rs_rules := map reset_rule (rs_rules rs)\<rparr>)"
    by (rule ready_rules [OF r]) (use r in \<open>auto simp: ready_def rules_wf_def\<close>)
  moreover have "ready rs' \<Longrightarrow> ready (fold sel_line xs rs')" for xs and rs' :: "'a sig_ruleset"
    by (induction xs arbitrary: rs') (simp_all add: ready_line)
  ultimately show ?thesis by (simp add: sig_load_profile_maps_def Let_def fold_dirents split: option.split)
qed

lemma build_ready: "rules_wf rs \<Longrightarrow> \<exists>rs'. sig_build rs = Some rs' \<and> ready rs'"
  using sig_build_ok [of rs] by (fastforce simp: ready_def index_ok_def fast_pats_clamp rules_wf_def clamp_rule_fields)

lemma loaded_wf: "sig_load_file pc sig_ruleset_init content = Some (rs, st, n) \<Longrightarrow> rules_wf rs \<and> length (rs_rules rs) = st_loaded st"
proof -
  assume a: "sig_load_file pc sig_ruleset_init content = Some (rs, st, n)"
  then obtain f where f: "load_loop pc f [] (sig_ruleset_init, stats_zero, 0) = (rs, st, n)"
    by (auto simp: sig_load_file_def)
  have "load_inv [] (sig_ruleset_init :: 'a sig_ruleset, stats_zero, 0)"
    using ruleset_init_loaded by (simp add: load_inv_def stats_zero_def sig_ruleset_init_def)
  from load_loop_inv [OF this, of pc f "[]"] have "load_inv [] (rs, st, n)" by (simp add: f)
  then show ?thesis by (auto simp: load_inv_def ruleset_loaded_def rules_wf_def rule_loaded_def)
qed

section \<open>The invariant\<close>

text \<open>The ruleset the thread alone knows of.\<close>

definition owned :: "reload_pc option \<Rightarrow> nat set" where
  "owned t = (case t of
      Some (RL_Path a) \<Rightarrow> {a} | Some (RL_Load a p) \<Rightarrow> {a} | Some (RL_Build a) \<Rightarrow> {a} | Some (RL_Maps a) \<Rightarrow> {a} | Some (RL_Swap a) \<Rightarrow> {a}
    | Some (RL_Free old) \<Rightarrow> set_option old
    | _ \<Rightarrow> {})"

definition stage_ok :: "'p sig_reload \<Rightarrow> bool" where
  "stage_ok s = (case sr_thread s of
      Some (RL_Path a) \<Rightarrow> sr_heap s a = Some sig_ruleset_init
    | Some (RL_Load a p) \<Rightarrow> sr_heap s a = Some sig_ruleset_init
    | Some (RL_Build a) \<Rightarrow> (\<exists>rs. sr_heap s a = Some rs \<and> rules_wf rs)
    | Some (RL_Maps a) \<Rightarrow> (\<exists>rs. sr_heap s a = Some rs \<and> ready rs)
    | Some (RL_Swap a) \<Rightarrow> (\<exists>rs. sr_heap s a = Some rs \<and> ready rs)
    | Some (RL_Free old) \<Rightarrow> old \<noteq> None
    | _ \<Rightarrow> True)"

definition reload_inv :: "'p sig_reload \<Rightarrow> bool" where
  "reload_inv s \<longleftrightarrow> sr_locks s \<and> stage_ok s \<and> (\<forall>p \<in> set (sr_readers s). p = sr_active s) \<and>
     (\<exists>a rs. sr_active s = Some a \<and> sr_heap s a = Some rs \<and> ready rs \<and> a \<notin> owned (sr_thread s) \<and>
        dom (sr_heap s) = insert a (owned (sr_thread s)))"

lemmas reload_defs = goto_def put_ruleset_def drop_ruleset_def write_load_stats_def under_lock_def

lemma reload_invE:
  assumes "reload_inv s"
  obtains a rs where "sr_locks s" "stage_ok s" "\<forall>p \<in> set (sr_readers s). p = Some a" "sr_active s = Some a" "sr_heap s a = Some rs"
    "ready rs" "a \<notin> owned (sr_thread s)" "dom (sr_heap s) = insert a (owned (sr_thread s))"
  using assms by (auto simp: reload_inv_def)

text \<open>What the invariant says of the state depends on these fields alone.\<close>

lemma reload_inv_cong:
  assumes "reload_inv s" "sr_locks s' = sr_locks s" "sr_thread s' = sr_thread s" "sr_heap s' = sr_heap s"
    and "sr_active s' = sr_active s" "\<forall>p \<in> set (sr_readers s'). p = sr_active s"
  shows "reload_inv s'"
proof -
  have "stage_ok s' = stage_ok s" using assms(3,4) by (simp only: stage_ok_def)
  with assms show ?thesis by (simp add: reload_inv_def)
qed

lemma init_inv:
  assumes "sig_reload_init pc files dirs mem junk pipe_ok locks_ok writable path = (0, s)"
  shows "reload_inv s"
proof -
  obtain a rs where a: "mem = Some a" "pipe_ok" "locks_ok" and
    rs: "(case compile_rules pc (files path) of None \<Rightarrow> sig_build sig_ruleset_init | Some rs \<Rightarrow> Some rs) = Some rs"
    and s: "s = write_load_stats writable (load_stats pc junk (files path)) ((put_ruleset a (snd (sig_load_profile_maps rs (dirs (prof_dir_of path))))
      ((zero_reload files dirs)\<lparr>sr_active := Some a, sr_rules_path := take 255 path, sr_prof_dir := prof_dir_of path\<rparr>))\<lparr>sr_locks := True, sr_global := True\<rparr>)"
    using assms by (auto simp: sig_reload_init_def Let_def split: option.splits if_splits)
  have "rules_wf (sig_ruleset_init :: 'a sig_ruleset)" by (simp add: rules_wf_def sig_ruleset_init_def)
  from build_ready [OF this] have "ready rs"
    using rs loaded_wf build_ready by (fastforce simp: compile_rules_def split: option.splits if_splits prod.splits)
  then show ?thesis
    by (simp add: reload_inv_def s reload_defs zero_reload_def ready_maps stage_ok_def owned_def dom_def)
qed

text \<open>A step of the thread that leaves the active ruleset where it is, and one that installs its own.\<close>

lemma reload_inv_thread:
  assumes "reload_inv s" "sr_locks s'" "sr_active s' = sr_active s" "sr_readers s' = sr_readers s" "stage_ok s'"
    and "\<And>a. sr_active s = Some a \<Longrightarrow> a \<notin> owned (sr_thread s) \<Longrightarrow> dom (sr_heap s) = insert a (owned (sr_thread s)) \<Longrightarrow>
      sr_heap s' a = sr_heap s a \<and> a \<notin> owned (sr_thread s') \<and> dom (sr_heap s') = insert a (owned (sr_thread s'))"
  shows "reload_inv s'"
  using assms(2-5) assms(6) by (rule_tac reload_invE [OF assms(1)]) (auto simp: reload_inv_def)

lemmas thread_simps = reload_thread_fn_def with_ruleset_def load_step_def build_step_def reload_defs owned_def stage_ok_def

lemma load_step_inv:
  assumes "reload_inv s" "sr_thread s = Some (RL_Load a path)"
  shows "reload_inv (load_step pc writable a path sig_ruleset_init s)"
proof (rule reload_inv_thread [OF assms(1)])
  let ?s' = "load_step pc writable a path sig_ruleset_init s"
  show "sr_locks ?s'" "sr_active ?s' = sr_active s" "sr_readers ?s' = sr_readers s"
    using assms by (simp_all add: load_step_def reload_defs reload_inv_def split: option.split)
  show "stage_ok ?s'"
    using loaded_wf [of pc "sr_files s path"] by (fastforce simp: load_step_def reload_defs stage_ok_def split: option.split)
next
  fix b assume "sr_active s = Some b" "b \<notin> owned (sr_thread s)" "dom (sr_heap s) = insert b (owned (sr_thread s))"
  then show "sr_heap (load_step pc writable a path sig_ruleset_init s) b = sr_heap s b \<and>
      b \<notin> owned (sr_thread (load_step pc writable a path sig_ruleset_init s)) \<and>
      dom (sr_heap (load_step pc writable a path sig_ruleset_init s)) = insert b (owned (sr_thread (load_step pc writable a path sig_ruleset_init s)))"
    using assms(2) by (auto simp: load_step_def reload_defs owned_def split: option.split)
qed

lemma build_step_inv:
  assumes inv: "reload_inv s" and l: "sr_thread s = Some (RL_Build a)" and r: "sr_heap s a = Some r" "rules_wf r"
  shows "reload_inv (build_step a r s)"
proof -
  obtain r' where "sig_build r = Some r'" "ready r'" using build_ready [OF r(2)] by blast
  then show ?thesis
    using inv l by (intro reload_inv_thread [OF inv]) (auto simp: build_step_def reload_defs stage_ok_def owned_def reload_inv_def)
qed

lemma swap_step_inv:
  assumes inv: "reload_inv s" and l: "sr_thread s = Some (RL_Swap a)" and "sr_readers s = []"
  shows "reload_inv (goto (RL_Free (sr_active s)) (s\<lparr>sr_active := Some a\<rparr>))"
  using assms by (elim reload_invE) (auto simp: reload_inv_def goto_def stage_ok_def owned_def)

lemma plain_step_inv:
  assumes inv: "reload_inv s" and l: "sr_thread s = Some l" and mem: "\<And>a. mem = Some a \<Longrightarrow> sr_heap s a = None"
    and e: "reload_thread_fn pc mem writable l s = Next s'" and "\<And>a p. l \<noteq> RL_Load a p" "\<And>a. l \<noteq> RL_Build a" "\<And>a. l \<noteq> RL_Swap a"
  shows "reload_inv s'"
proof (rule reload_inv_thread [OF inv])
  have lk: "sr_locks s" "stage_ok s" using inv by (simp_all add: reload_inv_def)
  show "sr_locks s'" "sr_active s' = sr_active s" "sr_readers s' = sr_readers s"
    using e lk assms(5-7) by (cases l; auto simp: thread_simps split: option.splits)+
  show "stage_ok s'"
    using e lk l assms(5-7) ready_maps by (cases l) (auto simp: thread_simps split: option.splits)
next
  fix b assume b: "sr_active s = Some b" "b \<notin> owned (sr_thread s)" "dom (sr_heap s) = insert b (owned (sr_thread s))"
  then have "sr_heap s b \<noteq> None" by (auto simp: dom_def)
  moreover have "a \<noteq> b" if "mem = Some a" for a using mem [OF that] calculation by auto
  ultimately show "sr_heap s' b = sr_heap s b \<and> b \<notin> owned (sr_thread s') \<and> dom (sr_heap s') = insert b (owned (sr_thread s'))"
    using e l b assms(5-7) by (cases l; clarsimp simp: thread_simps insert_commute split: option.splits if_splits)
qed

lemma thread_step_inv:
  assumes inv: "reload_inv s" and l: "sr_thread s = Some l" and mem: "\<And>a. mem = Some a \<Longrightarrow> sr_heap s a = None"
  shows "reload_thread_fn pc mem writable l s \<noteq> Fault"
    and "reload_thread_fn pc mem writable l s = Next s' \<Longrightarrow> reload_inv s'"
proof -
  have b: "sr_locks s" "stage_ok s" "owned (sr_thread s) \<subseteq> dom (sr_heap s)" using inv by (auto simp: reload_inv_def)
  show "reload_thread_fn pc mem writable l s \<noteq> Fault"
    using b l by (cases l) (auto simp: thread_simps split: option.split)
  assume e: "reload_thread_fn pc mem writable l s = Next s'"
  consider (load) a p where "l = RL_Load a p" | (build) a where "l = RL_Build a" | (swap) a where "l = RL_Swap a"
    | (plain) "\<And>a p. l \<noteq> RL_Load a p" "\<And>a. l \<noteq> RL_Build a" "\<And>a. l \<noteq> RL_Swap a" by (cases l) auto
  then show "reload_inv s'"
  proof cases
    case load
    then show ?thesis using e b l load_step_inv [OF inv] by (auto simp: reload_thread_fn_def with_ruleset_def stage_ok_def)
  next
    case build
    then show ?thesis using e b l build_step_inv [OF inv] by (auto simp: reload_thread_fn_def with_ruleset_def stage_ok_def)
  next
    case swap
    then show ?thesis using e l swap_step_inv [OF inv] by (auto simp: reload_thread_fn_def under_lock_def split: if_splits)
  next
    case plain
    then show ?thesis using plain_step_inv [OF inv l mem e] by blast
  qed
qed

lemma spawn_inv: "reload_inv s \<Longrightarrow> reload_inv (snd (spawn_reload_locked created s))"
proof (cases "sr_thread s = None \<and> created")
  case True
  then show "reload_inv s \<Longrightarrow> reload_inv (snd (spawn_reload_locked created s))"
    by (simp add: spawn_reload_locked_def reload_inv_def goto_def stage_ok_def owned_def)
qed (auto simp: spawn_reload_locked_def)

lemma apply_scope_inv:
  assumes "reload_inv s"
  shows "sig_reload_apply_scope s \<noteq> Fault" and "sig_reload_apply_scope s = Next (rc, s') \<Longrightarrow> reload_inv s'"
proof -
  obtain a rs where b: "sr_locks s" "stage_ok s" "\<forall>p \<in> set (sr_readers s). p = Some a" "sr_active s = Some a" "sr_heap s a = Some rs"
    "ready rs" "a \<notin> owned (sr_thread s)" "dom (sr_heap s) = insert a (owned (sr_thread s))"
    using assms by (rule reload_invE)
  show "sig_reload_apply_scope s \<noteq> Fault"
    using b by (simp add: sig_reload_apply_scope_def under_lock_def with_ruleset_def split: prod.split)
  assume "sig_reload_apply_scope s = Next (rc, s')"
  then have s': "s' = put_ruleset a (snd (sig_load_profile_maps rs (sr_dirs s (sr_prof_dir s)))) s"
    using b by (auto simp: sig_reload_apply_scope_def under_lock_def with_ruleset_def split: if_splits prod.splits)
  have "stage_ok s'" using b(2,7) by (auto simp: s' put_ruleset_def stage_ok_def owned_def split: option.splits reload_pc.splits)
  then show "reload_inv s'" using b by (simp add: s' put_ruleset_def reload_inv_def ready_maps insert_absorb)
qed

lemma exec_inv:
  assumes inv: "reload_inv s" and adm: "admissible e s"
  shows "reload_exec pm pc e s \<noteq> Fault" and "reload_exec pm pc e s = Next s' \<Longrightarrow> reload_inv s'"
proof -
  obtain a rs where b: "sr_locks s" "stage_ok s" "\<forall>p \<in> set (sr_readers s). p = Some a" "sr_active s = Some a" "sr_heap s a = Some rs"
    "ready rs" "a \<notin> owned (sr_thread s)" "dom (sr_heap s) = insert a (owned (sr_thread s))"
    using inv by (rule reload_invE)
  have use: "sr_readers s ! i = Some a" if "i < length (sr_readers s)" for i using b(3) that nth_mem by blast
  have mem: "sr_heap s x = None" if "e = Thread_Step (Some x) w" for x w using adm that by (simp add: admissible_def)
  show "reload_exec pm pc e s \<noteq> Fault"
    using b inv thread_step_inv(1) [OF inv] mem apply_scope_inv(1) [OF inv]
    by (cases e) (auto simp: reload_exec_def then_state_def sig_reload_handle_signal_def sig_reload_trigger_def sig_reload_match_def
        with_ruleset_def under_lock_def use split: option.split run_result.split)
  assume n: "reload_exec pm pc e s = Next s'"
  show "reload_inv s'"
  proof (cases e)
    case (Thread_Step m w)
    then obtain l where l: "sr_thread s = Some l" "reload_thread_fn pc m w l s = Next s'"
      using n by (auto simp: reload_exec_def split: option.splits)
    show ?thesis using thread_step_inv(2) [OF inv l(1) _ l(2)] mem Thread_Step by blast
  next
    case (Handle_Signal c)
    have "reload_inv (s\<lparr>sr_pipe := 0\<rparr>)" by (rule reload_inv_cong [OF inv]) (use b in auto)
    then show ?thesis using n b Handle_Signal spawn_inv
      by (auto simp: reload_exec_def then_state_def sig_reload_handle_signal_def under_lock_def)
  next
    case (Trigger p c)
    have "reload_inv (case p of Some (c # cs) \<Rightarrow> s\<lparr>sr_rules_path := take 255 (c # cs)\<rparr> | _ \<Rightarrow> s)"
      by (rule reload_inv_cong [OF inv]) (use b in \<open>auto split: option.split list.split\<close>)
    then show ?thesis using n b Trigger spawn_inv
      by (auto simp: reload_exec_def then_state_def sig_reload_trigger_def under_lock_def)
  next
    case Apply_Scope
    then show ?thesis using n apply_scope_inv(2) [OF inv] by (auto simp: reload_exec_def then_state_def split: run_result.splits)
  next
    case (Reader_Unlock i)
    have "\<forall>p \<in> set (take i (sr_readers s) @ drop (Suc i) (sr_readers s)). p = Some a" using b(3) by (auto dest: in_set_takeD in_set_dropD)
    with Reader_Unlock show ?thesis
      using n b by (auto intro!: reload_inv_cong [OF inv] simp: reload_exec_def under_lock_def split: if_splits)
  qed (use n b in \<open>auto intro!: reload_inv_cong [OF inv] simp: reload_exec_def sigusr1_handler_def under_lock_def
        with_ruleset_def split: if_splits option.splits run_result.splits\<close>)
qed

lemma reachable_inv: "reload_reachable pm pc s \<Longrightarrow> reload_inv s"
  by (induction rule: reload_reachable.induct) (auto intro: init_inv exec_inv)

text \<open>
  C7. Whatever the order in which the packet loop, the inspection server, the reload thread, signals and the management daemon act, no thread ever uses a
  ruleset that has been freed: at every moment the active ruleset is there and complete (built, its automaton compiled from its rules, its index valid), and
  every reader that holds the lock holds the pointer to it. A failed reload leaves no ruleset behind, and releasing the structure after a
  reload has ended frees the last one.
\<close>

theorem reload_always_ready:
  assumes "reload_reachable pm pc s" "admissible e s"
  shows "reload_exec pm pc e s \<noteq> Fault \<and>
    (\<exists>a rs. sr_active s = Some a \<and> sr_heap s a = Some rs \<and> ready rs \<and> (\<forall>p \<in> set (sr_readers s). p = Some a) \<and>
       (sr_thread s = None \<longrightarrow> dom (sr_heap s) = {a} \<and> (\<exists>s'. sig_reload_free s = Next s' \<and> dom (sr_heap s') = {})))"
proof -
  have inv: "reload_inv s" using assms(1) by (rule reachable_inv)
  have "dom (sr_heap s') = {}" if "sr_active s = Some a" "dom (sr_heap s) = {a}" "sig_reload_free s = Next s'" for a s'
    using that by (clarsimp simp: sig_reload_free_def with_ruleset_def drop_ruleset_def simp del: dom_eq_empty_conv split: option.splits)
  then show ?thesis
    using exec_inv(1) [OF inv assms(2)] inv
    by (elim reload_invE) (auto simp: owned_def sig_reload_free_def with_ruleset_def Let_def)
qed

section \<open>A reload comes to an end\<close>

text \<open>The number of steps the thread has left at most.\<close>

definition rank :: "reload_pc \<Rightarrow> nat" where
  "rank l = (case l of
      RL_Alloc \<Rightarrow> 9 | RL_Path _ \<Rightarrow> 8 | RL_Load _ _ \<Rightarrow> 7 | RL_Build _ \<Rightarrow> 6 | RL_Maps _ \<Rightarrow> 5 | RL_Swap _ \<Rightarrow> 4 | RL_Free _ \<Rightarrow> 3
    | RL_Count \<Rightarrow> 2 | RL_Idle \<Rightarrow> 1 | RL_Fail \<Rightarrow> 2 | RL_Clear \<Rightarrow> 1)"

definition is_thread_step :: "reload_event \<Rightarrow> bool" where
  "is_thread_step e = (case e of Thread_Step m w \<Rightarrow> True | _ \<Rightarrow> False)"

definition thread_enabled :: "'p sig_reload \<Rightarrow> bool" where
  "thread_enabled s = (case sr_thread s of None \<Rightarrow> False | Some (RL_Swap a) \<Rightarrow> sr_readers s = [] | Some l \<Rightarrow> True)"

text \<open>An execution without end, and the fairness of the scheduler: a thread that can go on again and again does so at some time.\<close>

definition execution :: "'p pcre_match \<Rightarrow> 'p pcre_compile \<Rightarrow> (nat \<Rightarrow> reload_event) \<Rightarrow> (nat \<Rightarrow> 'p sig_reload) \<Rightarrow> bool" where
  "execution pm pc ev st \<longleftrightarrow> (\<forall>n. admissible (ev n) (st n) \<and> reload_exec pm pc (ev n) (st n) = Next (st (Suc n)))"

definition fair :: "(nat \<Rightarrow> reload_event) \<Rightarrow> (nat \<Rightarrow> 'p sig_reload) \<Rightarrow> bool" where
  "fair ev st \<longleftrightarrow> (\<forall>n. (\<forall>k \<ge> n. \<exists>m \<ge> k. thread_enabled (st m)) \<longrightarrow> (\<exists>m \<ge> n. is_thread_step (ev m)))"

lemmas event_simps = is_thread_step_def reload_exec_def then_state_def sig_reload_handle_signal_def sig_reload_trigger_def
  spawn_reload_locked_def sig_reload_apply_scope_def sigusr1_handler_def under_lock_def with_ruleset_def put_ruleset_def goto_def

lemma thread_step_rank:
  assumes "reload_exec pm pc e s = Next s'" "is_thread_step e" "sr_thread s = Some l"
  shows "sr_thread s' = None \<or> (\<exists>l'. sr_thread s' = Some l' \<and> rank l' < rank l)"
  using assms by (cases l) (auto simp: is_thread_step_def reload_exec_def thread_simps rank_def split: reload_event.splits option.splits if_splits)

lemma other_step_thread:
  assumes "reload_exec pm pc e s = Next s'" "\<not> is_thread_step e" "sr_thread s = Some l"
  shows "sr_thread s' = Some l"
  using assms by (cases e) (auto simp: event_simps split: option.splits if_splits run_result.splits list.splits prod.splits)

lemma rank_falls:
  assumes ex: "execution pm pc ev st" and f: "fair ev st" and leave: "\<forall>n. \<exists>m \<ge> n. sr_readers (st m) = []"
    and l: "sr_thread (st n) = Some l"
  shows "\<exists>m \<ge> n. sr_thread (st m) = None \<or> (\<exists>l'. sr_thread (st m) = Some l' \<and> rank l' < rank l)"
proof (rule ccontr)
  assume c: "\<not> ?thesis"
  have keep: "sr_thread (st (n + d)) = Some l" for d
  proof (induction d)
    case (Suc d)
    have e: "reload_exec pm pc (ev (n + d)) (st (n + d)) = Next (st (n + Suc d))" using ex by (simp add: execution_def)
    have "n \<le> n + Suc d" by simp
    with c have "\<not> (sr_thread (st (n + Suc d)) = None \<or> (\<exists>l'. sr_thread (st (n + Suc d)) = Some l' \<and> rank l' < rank l))" by blast
    then show ?case
      using thread_step_rank [OF e] other_step_thread [OF e] Suc by (cases "is_thread_step (ev (n + d))") auto
  qed (simp add: l)
  have "\<exists>m \<ge> k. thread_enabled (st m)" if "k \<ge> n" for k
  proof -
    obtain m where m: "m \<ge> k" "sr_readers (st m) = []" using leave by blast
    have "sr_thread (st m) = Some l" using keep [of "m - n"] m(1) that by simp
    with m show ?thesis by (auto simp: thread_enabled_def split: reload_pc.split)
  qed
  then obtain m where m: "m \<ge> n" "is_thread_step (ev m)" using f by (auto simp: fair_def)
  have "reload_exec pm pc (ev m) (st m) = Next (st (Suc m))" using ex by (simp add: execution_def)
  from thread_step_rank [OF this m(2)] keep [of "m - n"] m(1) c show False by (auto dest: le_SucI)
qed

lemma reload_ends:
  assumes "execution pm pc ev st" "fair ev st" "\<forall>n. \<exists>m \<ge> n. sr_readers (st m) = []"
  shows "sr_thread (st n) = Some l \<Longrightarrow> \<exists>m \<ge> n. sr_thread (st m) = None"
proof (induction "rank l" arbitrary: n l rule: less_induct)
  case less
  then obtain m where m: "m \<ge> n" "sr_thread (st m) = None \<or> (\<exists>l'. sr_thread (st m) = Some l' \<and> rank l' < rank l)"
    using rank_falls [OF assms] by blast
  then show ?case using less(1) [of _ m] by (meson order_trans)
qed

section \<open>What a reload leads to\<close>

text \<open>The selection maps are applied to the rules as they were loaded, so applying them again replaces the selection.\<close>

definition reset_rules :: "'p sig_ruleset \<Rightarrow> 'p sig_ruleset" where
  "reset_rules rs = rs\<lparr>rs_rules := map reset_rule (rs_rules rs)\<rparr>"

lemma reset_twice [simp]: "reset_rule (reset_rule r) = reset_rule r" "reset_rule (select_rule q a r) = reset_rule r"
  by (simp_all add: reset_rule_def select_rule_def)

lemma reset_line: "reset_rules (sel_line x rs) = reset_rules rs"
proof -
  have "reset_rules (map_line q rs l) = reset_rules rs" for q l
    by (cases "rs_by_sid (map r_sid (rs_rules rs)) (rs_sid_index rs) (fst l)") (simp_all add: map_line_def reset_rules_def map_update_same)
  then show ?thesis by (simp add: sel_line_def split: prod.split)
qed

lemma maps_again [simp]:
  "snd (sig_load_profile_maps (snd (sig_load_profile_maps rs d)) d') = snd (sig_load_profile_maps rs d')"
proof -
  have "reset_rules (fold sel_line xs rs') = reset_rules rs'" for xs and rs' :: "'a sig_ruleset"
    by (induction xs arbitrary: rs') (simp_all add: reset_line)
  then have r: "reset_rules (snd (sig_load_profile_maps rs d)) = reset_rules rs"
    by (simp add: sig_load_profile_maps_def Let_def fold_dirents split: option.split) (simp add: reset_rules_def)
  have m: "snd (sig_load_profile_maps x y) = snd (case y of None \<Rightarrow> (-1 :: int, reset_rules x) | Some es \<Rightarrow> (0, fold map_dirent es (reset_rules x)))"
    for x :: "'a sig_ruleset" and y by (cases y) (simp_all add: sig_load_profile_maps_def reset_rules_def Let_def)
  show ?thesis by (subst (1 3) m) (cases d'; simp add: r)
qed

definition mapped :: "'p sig_ruleset \<Rightarrow> 'p sig_ruleset option \<Rightarrow> bool" where
  "mapped rs x \<longleftrightarrow> (\<exists>d. x = Some (snd (sig_load_profile_maps rs d)))"

lemma mapped_maps [simp]: "mapped rs (Some (snd (sig_load_profile_maps rs d)))"
  by (auto simp: mapped_def)

text \<open>The states a reload goes through after the file has been read, when it can be used and when it cannot.\<close>

definition installing :: "nat \<Rightarrow> 'p sig_ruleset \<Rightarrow> u64 \<Rightarrow> 'p sig_reload \<Rightarrow> bool" where
  "installing a rs c s = (case sr_thread s of
      Some (RL_Build b) \<Rightarrow> b = a \<and> (\<exists>rs0. sr_heap s a = Some rs0 \<and> sig_build rs0 = Some rs) \<and> sr_reload_count s = c
    | Some (RL_Maps b) \<Rightarrow> b = a \<and> sr_heap s a = Some rs \<and> sr_reload_count s = c
    | Some (RL_Swap b) \<Rightarrow> b = a \<and> mapped rs (sr_heap s a) \<and> sr_reload_count s = c
    | Some (RL_Free p) \<Rightarrow> sr_active s = Some a \<and> mapped rs (sr_heap s a) \<and> sr_reload_count s = c
    | Some RL_Count \<Rightarrow> sr_active s = Some a \<and> mapped rs (sr_heap s a) \<and> sr_reload_count s = c
    | Some RL_Idle \<Rightarrow> sr_active s = Some a \<and> mapped rs (sr_heap s a) \<and> sr_reload_count s = c + 1 \<and> sr_last_result s = 0
    | None \<Rightarrow> sr_active s = Some a \<and> mapped rs (sr_heap s a) \<and> sr_reload_count s = c + 1 \<and> sr_last_result s = 0
    | _ \<Rightarrow> False)"

definition failing :: "nat option \<Rightarrow> u64 \<Rightarrow> 'p sig_reload \<Rightarrow> bool" where
  "failing act c s = (case sr_thread s of
      Some RL_Fail \<Rightarrow> sr_active s = act \<and> sr_reload_errors s = c
    | Some RL_Clear \<Rightarrow> sr_active s = act \<and> sr_reload_errors s = c + 1 \<and> sr_last_result s = -1
    | None \<Rightarrow> sr_active s = act \<and> sr_reload_errors s = c + 1 \<and> sr_last_result s = -1
    | _ \<Rightarrow> False)"

lemma other_step_fields:
  assumes "reload_exec pm pc e s = Next s'" "\<not> is_thread_step e"
  shows "sr_active s' = sr_active s \<and> sr_reload_count s' = sr_reload_count s \<and> sr_reload_errors s' = sr_reload_errors s \<and>
    sr_last_result s' = sr_last_result s"
  using assms by (cases e) (auto simp: event_simps split: option.splits if_splits run_result.splits list.splits prod.splits)

lemma other_step_heap:
  assumes "reload_exec pm pc e s = Next s'" "\<not> is_thread_step e"
  shows "sr_heap s' b = sr_heap s b \<or>
    sr_active s = Some b \<and> (\<exists>r d. sr_heap s b = Some r \<and> sr_heap s' b = Some (snd (sig_load_profile_maps r d)))"
proof (cases "e = Apply_Scope")
  case True
  then obtain a r where a: "sr_active s = Some a" "sr_heap s a = Some r"
    "s' = put_ruleset a (snd (sig_load_profile_maps r (sr_dirs s (sr_prof_dir s)))) s"
    using assms by (auto simp: event_simps split: option.splits if_splits prod.splits run_result.splits)
  then show ?thesis by (auto simp: put_ruleset_def)
next
  case False
  then have "sr_heap s' = sr_heap s"
    using assms by (cases e) (auto simp: event_simps split: option.splits if_splits run_result.splits list.splits)
  then show ?thesis by simp
qed

lemma other_step_mapped:
  assumes "reload_exec pm pc e s = Next s'" "\<not> is_thread_step e" "mapped rs (sr_heap s a)"
  shows "mapped rs (sr_heap s' a)"
  using other_step_heap [OF assms(1,2), of a] assms(3) by (auto simp: mapped_def)

lemma installing_thread:
  assumes "reload_inv s" "installing a rs c s" "sr_thread s = Some l" "is_thread_step e" "reload_exec pm pc e s = Next s'"
  shows "installing a rs c s'"
proof -
  have "l \<noteq> RL_Free (Some a)" using assms(1-3) by (auto simp: reload_inv_def installing_def owned_def)
  with assms(2-5) show ?thesis
    by (cases l) (auto simp: is_thread_step_def reload_exec_def installing_def thread_simps
        split: reload_event.splits option.splits if_splits)
qed

lemma installing_step:
  assumes inv: "reload_inv s" and i: "installing a rs c s" and l: "sr_thread s \<noteq> None" and e: "reload_exec pm pc e s = Next s'"
  shows "installing a rs c s'"
proof -
  obtain l where l: "sr_thread s = Some l" using l by auto
  show ?thesis
  proof (cases "is_thread_step e")
    case True
    then show ?thesis using installing_thread [OF inv i l _ e] by blast
  next
    case False
    note f = other_step_fields [OF e False] other_step_thread [OF e False l]
    have "sr_heap s' a = sr_heap s a" if "l = RL_Build a \<or> l = RL_Maps a"
      using other_step_heap [OF e False, of a] inv l that by (auto simp: reload_inv_def owned_def)
    then show ?thesis
      using i l f other_step_mapped [OF e False, of rs a] by (cases l) (auto simp: installing_def)
  qed
qed

lemma failing_step:
  assumes i: "failing act c s" and l: "sr_thread s \<noteq> None" and e: "reload_exec pm pc e s = Next s'"
  shows "failing act c s'"
proof (cases "is_thread_step e")
  case True
  then show ?thesis
    using i l e by (auto simp: is_thread_step_def reload_exec_def failing_def thread_simps split: reload_event.splits option.splits reload_pc.splits if_splits)
next
  case False
  then show ?thesis
    using i l other_step_fields [OF e] other_step_thread [OF e] by (auto simp: failing_def split: option.splits reload_pc.splits)
qed

lemma read_step:
  assumes inv: "reload_inv s" and l: "sr_thread s = Some (RL_Load a path)" and e: "is_thread_step e" "reload_exec pm pc e s = Next s'"
  shows "case compile_rules pc (sr_files s path) of
      None \<Rightarrow> failing (sr_active s) (sr_reload_errors s) s'
    | Some rs \<Rightarrow> installing a rs (sr_reload_count s) s'"
proof -
  have h: "sr_heap s a = Some sig_ruleset_init" using inv l by (simp add: reload_inv_def stage_ok_def)
  obtain w where "s' = load_step pc w a path sig_ruleset_init s"
    using e l h by (auto simp: is_thread_step_def reload_exec_def reload_thread_fn_def with_ruleset_def split: reload_event.splits)
  then show ?thesis
    using loaded_wf [of pc "sr_files s path"] build_ready
    by (fastforce simp: load_step_def compile_rules_def reload_defs failing_def installing_def split: option.splits)
qed

lemma execution_inv: "execution pm pc ev st \<Longrightarrow> reload_inv (st 0) \<Longrightarrow> reload_inv (st n)"
  by (induction n) (auto simp: execution_def intro: exec_inv)

lemma along_reload:
  assumes ex: "execution pm pc ev st" and P: "\<And>s e s'. reload_inv s \<Longrightarrow> P s \<Longrightarrow> sr_thread s \<noteq> None \<Longrightarrow> reload_exec pm pc e s = Next s' \<Longrightarrow> P s'"
    and inv: "reload_inv (st 0)" and "P (st n)" and "\<forall>k. n \<le> k \<and> k < n + d \<longrightarrow> sr_thread (st k) \<noteq> None"
  shows "P (st (n + d))"
  using assms(4,5)
proof (induction d)
  case (Suc d)
  have "reload_exec pm pc (ev (n + d)) (st (n + d)) = Next (st (n + Suc d))" using ex by (simp add: execution_def)
  from P [OF execution_inv [OF ex inv] _ _ this] Suc show ?case by simp
qed simp

text \<open>
  C9. A reload takes effect. In every execution without end in which the scheduler is fair to the reload thread and the read lock is free from time to time, a
  reload that has come to the point where it reads the rules file ends: if the file holds at least one rule that can be loaded, then the ruleset compiled from it is
  the active one, under some selection by the profiles, and the reload is counted; if not, the active ruleset is the one that was active, and the error is counted and
  reported. Packets, signals, requests and changes of files go on meanwhile.
\<close>

theorem reload_takes_effect:
  assumes ex: "execution pm pc ev st" and f: "fair ev st" and leave: "\<forall>n. \<exists>m \<ge> n. sr_readers (st m) = []"
    and reach: "reload_reachable pm pc (st 0)" and l: "sr_thread (st n) = Some (RL_Load a path)" and e: "is_thread_step (ev n)"
  shows "\<exists>m > n. sr_thread (st m) = None \<and> (case compile_rules pc (sr_files (st n) path) of
      None \<Rightarrow> sr_active (st m) = sr_active (st n) \<and> sr_reload_errors (st m) = sr_reload_errors (st n) + 1 \<and> sr_last_result (st m) = -1
    | Some rs \<Rightarrow> sr_active (st m) = Some a \<and> (\<exists>d. sr_heap (st m) a = Some (snd (sig_load_profile_maps rs d))) \<and>
        sr_reload_count (st m) = sr_reload_count (st n) + 1 \<and> sr_last_result (st m) = 0)"
proof -
  have inv: "reload_inv (st 0)" using reach by (rule reachable_inv)
  have n: "reload_exec pm pc (ev n) (st n) = Next (st (Suc n))" using ex by (simp add: execution_def)
  note r = read_step [OF execution_inv [OF ex inv] l e n]
  have "\<exists>m \<ge> Suc n. sr_thread (st m) = None"
    using reload_ends [OF ex f leave, of "Suc n"] by (cases "sr_thread (st (Suc n))") auto
  then have "\<exists>d. sr_thread (st (Suc n + d)) = None" by (metis le_Suc_ex)
  then obtain d where d: "sr_thread (st (Suc n + d)) = None" "\<forall>k < d. sr_thread (st (Suc n + k)) \<noteq> None"
    using exists_least_iff [of "\<lambda>d. sr_thread (st (Suc n + d)) = None"] by blast
  have b: "\<forall>k. Suc n \<le> k \<and> k < Suc n + d \<longrightarrow> sr_thread (st k) \<noteq> None" using d(2) by (metis add_less_cancel_left le_Suc_ex)
  note a = along_reload [OF ex _ inv _ b]
  show ?thesis
  proof (cases "compile_rules pc (sr_files (st n) path)")
    case None
    from a [of "failing (sr_active (st n)) (sr_reload_errors (st n))"] r None
    have "failing (sr_active (st n)) (sr_reload_errors (st n)) (st (Suc n + d))" using failing_step by (metis option.simps(4))
    with d(1) None show ?thesis by (intro exI [of _ "Suc n + d"]) (simp add: failing_def)
  next
    case (Some rs)
    from a [of "installing a rs (sr_reload_count (st n))"] r Some
    have "installing a rs (sr_reload_count (st n)) (st (Suc n + d))" using installing_step by (metis option.simps(5))
    with d(1) Some show ?thesis by (intro exI [of _ "Suc n + d"]) (simp add: installing_def mapped_def)
  qed
qed

section \<open>An execution\<close>

text \<open>With memory, a pipe and locks, the initialisation succeeds whatever the file holds.\<close>

lemma init_total: "\<exists>s. sig_reload_init pc files dirs (Some a) junk True True writable path = (0, s)"
proof -
  have "rules_wf (sig_ruleset_init :: 'a sig_ruleset)" by (simp add: rules_wf_def sig_ruleset_init_def)
  from build_ready [OF this] show ?thesis by (auto simp: sig_reload_init_def Let_def split: option.split)
qed

text \<open>The daemon starts with a file of one rule, gets a signal, and reloads the file.\<close>

definition example_start :: "unit sig_reload" where
  "example_start = snd (sig_reload_init (\<lambda>_ _. None) (\<lambda>_. Some demo_line) (\<lambda>_. None) (Some 0) stats_zero True True True ''ips/rules/active.rules'')"

definition example_event :: "nat \<Rightarrow> reload_event" where
  "example_event n = (if n = 0 then Handle_Signal True else if n = 1 then Thread_Step (Some 1) True
     else if n < 10 then Thread_Step None True else Handle_Signal False)"

fun example_state :: "nat \<Rightarrow> unit sig_reload" where
  "example_state 0 = example_start"
| "example_state (Suc n) = (case reload_exec (\<lambda>_ _ _. False) (\<lambda>_ _. None) (example_event n) (example_state n) of
      Next s \<Rightarrow> s | _ \<Rightarrow> example_state n)"

lemma example_compiled:
  "\<exists>rs1 st n rs. sig_load_file (\<lambda>_ _. None :: unit option) sig_ruleset_init (Some demo_line) = Some (rs1, st, n) \<and> st_loaded st \<noteq> 0 \<and>
     sig_build rs1 = Some rs"
proof -
  obtain rs1 st where l: "sig_load_file (\<lambda>_ _. None :: unit option) sig_ruleset_init (Some demo_line) = Some (rs1, st, 1)"
    using demo_file_loaded by blast
  have "load_inv [] (sig_ruleset_init :: unit sig_ruleset, stats_zero, 0)"
    using ruleset_init_loaded by (simp add: load_inv_def stats_zero_def sig_ruleset_init_def)
  from load_loop_inv [OF this, of "\<lambda>_ _. None" demo_line "[]"] l have "st_loaded st \<noteq> 0" by (auto simp: sig_load_file_def load_inv_def)
  with l show ?thesis using loaded_wf [OF l] build_ready by blast
qed

lemma reload_example_reachable: "reload_reachable pm (\<lambda>_ _. None) example_start"
proof -
  obtain s where "sig_reload_init (\<lambda>_ _. None) (\<lambda>_. Some demo_line) (\<lambda>_. None) (Some 0) stats_zero True True True ''ips/rules/active.rules'' = (0, s :: unit sig_reload)"
    using init_total by blast
  then show ?thesis unfolding example_start_def by (metis reload_reachable.started snd_conv)
qed

definition example_ok :: "nat \<Rightarrow> bool" where
  "example_ok n \<longleftrightarrow> admissible (example_event n) (example_state n) \<and>
     reload_exec (\<lambda>_ _ _. False) (\<lambda>_ _. None) (example_event n) (example_state n) = Next (example_state (Suc n))"

lemma example_step:
  assumes "example_state n = s" "reload_exec (\<lambda>_ _ _. False) (\<lambda>_ _. None) (example_event n) s = Next s'" "admissible (example_event n) s" "m = Suc n"
  shows "example_state m = s' \<and> example_ok n"
  using assms by (simp add: example_ok_def)

lemma less_10: "(n :: nat) < 10 \<longleftrightarrow> n = 0 \<or> n = 1 \<or> n = 2 \<or> n = 3 \<or> n = 4 \<or> n = 5 \<or> n = 6 \<or> n = 7 \<or> n = 8 \<or> n = 9"
  by auto

lemmas example_simps = example_event_def reload_exec_def then_state_def sig_reload_handle_signal_def spawn_reload_locked_def
  reload_thread_fn_def with_ruleset_def load_step_def build_step_def reload_defs admissible_def

lemma reload_example_run:
  "(\<forall>n < 10. example_ok n) \<and>
   sr_thread (example_state 3) = Some (RL_Load 1 ''ips/rules/active.rules'') \<and> sr_files (example_state 3) = (\<lambda>_. Some demo_line) \<and>
   sr_reload_count (example_state 3) = 0 \<and>
   sr_thread (example_state 10) = None \<and> sr_readers (example_state 10) = [] \<and> sr_pipe (example_state 10) = 0 \<and> sr_locks (example_state 10)"
proof -
  obtain rs1 st k rs where l: "sig_load_file (\<lambda>_ _. None :: unit option) sig_ruleset_init (Some demo_line) = Some (rs1, st, k)" "0 < st_loaded st"
    "sig_build rs1 = Some rs" using example_compiled by auto
  have "\<exists>r x. example_start = \<lparr>sr_active = Some 0, sr_heap = [0 \<mapsto> r], sr_locks = True, sr_readers = [], sr_thread = None, sr_pipe = 0,
      sr_rules_path = ''ips/rules/active.rules'', sr_prof_dir = prof_dir_of ''ips/rules/active.rules'', sr_last_result = 0, sr_reload_count = 0,
      sr_reload_errors = 0, sr_global = True, sr_files = (\<lambda>_. Some demo_line), sr_dirs = (\<lambda>_. None), sr_stats = x\<rparr>"
    using l by (auto simp: example_start_def sig_reload_init_def compile_rules_def zero_reload_def reload_defs Let_def)
  then obtain r x where s0: "example_state 0 = \<lparr>sr_active = Some 0, sr_heap = [0 \<mapsto> r], sr_locks = True, sr_readers = [], sr_thread = None, sr_pipe = 0,
      sr_rules_path = ''ips/rules/active.rules'', sr_prof_dir = prof_dir_of ''ips/rules/active.rules'', sr_last_result = 0, sr_reload_count = 0,
      sr_reload_errors = 0, sr_global = True, sr_files = (\<lambda>_. Some demo_line), sr_dirs = (\<lambda>_. None), sr_stats = x\<rparr>" by auto
  let ?s = "\<lambda>act h t c x. \<lparr>sr_active = act, sr_heap = h, sr_locks = True, sr_readers = [], sr_thread = t, sr_pipe = 0,
      sr_rules_path = ''ips/rules/active.rules'', sr_prof_dir = prof_dir_of ''ips/rules/active.rules'', sr_last_result = 0, sr_reload_count = c,
      sr_reload_errors = 0, sr_global = True, sr_files = (\<lambda>_. Some demo_line), sr_dirs = (\<lambda>_. None), sr_stats = x\<rparr>"
  let ?m = "snd (sig_load_profile_maps rs None)"
  have s1: "example_state 1 = ?s (Some 0) [0 \<mapsto> r] (Some RL_Alloc) 0 x \<and> example_ok 0"
    by (rule example_step [OF s0]) (simp_all add: example_simps)
  have s2: "example_state 2 = ?s (Some 0) [0 \<mapsto> r, 1 \<mapsto> sig_ruleset_init] (Some (RL_Path 1)) 0 x \<and> example_ok 1"
    by (rule example_step [OF s1 [THEN conjunct1]]) (simp_all add: example_simps)
  have s3: "example_state 3 = ?s (Some 0) [0 \<mapsto> r, 1 \<mapsto> sig_ruleset_init] (Some (RL_Load 1 ''ips/rules/active.rules'')) 0 x \<and> example_ok 2"
    by (rule example_step [OF s2 [THEN conjunct1]]) (simp_all add: example_simps)
  have s4: "example_state 4 = ?s (Some 0) [0 \<mapsto> r, 1 \<mapsto> rs1] (Some (RL_Build 1)) 0 (Some st) \<and> example_ok 3"
    by (rule example_step [OF s3 [THEN conjunct1]]) (use l in \<open>simp_all add: example_simps\<close>)
  have s5: "example_state 5 = ?s (Some 0) [0 \<mapsto> r, 1 \<mapsto> rs] (Some (RL_Maps 1)) 0 (Some st) \<and> example_ok 4"
    by (rule example_step [OF s4 [THEN conjunct1]]) (use l in \<open>simp_all add: example_simps\<close>)
  have s6: "example_state 6 = ?s (Some 0) [0 \<mapsto> r, 1 \<mapsto> ?m] (Some (RL_Swap 1)) 0 (Some st) \<and> example_ok 5"
    by (rule example_step [OF s5 [THEN conjunct1]]) (simp_all add: example_simps)
  have s7: "example_state 7 = ?s (Some 1) [0 \<mapsto> r, 1 \<mapsto> ?m] (Some (RL_Free (Some 0))) 0 (Some st) \<and> example_ok 6"
    by (rule example_step [OF s6 [THEN conjunct1]]) (simp_all add: example_simps)
  have s8: "example_state 8 = ?s (Some 1) ([0 \<mapsto> r, 1 \<mapsto> ?m](0 := None)) (Some RL_Count) 0 (Some st) \<and> example_ok 7"
    by (rule example_step [OF s7 [THEN conjunct1]]) (simp_all add: example_simps)
  have s9: "example_state 9 = ?s (Some 1) ([0 \<mapsto> r, 1 \<mapsto> ?m](0 := None)) (Some RL_Idle) 1 (Some st) \<and> example_ok 8"
    by (rule example_step [OF s8 [THEN conjunct1]]) (simp_all add: example_simps)
  have s10: "example_state 10 = ?s (Some 1) ([0 \<mapsto> r, 1 \<mapsto> ?m](0 := None)) None 1 (Some st) \<and> example_ok 9"
    by (rule example_step [OF s9 [THEN conjunct1]]) (simp_all add: example_simps)
  show ?thesis using s1 s2 s3 s4 s5 s6 s7 s8 s9 s10 by (auto simp: less_10)
qed

lemma example_stay:
  assumes "m \<ge> 10"
  shows "reload_exec (\<lambda>_ _ _. False) (\<lambda>_ _. None) (example_event m) (example_state 10) = Next (example_state 10)"
  using reload_example_run assms by (simp add: example_simps)

lemma example_rest: "example_state (10 + d) = example_state 10"
  by (induction d) (simp_all only: add_Suc_right add_0_right example_state.simps example_stay le_add1 run_result.case)

lemma example_execution:
  "execution (\<lambda>_ _ _. False) (\<lambda>_ _. None) example_event example_state" "fair example_event example_state"
  "\<forall>n. \<exists>m \<ge> n. sr_readers (example_state m) = []"
proof -
  have late: "example_state m = example_state 10" if "m \<ge> 10" for m using example_rest [of "m - 10"] that by simp
  have "example_ok n" for n
  proof (cases "n < 10")
    case False
    then show ?thesis
      using late [of n] late [of "Suc n"] example_stay [of n] by (simp add: example_ok_def admissible_def example_event_def del: example_state.simps)
  qed (use reload_example_run in simp)
  then show "execution (\<lambda>_ _ _. False) (\<lambda>_ _. None) example_event example_state" by (simp add: execution_def example_ok_def)
  show "\<forall>n. \<exists>m \<ge> n. sr_readers (example_state m) = []"
    using reload_example_run late by (metis le_add1 le_add2)
  show "fair example_event example_state"
    unfolding fair_def
  proof (intro allI impI)
    fix n assume "\<forall>k \<ge> n. \<exists>m \<ge> k. thread_enabled (example_state m)"
    moreover have "\<not> thread_enabled (example_state m)" if "m \<ge> 10" for m using late [OF that] reload_example_run by (simp add: thread_enabled_def)
    ultimately have "\<not> n \<ge> 10" by (meson order_refl order_trans)
    then have "n \<le> 9" by simp
    then show "\<exists>m \<ge> n. is_thread_step (example_event m)" by (intro exI [of _ 9]) (simp add: example_event_def is_thread_step_def)
  qed
qed

theorem reload_always_ready_witness:
  "reload_exec (\<lambda>_ _ _. False) (\<lambda>_ _. None) Reader_Lock example_start \<noteq> Fault \<and>
   (\<exists>a rs. sr_active example_start = Some a \<and> sr_heap example_start a = Some rs \<and> ready rs)"
  using reload_always_ready [OF reload_example_reachable, of Reader_Lock "\<lambda>_ _ _. False"] by (auto simp: admissible_def)

theorem reload_takes_effect_witness:
  "\<exists>m > 3. sr_thread (example_state m) = None \<and> sr_active (example_state m) = Some 1 \<and> sr_reload_count (example_state m) = 1 \<and> sr_last_result (example_state m) = 0"
proof -
  have c: "\<exists>rs. compile_rules (\<lambda>_ _. None :: unit option) (Some demo_line) = Some rs"
    using example_compiled by (auto simp: compile_rules_def)
  have "reload_reachable (\<lambda>_ _ _. False) (\<lambda>_ _. None) (example_state 0)" using reload_example_reachable by simp
  moreover have "is_thread_step (example_event 3)" by (simp add: example_event_def is_thread_step_def)
  ultimately show ?thesis
    using reload_takes_effect [OF example_execution, of 3 1 "''ips/rules/active.rules''"] reload_example_run c by auto
qed

text \<open>A result other than -1 of the wait is that of a moment at which no reload was running.\<close>

lemma wait_reports: "wait_loop seen i n = r \<Longrightarrow> r \<noteq> -1 \<Longrightarrow> \<exists>j. i \<le> j \<and> j < i + n \<and> sr_thread (seen j) = None \<and> sr_last_result (seen j) = r"
proof (induction n arbitrary: i)
  case (Suc n)
  show ?case
  proof (cases "sr_thread (seen i) = None")
    case False
    with Suc show ?thesis by (fastforce dest: Suc_leD)
  qed (use Suc in auto)
qed simp

section \<open>What can go wrong\<close>

text \<open>
  A request is lost when a reload is running: the pipe is drained and no reload is started, so rules written after the thread has read its
  file are not loaded, and nothing is left that would load them.
\<close>

lemma request_lost:
  assumes "reload_inv s" "sr_thread s = Some (RL_Build a)" "sr_global s"
  shows "\<exists>s'. then_state (sig_reload_handle_signal created (sigusr1_handler (s\<lparr>sr_files := (sr_files s)(path := content)\<rparr>))) = Next s' \<and>
    sr_pipe s' = 0 \<and> sr_thread s' = Some (RL_Build a) \<and> sr_heap s' = sr_heap s"
  using assms by (auto simp: reload_inv_def then_state_def sig_reload_handle_signal_def sigusr1_handler_def under_lock_def spawn_reload_locked_def)

text \<open>
  A change of the selection is lost when it is applied while the new ruleset waits for the lock: the maps are applied to the old ruleset, and the
  swap installs the new one with the maps as they were.
\<close>

lemma scope_change_lost:
  assumes "reload_inv s" "sr_thread s = Some (RL_Swap b)" "sr_readers s = []" "sig_reload_apply_scope s = Next (rc, s')"
  shows "\<exists>t. reload_thread_fn pc mem writable (RL_Swap b) s' = Next t \<and> sr_active t = Some b \<and> sr_heap t b = sr_heap s b"
proof -
  obtain a where a: "sr_active s = Some a" "a \<noteq> b" "sr_locks s" using assms(1,2) by (auto simp: reload_inv_def owned_def)
  then obtain r where "s' = put_ruleset a r s"
    using assms(4) by (auto simp: sig_reload_apply_scope_def under_lock_def with_ruleset_def split: if_splits option.splits prod.splits)
  then show ?thesis using a assms(3) by (auto simp: reload_thread_fn_def under_lock_def put_ruleset_def goto_def)
qed

text \<open>A thread that cannot allocate its ruleset leaves the result and the counters of the reload before.\<close>

lemma alloc_failure_unreported:
  assumes "reload_thread_fn pc None writable RL_Alloc s = Next s1" "sr_locks s"
  shows "\<exists>t. reload_thread_fn pc mem writable' RL_Clear s1 = Next t \<and> sr_thread t = None \<and> sr_last_result t = sr_last_result s \<and>
    sr_reload_errors t = sr_reload_errors s"
  using assms by (auto simp: reload_thread_fn_def goto_def under_lock_def)

text \<open>Releasing the structure while the thread still runs, after the wait has timed out, destroys the locks under it.\<close>

lemma freed_under_thread:
  assumes "reload_inv s" "sr_thread s = Some (RL_Swap b)" "sig_reload_free s = Next s'"
  shows "reload_thread_fn pc mem writable (RL_Swap b) s' = Fault"
  using assms by (auto simp: sig_reload_free_def with_ruleset_def Let_def reload_thread_fn_def under_lock_def split: option.splits)

end
