(* ===== verification/Tls_Policy.thy ===== *)
theory Tls_Policy
  imports Tls_ClientHello C_String
begin

text \<open>
  The splice/bump decision of the TLS proxy (\<open>src/src/userspace/ipsd/tls_policy.c\<close>): the bypass list with
  exact and \<open>*.\<close> wildcard patterns, and the decision from the server name of a ClientHello. C strings
  are character lists; a missing string (\<open>NULL\<close>) is \<open>None\<close>.
\<close>

section \<open>The list\<close>

datatype tls_action = TLS_BUMP | TLS_SPLICE
datatype tls_no_sni_policy = TLS_NO_SNI_BUMP | TLS_NO_SNI_SPLICE

record tls_policy =
  pol_patterns :: "string list"
  pol_default_bump :: bool
  pol_no_sni :: tls_no_sni_policy

fun ci_eq :: "string \<Rightarrow> string \<Rightarrow> bool" where
  "ci_eq (a # as) (b # bs) = (if to_lower a \<noteq> to_lower b then False else ci_eq as bs)"
| "ci_eq as bs = (as = [] \<and> bs = [])"

definition ci_dotsuffix :: "string \<Rightarrow> string \<Rightarrow> bool" where
  "ci_dotsuffix host sfx =
     (let hl = length host; sl = length sfx in
      if hl \<le> sl + 1 then False
      else if host ! (hl - sl - 1) \<noteq> CHR ''.'' then False
      else ci_eq (drop (hl - sl) host) sfx)"

text \<open>\<open>normalize\<close> with a buffer of \<open>cap\<close> bytes.\<close>

definition normalize :: "nat \<Rightarrow> string option \<Rightarrow> string option" where
  "normalize cap inp =
     (case inp of
        None \<Rightarrow> None
      | Some s0 \<Rightarrow>
          (let s = takeWhile (\<lambda>c. \<not> is_blank c) (dropWhile is_blank s0) in
           if length s + 1 > cap then None
           else
             let buf = rev (dropWhile (\<lambda>c. c = CHR ''.'') (rev (map to_lower s))) in
             if buf = [] then None
             else if buf = ''*'' \<or> buf = ''*.'' then None
             else Some buf))"

definition tls_policy_init :: tls_policy where
  "tls_policy_init = \<lparr>pol_patterns = [], pol_default_bump = True, pol_no_sni = TLS_NO_SNI_BUMP\<rparr>"

definition tls_policy_add_bypass :: "tls_policy \<Rightarrow> string option \<Rightarrow> int \<times> tls_policy" where
  "tls_policy_add_bypass p pattern =
     (case normalize 300 pattern of
        None \<Rightarrow> (-1, p)
      | Some norm \<Rightarrow> (0, p\<lparr>pol_patterns := pol_patterns p @ [norm]\<rparr>))"

definition pattern_matches :: "string \<Rightarrow> string \<Rightarrow> bool" where
  "pattern_matches sni pat =
     (if take 2 pat = ''*.'' then ci_dotsuffix sni (drop 2 pat) else ci_eq sni pat)"

definition tls_policy_is_bypassed :: "tls_policy option \<Rightarrow> string option \<Rightarrow> bool" where
  "tls_policy_is_bypassed p sni =
     (case (p, sni) of
        (Some pol, Some s) \<Rightarrow> if s = [] then False else list_ex (pattern_matches s) (pol_patterns pol)
      | _ \<Rightarrow> False)"

definition tls_policy_decide :: "tls_policy \<Rightarrow> string option \<Rightarrow> bool \<Rightarrow> tls_action" where
  "tls_policy_decide p sni has_sni =
     (if \<not> has_sni \<or> sni = None \<or> sni = Some []
      then (if pol_no_sni p = TLS_NO_SNI_SPLICE then TLS_SPLICE else TLS_BUMP)
      else if tls_policy_is_bypassed (Some p) sni then TLS_SPLICE
      else if pol_default_bump p then TLS_BUMP else TLS_SPLICE)"

definition tls_policy_free :: "tls_policy \<Rightarrow> tls_policy" where
  "tls_policy_free p = \<lparr>pol_patterns = [], pol_default_bump = False, pol_no_sni = TLS_NO_SNI_BUMP\<rparr>"

definition tls_action_str :: "tls_action \<Rightarrow> string" where
  "tls_action_str a = (if a = TLS_SPLICE then ''SPLICE'' else ''BUMP'')"

section \<open>What a pattern covers\<close>

abbreviation lower :: "string \<Rightarrow> string" where
  "lower s \<equiv> map to_lower s"

lemma to_lower_idem [simp]: "to_lower (to_lower c) = to_lower c"
proof (cases "is_upper c")
  case True
  then have "code (char_of (code c + 32)) = code c + 32" by (simp add: is_upper_def code_def)
  then show ?thesis using True by (simp add: to_lower_def is_upper_def)
qed (simp add: to_lower_def)

lemma ci_eq_iff: "ci_eq a b \<longleftrightarrow> lower a = lower b"
  by (induction a b rule: ci_eq.induct) auto

text \<open>A host under a domain: at least one character and a dot in front of it.\<close>

definition under :: "string \<Rightarrow> string \<Rightarrow> bool" where
  "under host domain \<longleftrightarrow> (\<exists>x d. host = x @ CHR ''.'' # d \<and> x \<noteq> [] \<and> lower d = lower domain)"

lemma ci_dotsuffix_iff: "ci_dotsuffix host sfx \<longleftrightarrow> under host sfx"
proof
  assume c: "ci_dotsuffix host sfx"
  define k where "k = length host - length sfx - 1"
  have k: "length sfx + 1 < length host" "host ! k = CHR ''.''" "lower (drop (Suc k) host) = lower sfx" "0 < k" "k < length host"
    using c by (auto simp: ci_dotsuffix_def Let_def ci_eq_iff k_def Suc_diff_Suc split: if_splits)
  have "host = take k host @ CHR ''.'' # drop (Suc k) host" using k(2,5) by (metis id_take_nth_drop)
  moreover have "take k host \<noteq> []" using k(4,5) by auto
  ultimately show "under host sfx" using k(3) unfolding under_def by blast
next
  assume "under host sfx"
  then obtain x d where h: "host = x @ CHR ''.'' # d" "x \<noteq> []" "lower d = lower sfx" by (auto simp: under_def)
  have l: "length d = length sfx" using h(3) by (metis length_map)
  then show "ci_dotsuffix host sfx"
    using h(2) by (cases x) (auto simp: ci_dotsuffix_def Let_def ci_eq_iff h(1,3) nth_append)
qed

text \<open>What a list covers, as a relation between names.\<close>

definition covers :: "string \<Rightarrow> string \<Rightarrow> bool" where
  "covers pat host \<longleftrightarrow> (if take 2 pat = ''*.'' then under host (drop 2 pat) else lower host = lower pat)"

lemma pattern_matches_iff: "pattern_matches host pat \<longleftrightarrow> covers pat host"
  by (simp add: pattern_matches_def covers_def ci_dotsuffix_iff ci_eq_iff)

text \<open>
  C38. The decision refines its specification: a flow is spliced past inspection exactly if it carries
  no usable server name and the policy says so, or its name is covered by a pattern (an exact name,
  or a proper subdomain of a wildcard, letter case ignored), or the policy does not inspect by
  default. In particular with the initial settings only covered names are ever spliced.
\<close>

theorem tls_policy_decide_spec:
  "tls_policy_decide p sni has_sni = TLS_SPLICE \<longleftrightarrow>
     (if has_sni \<and> (\<exists>s. sni = Some s \<and> s \<noteq> [])
      then (if pol_default_bump p then \<exists>pat \<in> set (pol_patterns p). covers pat (the sni) else True)
      else pol_no_sni p = TLS_NO_SNI_SPLICE)"
  by (auto simp: tls_policy_decide_def tls_policy_is_bypassed_def list_ex_iff pattern_matches_iff)

section \<open>From the wire to the decision\<close>

text \<open>The server name as the C code sees it: the bytes up to the first NUL.\<close>

definition sni_string :: "bytes \<Rightarrow> string" where
  "sni_string bs = map (\<lambda>b. char_of (unat b)) (c_str bs)"

text \<open>The decision on a parsed hello (\<open>has_sni\<close> and \<open>sni\<close> of \<open>ssld_handle_conn\<close>).\<close>

definition decide_hello :: "tls_policy \<Rightarrow> tls_ch_result \<Rightarrow> tls_clienthello \<Rightarrow> tls_action" where
  "decide_hello p res ch =
     (let has_sni = (res = TLS_CH_OK \<and> ch_has_sni ch);
          sni = (if has_sni then Some (sni_string (ch_sni ch)) else None)
      in tls_policy_decide p sni has_sni)"

lemma c_str_nul [simp]: "0 \<notin> set nm \<Longrightarrow> c_str (nm @ 0 # bs) = nm"
  by (induction nm) (auto simp: c_str_def)

lemma c_str_id [simp]: "0 \<notin> set nm \<Longrightarrow> c_str nm = nm"
  by (auto simp: c_str_def takeWhile_eq_all_conv)

text \<open>
  A NUL byte in the server name hides the rest of it from the policy: a ClientHello for
  \<open>nm \0 tail\<close> is decided as a ClientHello for \<open>nm\<close>. With \<open>nm\<close> on the bypass list the flow is
  relayed uninspected, although the name on the wire is another one.
\<close>

theorem sni_nul_truncates:
  assumes "list_all other_ext pre" "nm \<noteq> []" "0 \<notin> set nm" "length nm + 1 + length tail' < TLS_SNI_MAX" "small rver"
    and "hello_fields ver random sid cs cmpr (pre @ (0, sni_list (nm @ 0 # tail')) # post)"
    and "\<exists>pat \<in> set (pol_patterns p). covers pat (map (\<lambda>b. char_of (unat b)) nm)"
  shows "\<exists>rc ch. tls_parse_clienthello
      (Some (enc_hello rver (enc_body ver random sid cs cmpr (pre @ (0, sni_list (nm @ 0 # tail')) # post)))) = Some (rc, ch) \<and>
    ch_sni ch = nm @ 0 # tail' \<and> decide_hello p rc ch = TLS_SPLICE"
proof -
  have "length (nm @ 0 # tail') < TLS_SNI_MAX" "nm @ 0 # tail' \<noteq> []" using assms(4) by simp_all
  note e = tls_parse_enc [OF assms(1) this(2,1) assms(5,6), of "[]", simplified]
  show ?thesis
    using e assms(2,3,7)
    by (auto simp: decide_hello_def Let_def sni_string_def tls_policy_decide_def tls_policy_is_bypassed_def list_ex_iff
        pattern_matches_iff)
qed

definition nul_policy :: tls_policy where
  "nul_policy = snd (tls_policy_add_bypass tls_policy_init (Some ''B.c''))"

lemma char_of_demo: "char_of (98 :: nat) = CHR ''b''" "char_of (46 :: nat) = CHR ''.''" "char_of (99 :: nat) = CHR ''c''"
  by (simp_all add: char_of_def bit_0)

lemma nul_policy_patterns: "pol_patterns nul_policy = [''b.c'']"
  by (simp add: nul_policy_def tls_policy_add_bypass_def tls_policy_init_def normalize_def Let_def is_blank_def code_def
      to_lower_def is_upper_def char_of_demo)

theorem sni_nul_truncates_witness:
  "\<exists>rc ch. tls_parse_clienthello
      (Some (enc_hello 769 (enc_body 771 (replicate 32 7) [] [0, 1] [0] ([] @ (0, sni_list ([98, 46, 99] @ 0 # [120])) # [])))) = Some (rc, ch) \<and>
    ch_sni ch = [98, 46, 99] @ 0 # [120] \<and> decide_hello nul_policy rc ch = TLS_SPLICE"
  by (rule sni_nul_truncates)
    (simp_all add: TLS_SNI_MAX_def small_def hello_fields_def enc_body_def nul_policy_patterns covers_def to_lower_def
      is_upper_def code_def char_of_demo)

end
